(* ===== verification/Prelude.thy ===== *)
theory Prelude
  imports Main "HOL-Library.Monad_Syntax" "HOL-Library.Multiset"
begin

text \<open>
  Shared vocabulary of the development: C pointers and a typed heap in which a freed or
  never allocated address is absent, and the loads and stores that fail on a null or a
  dangling pointer; and what an update of one entry does to the counts and sums over a list, which the
  proofs about threads and tables share.
\<close>

named_theorems heap_simps \<open>evaluation of loads and stores\<close>

type_synonym addr = nat

text \<open>\<open>None\<close> is \<open>nullptr\<close>; \<open>Some a\<close> points at address \<open>a\<close>.\<close>
type_synonym ptr = "addr option"

type_synonym 'n heap = "addr \<rightharpoonup> 'n"

definition load :: "ptr \<Rightarrow> 'n heap \<Rightarrow> 'n option" where
  "load p m = Option.bind p m"

definition store :: "ptr \<Rightarrow> ('n \<Rightarrow> 'n) \<Rightarrow> 'n heap \<Rightarrow> 'n heap option" where
  "store p f m = do { a \<leftarrow> p; n \<leftarrow> m a; Some (m(a \<mapsto> f n)) }"

text \<open>\<open>delete p\<close>: deleting a null pointer does nothing, deleting a dangling one faults.\<close>
definition free :: "ptr \<Rightarrow> 'n heap \<Rightarrow> 'n heap option" where
  "free p m = (case p of None \<Rightarrow> Some m | Some a \<Rightarrow> (if m a = None then None else Some (m(a := None))))"

lemma load_None [heap_simps, simp]: "load None m = None"
  by (simp add: load_def)

lemma load_Some [heap_simps, simp]: "load (Some a) m = m a"
  by (simp add: load_def)

lemma store_None [heap_simps, simp]: "store None f m = None"
  by (simp add: store_def)

lemma store_Some [heap_simps, simp]: "m a = Some n \<Longrightarrow> store (Some a) f m = Some (m(a \<mapsto> f n))"
  by (simp add: store_def)

lemma free_Some [heap_simps, simp]: "m a = Some n \<Longrightarrow> free (Some a) m = Some (m(a := None))"
  by (simp add: free_def)

section \<open>Updating one entry of a list\<close>

lemma length_filter_update:
  assumes "k < length xs"
  shows "length (filter P (xs[k := y])) + (if P (xs ! k) then 1 else 0) = length (filter P xs) + (if P y then 1 else 0)"
proof -
  have "filter P xs = filter P (take k xs @ xs ! k # drop (Suc k) xs)" using assms by (simp add: id_take_nth_drop [symmetric])
  then show ?thesis using assms by (simp add: upd_conv_take_nth_drop)
qed

lemma ball_update: "\<forall>t\<in>set ts. P t \<Longrightarrow> P x \<Longrightarrow> \<forall>t\<in>set (ts[k := x]). P t"
  using set_update_subset_insert [of ts k x] by blast

lemma sum_list_map_update:
  fixes f :: "'a \<Rightarrow> nat"
  shows "k < length xs \<Longrightarrow> sum_list (map f (xs[k := x])) + f (xs ! k) = sum_list (map f xs) + f x"
  by (induction xs arbitrary: k) (auto split: nat.splits)

end
