(* ===== verification/Linked_Nodes.thy ===== *)
theory Linked_Nodes
  imports Prelude
begin

text \<open>
  Doubly linked lists in the heap. \<open>dll nx pv dt m q p xs r\<close> says that the chain that
  starts at \<open>p\<close> visits exactly the addresses of \<open>xs\<close>, that every node's \<open>prev\<close> field
  points back along it (\<open>q\<close> before the first node), that the last \<open>next\<close> is \<open>r\<close>, and
  that the payload \<open>dt\<close> of each node is the one listed.
\<close>

fun dll :: "('n \<Rightarrow> ptr) \<Rightarrow> ('n \<Rightarrow> ptr) \<Rightarrow> ('n \<Rightarrow> 'd) \<Rightarrow> 'n heap \<Rightarrow> ptr \<Rightarrow> ptr \<Rightarrow> (addr \<times> 'd) list \<Rightarrow> ptr \<Rightarrow> bool"
where
  "dll nx pv dt m q p [] r \<longleftrightarrow> p = r"
| "dll nx pv dt m q p (x # xs) r \<longleftrightarrow>
     p = Some (fst x) \<and>
     (\<exists>n. m (fst x) = Some n \<and> dt n = snd x \<and> pv n = q \<and> dll nx pv dt m (Some (fst x)) (nx n) xs r)"

definition lastp :: "ptr \<Rightarrow> (addr \<times> 'd) list \<Rightarrow> ptr" where
  "lastp q xs = (if xs = [] then q else Some (fst (last xs)))"

lemma lastp_simps [simp]: "lastp q [] = q" "lastp q (xs @ [x]) = Some (fst x)"
  "lastp q (x # xs) = lastp (Some (fst x)) xs"
  by (simp_all add: lastp_def)

lemma dll_append [simp]:
  "dll nx pv dt m q p (xs @ ys) r \<longleftrightarrow>
     (\<exists>s. dll nx pv dt m q p xs s \<and> dll nx pv dt m (lastp q xs) s ys r)"
  by (induction xs arbitrary: q p) auto

lemma dll_upd [simp]:
  "a \<notin> fst ` set xs \<Longrightarrow> dll nx pv dt (m(a := v)) q p xs r \<longleftrightarrow> dll nx pv dt m q p xs r"
  by (induction xs arbitrary: q p) auto

lemma dll_alive: "dll nx pv dt m q p xs r \<Longrightarrow> (x, d) \<in> set xs \<Longrightarrow> \<exists>n. m x = Some n \<and> dt n = d"
  by (induction xs arbitrary: q p) auto

lemma dll_start: "dll nx pv dt m q p xs r \<Longrightarrow> p = (case xs of [] \<Rightarrow> r | x # _ \<Rightarrow> Some (fst x))"
  by (cases xs) auto

lemma dll_Null_start: "dll nx pv dt m q None xs r \<longleftrightarrow> xs = [] \<and> r = None"
  by (cases xs) auto

definition start :: "(addr \<times> 'd) list \<Rightarrow> ptr" where
  "start ys = (case ys of [] \<Rightarrow> None | y # _ \<Rightarrow> Some (fst y))"

lemma start_simps [simp]: "start [] = None" "start (y # ys) = Some (fst y)"
  by (simp_all add: start_def)

lemma fst_last_neq: "a \<notin> fst ` set xs \<Longrightarrow> xs \<noteq> [] \<Longrightarrow> fst (last xs) \<noteq> a"
  by (metis imageI last_in_set)

text \<open>What a node's type has to offer for its instances to be chained: the two link
  fields, and a payload that assigning a link does not touch.\<close>

locale linked_node =
  fixes nxt prv :: "'n \<Rightarrow> ptr"
    and dat :: "'n \<Rightarrow> 'd"
    and set_nxt set_prv :: "ptr \<Rightarrow> 'n \<Rightarrow> 'n"
  assumes nxt_set_nxt [simp]: "nxt (set_nxt p n) = p"
    and nxt_set_prv [simp]: "nxt (set_prv p n) = nxt n"
    and prv_set_prv [simp]: "prv (set_prv p n) = p"
    and prv_set_nxt [simp]: "prv (set_nxt p n) = prv n"
    and dat_set_nxt [simp]: "dat (set_nxt p n) = dat n"
    and dat_set_prv [simp]: "dat (set_prv p n) = dat n"
begin

text \<open>\<open>prev->next = next; if (next) next->prev = prev\<close>: a node that has a predecessor
  leaves the chain; its own fields are untouched.\<close>

lemma unlink_inner:
  assumes "dll nxt prv dat m None p (xs @ x # ys) None" "xs \<noteq> []" "distinct (map fst (xs @ x # ys))"
  shows "\<exists>n m'. m (fst x) = Some n \<and> dat n = snd x \<and> prv n = lastp None xs \<and>
    nxt n = (case ys of [] \<Rightarrow> None | y # _ \<Rightarrow> Some (fst y)) \<and>
    do { m1 \<leftarrow> store (prv n) (set_nxt (nxt n)) m;
         if nxt n = None then Some m1 else store (nxt n) (set_prv (prv n)) m1 } = Some m' \<and>
    dll nxt prv dat m' None p (xs @ ys) None \<and> m' (fst x) = Some n \<and>
    (\<forall>z. z \<notin> fst ` set (xs @ ys) \<longrightarrow> m' z = m z)"
  using assms by (cases xs rule: rev_cases; cases ys) auto

text \<open>\<open>head = head->next; if (head) head->prev = nullptr\<close>: the first node leaves.\<close>

lemma unlink_first:
  assumes "dll nxt prv dat m None p (x # ys) None" "distinct (map fst (x # ys))"
  shows "\<exists>n m'. m (fst x) = Some n \<and> dat n = snd x \<and> prv n = None \<and>
    nxt n = (case ys of [] \<Rightarrow> None | y # _ \<Rightarrow> Some (fst y)) \<and>
    (if nxt n = None then Some m else store (nxt n) (set_prv None) m) = Some m' \<and>
    dll nxt prv dat m' None (nxt n) ys None \<and> m' (fst x) = Some n \<and>
    (\<forall>z. z \<notin> fst ` set ys \<longrightarrow> m' z = m z)"
  using assms by (cases ys) auto

text \<open>\<open>node->next = head; head->prev = node\<close>: a node without predecessor goes in front.\<close>

lemma link_first:
  assumes "dll nxt prv dat m None p (y # ys) None" "distinct (map fst (x # y # ys))"
    "m (fst x) = Some n" "dat n = snd x" "prv n = None"
  shows "\<exists>m'. do { m1 \<leftarrow> store (Some (fst x)) (set_nxt p) m;
                   store p (set_prv (Some (fst x))) m1 } = Some m' \<and>
    dll nxt prv dat m' None (Some (fst x)) (x # y # ys) None \<and>
    (\<forall>z. z \<notin> fst ` set (x # y # ys) \<longrightarrow> m' z = m z)"
  using assms by auto

text \<open>\<open>prev->next = node; node->next = tmp; tmp->prev = node; node->prev = prev\<close>.\<close>

lemma link_between:
  assumes "dll nxt prv dat m None p (xs @ y # ys) None" "xs \<noteq> []" "distinct (map fst (xs @ x # y # ys))"
    "m (fst x) = Some n" "dat n = snd x"
  shows "\<exists>m'. do { m1 \<leftarrow> store (lastp None xs) (set_nxt (Some (fst x))) m;
         m2 \<leftarrow> store (Some (fst x)) (set_nxt (Some (fst y))) m1;
         m3 \<leftarrow> store (Some (fst y)) (set_prv (Some (fst x))) m2;
         store (Some (fst x)) (set_prv (lastp None xs)) m3 } = Some m' \<and>
    dll nxt prv dat m' None p (xs @ x # y # ys) None \<and>
    (\<forall>z. z \<notin> fst ` set (xs @ x # y # ys) \<longrightarrow> m' z = m z)"
  using assms by (cases xs rule: rev_cases) auto

text \<open>\<open>prev->next = node; node->prev = prev; node->next = nullptr\<close>.\<close>

lemma link_last:
  assumes "dll nxt prv dat m None p xs None" "xs \<noteq> []" "distinct (map fst (xs @ [x]))"
    "m (fst x) = Some n" "dat n = snd x"
  shows "\<exists>m'. do { m1 \<leftarrow> store (lastp None xs) (set_nxt (Some (fst x))) m;
         m2 \<leftarrow> store (Some (fst x)) (set_prv (lastp None xs)) m1;
         store (Some (fst x)) (set_nxt None) m2 } = Some m' \<and>
    dll nxt prv dat m' None p (xs @ [x]) None \<and>
    (\<forall>z. z \<notin> fst ` set (xs @ [x]) \<longrightarrow> m' z = m z)"
  using assms by (cases xs rule: rev_cases) auto

end

end
