(* ===== verification/Sort_Timer_List.thy ===== *)
theory Sort_Timer_List
  imports Linked_Nodes
begin

text \<open>
  The ascending timer list of \<open>socket/timer/sigalrm_list_timer.h\<close>, modelled pointer by
  pointer: \<open>util_timer\<close> nodes live in a heap, \<open>sort_timer_list\<close> holds the heap and the two
  private pointers. An operation that would dereference a null or a freed pointer, or whose
  loop would not end, has the value \<open>None\<close>.
\<close>

record util_timer =
  ut_expire :: int
  ut_cb_func :: "nat option"
  ut_user_data :: ptr
  ut_prev :: ptr
  ut_next :: ptr

definition new_util_timer :: util_timer where
  "new_util_timer = \<lparr>ut_expire = 0, ut_cb_func = None, ut_user_data = None, ut_prev = None, ut_next = None\<rparr>"

record sort_timer_list =
  stl_mem :: "util_timer heap"
  stl_head :: ptr
  stl_tail :: ptr

definition new_sort_timer_list :: "util_timer heap \<Rightarrow> sort_timer_list" where
  "new_sort_timer_list m = \<lparr>stl_mem = m, stl_head = None, stl_tail = None\<rparr>"

abbreviation ut_set_next :: "ptr \<Rightarrow> util_timer \<Rightarrow> util_timer" where
  "ut_set_next p n \<equiv> n\<lparr>ut_next := p\<rparr>"

abbreviation ut_set_prev :: "ptr \<Rightarrow> util_timer \<Rightarrow> util_timer" where
  "ut_set_prev p n \<equiv> n\<lparr>ut_prev := p\<rparr>"

text \<open>The private \<open>add_timer(timer, lst_head)\<close>: the loop on \<open>(prev, tmp)\<close> with the tail
  insertion after it.\<close>

partial_function (option) add_timer_loop :: "ptr \<Rightarrow> ptr \<Rightarrow> ptr \<Rightarrow> sort_timer_list \<Rightarrow> sort_timer_list option" where
  "add_timer_loop timer prev tmp l =
     (if tmp = None then do {
        m1 \<leftarrow> store prev (ut_set_next timer) (stl_mem l);
        m2 \<leftarrow> store timer (ut_set_prev prev) m1;
        m3 \<leftarrow> store timer (ut_set_next None) m2;
        Some (l\<lparr>stl_mem := m3, stl_tail := timer\<rparr>)
      } else do {
        n \<leftarrow> load timer (stl_mem l);
        k \<leftarrow> load tmp (stl_mem l);
        if ut_expire n < ut_expire k then do {
          m1 \<leftarrow> store prev (ut_set_next timer) (stl_mem l);
          m2 \<leftarrow> store timer (ut_set_next tmp) m1;
          m3 \<leftarrow> store tmp (ut_set_prev timer) m2;
          m4 \<leftarrow> store timer (ut_set_prev prev) m3;
          Some (l\<lparr>stl_mem := m4\<rparr>)
        } else add_timer_loop timer tmp (ut_next k) l
      })"

definition add_timer_after :: "ptr \<Rightarrow> ptr \<Rightarrow> sort_timer_list \<Rightarrow> sort_timer_list option" where
  "add_timer_after timer lst_head l = do {
     k \<leftarrow> load lst_head (stl_mem l);
     add_timer_loop timer lst_head (ut_next k) l
   }"

definition add_timer :: "ptr \<Rightarrow> sort_timer_list \<Rightarrow> sort_timer_list option" where
  "add_timer timer l =
     (if timer = None then Some l
      else if stl_head l = None then Some (l\<lparr>stl_head := timer, stl_tail := timer\<rparr>)
      else do {
        n \<leftarrow> load timer (stl_mem l);
        h \<leftarrow> load (stl_head l) (stl_mem l);
        if ut_expire n < ut_expire h then do {
          m1 \<leftarrow> store timer (ut_set_next (stl_head l)) (stl_mem l);
          m2 \<leftarrow> store (stl_head l) (ut_set_prev timer) m1;
          Some (l\<lparr>stl_mem := m2, stl_head := timer\<rparr>)
        } else add_timer_after timer (stl_head l) l
      })"

definition adjust_timer :: "ptr \<Rightarrow> sort_timer_list \<Rightarrow> sort_timer_list option" where
  "adjust_timer timer l =
     (if timer = None then Some l
      else do {
        n \<leftarrow> load timer (stl_mem l);
        let tmp = ut_next n;
        if tmp = None then Some l
        else do {
          k \<leftarrow> load tmp (stl_mem l);
          if ut_expire n < ut_expire k then Some l
          else if timer = stl_head l then do {
            m1 \<leftarrow> store tmp (ut_set_prev None) (stl_mem l);
            m2 \<leftarrow> store timer (ut_set_next None) m1;
            add_timer_after timer tmp (l\<lparr>stl_mem := m2, stl_head := tmp\<rparr>)
          } else do {
            m1 \<leftarrow> store (ut_prev n) (ut_set_next (ut_next n)) (stl_mem l);
            m2 \<leftarrow> store (ut_next n) (ut_set_prev (ut_prev n)) m1;
            add_timer_after timer (ut_next n) (l\<lparr>stl_mem := m2\<rparr>)
          }
        }
      })"

definition del_timer :: "ptr \<Rightarrow> sort_timer_list \<Rightarrow> sort_timer_list option" where
  "del_timer timer l =
     (if timer = None then Some l
      else if timer = stl_head l \<and> timer = stl_tail l then do {
        m1 \<leftarrow> free timer (stl_mem l);
        Some (l\<lparr>stl_mem := m1, stl_head := None, stl_tail := None\<rparr>)
      } else if timer = stl_head l then do {
        h \<leftarrow> load (stl_head l) (stl_mem l);
        m1 \<leftarrow> store (ut_next h) (ut_set_prev None) (stl_mem l);
        m2 \<leftarrow> free timer m1;
        Some (l\<lparr>stl_mem := m2, stl_head := ut_next h\<rparr>)
      } else if timer = stl_tail l then do {
        t \<leftarrow> load (stl_tail l) (stl_mem l);
        m1 \<leftarrow> store (ut_prev t) (ut_set_next None) (stl_mem l);
        m2 \<leftarrow> free timer m1;
        Some (l\<lparr>stl_mem := m2, stl_tail := ut_prev t\<rparr>)
      } else do {
        n \<leftarrow> load timer (stl_mem l);
        m1 \<leftarrow> store (ut_prev n) (ut_set_next (ut_next n)) (stl_mem l);
        m2 \<leftarrow> store (ut_next n) (ut_set_prev (ut_prev n)) m1;
        m3 \<leftarrow> free timer m2;
        Some (l\<lparr>stl_mem := m3\<rparr>)
      })"

text \<open>\<open>tick\<close>: \<open>call f d w\<close> is the effect of the callback \<open>f(d)\<close> on the rest of the program
  (it does not touch the list), \<open>cur\<close> the value of \<open>time(nullptr)\<close>. Calling a null
  \<open>cb_func\<close> faults.\<close>

partial_function (option) tick_loop ::
  "(nat \<Rightarrow> ptr \<Rightarrow> 'w \<Rightarrow> 'w) \<Rightarrow> int \<Rightarrow> ptr \<Rightarrow> sort_timer_list \<Rightarrow> 'w \<Rightarrow> (sort_timer_list \<times> 'w) option"
where
  "tick_loop call cur tmp l w =
     (if tmp = None then Some (l, w)
      else do {
        n \<leftarrow> load tmp (stl_mem l);
        if cur < ut_expire n then Some (l, w)
        else do {
          f \<leftarrow> ut_cb_func n;
          let w' = call f (ut_user_data n) w;
          m1 \<leftarrow> (if ut_next n = None then Some (stl_mem l)
                else store (ut_next n) (ut_set_prev None) (stl_mem l));
          m2 \<leftarrow> free tmp m1;
          tick_loop call cur (ut_next n) (l\<lparr>stl_mem := m2, stl_head := ut_next n\<rparr>) w'
        }
      })"

definition tick ::
  "(nat \<Rightarrow> ptr \<Rightarrow> 'w \<Rightarrow> 'w) \<Rightarrow> int \<Rightarrow> sort_timer_list \<Rightarrow> 'w \<Rightarrow> (sort_timer_list \<times> 'w) option" where
  "tick call cur l w = (if stl_head l = None then Some (l, w) else tick_loop call cur (stl_head l) l w)"

partial_function (option) destroy_loop :: "ptr \<Rightarrow> sort_timer_list \<Rightarrow> sort_timer_list option" where
  "destroy_loop tmp l =
     (if tmp = None then Some l
      else do {
        n \<leftarrow> load tmp (stl_mem l);
        m1 \<leftarrow> free tmp (stl_mem l);
        destroy_loop (ut_next n) (l\<lparr>stl_mem := m1, stl_head := ut_next n\<rparr>)
      })"

definition destroy :: "sort_timer_list \<Rightarrow> sort_timer_list option" where
  "destroy l = destroy_loop (stl_head l) l"

section \<open>The list a heap state represents\<close>

type_synonym job = "int \<times> nat option \<times> ptr"

definition ut_job :: "util_timer \<Rightarrow> job" where
  "ut_job n = (ut_expire n, ut_cb_func n, ut_user_data n)"

abbreviation jexp :: "addr \<times> job \<Rightarrow> int" where
  "jexp x \<equiv> fst (snd x)"

lemma ut_job_simps [simp]: "ut_job (n\<lparr>ut_next := p\<rparr>) = ut_job n" "ut_job (n\<lparr>ut_prev := p\<rparr>) = ut_job n"
  by (simp_all add: ut_job_def)

lemma ut_jobD: "ut_job n = j \<Longrightarrow> ut_expire n = fst j \<and> ut_cb_func n = fst (snd j) \<and> ut_user_data n = snd (snd j)"
  by (auto simp: ut_job_def)

interpretation ut: linked_node ut_next ut_prev ut_job ut_set_next ut_set_prev
  by unfold_locales simp_all

abbreviation ut_chain :: "util_timer heap \<Rightarrow> ptr \<Rightarrow> ptr \<Rightarrow> (addr \<times> job) list \<Rightarrow> ptr \<Rightarrow> bool" where
  "ut_chain \<equiv> dll ut_next ut_prev ut_job"

definition stl_rep :: "sort_timer_list \<Rightarrow> (addr \<times> job) list \<Rightarrow> bool" where
  "stl_rep l xs \<longleftrightarrow> distinct (map fst xs) \<and> ut_chain (stl_mem l) None (stl_head l) xs None \<and>
     (xs \<noteq> [] \<longrightarrow> stl_tail l = Some (fst (last xs)))"

definition stl_frame :: "(addr \<times> job) list \<Rightarrow> sort_timer_list \<Rightarrow> sort_timer_list \<Rightarrow> bool" where
  "stl_frame xs l l' \<longleftrightarrow> (\<forall>a. a \<notin> fst ` set xs \<longrightarrow> stl_mem l' a = stl_mem l a)"

text \<open>Insertion behind every timer that expires no later.\<close>

fun ins_job :: "addr \<times> job \<Rightarrow> (addr \<times> job) list \<Rightarrow> (addr \<times> job) list" where
  "ins_job x [] = [x]"
| "ins_job x (y # ys) = (if jexp x < jexp y then x # y # ys else y # ins_job x ys)"

section \<open>The operations on the represented list\<close>

lemma set_ins_job [simp]: "set (ins_job x ys) = insert x (set ys)"
  by (induction ys) auto

lemma ins_job_not_Nil [simp]: "ins_job x ys \<noteq> []"
  by (cases ys) auto

lemma distinct_ins_job [simp]:
  "distinct (map fst (ins_job x ys)) \<longleftrightarrow> fst x \<notin> fst ` set ys \<and> distinct (map fst ys)"
  by (induction ys) auto

lemma sorted_ins_job: "sorted (map jexp (ins_job x ys)) \<longleftrightarrow> sorted (map jexp ys)"
  by (induction ys) (auto simp: image_def)

lemma mset_ins_job [simp]: "mset (ins_job x ys) = add_mset x (mset ys)"
  by (induction ys) auto

lemma add_timer_loop_ok:
  assumes "ut_chain (stl_mem l) None (stl_head l) (xs @ ys) None" "xs \<noteq> []"
    "distinct (map fst (xs @ x # ys))" "stl_mem l (fst x) = Some n" "ut_job n = snd x"
    "ys \<noteq> [] \<Longrightarrow> stl_tail l = Some (fst (last ys))"
  shows "\<exists>l'. add_timer_loop (Some (fst x)) (lastp None xs) (start ys) l = Some l' \<and>
    stl_head l' = stl_head l \<and> ut_chain (stl_mem l') None (stl_head l) (xs @ ins_job x ys) None \<and>
    stl_tail l' = Some (fst (last (ins_job x ys))) \<and>
    stl_frame (xs @ ins_job x ys) l l'"
  using assms
proof (induction ys arbitrary: xs)
  case Nil
  then show ?case
    using ut.link_last [of "stl_mem l" "stl_head l" xs x n]
    by (auto simp: add_timer_loop.simps stl_frame_def bind_eq_Some_conv)
next
  case (Cons y ys)
  obtain k where k: "stl_mem l (fst y) = Some k" "ut_job k = snd y" "ut_next k = start ys"
    using Cons.prems(1) by (auto simp: start_def dest: dll_start)
  show ?case
  proof (cases "jexp x < jexp y")
    case True
    have lt: "ut_expire n < ut_expire k"
      using True k Cons.prems(5) by (auto dest!: ut_jobD)
    show ?thesis
      using ut.link_between [of "stl_mem l" "stl_head l" xs y ys x n] Cons.prems k lt True
      by (auto simp: add_timer_loop.simps [of _ _ "Some (fst y)"] stl_frame_def bind_eq_Some_conv)
  next
    case False
    have "\<exists>l'. add_timer_loop (Some (fst x)) (lastp None (xs @ [y])) (start ys) l = Some l' \<and>
      stl_head l' = stl_head l \<and> ut_chain (stl_mem l') None (stl_head l) ((xs @ [y]) @ ins_job x ys) None \<and>
      stl_tail l' = Some (fst (last (ins_job x ys))) \<and> stl_frame ((xs @ [y]) @ ins_job x ys) l l'"
      by (rule Cons.IH) (use Cons.prems in \<open>auto\<close>)
    moreover have "\<not> ut_expire n < ut_expire k"
      using False k Cons.prems(5) by (auto dest!: ut_jobD)
    ultimately show ?thesis
      using False Cons.prems k
      by (auto simp: add_timer_loop.simps [of _ _ "Some (fst y)"] stl_frame_def)
  qed
qed


lemma add_timer_after_ok:
  assumes "ut_chain (stl_mem l) None (stl_head l) (xs @ y # ys) None"
    "distinct (map fst (xs @ y # x # ys))" "stl_mem l (fst x) = Some n" "ut_job n = snd x"
    "ys \<noteq> [] \<Longrightarrow> stl_tail l = Some (fst (last ys))"
  shows "\<exists>l'. add_timer_after (Some (fst x)) (Some (fst y)) l = Some l' \<and>
    stl_rep l' (xs @ y # ins_job x ys) \<and> stl_frame (xs @ y # ins_job x ys) l l'"
proof -
  obtain k where k: "stl_mem l (fst y) = Some k" "ut_next k = start ys"
    using assms(1) by (auto simp: start_def dest: dll_start)
  show ?thesis
    using add_timer_loop_ok [of l "xs @ [y]" ys x n] assms k
    by (auto simp: add_timer_after_def stl_rep_def)
qed

lemma add_timer_ok:
  assumes "stl_rep l xs" "stl_mem l (fst x) = Some n" "ut_job n = snd x" "ut_prev n = None" "ut_next n = None"
    "fst x \<notin> fst ` set xs"
  shows "\<exists>l'. add_timer (Some (fst x)) l = Some l' \<and> stl_rep l' (ins_job x xs) \<and> stl_frame (ins_job x xs) l l'"
proof (cases xs)
  case Nil
  with assms show ?thesis by (auto simp: add_timer_def stl_rep_def stl_frame_def)
next
  case (Cons y ys)
  then obtain k where k: "stl_mem l (fst y) = Some k" "ut_job k = snd y" "stl_head l = Some (fst y)"
    using assms(1) by (auto simp: stl_rep_def)
  have lt: "ut_expire n < ut_expire k \<longleftrightarrow> jexp x < jexp y"
    using k assms(3) by (auto dest!: ut_jobD)
  show ?thesis
  proof (cases "jexp x < jexp y")
    case True
    with assms Cons k lt show ?thesis
      using ut.link_first [of "stl_mem l" "stl_head l" y ys x n]
      by (auto simp: add_timer_def stl_rep_def stl_frame_def bind_eq_Some_conv)
  next
    case False
    with assms Cons k lt show ?thesis
      using add_timer_after_ok [of l "[]" y ys x n]
      by (auto simp: add_timer_def stl_rep_def)
  qed
qed

lemma adjust_timer_ok:
  assumes "stl_rep l (us @ x # vs)"
  shows "\<exists>l'. adjust_timer (Some (fst x)) l = Some l' \<and> stl_rep l' (us @ ins_job x vs) \<and>
    stl_frame (us @ ins_job x vs) l l'"
proof (cases vs)
  case Nil
  with assms show ?thesis
    by (auto simp: adjust_timer_def stl_rep_def stl_frame_def)
next
  case (Cons v ws)
  obtain n k where n: "stl_mem l (fst x) = Some n" "ut_job n = snd x" "ut_next n = Some (fst v)" "ut_prev n = lastp None us"
    and k: "stl_mem l (fst v) = Some k" "ut_job k = snd v"
    using assms Cons by (auto simp: stl_rep_def)
  have lt: "ut_expire n < ut_expire k \<longleftrightarrow> jexp x < jexp v"
    using n k by (auto dest!: ut_jobD)
  show ?thesis
  proof (cases "jexp x < jexp v")
    case True
    with assms Cons n k lt show ?thesis
      by (auto simp: adjust_timer_def stl_frame_def)
  next
    case ge: False
    show ?thesis
    proof (cases us)
      case Nil
      let ?m = "(stl_mem l)(fst v \<mapsto> k\<lparr>ut_prev := None\<rparr>, fst x \<mapsto> n\<lparr>ut_next := None\<rparr>)"
      have "stl_head l = Some (fst x)"
        using assms Nil by (simp add: stl_rep_def)
      then have "adjust_timer (Some (fst x)) l =
          add_timer_after (Some (fst x)) (Some (fst v)) (l\<lparr>stl_mem := ?m, stl_head := Some (fst v)\<rparr>)"
        using assms Cons n k lt ge by (auto simp: adjust_timer_def stl_rep_def Let_def)
      then show ?thesis
        using add_timer_after_ok [of "l\<lparr>stl_mem := ?m, stl_head := Some (fst v)\<rparr>" "[]" v ws x "n\<lparr>ut_next := None\<rparr>"]
          assms Cons Nil n k ge
        by (auto simp: stl_rep_def stl_frame_def)
    next
      case (Cons a as)
      then have head: "stl_head l \<noteq> Some (fst x)"
        using assms by (auto simp: stl_rep_def)
      obtain m' where m': "do { m1 \<leftarrow> store (ut_prev n) (ut_set_next (ut_next n)) (stl_mem l);
           store (ut_next n) (ut_set_prev (ut_prev n)) m1 } = Some m'"
        "ut_chain m' None (stl_head l) (us @ vs) None" "m' (fst x) = Some n"
        "\<forall>z. z \<notin> fst ` set (us @ vs) \<longrightarrow> m' z = stl_mem l z"
        using ut.unlink_inner [of "stl_mem l" "stl_head l" us x vs] assms Cons n \<open>vs = v # ws\<close>
        by (auto simp: stl_rep_def)
      then have "adjust_timer (Some (fst x)) l =
          add_timer_after (Some (fst x)) (Some (fst v)) (l\<lparr>stl_mem := m'\<rparr>)"
        using n k lt ge head by (auto simp: adjust_timer_def bind_eq_Some_conv Let_def)
      then show ?thesis
        using add_timer_after_ok [of "l\<lparr>stl_mem := m'\<rparr>" us v ws x n] m' assms n k ge \<open>vs = v # ws\<close>
        by (auto simp: stl_rep_def stl_frame_def)
    qed
  qed
qed


lemma del_timer_first:
  assumes "stl_rep l (x # vs)"
  shows "\<exists>l'. del_timer (Some (fst x)) l = Some l' \<and> stl_rep l' vs \<and>
    stl_mem l' (fst x) = None \<and> stl_frame (x # vs) l l'"
proof (cases vs)
  case Nil
  with assms show ?thesis by (auto simp: del_timer_def stl_rep_def stl_frame_def)
next
  case (Cons v ws)
  obtain n m' where n: "stl_mem l (fst x) = Some n" "ut_next n = Some (fst v)"
    "store (ut_next n) (ut_set_prev None) (stl_mem l) = Some m'"
    "ut_chain m' None (ut_next n) vs None" "m' (fst x) = Some n"
    "\<forall>z. z \<notin> fst ` set vs \<longrightarrow> m' z = stl_mem l z"
    using ut.unlink_first [of "stl_mem l" "stl_head l" x vs] assms Cons
    by (auto simp: stl_rep_def)
  have ptrs: "stl_head l = Some (fst x)" "stl_tail l \<noteq> Some (fst x)"
    using assms Cons fst_last_neq [of "fst x" ws] by (auto simp: stl_rep_def split: if_splits)
  have "del_timer (Some (fst x)) l = Some (l\<lparr>stl_mem := m'(fst x := None), stl_head := ut_next n\<rparr>)"
    using n ptrs by (simp add: del_timer_def)
  then show ?thesis
    using n assms Cons by (simp add: stl_rep_def stl_frame_def)
qed

lemma del_timer_inner:
  assumes "stl_rep l (us @ x # vs)" "us \<noteq> []"
  shows "\<exists>l'. del_timer (Some (fst x)) l = Some l' \<and> stl_rep l' (us @ vs) \<and>
    stl_mem l' (fst x) = None \<and> stl_frame (us @ x # vs) l l'"
proof -
  obtain n m' where n: "stl_mem l (fst x) = Some n" "ut_prev n = lastp None us"
    "ut_next n = (case vs of [] \<Rightarrow> None | y # _ \<Rightarrow> Some (fst y))"
    "do { m1 \<leftarrow> store (ut_prev n) (ut_set_next (ut_next n)) (stl_mem l);
         if ut_next n = None then Some m1 else store (ut_next n) (ut_set_prev (ut_prev n)) m1 } = Some m'"
    "ut_chain m' None (stl_head l) (us @ vs) None" "m' (fst x) = Some n"
    "\<forall>z. z \<notin> fst ` set (us @ vs) \<longrightarrow> m' z = stl_mem l z"
  proof -
    have "ut_chain (stl_mem l) None (stl_head l) (us @ x # vs) None" "distinct (map fst (us @ x # vs))"
      using assms(1) unfolding stl_rep_def by blast+
    from ut.unlink_inner [OF this(1) assms(2) this(2)] show thesis using that by blast
  qed
  have ptrs: "stl_head l \<noteq> Some (fst x)" "stl_tail l = Some (fst x) \<longleftrightarrow> vs = []"
    using assms fst_last_neq [of "fst x" vs] by (cases us; auto simp: stl_rep_def split: if_splits)+
  let ?l = "l\<lparr>stl_mem := m'(fst x := None), stl_tail := (if vs = [] then lastp None us else stl_tail l)\<rparr>"
  have "del_timer (Some (fst x)) l = Some ?l"
    using n ptrs by (cases vs) (auto simp: del_timer_def bind_eq_Some_conv)
  moreover have "stl_rep ?l (us @ vs)"
    using n(5) assms by (auto simp: stl_rep_def lastp_def)
  ultimately show ?thesis
    using n(7) by (simp add: stl_frame_def)
qed

lemma del_timer_ok:
  assumes "stl_rep l (us @ x # vs)"
  shows "\<exists>l'. del_timer (Some (fst x)) l = Some l' \<and> stl_rep l' (us @ vs) \<and>
    stl_mem l' (fst x) = None \<and> stl_frame (us @ x # vs) l l'"
  using assms del_timer_first [of l x vs] del_timer_inner [of l us x vs] by (cases us) auto

lemma set_expire_ok:
  assumes "stl_rep l (us @ (t, e0, c, d) # vs)"
  shows "\<exists>m'. store (Some t) (\<lambda>n. n\<lparr>ut_expire := e\<rparr>) (stl_mem l) = Some m' \<and>
    stl_rep (l\<lparr>stl_mem := m'\<rparr>) (us @ (t, e, c, d) # vs) \<and>
    (\<forall>a. a \<noteq> t \<longrightarrow> m' a = stl_mem l a)"
  using assms by (auto simp: stl_rep_def ut_job_def)

definition fire :: "(nat \<Rightarrow> ptr \<Rightarrow> 'w \<Rightarrow> 'w) \<Rightarrow> (addr \<times> job) list \<Rightarrow> 'w \<Rightarrow> 'w" where
  "fire call = fold (\<lambda>(a, e, c, d). call (the c) d)"

lemma fire_simps [simp]:
  "fire call [] w = w" "fire call ((a, e, c, d) # xs) w = fire call xs (call (the c) d w)"
  by (simp_all add: fire_def)

abbreviation jcb :: "addr \<times> job \<Rightarrow> nat option" where
  "jcb x \<equiv> fst (snd (snd x))"

lemma tick_loop_ok:
  assumes "stl_rep l xs" "\<And>x. x \<in> set (takeWhile (\<lambda>x. jexp x \<le> cur) xs) \<Longrightarrow> jcb x \<noteq> None"
  shows "\<exists>l'. tick_loop call cur (stl_head l) l w =
       Some (l', fire call (takeWhile (\<lambda>x. jexp x \<le> cur) xs) w) \<and>
    stl_rep l' (dropWhile (\<lambda>x. jexp x \<le> cur) xs) \<and> stl_frame xs l l' \<and>
    (\<forall>x \<in> set (takeWhile (\<lambda>x. jexp x \<le> cur) xs). stl_mem l' (fst x) = None)"
  using assms
proof (induction xs arbitrary: l w)
  case Nil
  then show ?case by (simp add: tick_loop.simps stl_rep_def stl_frame_def)
next
  case (Cons x ys)
  obtain n m' where n: "stl_head l = Some (fst x)" "stl_mem l (fst x) = Some n" "ut_job n = snd x"
    "(if ut_next n = None then Some (stl_mem l) else store (ut_next n) (ut_set_prev None) (stl_mem l)) = Some m'"
    "ut_chain m' None (ut_next n) ys None" "m' (fst x) = Some n"
    "\<forall>z. z \<notin> fst ` set ys \<longrightarrow> m' z = stl_mem l z"
    using ut.unlink_first [of "stl_mem l" "stl_head l" x ys] Cons.prems(1) by (auto simp: stl_rep_def)
  show ?case
  proof (cases "jexp x \<le> cur")
    case False
    with n Cons.prems show ?thesis
      by (auto simp: tick_loop.simps [of _ _ "Some (fst x)"] stl_frame_def dest!: ut_jobD)
  next
    case True
    obtain a e f d where x: "x = (a, e, Some f, d)"
      using Cons.prems(2) True by (cases x) fastforce
    let ?l = "l\<lparr>stl_mem := m'(a := None), stl_head := ut_next n\<rparr>"
    have "stl_rep ?l ys"
      using n Cons.prems(1) x by (auto simp: stl_rep_def)
    then obtain l' where l': "tick_loop call cur (stl_head ?l) ?l (call f d w) =
        Some (l', fire call (takeWhile (\<lambda>x. jexp x \<le> cur) ys) (call f d w))"
      "stl_rep l' (dropWhile (\<lambda>x. jexp x \<le> cur) ys)" "stl_frame ys ?l l'"
      "\<forall>x \<in> set (takeWhile (\<lambda>x. jexp x \<le> cur) ys). stl_mem l' (fst x) = None"
      using Cons.IH [of ?l "call f d w"] Cons.prems(2) True by auto
    moreover have "tick_loop call cur (stl_head l) l w = tick_loop call cur (stl_head ?l) ?l (call f d w)"
      using n x True
      by (auto simp: tick_loop.simps [of _ _ "Some a"] ut_job_def Let_def)
    moreover have "a \<notin> fst ` set ys"
      using Cons.prems(1) x by (auto simp: stl_rep_def)
    ultimately show ?thesis
      using n x True by (auto simp: stl_frame_def)
  qed
qed

lemma tick_ok:
  assumes "stl_rep l xs" "\<And>x. x \<in> set (takeWhile (\<lambda>x. jexp x \<le> cur) xs) \<Longrightarrow> jcb x \<noteq> None"
  shows "\<exists>l'. tick call cur l w = Some (l', fire call (takeWhile (\<lambda>x. jexp x \<le> cur) xs) w) \<and>
    stl_rep l' (dropWhile (\<lambda>x. jexp x \<le> cur) xs) \<and> stl_frame xs l l' \<and>
    (\<forall>x \<in> set (takeWhile (\<lambda>x. jexp x \<le> cur) xs). stl_mem l' (fst x) = None)"
proof (cases xs)
  case Nil
  with assms show ?thesis by (auto simp: tick_def stl_rep_def stl_frame_def)
next
  case (Cons y ys)
  with assms(1) have "stl_head l \<noteq> None" by (auto simp: stl_rep_def)
  with tick_loop_ok [of l xs cur call w, OF assms] show ?thesis by (auto simp: tick_def)
qed

lemma destroy_loop_ok:
  assumes "ut_chain (stl_mem l) q (stl_head l) xs None" "distinct (map fst xs)"
  shows "\<exists>l'. destroy_loop (stl_head l) l = Some l' \<and> stl_head l' = None \<and> stl_frame xs l l' \<and>
    (\<forall>x \<in> set xs. stl_mem l' (fst x) = None)"
  using assms
proof (induction xs arbitrary: l q)
  case Nil
  then show ?case by (simp add: destroy_loop.simps stl_frame_def)
next
  case (Cons x ys)
  then obtain n where n: "stl_head l = Some (fst x)" "stl_mem l (fst x) = Some n"
    "ut_chain (stl_mem l) (Some (fst x)) (ut_next n) ys None" "fst x \<notin> fst ` set ys"
    by auto
  let ?l = "l\<lparr>stl_mem := (stl_mem l)(fst x := None), stl_head := ut_next n\<rparr>"
  obtain l' where "destroy_loop (stl_head ?l) ?l = Some l'" "stl_head l' = None" "stl_frame ys ?l l'"
    "\<forall>x \<in> set ys. stl_mem l' (fst x) = None"
  proof -
    have "ut_chain (stl_mem ?l) (Some (fst x)) (stl_head ?l) ys None" "distinct (map fst ys)"
      using Cons.prems(2) n by simp_all
    from Cons.IH [OF this] show thesis using that by blast
  qed
  moreover have "destroy_loop (stl_head l) l = destroy_loop (stl_head ?l) ?l"
    using n by (simp add: destroy_loop.simps [of "Some (fst x)"])
  ultimately show ?case
    using n by (auto simp: stl_frame_def)
qed

lemma destroy_ok:
  assumes "stl_rep l xs"
  shows "\<exists>l'. destroy l = Some l' \<and> stl_head l' = None \<and> stl_frame xs l l' \<and>
    (\<forall>x \<in> set xs. stl_mem l' (fst x) = None)"
  using assms destroy_loop_ok [of l None xs] by (simp add: destroy_def stl_rep_def)

section \<open>Properties\<close>

text \<open>C1: Public \<open>add_timer\<close> on an ascending list and an unlinked timer never faults, inserts
  the timer behind every timer that expires no later, keeps the list ascending and leaves
  the rest of the heap alone.\<close>

theorem add_timer_refines:
  assumes "stl_rep l xs" "sorted (map jexp xs)"
    "stl_mem l t = Some n" "ut_prev n = None" "ut_next n = None" "t \<notin> fst ` set xs"
  shows "\<exists>l'. add_timer (Some t) l = Some l' \<and> stl_rep l' (ins_job (t, ut_job n) xs) \<and>
    sorted (map jexp (ins_job (t, ut_job n) xs)) \<and> stl_frame (ins_job (t, ut_job n) xs) l l'"
  using add_timer_ok [of l xs "(t, ut_job n)" n] assms by (simp add: sorted_ins_job)

text \<open>After a timer's deadline was moved back, \<open>adjust_timer\<close> moves it behind the timers
  that now expire no later, without a fault, and the list is ascending again.\<close>

theorem adjust_timer_refines:
  assumes "stl_rep l (us @ x # vs)" "sorted (map jexp (us @ vs))" "\<forall>u \<in> set us. jexp u \<le> jexp x"
  shows "\<exists>l'. adjust_timer (Some (fst x)) l = Some l' \<and> stl_rep l' (us @ ins_job x vs) \<and>
    sorted (map jexp (us @ ins_job x vs)) \<and> stl_frame (us @ ins_job x vs) l l'"
proof -
  have "sorted (map jexp (us @ ins_job x vs))"
    using assms(2,3) by (auto simp: sorted_append sorted_ins_job)
  then show ?thesis
    using adjust_timer_ok [OF assms(1)] by blast
qed

text \<open>C2: \<open>del_timer\<close> takes exactly the given timer out of the list, whether it is the only one,
  the first, the last or an inner one, frees it and repairs the two list pointers.\<close>

theorem del_timer_refines:
  assumes "stl_rep l (us @ x # vs)"
  shows "\<exists>l'. del_timer (Some (fst x)) l = Some l' \<and> stl_rep l' (us @ vs) \<and>
    stl_mem l' (fst x) = None \<and> stl_frame (us @ x # vs) l l'"
  by (rule del_timer_ok [OF assms])

lemma takeWhile_sorted_filter:
  "sorted (map jexp xs) \<Longrightarrow> takeWhile (\<lambda>x. jexp x \<le> cur) xs = filter (\<lambda>x. jexp x \<le> cur) xs"
  by (induction xs) (auto simp: filter_empty_conv intro!: sym [OF filter_False])

lemma dropWhile_sorted_filter:
  "sorted (map jexp xs) \<Longrightarrow> dropWhile (\<lambda>x. jexp x \<le> cur) xs = filter (\<lambda>x. cur < jexp x) xs"
  by (induction xs) (auto simp: not_le intro!: sym [OF filter_True])

text \<open>C3: On an ascending list \<open>tick\<close> runs the callbacks of exactly the timers that are due, once
  each and in order of their deadlines, frees those timers and keeps all others.\<close>

theorem tick_fires_due:
  assumes "stl_rep l xs" "sorted (map jexp xs)" "\<forall>x \<in> set xs. jcb x \<noteq> None"
  shows "\<exists>l'. tick call cur l w = Some (l', fire call (filter (\<lambda>x. jexp x \<le> cur) xs) w) \<and>
    stl_rep l' (filter (\<lambda>x. cur < jexp x) xs) \<and> stl_frame xs l l' \<and>
    (\<forall>x \<in> set xs. jexp x \<le> cur \<longrightarrow> stl_mem l' (fst x) = None)"
  using tick_ok [of l xs cur call w] assms
  by (fastforce simp: takeWhile_sorted_filter dropWhile_sorted_filter)

text \<open>The destructor walks the whole list, frees every timer of it once and nothing else.\<close>

theorem destroy_frees_all:
  assumes "stl_rep l xs"
  shows "\<exists>l'. destroy l = Some l' \<and> stl_head l' = None \<and> stl_frame xs l l' \<and>
    (\<forall>x \<in> set xs. stl_mem l' (fst x) = None)"
  by (rule destroy_ok [OF assms])

subsection \<open>Witnesses\<close>

definition demo_node :: "int \<Rightarrow> ptr \<Rightarrow> ptr \<Rightarrow> util_timer" where
  "demo_node e p q = \<lparr>ut_expire = e, ut_cb_func = Some 7, ut_user_data = Some 4, ut_prev = p, ut_next = q\<rparr>"

definition demo_list :: sort_timer_list where
  "demo_list = \<lparr>stl_mem = [1 \<mapsto> demo_node 10 None (Some 2), 2 \<mapsto> demo_node 20 (Some 1) None,
     3 \<mapsto> demo_node 15 None None], stl_head = Some 1, stl_tail = Some 2\<rparr>"

lemma demo_list_rep: "stl_rep demo_list [(1, 10, Some 7, Some 4), (2, 20, Some 7, Some 4)]"
  by (simp add: stl_rep_def demo_list_def demo_node_def ut_job_def)

theorem add_timer_refines_witness:
  "\<exists>l'. add_timer (Some 3) demo_list = Some l' \<and>
     stl_rep l' [(1, 10, Some 7, Some 4), (3, 15, Some 7, Some 4), (2, 20, Some 7, Some 4)]"
  using add_timer_refines [OF demo_list_rep, of 3 "demo_node 15 None None"]
  by (simp add: demo_list_def ut_job_def) (auto simp: demo_node_def)

theorem adjust_timer_refines_witness:
  "\<exists>l'. adjust_timer (Some 1) demo_list = Some l' \<and>
     stl_rep l' [(1, 10, Some 7, Some 4), (2, 20, Some 7, Some 4)]"
  using adjust_timer_refines [of demo_list "[]" "(1, 10, Some 7, Some 4)" "[(2, 20, Some 7, Some 4)]"]
    demo_list_rep by auto

theorem del_timer_refines_witness:
  "\<exists>l'. del_timer (Some 2) demo_list = Some l' \<and> stl_rep l' [(1, 10, Some 7, Some 4)]"
  using del_timer_refines [of demo_list "[(1, 10, Some 7, Some 4)]" "(2, 20, Some 7, Some 4)" "[]"]
    demo_list_rep by auto

theorem tick_fires_due_witness:
  "\<exists>l'. tick (\<lambda>f d w. d # w) 12 demo_list [] = Some (l', [Some 4]) \<and>
     stl_rep l' [(2, 20, Some 7, Some 4)]"
  using tick_fires_due [OF demo_list_rep, of "\<lambda>f d w. d # w" 12 "[]"] by auto

theorem destroy_frees_all_witness:
  "\<exists>l'. destroy demo_list = Some l' \<and> stl_mem l' 1 = None \<and> stl_mem l' 2 = None"
  using destroy_frees_all [OF demo_list_rep] by auto

end
