(* ===== verification/Time_Wheel.thy ===== *)
theory Time_Wheel
  imports Linked_Nodes
begin

text \<open>
  The timing wheel of \<open>socket/timer/time_wheel_timer.h\<close>: 60 slots, each the head of a doubly
  linked list of timers in the heap. As in \<open>Sort_Timer_List\<close>, \<open>None\<close> is a memory fault (or a
  slot index out of range, or a loop that does not end).
\<close>

record tw_timer =
  tw_rotation :: int
  tw_time_slot :: int
  tw_cb_func :: "nat option"
  tw_next :: ptr
  tw_prev :: ptr
  tw_user_data :: ptr

definition new_tw_timer :: "int \<Rightarrow> int \<Rightarrow> tw_timer" where
  "new_tw_timer rot ts = \<lparr>tw_rotation = rot, tw_time_slot = ts, tw_cb_func = None,
     tw_next = None, tw_prev = None, tw_user_data = None\<rparr>"

definition tw_N :: int where "tw_N = 60"

definition tw_SI :: int where "tw_SI = 1"

record time_wheel =
  wh_mem :: "tw_timer heap"
  wh_slots :: "ptr list"
  wh_cur_slot :: int

definition new_time_wheel :: "tw_timer heap \<Rightarrow> time_wheel" where
  "new_time_wheel m = \<lparr>wh_mem = m, wh_slots = replicate (nat tw_N) None, wh_cur_slot = 0\<rparr>"

definition wh_slot :: "int \<Rightarrow> time_wheel \<Rightarrow> ptr option" where
  "wh_slot i w = (if 0 \<le> i \<and> i < tw_N then Some (wh_slots w ! nat i) else None)"

definition wh_set_slot :: "int \<Rightarrow> ptr \<Rightarrow> time_wheel \<Rightarrow> time_wheel option" where
  "wh_set_slot i p w =
     (if 0 \<le> i \<and> i < tw_N then Some (w\<lparr>wh_slots := (wh_slots w)[nat i := p]\<rparr>) else None)"

abbreviation tw_set_next :: "ptr \<Rightarrow> tw_timer \<Rightarrow> tw_timer" where
  "tw_set_next p n \<equiv> n\<lparr>tw_next := p\<rparr>"

abbreviation tw_set_prev :: "ptr \<Rightarrow> tw_timer \<Rightarrow> tw_timer" where
  "tw_set_prev p n \<equiv> n\<lparr>tw_prev := p\<rparr>"

text \<open>\<open>add_timer\<close>: \<open>a\<close> is the address \<open>new tw_timer\<close> returns. Both operands of \<open>/\<close> and \<open>%\<close> are
  non-negative here, where C's division and \<open>div\<close>/\<open>mod\<close> agree.\<close>

definition wh_ticks :: "int \<Rightarrow> int" where
  "wh_ticks timeout = (if timeout < tw_SI then 1 else timeout div tw_SI)"

definition wh_add_timer :: "int \<Rightarrow> addr \<Rightarrow> time_wheel \<Rightarrow> (ptr \<times> time_wheel) option" where
  "wh_add_timer timeout a w =
     (if timeout < 0 then Some (None, w)
      else do {
        let ticks = wh_ticks timeout;
        let rotation = ticks div tw_N;
        let ts = (wh_cur_slot w + ticks mod tw_N) mod tw_N;
        let w1 = w\<lparr>wh_mem := (wh_mem w)(a \<mapsto> new_tw_timer rotation ts)\<rparr>;
        h \<leftarrow> wh_slot ts w1;
        if h = None then do {
          w2 \<leftarrow> wh_set_slot ts (Some a) w1;
          Some (Some a, w2)
        } else do {
          m1 \<leftarrow> store (Some a) (tw_set_next h) (wh_mem w1);
          m2 \<leftarrow> store h (tw_set_prev (Some a)) m1;
          w2 \<leftarrow> wh_set_slot ts (Some a) (w1\<lparr>wh_mem := m2\<rparr>);
          Some (Some a, w2)
        }
      })"

definition wh_del_timer :: "ptr \<Rightarrow> time_wheel \<Rightarrow> time_wheel option" where
  "wh_del_timer timer w =
     (if timer = None then Some w
      else do {
        n \<leftarrow> load timer (wh_mem w);
        let ts = tw_time_slot n;
        h \<leftarrow> wh_slot ts w;
        if timer = h then do {
          w1 \<leftarrow> wh_set_slot ts (tw_next n) w;
          m1 \<leftarrow> (if tw_next n = None then Some (wh_mem w1)
                else store (tw_next n) (tw_set_prev None) (wh_mem w1));
          m2 \<leftarrow> free timer m1;
          Some (w1\<lparr>wh_mem := m2\<rparr>)
        } else do {
          m1 \<leftarrow> store (tw_prev n) (tw_set_next (tw_next n)) (wh_mem w);
          m2 \<leftarrow> (if tw_next n = None then Some m1
                else store (tw_next n) (tw_set_prev (tw_prev n)) m1);
          m3 \<leftarrow> free timer m2;
          Some (w\<lparr>wh_mem := m3\<rparr>)
        }
      })"

partial_function (option) wh_tick_loop ::
  "(nat \<Rightarrow> ptr \<Rightarrow> 'w \<Rightarrow> 'w) \<Rightarrow> ptr \<Rightarrow> time_wheel \<Rightarrow> 'w \<Rightarrow> (time_wheel \<times> 'w) option"
where
  "wh_tick_loop call tmp w s =
     (if tmp = None then Some (w, s)
      else do {
        n \<leftarrow> load tmp (wh_mem w);
        if tw_rotation n > 0 then do {
          m1 \<leftarrow> store tmp (\<lambda>n. n\<lparr>tw_rotation := tw_rotation n - 1\<rparr>) (wh_mem w);
          wh_tick_loop call (tw_next n) (w\<lparr>wh_mem := m1\<rparr>) s
        } else do {
          f \<leftarrow> tw_cb_func n;
          let s' = call f (tw_user_data n) s;
          h \<leftarrow> wh_slot (wh_cur_slot w) w;
          if tmp = h then do {
            w1 \<leftarrow> wh_set_slot (wh_cur_slot w) (tw_next n) w;
            m1 \<leftarrow> free tmp (wh_mem w1);
            m2 \<leftarrow> (if tw_next n = None then Some m1 else store (tw_next n) (tw_set_prev None) m1);
            wh_tick_loop call (tw_next n) (w1\<lparr>wh_mem := m2\<rparr>) s'
          } else do {
            m1 \<leftarrow> store (tw_prev n) (tw_set_next (tw_next n)) (wh_mem w);
            m2 \<leftarrow> (if tw_next n = None then Some m1
                  else store (tw_next n) (tw_set_prev (tw_prev n)) m1);
            m3 \<leftarrow> free tmp m2;
            wh_tick_loop call (tw_next n) (w\<lparr>wh_mem := m3\<rparr>) s'
          }
        }
      })"

definition wh_tick :: "(nat \<Rightarrow> ptr \<Rightarrow> 'w \<Rightarrow> 'w) \<Rightarrow> time_wheel \<Rightarrow> 'w \<Rightarrow> (time_wheel \<times> 'w) option" where
  "wh_tick call w s = do {
     tmp \<leftarrow> wh_slot (wh_cur_slot w) w;
     (w', s') \<leftarrow> wh_tick_loop call tmp w s;
     Some (w'\<lparr>wh_cur_slot := (wh_cur_slot w' + 1) mod tw_N\<rparr>, s')
   }"

partial_function (option) wh_destroy_slot :: "nat \<Rightarrow> ptr \<Rightarrow> time_wheel \<Rightarrow> time_wheel option" where
  "wh_destroy_slot i tmp w =
     (if tmp = None then Some w
      else do {
        n \<leftarrow> load tmp (wh_mem w);
        w1 \<leftarrow> wh_set_slot (int i) (tw_next n) w;
        m1 \<leftarrow> free tmp (wh_mem w1);
        wh_destroy_slot i (tw_next n) (w1\<lparr>wh_mem := m1\<rparr>)
      })"

definition wh_destroy :: "time_wheel \<Rightarrow> time_wheel option" where
  "wh_destroy w = fold (\<lambda>i r. do { v \<leftarrow> r; p \<leftarrow> wh_slot (int i) v; wh_destroy_slot i p v })
     [0..<nat tw_N] (Some w)"

section \<open>The lists a wheel represents\<close>

type_synonym tw_job = "int \<times> int \<times> nat option \<times> ptr"

definition tw_payload :: "tw_timer \<Rightarrow> tw_job" where
  "tw_payload n = (tw_rotation n, tw_time_slot n, tw_cb_func n, tw_user_data n)"

lemma tw_payload_simps [simp]: "tw_payload (n\<lparr>tw_next := p\<rparr>) = tw_payload n" "tw_payload (n\<lparr>tw_prev := p\<rparr>) = tw_payload n"
  "tw_payload (n\<lparr>tw_rotation := r\<rparr>) = (r, snd (tw_payload n))"
  by (simp_all add: tw_payload_def)

interpretation tw: linked_node tw_next tw_prev tw_payload tw_set_next tw_set_prev
  by unfold_locales simp_all

abbreviation tw_chain :: "tw_timer heap \<Rightarrow> ptr \<Rightarrow> ptr \<Rightarrow> (addr \<times> tw_job) list \<Rightarrow> ptr \<Rightarrow> bool" where
  "tw_chain \<equiv> dll tw_next tw_prev tw_payload"

abbreviation tw_rot :: "addr \<times> tw_job \<Rightarrow> int" where "tw_rot x \<equiv> fst (snd x)"
abbreviation tw_slot :: "addr \<times> tw_job \<Rightarrow> int" where "tw_slot x \<equiv> fst (snd (snd x))"
abbreviation tw_cb :: "addr \<times> tw_job \<Rightarrow> nat option" where "tw_cb x \<equiv> fst (snd (snd (snd x)))"
abbreviation tw_ud :: "addr \<times> tw_job \<Rightarrow> ptr" where "tw_ud x \<equiv> snd (snd (snd (snd x)))"

text \<open>\<open>xss ! i\<close> is the list in slot \<open>i\<close>.\<close>

definition wh_rep :: "time_wheel \<Rightarrow> (addr \<times> tw_job) list list \<Rightarrow> bool" where
  "wh_rep w xss \<longleftrightarrow> length xss = 60 \<and> length (wh_slots w) = 60 \<and> 0 \<le> wh_cur_slot w \<and> wh_cur_slot w < 60 \<and>
     (\<forall>i < 60. tw_chain (wh_mem w) None (wh_slots w ! i) (xss ! i) None) \<and>
     (\<forall>i < 60. distinct (map fst (xss ! i))) \<and>
     (\<forall>i < 60. \<forall>j < 60. i \<noteq> j \<longrightarrow> fst ` set (xss ! i) \<inter> fst ` set (xss ! j) = {}) \<and>
     (\<forall>i < 60. \<forall>x \<in> set (xss ! i). tw_slot x = int i \<and> 0 \<le> tw_rot x)"

lemma wh_repD:
  assumes "wh_rep w xss"
  shows wh_rep_len: "length xss = 60" "length (wh_slots w) = 60"
    and wh_rep_cur: "0 \<le> wh_cur_slot w" "wh_cur_slot w < 60"
    and wh_rep_chain: "i < 60 \<Longrightarrow> tw_chain (wh_mem w) None (wh_slots w ! i) (xss ! i) None"
    and wh_rep_distinct: "i < 60 \<Longrightarrow> distinct (map fst (xss ! i))"
    and wh_rep_disjoint: "i < 60 \<Longrightarrow> j < 60 \<Longrightarrow> i \<noteq> j \<Longrightarrow> fst ` set (xss ! i) \<inter> fst ` set (xss ! j) = {}"
    and wh_rep_entry: "i < 60 \<Longrightarrow> x \<in> set (xss ! i) \<Longrightarrow> tw_slot x = int i \<and> 0 \<le> tw_rot x"
  using assms unfolding wh_rep_def by blast+

text \<open>One turn of a slot: who is called and who stays, one rotation nearer.\<close>

definition turn_fired :: "(addr \<times> tw_job) list \<Rightarrow> (addr \<times> tw_job) list" where
  "turn_fired xs = filter (\<lambda>x. tw_rot x \<le> 0) xs"

definition turn_kept :: "(addr \<times> tw_job) list \<Rightarrow> (addr \<times> tw_job) list" where
  "turn_kept xs = map (\<lambda>(a, r, j). (a, r - 1, j)) (filter (\<lambda>x. tw_rot x > 0) xs)"

definition tw_fire :: "(nat \<Rightarrow> ptr \<Rightarrow> 'w \<Rightarrow> 'w) \<Rightarrow> (addr \<times> tw_job) list \<Rightarrow> 'w \<Rightarrow> 'w" where
  "tw_fire call = fold (\<lambda>x. call (the (tw_cb x)) (tw_ud x))"

lemma turn_simps [simp]:
  "turn_fired [] = []" "turn_kept [] = []"
  "tw_rot x > 0 \<Longrightarrow> turn_fired (x # xs) = turn_fired xs"
  "tw_rot x > 0 \<Longrightarrow> turn_kept (x # xs) = (fst x, tw_rot x - 1, snd (snd x)) # turn_kept xs"
  "tw_rot x \<le> 0 \<Longrightarrow> turn_fired (x # xs) = x # turn_fired xs"
  "tw_rot x \<le> 0 \<Longrightarrow> turn_kept (x # xs) = turn_kept xs"
  by (auto simp: turn_fired_def turn_kept_def split: prod.splits)

lemma tw_fire_simps [simp]: "tw_fire call [] s = s"
  "tw_fire call (x # xs) s = tw_fire call xs (call (the (tw_cb x)) (tw_ud x) s)"
  by (simp_all add: tw_fire_def)

lemma set_turn_kept: "fst ` set (turn_kept xs) \<subseteq> fst ` set xs"
  by (force simp: turn_kept_def)

lemma tw_payloadD: "tw_payload n = j \<Longrightarrow> tw_rotation n = fst j \<and> tw_time_slot n = fst (snd j) \<and>
    tw_cb_func n = fst (snd (snd j)) \<and> tw_user_data n = snd (snd (snd j))"
  by (auto simp: tw_payload_def)

lemma wh_update_swap: "w\<lparr>wh_slots := a, wh_mem := b\<rparr> = w\<lparr>wh_mem := b, wh_slots := a\<rparr>"
  by simp

lemma wh_tick_loop_ok:
  assumes "tw_chain (wh_mem w) None (wh_slots w ! c) (us @ ys) None" "distinct (map fst (us @ ys))"
    "wh_cur_slot w = int c" "c < 60" "length (wh_slots w) = 60"
    "\<And>y. y \<in> set (turn_fired ys) \<Longrightarrow> tw_cb y \<noteq> None"
  shows "\<exists>m' h. wh_tick_loop call (start ys) w s =
      Some (w\<lparr>wh_mem := m', wh_slots := (wh_slots w)[c := h]\<rparr>, tw_fire call (turn_fired ys) s) \<and>
    tw_chain m' None h (us @ turn_kept ys) None \<and>
    (\<forall>a. a \<notin> fst ` set (us @ ys) \<longrightarrow> m' a = wh_mem w a) \<and>
    (\<forall>y \<in> set (turn_fired ys). m' (fst y) = None)"
  using assms
proof (induction ys arbitrary: us w s)
  case Nil
  then show ?case
    by (auto simp: wh_tick_loop.simps list_update_id intro!: exI [of _ "wh_mem w"] exI [of _ "wh_slots w ! c"])
next
  case (Cons y ys)
  obtain n where n: "wh_mem w (fst y) = Some n" "tw_payload n = snd y" "tw_next n = start ys" "tw_prev n = lastp None us"
    using Cons.prems(1) by (auto simp: start_def dest: dll_start)
  show ?case
  proof (cases "tw_rot y > 0")
    case True
    let ?y = "(fst y, tw_rot y - 1, snd (snd y))"
    let ?w = "w\<lparr>wh_mem := (wh_mem w)(fst y \<mapsto> n\<lparr>tw_rotation := tw_rotation n - 1\<rparr>)\<rparr>"
    have rot: "tw_rotation n = tw_rot y"
      using tw_payloadD [OF n(2)] by simp
    have ch: "tw_chain (wh_mem ?w) None (wh_slots ?w ! c) ((us @ [?y]) @ ys) None"
      using Cons.prems(1,2) n rot by auto
    have hyps: "distinct (map fst ((us @ [?y]) @ ys))" "wh_cur_slot ?w = int c" "length (wh_slots ?w) = 60"
      "\<And>z. z \<in> set (turn_fired ys) \<Longrightarrow> tw_cb z \<noteq> None"
      using Cons.prems(2,3,5,6) True by simp_all
    obtain m' h where
      "wh_tick_loop call (start ys) ?w s =
         Some (?w\<lparr>wh_mem := m', wh_slots := (wh_slots ?w)[c := h]\<rparr>, tw_fire call (turn_fired ys) s)"
      "tw_chain m' None h ((us @ [?y]) @ turn_kept ys) None"
      "\<forall>a. a \<notin> fst ` set ((us @ [?y]) @ ys) \<longrightarrow> m' a = wh_mem ?w a"
      "\<forall>y \<in> set (turn_fired ys). m' (fst y) = None"
      using Cons.IH [OF ch hyps(1,2) Cons.prems(4) hyps(3,4), of s] by blast
    moreover have "wh_tick_loop call (Some (fst y)) w s = wh_tick_loop call (start ys) ?w s"
      using n rot True by (simp add: wh_tick_loop.simps [of _ "Some (fst y)"])
    ultimately show ?thesis
      using True n(1) by (intro exI [of _ m'] exI [of _ h]) auto
  next
    case False
    then obtain f where f: "tw_cb y = Some f"
      using Cons.prems(6) [of y] by auto
    have rot: "\<not> tw_rotation n > 0" "tw_cb_func n = Some f" "tw_user_data n = tw_ud y"
      using tw_payloadD [OF n(2)] False f by auto
    have c: "0 \<le> wh_cur_slot w" "wh_cur_slot w < tw_N" "nat (wh_cur_slot w) = c"
      using Cons.prems(3,4) by (auto simp: tw_N_def)
    have cb: "\<And>z. z \<in> set (turn_fired ys) \<Longrightarrow> tw_cb z \<noteq> None"
      using Cons.prems(6) False by auto
    have notin: "fst y \<notin> fst ` set us" "fst y \<notin> fst ` set ys" "distinct (map fst (us @ ys))"
      using Cons.prems(2) by auto
    show ?thesis
    proof (cases us)
      case Nil
      obtain m1 where m1: "(if tw_next n = None then Some (wh_mem w) else store (tw_next n) (tw_set_prev None) (wh_mem w)) = Some m1"
        "tw_chain m1 None (tw_next n) ys None" "\<forall>z. z \<notin> fst ` set ys \<longrightarrow> m1 z = wh_mem w z"
        using tw.unlink_first [of "wh_mem w" "wh_slots w ! c" y ys] Cons.prems(1,2) Nil n(1) by auto
      let ?w = "w\<lparr>wh_mem := m1(fst y := None), wh_slots := (wh_slots w)[c := tw_next n]\<rparr>"
      have "(if tw_next n = None then Some ((wh_mem w)(fst y := None))
          else store (tw_next n) (tw_set_prev None) ((wh_mem w)(fst y := None))) = Some (m1(fst y := None))"
        using m1(1) notin(2) n(3) by (cases ys) (auto simp: store_def bind_eq_Some_conv fun_upd_twist)
      then have step: "wh_tick_loop call (Some (fst y)) w s = wh_tick_loop call (start ys) ?w (call f (tw_ud y) s)"
        using n rot c Nil Cons.prems(1,5)
        by (auto simp: wh_tick_loop.simps [of _ "Some (fst y)"] wh_slot_def wh_set_slot_def wh_update_swap)
      have ch: "tw_chain (wh_mem ?w) None (wh_slots ?w ! c) ([] @ ys) None"
        using m1(2) notin(2) Cons.prems(4,5) by simp
      have hyps: "distinct (map fst ([] @ ys))" "wh_cur_slot ?w = int c" "length (wh_slots ?w) = 60"
        using notin(3) Cons.prems(3,5) by simp_all
      obtain m' h where
        "wh_tick_loop call (start ys) ?w (call f (tw_ud y) s) =
           Some (?w\<lparr>wh_mem := m', wh_slots := (wh_slots ?w)[c := h]\<rparr>, tw_fire call (turn_fired ys) (call f (tw_ud y) s))"
        "tw_chain m' None h ([] @ turn_kept ys) None"
        "\<forall>a. a \<notin> fst ` set ([] @ ys) \<longrightarrow> m' a = wh_mem ?w a"
        "\<forall>y \<in> set (turn_fired ys). m' (fst y) = None"
        using Cons.IH [OF ch hyps(1,2) Cons.prems(4) hyps(3) cb, of "call f (tw_ud y) s"] by blast
      then show ?thesis
        using step m1(3) False f notin(2) Nil by (intro exI [of _ m'] exI [of _ h]) auto
    next
      case (Cons u us')
      then have ne: "us \<noteq> []" by simp
      obtain m1 where m1: "do { m1 \<leftarrow> store (tw_prev n) (tw_set_next (tw_next n)) (wh_mem w);
           if tw_next n = None then Some m1 else store (tw_next n) (tw_set_prev (tw_prev n)) m1 } = Some m1"
        "tw_chain m1 None (wh_slots w ! c) (us @ ys) None" "m1 (fst y) = Some n"
        "\<forall>z. z \<notin> fst ` set (us @ ys) \<longrightarrow> m1 z = wh_mem w z"
        using tw.unlink_inner [OF Cons.prems(1) ne Cons.prems(2)] n(1) by fastforce
      let ?w = "w\<lparr>wh_mem := m1(fst y := None)\<rparr>"
      have "wh_slots w ! c \<noteq> Some (fst y)"
        using Cons Cons.prems(1) notin(1) by auto
      then have step: "wh_tick_loop call (Some (fst y)) w s = wh_tick_loop call (start ys) ?w (call f (tw_ud y) s)"
        using n rot c m1
        by (auto simp: wh_tick_loop.simps [of _ "Some (fst y)"] wh_slot_def bind_eq_Some_conv)
      have ch: "tw_chain (wh_mem ?w) None (wh_slots ?w ! c) (us @ ys) None"
        using m1(2) notin by simp
      have hyps: "wh_cur_slot ?w = int c" "length (wh_slots ?w) = 60"
        using Cons.prems(3,5) by simp_all
      obtain m' h where
        "wh_tick_loop call (start ys) ?w (call f (tw_ud y) s) =
           Some (?w\<lparr>wh_mem := m', wh_slots := (wh_slots ?w)[c := h]\<rparr>, tw_fire call (turn_fired ys) (call f (tw_ud y) s))"
        "tw_chain m' None h (us @ turn_kept ys) None"
        "\<forall>a. a \<notin> fst ` set (us @ ys) \<longrightarrow> m' a = wh_mem ?w a"
        "\<forall>y \<in> set (turn_fired ys). m' (fst y) = None"
        using Cons.IH [OF ch notin(3) hyps(1) Cons.prems(4) hyps(2) cb, of "call f (tw_ud y) s"] by blast
      then show ?thesis
        using step m1(4) False f notin by (intro exI [of _ m'] exI [of _ h]) auto
    qed
  qed
qed


lemma distinct_turn_kept: "distinct (map fst xs) \<Longrightarrow> distinct (map fst (turn_kept xs))"
proof (induction xs)
  case (Cons x xs)
  then show ?case using set_turn_kept [of xs] by (cases "tw_rot x > 0") auto
qed simp

lemma turn_kept_slot: "y \<in> set (turn_kept xs) \<Longrightarrow> \<exists>x \<in> set xs. fst y = fst x \<and> tw_slot y = tw_slot x \<and>
    tw_rot y = tw_rot x - 1 \<and> 0 < tw_rot x \<and> tw_cb y = tw_cb x \<and> tw_ud y = tw_ud x"
  by (force simp: turn_kept_def)

lemma turn_keptI: "x \<in> set xs \<Longrightarrow> 0 < tw_rot x \<Longrightarrow> (fst x, tw_rot x - 1, snd (snd x)) \<in> set (turn_kept xs)"
  by (cases x) (force simp: turn_kept_def)

lemma dll_cong_set:
  "(\<And>a. a \<in> fst ` set xs \<Longrightarrow> m' a = m a) \<Longrightarrow> dll nx pv dt m' q p xs r \<longleftrightarrow> dll nx pv dt m q p xs r"
  by (induction xs arbitrary: q p) auto

text \<open>Replacing the list of one slot.\<close>

lemma wh_rep_set_slot:
  assumes rep: "wh_rep w xss" and i: "i < 60"
    and ch: "tw_chain m' None h ys None" and ds: "distinct (map fst ys)"
    and frame: "\<And>a. a \<notin> fst ` set (xss ! i) \<Longrightarrow> a \<notin> fst ` set ys \<Longrightarrow> m' a = wh_mem w a"
    and fresh: "\<And>j. j < 60 \<Longrightarrow> j \<noteq> i \<Longrightarrow> fst ` set ys \<inter> fst ` set (xss ! j) = {}"
    and entry: "\<And>y. y \<in> set ys \<Longrightarrow> tw_slot y = int i \<and> 0 \<le> tw_rot y"
  shows "wh_rep (w\<lparr>wh_mem := m', wh_slots := (wh_slots w)[i := h]\<rparr>) (xss[i := ys])"
  unfolding wh_rep_def
proof (intro conjI allI impI ballI)
  fix j :: nat assume j: "j < 60"
  show "tw_chain (wh_mem (w\<lparr>wh_mem := m', wh_slots := (wh_slots w)[i := h]\<rparr>)) None
     (wh_slots (w\<lparr>wh_mem := m', wh_slots := (wh_slots w)[i := h]\<rparr>) ! j) (xss[i := ys] ! j) None"
  proof (cases "j = i")
    case True
    with ch i wh_rep_len [OF rep] show ?thesis by simp
  next
    case False
    have "m' a = wh_mem w a" if "a \<in> fst ` set (xss ! j)" for a
      by (rule frame) (use that False fresh [OF j] wh_rep_disjoint [OF rep j i] in \<open>auto\<close>)
    then have "tw_chain m' None (wh_slots w ! j) (xss ! j) None \<longleftrightarrow> tw_chain (wh_mem w) None (wh_slots w ! j) (xss ! j) None"
      by (rule dll_cong_set)
    with False wh_rep_chain [OF rep j] show ?thesis by simp
  qed
  show "distinct (map fst (xss[i := ys] ! j))"
    using wh_rep_distinct [OF rep j] ds i wh_rep_len [OF rep] by (cases "j = i") auto
  fix x assume "x \<in> set (xss[i := ys] ! j)"
  then show "tw_slot x = int j" "0 \<le> tw_rot x"
    using wh_rep_entry [OF rep j, of x] entry [of x] i wh_rep_len [OF rep] by (cases "j = i"; auto)+
next
  fix j k :: nat assume "j < 60" "k < 60" "j \<noteq> k"
  then show "fst ` set (xss[i := ys] ! j) \<inter> fst ` set (xss[i := ys] ! k) = {}"
    using wh_rep_disjoint [OF rep, of j k] fresh [of j] fresh [of k] i wh_rep_len [OF rep]
    by (cases "j = i"; cases "k = i") auto
qed (use wh_rep_len [OF rep] wh_rep_cur [OF rep] in simp_all)

lemma wh_rep_set_cur: "wh_rep w xss \<Longrightarrow> 0 \<le> c \<Longrightarrow> c < 60 \<Longrightarrow> wh_rep (w\<lparr>wh_cur_slot := c\<rparr>) xss"
  by (simp add: wh_rep_def)

lemma wh_tick_ok:
  assumes rep: "wh_rep w xss" and c: "wh_cur_slot w = int c"
    and cb: "\<And>y. y \<in> set (turn_fired (xss ! c)) \<Longrightarrow> tw_cb y \<noteq> None"
  shows "\<exists>w'. wh_tick call w s = Some (w', tw_fire call (turn_fired (xss ! c)) s) \<and>
    wh_rep w' (xss[c := turn_kept (xss ! c)]) \<and> wh_cur_slot w' = (int c + 1) mod 60 \<and>
    (\<forall>y \<in> set (turn_fired (xss ! c)). wh_mem w' (fst y) = None)"
proof -
  have c60: "c < 60" using wh_rep_cur [OF rep] c by simp
  have ch: "tw_chain (wh_mem w) None (wh_slots w ! c) ([] @ xss ! c) None"
    and ds: "distinct (map fst ([] @ xss ! c))"
    using wh_rep_chain [OF rep c60] wh_rep_distinct [OF rep c60] by simp_all
  have st: "start (xss ! c) = wh_slots w ! c"
    using dll_start [OF ch] by (simp add: start_def)
  obtain m' h where l: "wh_tick_loop call (start (xss ! c)) w s =
      Some (w\<lparr>wh_mem := m', wh_slots := (wh_slots w)[c := h]\<rparr>, tw_fire call (turn_fired (xss ! c)) s)"
    "tw_chain m' None h ([] @ turn_kept (xss ! c)) None"
    "\<forall>a. a \<notin> fst ` set ([] @ xss ! c) \<longrightarrow> m' a = wh_mem w a"
    "\<forall>y \<in> set (turn_fired (xss ! c)). m' (fst y) = None"
    using wh_tick_loop_ok [OF ch ds c c60 wh_rep_len(2) [OF rep] cb, of call s] by blast
  let ?w = "w\<lparr>wh_mem := m', wh_slots := (wh_slots w)[c := h]\<rparr>"
  have tick: "wh_tick call w s = Some (?w\<lparr>wh_cur_slot := (int c + 1) mod 60\<rparr>, tw_fire call (turn_fired (xss ! c)) s)"
    using l(1) st c c60 by (simp add: wh_tick_def wh_slot_def tw_N_def)
  have "wh_rep ?w (xss[c := turn_kept (xss ! c)])"
  proof (rule wh_rep_set_slot [OF rep c60])
    show "distinct (map fst (turn_kept (xss ! c)))"
      using distinct_turn_kept wh_rep_distinct [OF rep c60] by blast
    show "fst ` set (turn_kept (xss ! c)) \<inter> fst ` set (xss ! j) = {}" if "j < 60" "j \<noteq> c" for j
      using set_turn_kept [of "xss ! c"] wh_rep_disjoint [OF rep that(1) c60 that(2)] by blast
    show "tw_slot y = int c \<and> 0 \<le> tw_rot y" if "y \<in> set (turn_kept (xss ! c))" for y
      using turn_kept_slot [OF that] wh_rep_entry [OF rep c60] by force
  qed (use l(2,3) in auto)
  then have "wh_rep (?w\<lparr>wh_cur_slot := (int c + 1) mod 60\<rparr>) (xss[c := turn_kept (xss ! c)])"
    by (rule wh_rep_set_cur) simp_all
  with tick l(4) show ?thesis by auto
qed

lemma wh_rep_alive: "wh_rep w xss \<Longrightarrow> i < 60 \<Longrightarrow> a \<in> fst ` set (xss ! i) \<Longrightarrow> wh_mem w a \<noteq> None"
  by (auto dest!: dll_alive [OF wh_rep_chain])

definition wh_target :: "int \<Rightarrow> time_wheel \<Rightarrow> nat" where
  "wh_target timeout w = nat ((wh_cur_slot w + wh_ticks timeout mod 60) mod 60)"

lemma wh_target_less: "wh_target timeout w < 60"
  by (simp add: wh_target_def nat_less_iff)

lemma wh_ticks_pos: "0 < wh_ticks timeout"
  by (simp add: wh_ticks_def tw_SI_def)

lemma wh_add_timer_ok:
  assumes rep: "wh_rep w xss" and t: "0 \<le> timeout" and a: "wh_mem w a = None"
    and i: "i = wh_target timeout w"
  shows "\<exists>w'. wh_add_timer timeout a w = Some (Some a, w') \<and>
    wh_rep w' (xss[i := (a, wh_ticks timeout div 60, int i, None, None) # xss ! i]) \<and>
    wh_cur_slot w' = wh_cur_slot w"
proof -
  let ?n = "new_tw_timer (wh_ticks timeout div 60) (int i)"
  let ?x = "(a, wh_ticks timeout div 60, int i, None, None)"
  have i60: "i < 60" by (simp add: i wh_target_less)
  have ts: "(wh_cur_slot w + wh_ticks timeout mod 60) mod 60 = int i"
    by (simp add: i wh_target_def)
  have alive: "a \<notin> fst ` set (xss ! j)" if "j < 60" for j
    using wh_rep_alive [OF rep that, of a] a by auto
  have pay: "tw_payload ?n = snd ?x" "tw_prev ?n = None" "tw_next ?n = None"
    by (simp_all add: new_tw_timer_def tw_payload_def)
  let ?m = "(wh_mem w)(a \<mapsto> ?n)"
  have ch: "tw_chain ?m None (wh_slots w ! i) (xss ! i) None"
    using wh_rep_chain [OF rep i60] alive [OF i60] by simp
  have fin: "wh_rep (w\<lparr>wh_mem := m', wh_slots := (wh_slots w)[i := Some a]\<rparr>) (xss[i := ?x # xss ! i])"
    if "tw_chain m' None (Some a) (?x # xss ! i) None" "\<forall>z. z \<notin> fst ` set (?x # xss ! i) \<longrightarrow> m' z = ?m z" for m'
  proof (rule wh_rep_set_slot [OF rep i60])
    show "distinct (map fst (?x # xss ! i))"
      using alive [OF i60] wh_rep_distinct [OF rep i60] by simp
    show "tw_slot y = int i \<and> 0 \<le> tw_rot y" if "y \<in> set (?x # xss ! i)" for y
      using that wh_rep_entry [OF rep i60, of y] wh_ticks_pos [of timeout] by auto
    show "fst ` set (?x # xss ! i) \<inter> fst ` set (xss ! j) = {}" if "j < 60" "j \<noteq> i" for j
      using alive [OF that(1)] wh_rep_disjoint [OF rep that(1) i60 that(2)] by auto
  qed (use that in auto)
  show ?thesis
  proof (cases "xss ! i")
    case Nil
    then have "wh_slots w ! i = None" using ch by simp
    then have "wh_add_timer timeout a w = Some (Some a, w\<lparr>wh_mem := ?m, wh_slots := (wh_slots w)[i := Some a]\<rparr>)"
      using t i60 ts by (simp add: wh_add_timer_def wh_slot_def wh_set_slot_def tw_N_def Let_def)
    with fin [of ?m] Nil pay show ?thesis by simp
  next
    case (Cons y ys)
    then have h: "wh_slots w ! i = Some (fst y)" using ch by simp
    obtain m' where m': "do { m1 \<leftarrow> store (Some a) (tw_set_next (Some (fst y))) ?m;
         store (Some (fst y)) (tw_set_prev (Some a)) m1 } = Some m'"
      "tw_chain m' None (Some a) (?x # xss ! i) None"
      "\<forall>z. z \<notin> fst ` set (?x # xss ! i) \<longrightarrow> m' z = ?m z"
      using tw.link_first [of ?m "Some (fst y)" y ys ?x ?n] ch h Cons pay alive [OF i60] wh_rep_distinct [OF rep i60]
      by auto
    then have "wh_add_timer timeout a w = Some (Some a, w\<lparr>wh_mem := m', wh_slots := (wh_slots w)[i := Some a]\<rparr>)"
      using t i60 ts h
      by (auto simp: wh_add_timer_def wh_slot_def wh_set_slot_def tw_N_def Let_def bind_eq_Some_conv)
    with fin [OF m'(2,3)] show ?thesis by simp
  qed
qed

lemma wh_del_timer_ok:
  assumes rep: "wh_rep w xss" and i: "i < 60" and xs: "xss ! i = us @ x # vs"
  shows "\<exists>w'. wh_del_timer (Some (fst x)) w = Some w' \<and> wh_rep w' (xss[i := us @ vs]) \<and>
    wh_mem w' (fst x) = None \<and> wh_cur_slot w' = wh_cur_slot w"
proof -
  have ch: "tw_chain (wh_mem w) None (wh_slots w ! i) (us @ x # vs) None"
    and ds: "distinct (map fst (us @ x # vs))" and entry: "tw_slot x = int i"
    using wh_rep_chain [OF rep i] wh_rep_distinct [OF rep i] wh_rep_entry [OF rep i, of x] xs by auto
  have fin: "wh_rep (w\<lparr>wh_mem := m'(fst x := None), wh_slots := (wh_slots w)[i := h]\<rparr>) (xss[i := us @ vs])"
    if "tw_chain m' None h (us @ vs) None" "\<forall>z. z \<notin> fst ` set (us @ x # vs) \<longrightarrow> m' z = wh_mem w z" for m' h
  proof (rule wh_rep_set_slot [OF rep i])
    show "tw_chain (m'(fst x := None)) None h (us @ vs) None"
      using that(1) ds by auto
    show "tw_slot y = int i \<and> 0 \<le> tw_rot y" if "y \<in> set (us @ vs)" for y
      using that wh_rep_entry [OF rep i, of y] xs by auto
    show "fst ` set (us @ vs) \<inter> fst ` set (xss ! j) = {}" if "j < 60" "j \<noteq> i" for j
      using wh_rep_disjoint [OF rep that(1) i that(2)] xs by auto
  qed (use that ds xs in auto)
  show ?thesis
  proof (cases us)
    case Nil
    then obtain n m' where n: "wh_mem w (fst x) = Some n" "tw_payload n = snd x"
      "(if tw_next n = None then Some (wh_mem w) else store (tw_next n) (tw_set_prev None) (wh_mem w)) = Some m'"
      "tw_chain m' None (tw_next n) vs None" "m' (fst x) = Some n"
      "\<forall>z. z \<notin> fst ` set vs \<longrightarrow> m' z = wh_mem w z"
      using tw.unlink_first [of "wh_mem w" "wh_slots w ! i" x vs] ch ds by auto
    have "wh_del_timer (Some (fst x)) w =
        Some (w\<lparr>wh_mem := m'(fst x := None), wh_slots := (wh_slots w)[i := tw_next n]\<rparr>)"
      using n Nil ch i entry tw_payloadD [OF n(2)]
      by (auto simp: wh_del_timer_def wh_slot_def wh_set_slot_def tw_N_def Let_def wh_update_swap)
    with fin [of m' "tw_next n"] n(4,6) Nil show ?thesis by simp
  next
    case (Cons u us')
    then have ne: "us \<noteq> []" by simp
    obtain n m' where n: "wh_mem w (fst x) = Some n" "tw_payload n = snd x"
      "do { m1 \<leftarrow> store (tw_prev n) (tw_set_next (tw_next n)) (wh_mem w);
         if tw_next n = None then Some m1 else store (tw_next n) (tw_set_prev (tw_prev n)) m1 } = Some m'"
      "tw_chain m' None (wh_slots w ! i) (us @ vs) None" "m' (fst x) = Some n"
      "\<forall>z. z \<notin> fst ` set (us @ vs) \<longrightarrow> m' z = wh_mem w z"
      using tw.unlink_inner [OF ch ne ds] by blast
    have "wh_slots w ! i \<noteq> Some (fst x)"
      using ch ds Cons by auto
    then have "wh_del_timer (Some (fst x)) w = Some (w\<lparr>wh_mem := m'(fst x := None)\<rparr>)"
      using n(1,3,5) i entry tw_payloadD [OF n(2)]
      by (auto simp: wh_del_timer_def wh_slot_def tw_N_def Let_def bind_eq_Some_conv)
    with fin [OF n(4)] n(6) show ?thesis by simp
  qed
qed

lemma wh_destroy_slot_ok:
  assumes "tw_chain (wh_mem w) q p xs None" "distinct (map fst xs)" "i < 60" "length (wh_slots w) = 60"
    "wh_slots w ! i = p"
  shows "wh_destroy_slot i p w =
    Some (w\<lparr>wh_slots := (wh_slots w)[i := None], wh_mem := wh_mem w |` (- fst ` set xs)\<rparr>)"
  using assms
proof (induction xs arbitrary: w p q)
  case Nil
  then have "(wh_slots w)[i := None] = wh_slots w" by (metis dll.simps(1) list_update_id)
  with Nil show ?case by (simp add: wh_destroy_slot.simps)
next
  case (Cons x ys)
  then obtain n where n: "p = Some (fst x)" "wh_mem w (fst x) = Some n" "fst x \<notin> fst ` set ys"
    "tw_chain (wh_mem w) (Some (fst x)) (tw_next n) ys None"
    by auto
  let ?w = "w\<lparr>wh_slots := (wh_slots w)[i := tw_next n], wh_mem := (wh_mem w)(fst x := None)\<rparr>"
  have "wh_destroy_slot i (tw_next n) ?w =
    Some (?w\<lparr>wh_slots := (wh_slots ?w)[i := None], wh_mem := wh_mem ?w |` (- fst ` set ys)\<rparr>)"
  proof (rule Cons.IH)
    show "tw_chain (wh_mem ?w) (Some (fst x)) (tw_next n) ys None" using n by simp
  qed (use Cons.prems in simp_all)
  moreover have "(wh_mem w)(fst x := None) |` (- fst ` set ys) = wh_mem w |` (- fst ` set (x # ys))"
    by (auto simp: restrict_map_def fun_eq_iff)
  ultimately show ?case
    using n Cons.prems by (simp add: wh_destroy_slot.simps [of _ "Some (fst x)"] wh_set_slot_def tw_N_def)
qed

lemma dll_restrict: "fst ` set xs \<subseteq> A \<Longrightarrow> dll nx pv dt (m |` A) q p xs r \<longleftrightarrow> dll nx pv dt m q p xs r"
  by (induction xs arbitrary: q p) auto

text \<open>The destructor up to slot \<open>n\<close>.\<close>

lemma wh_destroy_upto:
  assumes "wh_rep w xss" "n \<le> 60"
  shows "fold (\<lambda>i r. do { v \<leftarrow> r; p \<leftarrow> wh_slot (int i) v; wh_destroy_slot i p v }) [0..<n] (Some w) =
    Some (w\<lparr>wh_slots := replicate n None @ drop n (wh_slots w),
      wh_mem := wh_mem w |` (- (\<Union>i < n. fst ` set (xss ! i)))\<rparr>)"
  using assms(2)
proof (induction n)
  case 0
  then show ?case by (simp add: restrict_map_def)
next
  case (Suc n)
  let ?A = "- (\<Union>i < n. fst ` set (xss ! i))"
  let ?w = "w\<lparr>wh_slots := replicate n None @ drop n (wh_slots w), wh_mem := wh_mem w |` ?A\<rparr>"
  have len: "length (wh_slots w) = 60" by (rule wh_rep_len [OF assms(1)])
  have "fst ` set (xss ! n) \<subseteq> ?A"
  proof
    fix a assume "a \<in> fst ` set (xss ! n)"
    moreover have "fst ` set (xss ! n) \<inter> fst ` set (xss ! j) = {}" if "j < n" for j
      using wh_rep_disjoint [OF assms(1), of n j] Suc.prems that by simp
    ultimately show "a \<in> ?A" by blast
  qed
  then have "tw_chain (wh_mem ?w) None (wh_slots w ! n) (xss ! n) None"
    using wh_rep_chain [OF assms(1), of n] Suc.prems by (simp add: dll_restrict)
  then have "wh_destroy_slot n (wh_slots w ! n) ?w = Some (?w\<lparr>wh_slots := (wh_slots ?w)[n := None],
      wh_mem := wh_mem ?w |` (- fst ` set (xss ! n))\<rparr>)"
    by (rule wh_destroy_slot_ok)
      (use Suc.prems len wh_rep_distinct [OF assms(1), of n] in \<open>simp_all add: nth_append\<close>)
  moreover have "(replicate n None @ drop n (wh_slots w))[n := None] =
      replicate (Suc n) None @ drop (Suc n) (wh_slots w)"
    using Suc.prems len
    by (simp add: list_update_append Cons_nth_drop_Suc [symmetric] replicate_append_same del: replicate_Suc)
      (simp add: replicate_append_same)
  moreover have "wh_mem w |` ?A |` (- fst ` set (xss ! n)) = wh_mem w |` (- (\<Union>i < Suc n. fst ` set (xss ! i)))"
    unfolding lessThan_Suc by (simp add: restrict_map_def fun_eq_iff)
  moreover have "wh_slot (int n) ?w = Some (wh_slots w ! n)"
    using Suc.prems len by (simp add: wh_slot_def tw_N_def nth_append)
  ultimately show ?case using Suc by simp
qed

section \<open>The wheel as a set of countdowns\<close>

text \<open>What a timer facility driven by \<open>tick\<close> calls promises: an entry \<open>(x, k)\<close> is called in the
  tick that follows \<open>k\<close> other ones.\<close>

locale countdown =
  fixes counts :: "'s \<Rightarrow> ('k \<times> nat) set \<Rightarrow> bool"
    and step :: "'s \<Rightarrow> 's option"
  assumes step: "counts s P \<Longrightarrow> \<exists>s'. step s = Some s' \<and> counts s' {(x, k) | x k. (x, Suc k) \<in> P}"
begin

primrec steps :: "nat \<Rightarrow> 's \<Rightarrow> 's option" where
  "steps 0 s = Some s"
| "steps (Suc n) s = Option.bind (step s) (steps n)"

lemma steps_count_down:
  "counts s P \<Longrightarrow> \<exists>s'. steps n s = Some s' \<and> counts s' {(x, k) | x k. (x, n + k) \<in> P}"
proof (induction n arbitrary: s P)
  case 0
  then show ?case by simp
next
  case (Suc n)
  obtain s1 where s1: "step s = Some s1" "counts s1 {(x, k) | x k. (x, Suc k) \<in> P}"
    using step [OF Suc.prems] by blast
  from Suc.IH [OF s1(2)] s1(1) show ?case by simp
qed

end

definition wh_left :: "int \<Rightarrow> nat \<Rightarrow> int \<Rightarrow> nat" where
  "wh_left cur i r = nat ((int i - cur) mod 60 + 60 * r)"

definition wh_pending :: "int \<Rightarrow> (addr \<times> tw_job) list list \<Rightarrow> ((addr \<times> nat option \<times> ptr) \<times> nat) set" where
  "wh_pending cur xss =
     {((fst x, snd (snd (snd x))), wh_left cur i (tw_rot x)) | i x. i < 60 \<and> x \<in> set (xss ! i)}"

definition wh_counts :: "time_wheel \<Rightarrow> ((addr \<times> nat option \<times> ptr) \<times> nat) set \<Rightarrow> bool" where
  "wh_counts w P \<longleftrightarrow> (\<exists>xss. wh_rep w xss \<and> P = wh_pending (wh_cur_slot w) xss \<and>
     (\<forall>i < 60. \<forall>x \<in> set (xss ! i). tw_cb x \<noteq> None))"

lemma wh_pendingI:
  "i < 60 \<Longrightarrow> x \<in> set (xss ! i) \<Longrightarrow> j = (fst x, snd (snd (snd x))) \<Longrightarrow> k = wh_left cur i (tw_rot x) \<Longrightarrow>
    (j, k) \<in> wh_pending cur xss"
  unfolding wh_pending_def by blast

lemma wh_pendingE:
  assumes "(j, k) \<in> wh_pending cur xss"
  obtains i x where "i < 60" "x \<in> set (xss ! i)" "j = (fst x, snd (snd (snd x)))" "k = wh_left cur i (tw_rot x)"
  using assms unfolding wh_pending_def by blast

lemma slot_distance:
  assumes "i < 60" "c < 60"
  shows "(int i - int c) mod 60 = (if c \<le> i then int i - int c else int i - int c + 60)"
proof (cases "c \<le> i")
  case True
  with assms show ?thesis by (simp add: mod_pos_pos_trivial)
next
  case False
  have "(int i - int c) mod 60 = (int i - int c + 60) mod 60" by simp
  also have "\<dots> = int i - int c + 60"
    using assms False by (intro mod_pos_pos_trivial) simp_all
  finally show ?thesis using False by simp
qed

lemma next_slot: "c < 60 \<Longrightarrow> (int c + 1) mod 60 = int (if c = 59 then 0 else c + 1)"
  by (cases "c = 59") (simp_all add: mod_pos_pos_trivial)

lemma wh_left_here:
  "c < 60 \<Longrightarrow> 0 < r \<Longrightarrow> wh_left (int c) c r = Suc (wh_left ((int c + 1) mod 60) c (r - 1))"
  by (auto simp: wh_left_def next_slot slot_distance simp del: of_nat_add of_nat_Suc split: if_splits)

lemma wh_left_other:
  "c < 60 \<Longrightarrow> i < 60 \<Longrightarrow> i \<noteq> c \<Longrightarrow> 0 \<le> r \<Longrightarrow> wh_left (int c) i r = Suc (wh_left ((int c + 1) mod 60) i r)"
  by (auto simp: wh_left_def next_slot slot_distance simp del: of_nat_add of_nat_Suc split: if_splits)

lemma wh_left_zero: "c < 60 \<Longrightarrow> i < 60 \<Longrightarrow> 0 \<le> r \<Longrightarrow> wh_left (int c) i r = 0 \<longleftrightarrow> i = c \<and> r = 0"
  by (auto simp: wh_left_def slot_distance)

lemma wh_pending_turn:
  assumes rep: "wh_rep w xss" and c: "c < 60"
  shows "wh_pending ((int c + 1) mod 60) (xss[c := turn_kept (xss ! c)]) =
    {(x, k) | x k. (x, Suc k) \<in> wh_pending (int c) xss}" (is "?L = ?R")
proof -
  have here: "xss[c := turn_kept (xss ! c)] ! c = turn_kept (xss ! c)"
    using c wh_rep_len [OF rep] by simp
  have "(j, k) \<in> ?L \<longleftrightarrow> (j, Suc k) \<in> wh_pending (int c) xss" for j k
  proof
    assume "(j, k) \<in> ?L"
    then obtain i y where y: "i < 60" "y \<in> set (xss[c := turn_kept (xss ! c)] ! i)"
      "j = (fst y, snd (snd (snd y)))" "k = wh_left ((int c + 1) mod 60) i (tw_rot y)"
      by (rule wh_pendingE)
    show "(j, Suc k) \<in> wh_pending (int c) xss"
    proof (cases "i = c")
      case True
      then obtain x where x: "x \<in> set (xss ! c)" "fst y = fst x" "snd (snd (snd y)) = snd (snd (snd x))"
        "tw_rot y = tw_rot x - 1" "0 < tw_rot x"
        using y(2) here turn_kept_slot [of y "xss ! c"] by (auto simp: prod_eq_iff)
      show ?thesis
        by (rule wh_pendingI [OF c x(1)]) (use x y True wh_left_here [OF c x(5)] in simp_all)
    next
      case False
      with y(2) have x: "y \<in> set (xss ! i)" by simp
      show ?thesis
        by (rule wh_pendingI [OF y(1) x]) (use y wh_rep_entry [OF rep y(1) x] wh_left_other [OF c y(1) False] in simp_all)
    qed
  next
    assume "(j, Suc k) \<in> wh_pending (int c) xss"
    then obtain i x where x: "i < 60" "x \<in> set (xss ! i)" "j = (fst x, snd (snd (snd x)))"
      "Suc k = wh_left (int c) i (tw_rot x)"
      by (rule wh_pendingE)
    have r: "0 \<le> tw_rot x" using wh_rep_entry [OF rep x(1,2)] by simp
    show "(j, k) \<in> ?L"
    proof (cases "i = c")
      case True
      with x(4) r wh_left_zero [OF c c, of "tw_rot x"] have pos: "0 < tw_rot x" by force
      then have "(fst x, tw_rot x - 1, snd (snd x)) \<in> set (xss[c := turn_kept (xss ! c)] ! c)"
        using turn_keptI [of x "xss ! c"] x(2) True here by simp
      then show ?thesis
        by (rule wh_pendingI [OF c]) (use x True wh_left_here [OF c pos] in simp_all)
    next
      case False
      then have "x \<in> set (xss[c := turn_kept (xss ! c)] ! i)" using x(2) by simp
      then show ?thesis
        by (rule wh_pendingI [OF x(1)]) (use x wh_left_other [OF c x(1) False r] in simp_all)
    qed
  qed
  then show ?thesis by auto
qed

lemma wh_counts_tick:
  assumes "wh_counts w P"
  shows "\<exists>w' s'. wh_tick call w s = Some (w', s') \<and> wh_counts w' {(x, k) | x k. (x, Suc k) \<in> P}"
proof -
  from assms obtain xss where rep: "wh_rep w xss" and P: "P = wh_pending (wh_cur_slot w) xss"
    and cb: "\<forall>i < 60. \<forall>x \<in> set (xss ! i). tw_cb x \<noteq> None"
    unfolding wh_counts_def by blast
  obtain c where c: "wh_cur_slot w = int c" "c < 60"
    using wh_rep_cur [OF rep] that [of "nat (wh_cur_slot w)"] by simp
  have "\<And>y. y \<in> set (turn_fired (xss ! c)) \<Longrightarrow> tw_cb y \<noteq> None"
    using cb c(2) by (auto simp: turn_fired_def)
  from wh_tick_ok [OF rep c(1) this, of call s] obtain w' where
    w': "wh_tick call w s = Some (w', tw_fire call (turn_fired (xss ! c)) s)"
      "wh_rep w' (xss[c := turn_kept (xss ! c)])" "wh_cur_slot w' = (int c + 1) mod 60"
    by blast
  have "\<forall>i < 60. \<forall>x \<in> set (xss[c := turn_kept (xss ! c)] ! i). tw_cb x \<noteq> None"
  proof (intro allI impI ballI)
    fix i x assume "i < (60 :: nat)" "x \<in> set (xss[c := turn_kept (xss ! c)] ! i)"
    then show "tw_cb x \<noteq> None"
      using cb c wh_rep_len [OF rep] turn_kept_slot [of x "xss ! c"] by (cases "i = c") force+
  qed
  then have "wh_counts w' {(x, k) | x k. (x, Suc k) \<in> P}"
    unfolding wh_counts_def P c(1) wh_pending_turn [OF rep c(2), symmetric] w'(3) [symmetric]
    using w'(2) by blast
  with w'(1) show ?thesis by blast
qed

interpretation wheel: countdown "\<lambda>ws. wh_counts (fst ws)" "\<lambda>ws. wh_tick call (fst ws) (snd ws)" for call
proof
  fix ws :: "time_wheel \<times> 'a" and P
  assume "wh_counts (fst ws) P"
  from wh_counts_tick [OF this, of call "snd ws"]
  show "\<exists>s'. wh_tick call (fst ws) (snd ws) = Some s' \<and> wh_counts (fst s') {(x, k) | x k. (x, Suc k) \<in> P}"
    by force
qed

section \<open>Properties\<close>

primrec wh_run :: "(nat \<Rightarrow> ptr \<Rightarrow> 'w \<Rightarrow> 'w) \<Rightarrow> nat \<Rightarrow> time_wheel \<times> 'w \<Rightarrow> (time_wheel \<times> 'w) option" where
  "wh_run call 0 ws = Some ws"
| "wh_run call (Suc n) ws = Option.bind (wh_tick call (fst ws) (snd ws)) (wh_run call n)"

lemma wh_run_steps: "wh_run call n ws = wheel.steps call n ws"
  by (induction n arbitrary: ws) (simp_all cong: Option.bind_cong)

lemma wh_countsD:
  assumes "wh_counts w P"
  obtains xss c where "wh_rep w xss" "wh_cur_slot w = int c" "c < 60" "P = wh_pending (int c) xss"
    "\<forall>i < 60. \<forall>x \<in> set (xss ! i). tw_cb x \<noteq> None"
proof -
  from assms obtain xss where xss: "wh_rep w xss" "P = wh_pending (wh_cur_slot w) xss"
    "\<forall>i < 60. \<forall>x \<in> set (xss ! i). tw_cb x \<noteq> None"
    unfolding wh_counts_def by blast
  moreover have "wh_cur_slot w = int (nat (wh_cur_slot w))" "nat (wh_cur_slot w) < 60"
    using wh_rep_cur [OF xss(1)] by simp_all
  ultimately show thesis using that [of xss "nat (wh_cur_slot w)"] by metis
qed

lemma wh_left_add:
  assumes "0 \<le> cur" "cur < 60"
  shows "wh_left cur (nat ((cur + t mod 60) mod 60)) (t div 60) = nat t"
proof -
  have "((cur + t mod 60) mod 60 - cur) mod 60 = t mod 60"
    by (simp add: mod_diff_left_eq)
  then show ?thesis by (simp add: wh_left_def)
qed

lemma wh_pending_insert:
  assumes "length xss = 60" "i < 60"
  shows "wh_pending cur (xss[i := x # xss ! i]) =
    insert ((fst x, snd (snd (snd x))), wh_left cur i (tw_rot x)) (wh_pending cur xss)" (is "?L = insert ?e ?R")
proof (intro set_eqI iffI)
  fix y assume "y \<in> ?L"
  then obtain j k where y: "y = (j, k)" "(j, k) \<in> ?L" by (cases y) auto
  from y(2) show "y \<in> insert ?e ?R"
  proof (rule wh_pendingE)
    fix l z assume z: "l < 60" "z \<in> set (xss[i := x # xss ! i] ! l)" "j = (fst z, snd (snd (snd z)))"
      "k = wh_left cur l (tw_rot z)"
    then show ?thesis using y assms wh_pendingI [OF z(1) _ z(3,4)] by (cases "l = i") auto
  qed
next
  fix y assume "y \<in> insert ?e ?R"
  then consider "y = ?e" | "y \<in> ?R" by blast
  then show "y \<in> ?L"
  proof cases
    case 1
    then show ?thesis using assms by (auto intro!: wh_pendingI [of i x])
  next
    case 2
    then obtain j k where y: "y = (j, k)" "(j, k) \<in> ?R" by (cases y) auto
    from y(2) show ?thesis
    proof (rule wh_pendingE)
      fix l z assume z: "l < 60" "z \<in> set (xss ! l)" "j = (fst z, snd (snd (snd z)))" "k = wh_left cur l (tw_rot z)"
      then show ?thesis unfolding y(1)
        by (intro wh_pendingI [OF z(1) _ z(3,4)]) (use assms in \<open>cases "l = i"; simp\<close>)
    qed
  qed
qed

text \<open>\<open>add_timer\<close> with a non-negative timeout creates a timer at the head of its slot, without a
  fault, that is due after exactly \<open>max 1 timeout\<close> further ticks; every other countdown of the
  wheel is as before.\<close>

theorem wheel_add_sets_countdown:
  assumes "wh_rep w xss" "0 \<le> timeout" "wh_mem w a = None"
  shows "\<exists>w' xss'. wh_add_timer timeout a w = Some (Some a, w') \<and> wh_rep w' xss' \<and> wh_cur_slot w' = wh_cur_slot w \<and>
    wh_pending (wh_cur_slot w) xss' =
      insert ((a, None, None), nat (max 1 timeout)) (wh_pending (wh_cur_slot w) xss)"
proof -
  define i where "i = wh_target timeout w"
  let ?x = "(a, wh_ticks timeout div 60, int i, None, None)"
  have "i < 60" by (simp add: i_def wh_target_less)
  moreover have "wh_left (wh_cur_slot w) i (wh_ticks timeout div 60) = nat (max 1 timeout)"
    using wh_left_add [OF wh_rep_cur [OF assms(1)], of "wh_ticks timeout"] assms(2)
    by (simp add: i_def wh_target_def wh_ticks_def tw_SI_def max_def)
  ultimately have "wh_pending (wh_cur_slot w) (xss[i := ?x # xss ! i]) =
      insert ((a, None, None), nat (max 1 timeout)) (wh_pending (wh_cur_slot w) xss)"
    using wh_pending_insert [of xss i "wh_cur_slot w" ?x] wh_rep_len [OF assms(1)] by simp
  with wh_add_timer_ok [OF assms i_def] show ?thesis by blast
qed

lemma wheel_tick_fires:
  assumes "wh_counts w P"
  shows "\<exists>w' fired. wh_tick call w s = Some (w', tw_fire call fired s) \<and>
    (\<lambda>x. (fst x, snd (snd (snd x)))) ` set fired = {j. (j, 0) \<in> P} \<and> distinct (map fst fired) \<and>
    wh_counts w' {(j, k) | j k. (j, Suc k) \<in> P}"
proof -
  obtain xss c where xss: "wh_rep w xss" "wh_cur_slot w = int c" "c < 60" "P = wh_pending (int c) xss"
    "\<forall>i < 60. \<forall>x \<in> set (xss ! i). tw_cb x \<noteq> None"
    using assms by (rule wh_countsD)
  have cb: "\<And>y. y \<in> set (turn_fired (xss ! c)) \<Longrightarrow> tw_cb y \<noteq> None"
    using xss(3,5) by (auto simp: turn_fired_def)
  obtain w' where w': "wh_tick call w s = Some (w', tw_fire call (turn_fired (xss ! c)) s)"
    using wh_tick_ok [OF xss(1,2) cb, of call s] by meson
  have "wh_counts w' {(j, k) | j k. (j, Suc k) \<in> P}"
    using wh_counts_tick [OF assms, of call s] w' by simp
  moreover have "(\<lambda>x. (fst x, snd (snd (snd x)))) ` set (turn_fired (xss ! c)) = {j. (j, 0) \<in> P}" (is "?F = _")
  proof -
    have "j \<in> ?F \<longleftrightarrow> (j, 0) \<in> P" for j
    proof
      assume "j \<in> ?F"
      then obtain x where x: "x \<in> set (xss ! c)" "tw_rot x \<le> 0" "j = (fst x, snd (snd (snd x)))"
        by (auto simp: turn_fired_def)
      with wh_rep_entry [OF xss(1,3) x(1)] have "tw_rot x = 0" by simp
      with x xss(3,4) show "(j, 0) \<in> P"
        by (auto intro!: wh_pendingI [of c x] simp: wh_left_def)
    next
      assume "(j, 0) \<in> P"
      then obtain i x where x: "i < 60" "x \<in> set (xss ! i)" "j = (fst x, snd (snd (snd x)))"
        "0 = wh_left (int c) i (tw_rot x)"
        unfolding xss(4) by (rule wh_pendingE)
      with wh_rep_entry [OF xss(1) x(1,2)] wh_left_zero [OF xss(3) x(1), of "tw_rot x"]
      show "j \<in> ?F" by (auto simp: turn_fired_def intro!: image_eqI [of _ _ x])
    qed
    then show ?thesis by auto
  qed
  moreover have "distinct (map fst (turn_fired (xss ! c)))"
    using wh_rep_distinct [OF xss(1,3)] by (simp add: turn_fired_def distinct_map_filter)
  ultimately show ?thesis using w' by blast
qed

text \<open>One \<open>tick\<close> runs the callbacks of exactly the timers whose countdown is zero, once each,
  frees them, and brings every other timer of the wheel one tick nearer.\<close>

theorem wheel_tick_counts_down:
  assumes "wh_counts w P"
  shows "\<exists>w' fired. wh_tick call w s = Some (w', tw_fire call fired s) \<and>
    (\<lambda>x. (fst x, snd (snd (snd x)))) ` set fired = {j. (j, 0) \<in> P} \<and> distinct (map fst fired) \<and>
    wh_counts w' {(j, k) | j k. (j, Suc k) \<in> P}"
  by (rule wheel_tick_fires [OF assms])


text \<open>\<open>del_timer\<close> takes exactly the given timer out of its slot, frees it and keeps all others.\<close>

theorem wheel_del_timer:
  assumes "wh_rep w xss" "i < 60" "xss ! i = us @ x # vs"
  shows "\<exists>w'. wh_del_timer (Some (fst x)) w = Some w' \<and> wh_rep w' (xss[i := us @ vs]) \<and>
    wh_mem w' (fst x) = None \<and> wh_cur_slot w' = wh_cur_slot w"
  by (rule wh_del_timer_ok [OF assms])

text \<open>The destructor frees every timer of every slot exactly once, without a fault, touches no
  other part of the heap and leaves all slots empty.\<close>

theorem wheel_destroy_frees_all:
  assumes "wh_rep w xss"
  shows "wh_destroy w = Some (w\<lparr>wh_slots := replicate 60 None,
    wh_mem := wh_mem w |` (- (\<Union>i < 60. fst ` set (xss ! i)))\<rparr>)"
  using wh_destroy_upto [OF assms, of 60] wh_rep_len [OF assms] by (simp add: wh_destroy_def tw_N_def)

lemma wh_rep_empty: "wh_rep (new_time_wheel m) (replicate 60 [])"
  by (simp add: wh_rep_def new_time_wheel_def tw_N_def)

lemma wh_counts_empty: "wh_counts (new_time_wheel m) {}"
  unfolding wh_counts_def
  by (intro exI [of _ "replicate 60 []"]) (auto simp: wh_rep_empty elim!: wh_pendingE)

text \<open>A wheel with a timer for 62 ticks, whose callback and user data the caller has set.\<close>

definition demo_wheel :: time_wheel where
  "demo_wheel = (new_time_wheel [7 \<mapsto> \<lparr>tw_rotation = 1, tw_time_slot = 2, tw_cb_func = Some 4,
     tw_next = None, tw_prev = None, tw_user_data = Some 9\<rparr>])\<lparr>wh_slots := (replicate 60 None)[2 := Some 7]\<rparr>"

abbreviation demo_slots :: "(addr \<times> tw_job) list list" where
  "demo_slots \<equiv> (replicate 60 [])[2 := [(7, 1, 2, Some 4, Some 9)]]"

lemma demo_slots_nth: "i < 60 \<Longrightarrow> demo_slots ! i = (if i = 2 then [(7, 1, 2, Some 4, Some 9)] else [])"
  by (simp add: nth_list_update)

lemma demo_wheel_rep: "wh_rep demo_wheel demo_slots"
  unfolding wh_rep_def
  by (auto simp: demo_wheel_def new_time_wheel_def tw_N_def nth_list_update tw_payload_def load_def)

lemma demo_wheel_counts: "wh_counts demo_wheel {((7, Some 4, Some 9), 62)}"
proof -
  have "wh_pending 0 demo_slots = {((7, Some 4, Some 9), 62)}"
  proof (intro set_eqI iffI)
    fix y assume "y \<in> wh_pending 0 demo_slots"
    then show "y \<in> {((7, Some 4, Some 9), 62)}"
      by (cases y) (auto elim!: wh_pendingE simp: nth_list_update wh_left_def split: if_splits)
  next
    fix y assume "y \<in> {((7 :: addr, Some (4 :: nat), Some (9 :: addr)), 62 :: nat)}"
    then show "y \<in> wh_pending 0 demo_slots"
      by (auto intro!: wh_pendingI [of 2 "(7, 1, 2, Some 4, Some 9)"] simp: wh_left_def)
  qed
  moreover have "wh_cur_slot demo_wheel = 0" by (simp add: demo_wheel_def new_time_wheel_def)
  moreover have "\<forall>i < 60. \<forall>x \<in> set (demo_slots ! i). tw_cb x \<noteq> None"
    by (simp add: nth_list_update)
  ultimately show ?thesis
    unfolding wh_counts_def using demo_wheel_rep by (intro exI [of _ demo_slots]) simp
qed

theorem wheel_add_sets_countdown_witness:
  "\<exists>w' xss'. wh_add_timer 62 7 (new_time_wheel Map.empty) = Some (Some 7, w') \<and> wh_rep w' xss' \<and>
    wh_cur_slot w' = wh_cur_slot (new_time_wheel Map.empty) \<and>
    wh_pending (wh_cur_slot (new_time_wheel Map.empty)) xss' =
      insert ((7, None, None), nat (max 1 62)) (wh_pending (wh_cur_slot (new_time_wheel Map.empty)) (replicate 60 []))"
  by (rule wheel_add_sets_countdown [OF wh_rep_empty]) (simp_all add: new_time_wheel_def)

theorem wheel_tick_counts_down_witness:
  "\<exists>w' fired. wh_tick (\<lambda>f d s. (f, d) # s) demo_wheel [] = Some (w', tw_fire (\<lambda>f d s. (f, d) # s) fired []) \<and>
    (\<lambda>x. (fst x, snd (snd (snd x)))) ` set fired = {j. (j, 0 :: nat) \<in> {((7, Some 4, Some 9), 62)}} \<and> distinct (map fst fired) \<and>
    wh_counts w' {(j, k) | j k. (j, Suc k) \<in> {((7, Some 4, Some 9), 62)}}"
  by (rule wheel_tick_counts_down [OF demo_wheel_counts])


theorem wheel_del_timer_witness:
  "\<exists>w'. wh_del_timer (Some 7) demo_wheel = Some w' \<and> wh_rep w' (demo_slots[2 := []]) \<and>
    wh_mem w' 7 = None \<and> wh_cur_slot w' = wh_cur_slot demo_wheel"
  using wheel_del_timer [OF demo_wheel_rep, of 2 "[]" "(7, 1, 2, Some 4, Some 9)" "[]"] by simp

theorem wheel_destroy_frees_all_witness:
  "wh_destroy demo_wheel = Some (demo_wheel\<lparr>wh_slots := replicate 60 None,
    wh_mem := wh_mem demo_wheel |` (- (\<Union>i < 60. fst ` set (demo_slots ! i)))\<rparr>)"
  by (rule wheel_destroy_frees_all [OF demo_wheel_rep])

end
