(* ===== verification/Time_Heap.thy ===== *)
theory Time_Heap
  imports Prelude
begin

text \<open>
  The time heap of \<open>socket/timer/time_heap_timer.h\<close>: a heap-allocated array of pointers to
  timers, meant as a binary minimum heap over the deadlines. \<open>None\<close> is a fault: a null or
  dangling pointer dereferenced, or an array index out of bounds. \<open>int\<close> indices do not overflow
  for arrays that fit in memory, so they are kept as \<open>nat\<close>; \<open>cur_size - 1\<close> is an \<open>int\<close>
  because it is \<open>-1\<close> for an empty heap.
\<close>

record heap_timer =
  ht_expire :: int
  ht_cb_func :: "nat option"
  ht_user_data :: ptr

text \<open>\<open>now\<close> is the answer of \<open>time(nullptr)\<close>.\<close>
definition new_heap_timer :: "int \<Rightarrow> int \<Rightarrow> heap_timer" where
  "new_heap_timer now delay = \<lparr>ht_expire = now + delay, ht_cb_func = None, ht_user_data = None\<rparr>"

record time_heap =
  th_mem :: "heap_timer heap"
  th_array :: "ptr list"
  th_capacity :: nat
  th_cur_size :: nat

datatype th_error = Std_exception

definition arr_get :: "nat \<Rightarrow> time_heap \<Rightarrow> ptr option" where
  "arr_get i h = (if i < length (th_array h) then Some (th_array h ! i) else None)"

definition arr_set :: "nat \<Rightarrow> ptr \<Rightarrow> time_heap \<Rightarrow> time_heap option" where
  "arr_set i p h =
     (if i < length (th_array h) then Some (h\<lparr>th_array := (th_array h)[i := p]\<rparr>) else None)"

text \<open>\<open>array[i]->expire\<close>\<close>
definition arr_expire :: "nat \<Rightarrow> time_heap \<Rightarrow> int option" where
  "arr_expire i h = do { p \<leftarrow> arr_get i h; t \<leftarrow> load p (th_mem h); Some (ht_expire t) }"

definition percolate_child :: "nat \<Rightarrow> time_heap \<Rightarrow> nat option" where
  "percolate_child hole h = (
     let child = hole * 2 + 1 in
     if int (child + 1) < int (th_cur_size h) - 1 then do {
       r \<leftarrow> arr_expire (child + 1) h;
       l \<leftarrow> arr_expire child h;
       Some (if r < l then child + 1 else child)
     } else Some child)"

partial_function (option) percolate_down_loop :: "ptr \<Rightarrow> nat \<Rightarrow> time_heap \<Rightarrow> time_heap option" where
  "percolate_down_loop temp hole h =
     (if int (hole * 2 + 1) < int (th_cur_size h) - 1 then do {
        child \<leftarrow> percolate_child hole h;
        c \<leftarrow> arr_expire child h;
        t \<leftarrow> load temp (th_mem h);
        if c < ht_expire t then do {
          p \<leftarrow> arr_get child h;
          h1 \<leftarrow> arr_set hole p h;
          percolate_down_loop temp child h1
        } else arr_set hole temp h
      } else arr_set hole temp h)"

definition percolate_down :: "nat \<Rightarrow> time_heap \<Rightarrow> time_heap option" where
  "percolate_down hole h = do { temp \<leftarrow> arr_get hole h; percolate_down_loop temp hole h }"

definition th_resize :: "time_heap \<Rightarrow> time_heap option" where
  "th_resize h =
     (if th_cur_size h \<le> 2 * th_capacity h \<and> th_cur_size h \<le> length (th_array h)
      then Some (h\<lparr>th_capacity := 2 * th_capacity h,
        th_array := take (th_cur_size h) (th_array h) @ replicate (2 * th_capacity h - th_cur_size h) None\<rparr>)
      else None)"

definition new_time_heap :: "nat \<Rightarrow> heap_timer heap \<Rightarrow> time_heap" where
  "new_time_heap cap m = \<lparr>th_mem = m, th_array = replicate cap None, th_capacity = cap, th_cur_size = 0\<rparr>"

text \<open>The second constructor: \<open>Inl\<close> the exception, \<open>Inr None\<close> a fault. The loop of line 97 runs
  the holes \<open>(cur_size - 1) / 2, ..., 0\<close>.\<close>

primrec th_build :: "nat \<Rightarrow> time_heap \<Rightarrow> time_heap option" where
  "th_build 0 h = percolate_down 0 h"
| "th_build (Suc i) h = Option.bind (percolate_down (Suc i) h) (th_build i)"

definition time_heap_of :: "ptr list \<Rightarrow> nat \<Rightarrow> nat \<Rightarrow> heap_timer heap \<Rightarrow> th_error + time_heap option" where
  "time_heap_of init_array sz cap m =
     (if cap < sz then Inl Std_exception
      else Inr (
        let h = \<lparr>th_mem = m, th_array = replicate cap None, th_capacity = cap, th_cur_size = sz\<rparr> in
        if sz \<noteq> 0 then
          if sz \<le> length init_array then
            th_build ((sz - 1) div 2) (h\<lparr>th_array := take sz init_array @ replicate (cap - sz) None\<rparr>)
          else None
        else Some h))"

definition th_destroy :: "time_heap \<Rightarrow> heap_timer heap option" where
  "th_destroy h = fold (\<lambda>i r. do { m \<leftarrow> r; p \<leftarrow> arr_get i h; free p m }) [0..<th_cur_size h] (Some (th_mem h))"

definition th_empty :: "time_heap \<Rightarrow> bool" where
  "th_empty h \<longleftrightarrow> th_cur_size h = 0"

partial_function (option) th_add_loop :: "addr \<Rightarrow> nat \<Rightarrow> time_heap \<Rightarrow> (nat \<times> time_heap) option" where
  "th_add_loop timer hole h =
     (if hole > 0 then do {
        let parent = (hole - 1) div 2;
        e \<leftarrow> arr_expire parent h;
        t \<leftarrow> load (Some timer) (th_mem h);
        if e \<le> ht_expire t then Some (hole, h)
        else do {
          p \<leftarrow> arr_get parent h;
          h1 \<leftarrow> arr_set hole p h;
          th_add_loop timer parent h1
        }
      } else Some (hole, h))"

definition th_add_timer :: "ptr \<Rightarrow> time_heap \<Rightarrow> time_heap option" where
  "th_add_timer timer h = (case timer of
     None \<Rightarrow> Some h
   | Some a \<Rightarrow> do {
       h1 \<leftarrow> (if th_cur_size h \<ge> th_capacity h then th_resize h else Some h);
       let h2 = h1\<lparr>th_cur_size := th_cur_size h1 + 1\<rparr>;
       (hole, h3) \<leftarrow> th_add_loop a (th_cur_size h2) h2;
       arr_set hole (Some a) h3
     })"

definition th_del_timer :: "ptr \<Rightarrow> time_heap \<Rightarrow> time_heap option" where
  "th_del_timer timer h =
     (if timer = None then Some h
      else do {
        m \<leftarrow> store timer (\<lambda>t. t\<lparr>ht_cb_func := None\<rparr>) (th_mem h);
        Some (h\<lparr>th_mem := m\<rparr>)
      })"

definition th_top :: "time_heap \<Rightarrow> ptr option" where
  "th_top h = (if th_empty h then Some None else arr_get 0 h)"

definition th_pop_timer :: "time_heap \<Rightarrow> time_heap option" where
  "th_pop_timer h =
     (if th_empty h then Some h
      else do {
        p \<leftarrow> arr_get 0 h;
        if p = None then Some h
        else do {
          m \<leftarrow> free p (th_mem h);
          let h1 = h\<lparr>th_mem := m, th_cur_size := th_cur_size h - 1\<rparr>;
          q \<leftarrow> arr_get (th_cur_size h1) h1;
          h2 \<leftarrow> arr_set 0 q h1;
          percolate_down 0 h2
        }
      })"

text \<open>\<open>cur\<close> is read once, before the loop; \<open>call f d s\<close> is the effect of the callback on the world
  outside the timers.\<close>

partial_function (option) th_tick_loop ::
  "(nat \<Rightarrow> ptr \<Rightarrow> 'w \<Rightarrow> 'w) \<Rightarrow> int \<Rightarrow> ptr \<Rightarrow> time_heap \<Rightarrow> 'w \<Rightarrow> (time_heap \<times> 'w) option"
where
  "th_tick_loop call cur tmp h s =
     (if th_empty h then Some (h, s)
      else if tmp = None then Some (h, s)
      else do {
        t \<leftarrow> load tmp (th_mem h);
        if ht_expire t > cur then Some (h, s)
        else do {
          p \<leftarrow> arr_get 0 h;
          r \<leftarrow> load p (th_mem h);
          let s' = (case ht_cb_func r of None \<Rightarrow> s | Some f \<Rightarrow> call f (ht_user_data r) s);
          h1 \<leftarrow> th_pop_timer h;
          tmp' \<leftarrow> arr_get 0 h1;
          th_tick_loop call cur tmp' h1 s'
        }
      })"

definition th_tick :: "(nat \<Rightarrow> ptr \<Rightarrow> 'w \<Rightarrow> 'w) \<Rightarrow> int \<Rightarrow> time_heap \<Rightarrow> 'w \<Rightarrow> (time_heap \<times> 'w) option" where
  "th_tick call cur h s = do { tmp \<leftarrow> arr_get 0 h; th_tick_loop call cur tmp h s }"

section \<open>Sifting down, over any keys\<close>

text \<open>The array without the pointers. \<open>b\<close> is the bound of the loop, which in the code is
  \<open>cur_size - 1\<close>.\<close>

locale sift =
  fixes key :: "'a \<Rightarrow> 'k :: linorder"
begin

definition min_child :: "nat \<Rightarrow> 'a list \<Rightarrow> nat \<Rightarrow> nat" where
  "min_child b xs h = (if 2 * h + 2 < b \<and> key (xs ! (2 * h + 2)) < key (xs ! (2 * h + 1)) then 2 * h + 2 else 2 * h + 1)"

lemma min_child_cases: "min_child b xs h = 2 * h + 1 \<or> min_child b xs h = 2 * h + 2"
  by (simp add: min_child_def)

lemma min_child_less: "2 * h + 1 < b \<Longrightarrow> min_child b xs h < b"
  by (simp add: min_child_def)

lemma min_child_gt: "h < min_child b xs h"
  by (simp add: min_child_def)

function down :: "nat \<Rightarrow> 'a \<Rightarrow> nat \<Rightarrow> 'a list \<Rightarrow> 'a list" where
  "down b t h xs =
     (if 2 * h + 1 < b \<and> key (xs ! min_child b xs h) < key t
      then down b t (min_child b xs h) (xs[h := xs ! min_child b xs h])
      else xs[h := t])"
  by auto
termination
  by (relation "measure (\<lambda>(b, t, h, xs). b - h)") (use min_child_gt in \<open>auto intro!: diff_less_mono2\<close>)

declare down.simps [simp del]

text \<open>Heap order on the first \<open>b\<close> entries, for the subtrees rooted at \<open>r\<close> and later.\<close>

definition heap_from :: "nat \<Rightarrow> nat \<Rightarrow> 'a list \<Rightarrow> bool" where
  "heap_from r b xs \<longleftrightarrow> (\<forall>i < b. 0 < i \<and> r \<le> (i - 1) div 2 \<longrightarrow> key (xs ! ((i - 1) div 2)) \<le> key (xs ! i))"

text \<open>The loop invariant: the array with the moving timer written into the hole is a heap but for
  the children of the hole, and those are above the parent of the hole.\<close>

definition heap_but :: "nat \<Rightarrow> nat \<Rightarrow> nat \<Rightarrow> 'a list \<Rightarrow> bool" where
  "heap_but r b h xs \<longleftrightarrow>
     (\<forall>i < b. 0 < i \<and> r \<le> (i - 1) div 2 \<and> (i - 1) div 2 \<noteq> h \<longrightarrow> key (xs ! ((i - 1) div 2)) \<le> key (xs ! i)) \<and>
     (\<forall>i < b. 0 < i \<and> (i - 1) div 2 = h \<and> 0 < h \<and> r \<le> (h - 1) div 2 \<longrightarrow> key (xs ! ((h - 1) div 2)) \<le> key (xs ! i))"

lemma length_down [simp]: "length (down b t h xs) = length xs"
  by (induction b t h xs rule: down.induct) (subst down.simps, simp)

lemma mset_swap_down:
  "c < length xs \<Longrightarrow> h < length xs \<Longrightarrow> c \<noteq> h \<Longrightarrow> mset (xs[h := xs ! c, c := t]) = mset (xs[h := t])"
  using mset_swap [of h "xs[h := t]" c] by (simp add: list_update_swap)

lemma mset_down: "h < b \<or> h < length xs \<Longrightarrow> b \<le> length xs \<Longrightarrow> mset (down b t h xs) = mset (xs[h := t])"
proof (induction b t h xs rule: down.induct)
  case (1 b t h xs)
  let ?c = "min_child b xs h"
  show ?case
  proof (cases "2 * h + 1 < b \<and> key (xs ! ?c) < key t")
    case True
    then have c: "?c < b" "h < ?c" using min_child_less min_child_gt by auto
    have "mset (down b t h xs) = mset (xs[h := xs ! ?c, ?c := t])"
      using True c 1 by (subst down.simps) simp
    then show ?thesis using c "1.prems" mset_swap_down [of ?c xs h t] by simp
  next
    case False
    then show ?thesis by (subst down.simps) auto
  qed
qed

lemma down_keeps: "i < h \<or> b \<le> i \<Longrightarrow> h < i \<or> i < h \<Longrightarrow> down b t h xs ! i = xs ! i"
proof (induction b t h xs rule: down.induct)
  case (1 b t h xs)
  show ?case
    using 1 min_child_gt [of h b xs] min_child_less [of h b xs]
    by (subst down.simps) (auto simp: nth_list_update)
qed

lemma child_of: "0 < i \<Longrightarrow> (i - 1) div 2 = h \<longleftrightarrow> i = 2 * h + 1 \<or> i = 2 * h + (2 :: nat)"
  by arith

lemma min_child_le: "i < b \<Longrightarrow> 0 < i \<Longrightarrow> (i - 1) div 2 = h \<Longrightarrow> key (xs ! min_child b xs h) \<le> key (xs ! i)"
  using child_of [of i h] by (auto simp: min_child_def)

lemma heap_but_step:
  assumes "heap_but r b h ys" "2 * h + 1 < b" "b \<le> length ys" "r \<le> h"
    and c: "c = min_child b ys h" and less: "key (ys ! c) < key (ys ! h)"
  shows "heap_but r b c (ys[h := ys ! c, c := ys ! h])"
proof -
  let ?ys = "ys[h := ys ! c, c := ys ! h]"
  have b: "c < b" "h < c" using min_child_less [OF assms(2)] min_child_gt c by auto
  have hc: "(c - 1) div 2 = h" using min_child_cases [of b ys h] c child_of [of c h] b by simp
  have nth: "?ys ! i = (if i = c then ys ! h else if i = h then ys ! c else ys ! i)" for i
    using b assms(3) by (simp add: nth_list_update)
  have min: "key (ys ! c) \<le> key (ys ! i)" if "i < b" "0 < i" "(i - 1) div 2 = h" for i
    using min_child_le [OF that] c by simp
  have but1: "key (ys ! ((i - 1) div 2)) \<le> key (ys ! i)"
    if "i < b" "0 < i" "r \<le> (i - 1) div 2" "(i - 1) div 2 \<noteq> h" for i
    using assms(1) that by (simp add: heap_but_def)
  have but2: "key (ys ! ((h - 1) div 2)) \<le> key (ys ! c)" if "0 < h" "r \<le> (h - 1) div 2"
    using assms(1) that b hc by (simp add: heap_but_def)
  have par: "0 < i \<Longrightarrow> (i - 1) div 2 \<noteq> i" for i :: nat by arith
  show ?thesis
    unfolding heap_but_def
  proof (intro conjI allI impI)
    fix i assume i: "i < b" "0 < i \<and> r \<le> (i - 1) div 2 \<and> (i - 1) div 2 \<noteq> c"
    consider "i = c" | "i = h" | "i \<noteq> c" "i \<noteq> h" "(i - 1) div 2 = h" | "i \<noteq> c" "i \<noteq> h" "(i - 1) div 2 \<noteq> h"
      by blast
    then show "key (?ys ! ((i - 1) div 2)) \<le> key (?ys ! i)"
    proof cases
      case 1
      then show ?thesis using hc b less by (simp add: nth)
    next
      case 2
      then show ?thesis using i b par [of h] but2 by (simp add: nth)
    next
      case 3
      then show ?thesis using min [of i] i b by (simp add: nth)
    next
      case 4
      then show ?thesis using but1 [of i] i by (simp add: nth)
    qed
  next
    fix i assume i: "i < b" "0 < i \<and> (i - 1) div 2 = c \<and> 0 < c \<and> r \<le> (c - 1) div 2"
    then have "i \<noteq> c" "i \<noteq> h" using par [of i] child_of [of i c] b by auto
    moreover have "key (ys ! c) \<le> key (ys ! i)"
      using but1 [of i] i b assms(4) by simp
    ultimately show "key (?ys ! ((c - 1) div 2)) \<le> key (?ys ! i)"
      using hc b by (simp add: nth)
  qed
qed

lemma heap_but_done:
  assumes "heap_but r b h ys" "2 * h + 1 < b \<Longrightarrow> key (ys ! h) \<le> key (ys ! min_child b ys h)"
  shows "heap_from r b ys"
  unfolding heap_from_def
proof (intro allI impI)
  fix i assume i: "i < b" "0 < i \<and> r \<le> (i - 1) div 2"
  show "key (ys ! ((i - 1) div 2)) \<le> key (ys ! i)"
  proof (cases "(i - 1) div 2 = h")
    case True
    moreover have "2 * h + 1 < b" using True i child_of [of i h] by auto
    ultimately show ?thesis using assms(2) min_child_le [of i b h ys] i by auto
  next
    case False
    then show ?thesis using assms(1) i by (simp add: heap_but_def)
  qed
qed

lemma min_child_update: "min_child b (xs[h := t]) h = min_child b xs h"
  by (simp add: min_child_def)

lemma heap_down:
  assumes "heap_but r b h (xs[h := t])" "b \<le> length xs" "h < length xs" "r \<le> h"
  shows "heap_from r b (down b t h xs)"
  using assms
proof (induction b t h xs rule: down.induct)
  case (1 b t h xs)
  let ?c = "min_child b xs h"
  have nc: "xs[h := t] ! ?c = xs ! ?c" using min_child_gt [of h b xs] by simp
  show ?case
  proof (cases "2 * h + 1 < b \<and> key (xs ! ?c) < key t")
    case True
    then have c: "?c < b" "h < ?c" using min_child_less min_child_gt by auto
    have "heap_but r b ?c (xs[h := t, h := xs[h := t] ! ?c, ?c := xs[h := t] ! h])"
      using True "1.prems" nc by (intro heap_but_step) (simp_all add: min_child_update)
    then have "heap_but r b ?c (xs[h := xs ! ?c, ?c := t])"
      using "1.prems" nc by simp
    with 1 True c show ?thesis by (subst down.simps) simp
  next
    case False
    then have "heap_from r b (xs[h := t])"
      using "1.prems" nc by (intro heap_but_done [OF "1.prems"(1)]) (auto simp: min_child_update)
    with False show ?thesis by (subst down.simps) auto
  qed
qed

lemma down_hole: "h < length xs \<Longrightarrow> down b t h (xs[h := u]) = down b t h xs"
  using min_child_gt [of h b xs]
  by (simp add: down.simps [of b t h xs] down.simps [of b t h "xs[h := u]"] min_child_update)

lemma heap_from_but: "heap_from (Suc r) b xs \<Longrightarrow> heap_but r b r xs"
  unfolding heap_from_def heap_but_def by (auto simp: Suc_le_eq)

lemma heap_from_mono: "heap_from r b xs \<Longrightarrow> b' \<le> b \<Longrightarrow> heap_from r b' xs"
  by (auto simp: heap_from_def)

lemma heap_root_least:
  assumes "heap_from 0 b xs" "i < b"
  shows "key (xs ! 0) \<le> key (xs ! i)"
  using assms(2)
proof (induction i rule: less_induct)
  case (less i)
  show ?case
  proof (cases "i = 0")
    case False
    then have "key (xs ! 0) \<le> key (xs ! ((i - 1) div 2))"
      using less.prems by (intro less.IH) auto
    moreover have "key (xs ! ((i - 1) div 2)) \<le> key (xs ! i)"
      using assms(1) less.prems False by (simp add: heap_from_def)
    ultimately show ?thesis by simp
  qed simp
qed

text \<open>Building bottom-up and replacing the root.\<close>

primrec build :: "nat \<Rightarrow> nat \<Rightarrow> 'a list \<Rightarrow> 'a list" where
  "build b 0 xs = down b (xs ! 0) 0 xs"
| "build b (Suc i) xs = build b i (down b (xs ! Suc i) (Suc i) xs)"

lemma build_ok:
  assumes "heap_from (Suc i) b xs" "i < length xs" "b \<le> length xs"
  shows "heap_from 0 b (build b i xs) \<and> mset (build b i xs) = mset xs \<and> length (build b i xs) = length xs"
  using assms
proof (induction i arbitrary: xs)
  case 0
  then show ?case
    using heap_down [of 0 b 0 xs "xs ! 0"] heap_from_but [of 0] mset_down [of 0 b xs "xs ! 0"] by simp
next
  case (Suc i)
  have "heap_from (Suc i) b (down b (xs ! Suc i) (Suc i) xs)"
    using Suc.prems by (intro heap_down) (simp_all add: heap_from_but)
  moreover have "mset (down b (xs ! Suc i) (Suc i) xs) = mset xs"
    using Suc.prems mset_down [of "Suc i" b xs] by simp
  ultimately show ?case using Suc.IH [of "down b (xs ! Suc i) (Suc i) xs"] Suc.prems by simp
qed

lemma replace_root:
  assumes "heap_from 0 b xs" "b' \<le> b" "b' \<le> length xs" "xs \<noteq> []"
  shows "heap_from 0 b' (down b' t 0 xs)"
proof (rule heap_down)
  have "heap_from (Suc 0) b' (xs[0 := t])"
    using assms(1,2) by (auto simp: heap_from_def nth_list_update)
  then show "heap_but 0 b' 0 (xs[0 := t])" by (rule heap_from_but)
qed (use assms in simp_all)

end

section \<open>The timers a heap holds\<close>

interpretation th: sift "\<lambda>t. ht_expire (snd t)" .

abbreviation due_at :: "addr \<times> heap_timer \<Rightarrow> int" where
  "due_at t \<equiv> ht_expire (snd t)"

text \<open>\<open>ts\<close> lists the live part of the array with the timers it points at; \<open>rest\<close> are the unused
  entries.\<close>

definition th_view :: "time_heap \<Rightarrow> (addr \<times> heap_timer) list \<Rightarrow> ptr list \<Rightarrow> bool" where
  "th_view h ts rest \<longleftrightarrow> th_array h = map (Some \<circ> fst) ts @ rest \<and> th_cur_size h = length ts \<and>
     th_capacity h = length (th_array h) \<and> (\<forall>t \<in> set ts. th_mem h (fst t) = Some (snd t))"

definition th_rep :: "time_heap \<Rightarrow> (addr \<times> heap_timer) list \<Rightarrow> bool" where
  "th_rep h ts \<longleftrightarrow> (\<exists>rest. th_view h ts rest) \<and> distinct (map fst ts)"

lemma th_view_get [simp]: "th_view h ts rest \<Longrightarrow> i < length ts \<Longrightarrow> arr_get i h = Some (Some (fst (ts ! i)))"
  by (simp add: th_view_def arr_get_def nth_append)

lemma th_view_expire [simp]: "th_view h ts rest \<Longrightarrow> i < length ts \<Longrightarrow> arr_expire i h = Some (due_at (ts ! i))"
  by (simp add: arr_expire_def) (simp add: th_view_def)

lemma th_view_set:
  "th_view h ts rest \<Longrightarrow> i < length ts \<Longrightarrow>
    arr_set i (Some (fst t)) h = Some (h\<lparr>th_array := map (Some \<circ> fst) (ts[i := t]) @ rest\<rparr>)"
  by (simp add: th_view_def arr_set_def list_update_append map_update)

lemma th_view_upd:
  "th_view h ts rest \<Longrightarrow> i < length ts \<Longrightarrow> th_mem h (fst t) = Some (snd t) \<Longrightarrow>
    th_view (h\<lparr>th_array := map (Some \<circ> fst) (ts[i := t]) @ rest\<rparr>) (ts[i := t]) rest"
  by (auto simp: th_view_def dest: set_update_subset_insert [THEN subsetD])

lemma percolate_child_ok:
  "th_view h ts rest \<Longrightarrow> 2 * hole + 1 < length ts - 1 \<Longrightarrow>
    percolate_child hole h = Some (th.min_child (length ts - 1) ts hole)"
proof -
  assume v: "th_view h ts rest" and b: "2 * hole + 1 < length ts - 1"
  have "th_cur_size h = length ts" using v by (simp add: th_view_def)
  moreover have "int (2 * hole + 2) < int (length ts) - 1 \<longleftrightarrow> 2 * hole + 2 < length ts - 1" by linarith
  ultimately show ?thesis
    using v b by (auto simp: percolate_child_def th.min_child_def mult.commute)
qed

lemma percolate_down_loop_ok:
  assumes "th_view h ts rest" "hole < length ts" "th_mem h (fst x) = Some (snd x)"
  shows "percolate_down_loop (Some (fst x)) hole h =
    Some (h\<lparr>th_array := map (Some \<circ> fst) (th.down (length ts - 1) x hole ts) @ rest\<rparr>)"
  using assms
proof (induction "length ts - 1" x hole ts arbitrary: h rule: th.down.induct)
  case (1 x hole ts)
  let ?c = "th.min_child (length ts - 1) ts hole"
  have cur: "th_cur_size h = length ts" using "1.prems"(1) by (simp add: th_view_def)
  show ?case
  proof (cases "2 * hole + 1 < length ts - 1")
    case True
    then have c: "?c < length ts" using th.min_child_less [OF True, of ts] by simp
    have guard: "int (hole * 2 + 1) < int (th_cur_size h) - 1" using True cur by simp
    note loop = percolate_down_loop.simps [of _ hole h] percolate_child_ok [OF "1.prems"(1) True]
    show ?thesis
    proof (cases "due_at (ts ! ?c) < due_at x")
      case less: True
      let ?ts = "ts[hole := ts ! ?c]"
      let ?h = "h\<lparr>th_array := map (Some \<circ> fst) ?ts @ rest\<rparr>"
      have "th_mem h (fst (ts ! ?c)) = Some (snd (ts ! ?c))"
        using "1.prems"(1) c by (simp add: th_view_def)
      then have v: "th_view ?h ?ts rest" using th_view_upd "1.prems" by blast
      have "percolate_down_loop (Some (fst x)) ?c ?h =
          Some (?h\<lparr>th_array := map (Some \<circ> fst) (th.down (length ?ts - 1) x ?c ?ts) @ rest\<rparr>)"
        using True less v c "1.prems"(3) by (intro "1.hyps") simp_all
      then have "percolate_down_loop (Some (fst x)) ?c ?h =
          Some (h\<lparr>th_array := map (Some \<circ> fst) (th.down (length ts - 1) x hole ts) @ rest\<rparr>)"
        using True less th.down.simps [of "length ts - 1" x hole ts] by simp
      then show ?thesis
        using guard less c "1.prems" th_view_set [of h ts rest hole "ts ! ?c"] by (simp add: loop)
    next
      case False
      then show ?thesis
        using guard c "1.prems" th.down.simps [of "length ts - 1" x hole ts] by (simp add: loop th_view_set)
    qed
  next
    case False
    have guard: "\<not> int (hole * 2 + 1) < int (th_cur_size h) - 1" using False cur by simp
    then show ?thesis
      using False "1.prems" th.down.simps [of "length ts - 1" x hole ts]
      by (simp add: percolate_down_loop.simps [of _ hole h] th_view_set)
  qed
qed

lemma percolate_down_ok:
  assumes "th_view h ts rest" "hole < length ts"
  shows "percolate_down hole h =
    Some (h\<lparr>th_array := map (Some \<circ> fst) (th.down (length ts - 1) (ts ! hole) hole ts) @ rest\<rparr>)"
proof -
  have "th_mem h (fst (ts ! hole)) = Some (snd (ts ! hole))" using assms by (simp add: th_view_def)
  from percolate_down_loop_ok [OF assms this] show ?thesis
    using assms by (simp add: percolate_down_def)
qed

lemma th_view_mset:
  assumes "th_view h ts rest" "mset us = mset ts"
  shows "th_view (h\<lparr>th_array := map (Some \<circ> fst) us @ rest\<rparr>) us rest"
  using assms mset_eq_setD [OF assms(2)] mset_eq_length [OF assms(2)] by (auto simp: th_view_def)

lemma distinct_fst_mset: "mset us = mset ts \<Longrightarrow> distinct (map fst us) = distinct (map fst ts)"
  by (metis mset_eq_imp_distinct_iff mset_map)

lemma th_build_ok:
  assumes "th_view h ts rest" "i < length ts"
  shows "th_build i h = Some (h\<lparr>th_array := map (Some \<circ> fst) (th.build (length ts - 1) i ts) @ rest\<rparr>)"
  using assms
proof (induction i arbitrary: h ts)
  case 0
  then show ?case by (simp add: percolate_down_ok)
next
  case (Suc i)
  let ?ts = "th.down (length ts - 1) (ts ! Suc i) (Suc i) ts"
  let ?h = "h\<lparr>th_array := map (Some \<circ> fst) ?ts @ rest\<rparr>"
  have "mset ?ts = mset ts" using Suc.prems th.mset_down [of "Suc i" "length ts - 1" ts "ts ! Suc i"] by simp
  then have "th_view ?h ?ts rest" using Suc.prems(1) by (rule th_view_mset [rotated])
  from Suc.IH [OF this] show ?case
    using Suc.prems by (simp add: percolate_down_ok)
qed

section \<open>Popping and ticking\<close>

lemma two_ends: "\<not> length ts \<le> 1 \<Longrightarrow> \<exists>y ys z. ts = y # ys @ [z]"
proof (cases ts)
  case (Cons y zs)
  assume "\<not> length ts \<le> 1"
  with Cons show ?thesis by (cases zs rule: rev_cases) auto
qed simp

text \<open>The timers left after the root is replaced by the last one and sifted down.\<close>

definition th_rest :: "(addr \<times> heap_timer) list \<Rightarrow> (addr \<times> heap_timer) list" where
  "th_rest ts = (if length ts \<le> 1 then [] else th.down (length ts - 2) (last ts) 0 (butlast ts))"

lemma length_th_rest [simp]: "length (th_rest ts) = length ts - 1"
  by (simp add: th_rest_def)

lemma mset_th_rest: "ts \<noteq> [] \<Longrightarrow> add_mset (ts ! 0) (mset (th_rest ts)) = mset ts"
proof (cases "length ts \<le> 1")
  case True
  assume "ts \<noteq> []"
  with True show ?thesis by (cases ts) (simp_all add: th_rest_def)
next
  case False
  then obtain y ys z where ts: "ts = y # ys @ [z]" using two_ends by blast
  then show ?thesis
    by (simp add: th_rest_def th.mset_down)
qed

lemma heap_th_rest:
  assumes "th.heap_from 0 (length ts - 1) ts"
  shows "th.heap_from 0 (length (th_rest ts) - 1) (th_rest ts)"
proof (cases "length ts \<le> 1")
  case True
  then show ?thesis by (simp add: th_rest_def th.heap_from_def)
next
  case False
  have "th.heap_from 0 (length ts - 1) (butlast ts)"
    using assms by (simp add: th.heap_from_def nth_butlast)
  then have "th.heap_from 0 (length ts - 2) (th.down (length ts - 2) (last ts) 0 (butlast ts))"
    using two_ends [OF False] by (intro th.replace_root) auto
  with False show ?thesis by (simp add: th_rest_def numeral_2_eq_2)
qed

lemma th_rest_set: "ts \<noteq> [] \<Longrightarrow> distinct (map fst ts) \<Longrightarrow>
    distinct (map fst (th_rest ts)) \<and> set (th_rest ts) \<subseteq> set ts \<and> fst (ts ! 0) \<notin> fst ` set (th_rest ts)"
proof -
  assume ts: "ts \<noteq> []" "distinct (map fst ts)"
  have *: "mset (ts ! 0 # th_rest ts) = mset ts" using mset_th_rest [OF ts(1)] by simp
  then have "distinct (map fst (ts ! 0 # th_rest ts))" using ts(2) distinct_fst_mset by blast
  moreover have "set (th_rest ts) \<subseteq> set ts" using mset_eq_setD [OF *] by auto
  ultimately show ?thesis by auto
qed

lemma th_pop_timer_ok:
  assumes "th_rep h ts" "ts \<noteq> []"
  shows "\<exists>h'. th_pop_timer h = Some h' \<and> th_rep h' (th_rest ts) \<and>
    th_mem h' = (th_mem h)(fst (ts ! 0) := None) \<and> th_array h' \<noteq> []"
proof -
  obtain rest where v: "th_view h ts rest" using assms(1) by (auto simp: th_rep_def)
  have d: "distinct (map fst ts)" using assms(1) by (simp add: th_rep_def)
  have n: "0 < length ts" using assms(2) by simp
  let ?m = "(th_mem h)(fst (ts ! 0) := None)"
  let ?h = "h\<lparr>th_mem := ?m, th_cur_size := th_cur_size h - 1\<rparr>"
  have m: "th_mem h (fst (ts ! 0)) = Some (snd (ts ! 0))" using v n by (simp add: th_view_def)
  have cur: "th_cur_size h = length ts" "th_array h = map (Some \<circ> fst) ts @ rest" "th_capacity h = length (th_array h)"
    using v by (simp_all add: th_view_def)
  have q: "arr_get (length ts - 1) ?h = Some (Some (fst (last ts)))"
    using n cur by (simp add: arr_get_def nth_append last_conv_nth trans_less_add1)
  let ?ts = "(butlast ts)[0 := last ts]"
  have set0: "arr_set 0 (Some (fst (last ts))) ?h =
      Some (?h\<lparr>th_array := (map (Some \<circ> fst) ts)[0 := Some (fst (last ts))] @ rest\<rparr>)"
    using n cur by (simp add: arr_set_def list_update_append)
  let ?h2 = "?h\<lparr>th_array := (map (Some \<circ> fst) ts)[0 := Some (fst (last ts))] @ rest\<rparr>"
  have pop: "th_pop_timer h = percolate_down 0 ?h2"
    using v n m q set0 cur assms(2) by (simp add: th_pop_timer_def th_empty_def Let_def)
  have rest: "distinct (map fst (th_rest ts))" "set (th_rest ts) \<subseteq> set ts" "fst (ts ! 0) \<notin> fst ` set (th_rest ts)"
    using th_rest_set [OF assms(2) d] by auto
  have alive: "\<forall>t \<in> set (th_rest ts). ?m (fst t) = Some (snd t)"
    using rest v by (auto simp: th_view_def) (metis image_eqI fst_conv)
  show ?thesis
  proof (cases "length ts = 1")
    case True
    then obtain t where t: "ts = [t]" by (auto simp: length_Suc_conv)
    then have "th_pop_timer h = Some ?h2"
      using pop cur by (simp add: percolate_down_def percolate_down_loop.simps arr_get_def arr_set_def)
    moreover have "th_view ?h2 [] (th_array ?h2)" using t cur by (simp add: th_view_def)
    ultimately show ?thesis using t cur by (auto simp: th_rep_def th_rest_def)
  next
    case False
    then obtain y ys z where ts: "ts = y # ys @ [z]" using two_ends [of ts] n by auto
    have "\<forall>t \<in> set ys. fst t \<noteq> fst y" using d ts by (auto simp: rev_image_eqI)
    moreover have "fst z \<noteq> fst y" using d ts by simp
    ultimately have v2: "th_view ?h2 (z # ys) (Some (fst z) # rest)"
      using v ts cur by (auto simp: th_view_def)
    have "th_pop_timer h = Some (?h2\<lparr>th_array := map (Some \<circ> fst) (th_rest ts) @ Some (fst z) # rest\<rparr>)"
      using pop percolate_down_ok [OF v2, of 0] ts th.down_hole [of 0 "y # ys" "length ys" z z]
      by (simp add: th_rest_def)
    moreover have "th_view (?h2\<lparr>th_array := map (Some \<circ> fst) (th_rest ts) @ Some (fst z) # rest\<rparr>) (th_rest ts)
        (Some (fst z) # rest)"
      using alive cur n by (simp add: th_view_def)
    ultimately show ?thesis using rest(1) by (auto simp: th_rep_def)
  qed
qed

function th_drain :: "int \<Rightarrow> (addr \<times> heap_timer) list \<Rightarrow> (addr \<times> heap_timer) list \<times> (addr \<times> heap_timer) list" where
  "th_drain cur ts =
     (if ts = [] \<or> cur < due_at (ts ! 0) then ([], ts)
      else let (fired, left) = th_drain cur (th_rest ts) in (ts ! 0 # fired, left))"
  by auto
termination by (relation "measure (length \<circ> snd)") auto

declare th_drain.simps [simp del]

definition th_fire :: "(nat \<Rightarrow> ptr \<Rightarrow> 'w \<Rightarrow> 'w) \<Rightarrow> (addr \<times> heap_timer) list \<Rightarrow> 'w \<Rightarrow> 'w" where
  "th_fire call ts s =
     fold (\<lambda>t s. case ht_cb_func (snd t) of None \<Rightarrow> s | Some f \<Rightarrow> call f (ht_user_data (snd t)) s) ts s"

lemma th_rep_view: "th_rep h ts \<Longrightarrow> \<exists>rest. th_view h ts rest"
  by (simp add: th_rep_def)

lemma th_rep_empty: "th_rep h ts \<Longrightarrow> th_empty h \<longleftrightarrow> ts = []"
  by (auto simp: th_rep_def th_view_def th_empty_def)

lemma th_rep_root: "th_rep h ts \<Longrightarrow> ts \<noteq> [] \<Longrightarrow>
    arr_get 0 h = Some (Some (fst (ts ! 0))) \<and> th_mem h (fst (ts ! 0)) = Some (snd (ts ! 0))"
  by (auto simp: th_rep_def th_view_def arr_get_def nth_append)

lemma th_tick_loop_ok:
  assumes "th_rep h ts" "arr_get 0 h = Some tmp"
  shows "\<exists>h'. th_tick_loop call cur tmp h s = Some (h', th_fire call (fst (th_drain cur ts)) s) \<and>
    th_rep h' (snd (th_drain cur ts)) \<and> th_mem h' = th_mem h |` (- fst ` set (fst (th_drain cur ts)))"
  using assms
proof (induction cur ts arbitrary: h tmp s rule: th_drain.induct)
  case (1 cur ts)
  show ?case
  proof (cases "ts = [] \<or> cur < due_at (ts ! 0)")
    case True
    then have "th_drain cur ts = ([], ts)" by (simp add: th_drain.simps)
    moreover have "th_tick_loop call cur tmp h s = Some (h, s)"
      using True "1.prems" th_rep_root [OF "1.prems"(1)]
      by (subst th_tick_loop.simps) (auto simp: th_rep_empty)
    ultimately show ?thesis using "1.prems"(1) by (simp add: th_fire_def restrict_map_def)
  next
    case False
    then have root: "tmp = Some (fst (ts ! 0))" "th_mem h (fst (ts ! 0)) = Some (snd (ts ! 0))" "ts \<noteq> []"
      "\<not> cur < due_at (ts ! 0)"
      using th_rep_root [OF "1.prems"(1)] "1.prems"(2) by auto
    from th_pop_timer_ok [OF "1.prems"(1) root(3)] obtain h1 where
      h1: "th_pop_timer h = Some h1" "th_rep h1 (th_rest ts)" "th_mem h1 = (th_mem h)(fst (ts ! 0) := None)"
        "th_array h1 \<noteq> []"
      by blast
    obtain p where p: "arr_get 0 h1 = Some p" using h1(4) by (simp add: arr_get_def)
    let ?s = "case ht_cb_func (snd (ts ! 0)) of None \<Rightarrow> s | Some f \<Rightarrow> call f (ht_user_data (snd (ts ! 0))) s"
    let ?d = "th_drain cur (th_rest ts)"
    have d: "th_drain cur ts = (ts ! 0 # fst ?d, snd ?d)"
      using False by (simp add: th_drain.simps [of cur ts] split_beta)
    have "th_tick_loop call cur tmp h s = th_tick_loop call cur p h1 ?s"
      using root h1(1) p "1.prems" by (subst th_tick_loop.simps) (simp add: th_rep_empty)
    moreover obtain h' where "th_tick_loop call cur p h1 ?s = Some (h', th_fire call (fst ?d) ?s)"
      "th_rep h' (snd ?d)" "th_mem h' = th_mem h1 |` (- fst ` set (fst ?d))"
      using "1.IH" [OF False h1(2) p] by blast
    moreover have "th_mem h1 |` (- fst ` set (fst ?d)) = th_mem h |` (- fst ` set (fst (th_drain cur ts)))"
      unfolding d h1(3) by (auto simp: restrict_map_def fun_eq_iff)
    ultimately show ?thesis using d by (simp add: th_fire_def)
  qed
qed

lemma th_drain_ok:
  "th.heap_from 0 (length ts - 1) ts \<Longrightarrow> th_drain cur ts = (fired, left) \<Longrightarrow>
    mset fired + mset left = mset ts \<and> (\<forall>t \<in> set fired. due_at t \<le> cur) \<and>
    th.heap_from 0 (length left - 1) left \<and> (left \<noteq> [] \<longrightarrow> cur < due_at (left ! 0))"
proof (induction cur ts arbitrary: fired left rule: th_drain.induct)
  case (1 cur ts)
  show ?case
  proof (cases "ts = [] \<or> cur < due_at (ts ! 0)")
    case True
    with "1.prems" show ?thesis by (auto simp: th_drain.simps [of cur ts])
  next
    case False
    obtain f l where fl: "th_drain cur (th_rest ts) = (f, l)" by fastforce
    have "mset f + mset l = mset (th_rest ts) \<and> (\<forall>t \<in> set f. due_at t \<le> cur) \<and>
        th.heap_from 0 (length l - 1) l \<and> (l \<noteq> [] \<longrightarrow> cur < due_at (l ! 0))"
      using "1.IH" [OF False heap_th_rest [OF "1.prems"(1)] fl] .
    moreover have "fired = ts ! 0 # f" "left = l"
      using False fl "1.prems"(2) by (simp_all add: th_drain.simps [of cur ts])
    ultimately show ?thesis using False mset_th_rest [of ts] by auto
  qed
qed

lemma butlast_above:
  assumes "th.heap_from 0 (length ts - 1) ts" "ts \<noteq> [] \<longrightarrow> cur < due_at (ts ! 0)" "t \<in> set (butlast ts)"
  shows "cur < due_at t"
proof -
  from assms(3) obtain i where i: "i < length ts - 1" "t = ts ! i" by (auto simp: in_set_conv_nth nth_butlast)
  with th.heap_root_least [OF assms(1) i(1)] assms(2) show ?thesis by fastforce
qed

section \<open>Properties\<close>

text \<open>Heap order but for the last entry.\<close>

definition heap_ordered :: "(addr \<times> heap_timer) list \<Rightarrow> bool" where
  "heap_ordered ts \<longleftrightarrow> (\<forall>i < length ts - 1. 0 < i \<longrightarrow> due_at (ts ! ((i - 1) div 2)) \<le> due_at (ts ! i))"

lemma heap_ordered_from: "heap_ordered ts \<longleftrightarrow> th.heap_from 0 (length ts - 1) ts"
  by (simp add: heap_ordered_def th.heap_from_def)

text \<open>The constructor over given timers never faults, keeps them all, and puts all but the last
  entry of the array into heap order (the sifting loop stops one short of the end).\<close>

theorem heap_of_orders_all_but_last:
  assumes "length ts \<le> cap" "distinct (map fst ts)" "\<forall>t \<in> set ts. m (fst t) = Some (snd t)"
  shows "\<exists>h us. time_heap_of (map (Some \<circ> fst) ts) (length ts) cap m = Inr (Some h) \<and> th_rep h us \<and>
    mset us = mset ts \<and> th_mem h = m \<and> heap_ordered us"
proof (cases "ts = []")
  case True
  then show ?thesis
    by (auto simp: time_heap_of_def th_rep_def th_view_def heap_ordered_def)
next
  case False
  let ?rest = "replicate (cap - length ts) None"
  let ?h = "\<lparr>th_mem = m, th_array = map (Some \<circ> fst) ts @ ?rest, th_capacity = cap, th_cur_size = length ts\<rparr>"
  let ?us = "th.build (length ts - 1) ((length ts - 1) div 2) ts"
  have v: "th_view ?h ts ?rest" using assms by (simp add: th_view_def)
  have us: "th.heap_from 0 (length ts - 1) ?us" "mset ?us = mset ts" "length ?us = length ts"
  proof -
    have "th.heap_from (Suc ((length ts - 1) div 2)) (length ts - 1) ts"
      by (auto simp: th.heap_from_def)
    moreover have "(length ts - 1) div 2 < length ts" using False by (cases ts) auto
    ultimately have "th.heap_from 0 (length ts - 1) ?us \<and> mset ?us = mset ts \<and> length ?us = length ts"
      by (intro th.build_ok) simp_all
    then show "th.heap_from 0 (length ts - 1) ?us" "mset ?us = mset ts" "length ?us = length ts" by auto
  qed
  have "(length ts - 1) div 2 < length ts" using False by (cases ts) auto
  from th_build_ok [OF v this]
  have "time_heap_of (map (Some \<circ> fst) ts) (length ts) cap m = Inr (Some (?h\<lparr>th_array := map (Some \<circ> fst) ?us @ ?rest\<rparr>))"
    using False assms(1) by (simp add: time_heap_of_def)
  moreover have "th_rep (?h\<lparr>th_array := map (Some \<circ> fst) ?us @ ?rest\<rparr>) ?us"
    unfolding th_rep_def using th_view_mset [OF v us(2)] distinct_fst_mset [OF us(2)] assms(2) by blast
  moreover have "heap_ordered ?us" using us by (simp add: heap_ordered_from)
  ultimately show ?thesis using us(2) by (intro exI [of _ "?h\<lparr>th_array := map (Some \<circ> fst) ?us @ ?rest\<rparr>"] exI [of _ ?us]) simp
qed

text \<open>\<open>pop_timer\<close> on a non-empty heap never faults, frees the timer at the root and nothing else,
  keeps all other timers and the order of all but the last entry; the root was due no later than
  any of the entries but the last.\<close>

theorem heap_pop_removes_root:
  assumes "th_rep h ts" "ts \<noteq> []" "heap_ordered ts"
  shows "\<exists>h' us. th_pop_timer h = Some h' \<and> th_rep h' us \<and> heap_ordered us \<and>
    add_mset (ts ! 0) (mset us) = mset ts \<and> th_mem h' = (th_mem h)(fst (ts ! 0) := None) \<and>
    (\<forall>t \<in> set (butlast ts). due_at (ts ! 0) \<le> due_at t)"
proof -
  have o: "th.heap_from 0 (length ts - 1) ts" using assms(3) by (simp add: heap_ordered_from)
  have "\<forall>t \<in> set (butlast ts). due_at (ts ! 0) \<le> due_at t"
    using th.heap_root_least [OF o] by (metis in_set_conv_nth length_butlast nth_butlast)
  moreover have "heap_ordered (th_rest ts)" using heap_th_rest [OF o] by (simp add: heap_ordered_from)
  ultimately show ?thesis using th_pop_timer_ok [OF assms(1,2)] mset_th_rest [OF assms(2)] by blast
qed


definition heap_demo_mem :: "heap_timer heap" where
  "heap_demo_mem = (\<lambda>a. if a \<in> {1, 2, 3} then Some \<lparr>ht_expire = int a, ht_cb_func = Some a, ht_user_data = None\<rparr> else None)"

text \<open>A due timer can be missed: on the heap built from deadlines 1, 2, 3 a tick at time 2 calls
  the first timer and leaves the second, due, behind the third.\<close>

theorem heap_tick_misses_due:
  "\<exists>h h'. time_heap_of [Some 1, Some 2, Some 3] 3 3 heap_demo_mem = Inr (Some h) \<and>
    th_tick (\<lambda>f d s. s @ [f]) 2 h [] = Some (h', [1]) \<and>
    take (th_cur_size h') (th_array h') = [Some 3, Some 2] \<and>
    map_option ht_expire (th_mem h' 2) = Some 2"
  by (simp add: time_heap_of_def numeral_2_eq_2 numeral_3_eq_3 percolate_down_def percolate_down_loop.simps
      percolate_child_def arr_expire_def arr_get_def arr_set_def heap_demo_mem_def th_tick_def th_tick_loop.simps
      th_empty_def th_pop_timer_def)

lemma th_add_loop_inside:
  assumes "hole < n" "n < length (th_array h)" "th_mem h a = Some t"
    "\<forall>i < n. \<exists>p u. th_array h ! i = Some p \<and> th_mem h p = Some u"
  shows "\<exists>hole' h'. th_add_loop a hole h = Some (hole', h') \<and> hole' < n \<and> th_mem h' = th_mem h \<and>
    length (th_array h') = length (th_array h) \<and> th_cur_size h' = th_cur_size h \<and>
    (\<forall>i < n. th_array h' ! i \<noteq> None) \<and> th_array h' ! n = th_array h ! n"
  using assms
proof (induction hole arbitrary: h rule: less_induct)
  case (less hole)
  show ?case
  proof (cases "hole = 0")
    case True
    with less.prems show ?thesis by (auto simp: th_add_loop.simps [of a 0 h])
  next
    case False
    let ?par = "(hole - 1) div 2"
    have par: "?par < hole" using False by auto
    then obtain p u where p: "th_array h ! ?par = Some p" "th_mem h p = Some u"
      using less.prems(1,4) by (meson order_less_trans)
    have get: "arr_get ?par h = Some (Some p)" "arr_expire ?par h = Some (ht_expire u)"
      using par less.prems p by (simp_all add: arr_get_def arr_expire_def)
    let ?h = "h\<lparr>th_array := (th_array h)[hole := Some p]\<rparr>"
    show ?thesis
    proof (cases "ht_expire u \<le> ht_expire t")
      case True
      then have "th_add_loop a hole h = Some (hole, h)"
        using False get less.prems(3) by (subst th_add_loop.simps) simp
      then show ?thesis using less.prems by auto
    next
      case up: False
      have "th_add_loop a hole h = th_add_loop a ?par ?h"
        using False up get less.prems by (subst th_add_loop.simps) (simp add: arr_set_def)
      moreover have "\<exists>hole' h'. th_add_loop a ?par ?h = Some (hole', h') \<and> hole' < n \<and> th_mem h' = th_mem ?h \<and>
          length (th_array h') = length (th_array ?h) \<and> th_cur_size h' = th_cur_size ?h \<and>
          (\<forall>i < n. th_array h' ! i \<noteq> None) \<and> th_array h' ! n = th_array ?h ! n"
      proof (rule less.IH [OF par])
        show "\<forall>i < n. \<exists>p u. th_array ?h ! i = Some p \<and> th_mem ?h p = Some u"
          using less.prems p by (simp add: nth_list_update)
      qed (use less.prems par in simp_all)
      ultimately show ?thesis using less.prems(1) by simp
    qed
  qed
qed

lemma pop_gap_faults:
  assumes "th_cur_size h = Suc n" "3 \<le> n" "n < length (th_array h)" "th_array h ! n = None" "th_array h ! 0 \<noteq> None"
  shows "th_pop_timer h = None"
proof -
  have null: "percolate_down_loop None 0 g = None" if "th_cur_size g = n" for g
    using that assms(2) by (subst percolate_down_loop.simps) (simp add: bind_eq_None_conv)
  show ?thesis
    using assms null by (auto simp: th_pop_timer_def th_empty_def arr_get_def arr_set_def percolate_down_def
        bind_eq_None_conv nth_list_update)
qed

text \<open>A timer can never be added to a new heap: the first \<open>add_timer\<close> starts its hole at index 1
  and dereferences the null pointer at index 0.\<close>

theorem heap_add_to_new_faults: "th_add_timer (Some a) (new_time_heap cap m) = None"
  by (cases cap) (simp_all add: th_add_timer_def new_time_heap_def th_resize_def
      th_add_loop.simps [of a "Suc 0"] arr_expire_def arr_get_def)

text \<open>\<open>add_timer\<close> with one free entry left writes past the end of the array.\<close>

theorem heap_add_at_capacity_faults:
  assumes "th_rep h ts" "ts \<noteq> []" "th_capacity h = length ts + 1"
  shows "th_add_timer (Some a) h = None"
proof -
  obtain rest where v: "th_view h ts rest" using th_rep_view [OF assms(1)] by blast
  then have n: "th_cur_size h = length ts" "length (th_array h) = Suc (length ts)"
    using assms(3) by (simp_all add: th_view_def)
  have "length ts div 2 < length ts" using assms(2) by (cases ts) auto
  let ?h = "h\<lparr>th_cur_size := Suc (length ts)\<rparr>"
  have "th_add_loop a (Suc (length ts)) ?h \<bind> (\<lambda>(hole, h3). arr_set hole (Some a) h3) = None"
    using n by (subst th_add_loop.simps) (simp add: arr_set_def bind_eq_None_conv Let_def split_beta)
  then show ?thesis using n assms(3) by (simp add: th_add_timer_def)
qed

lemma th_add_loop_gap:
  assumes "th_view h ts (None # r # rest)" "ts \<noteq> []" "th_mem h a = Some t"
  shows "\<exists>hole' h'. th_add_loop a (Suc (length ts)) (h\<lparr>th_cur_size := Suc (length ts)\<rparr>) = Some (hole', h') \<and> hole' \<noteq> length ts \<and>
      hole' < length (th_array h') \<and> th_cur_size h' = Suc (length ts) \<and> length (th_array h') = length (th_array h) \<and>
      (\<forall>i < length ts. th_array h' ! i \<noteq> None) \<and> th_array h' ! length ts = None"
proof -
  let ?n = "length ts"
  let ?h = "h\<lparr>th_cur_size := Suc ?n\<rparr>"
  have h: "th_cur_size h = ?n" "th_array h = map (Some \<circ> fst) ts @ None # r # rest" "th_capacity h = length (th_array h)"
    "\<forall>t \<in> set ts. th_mem h (fst t) = Some (snd t)"
    using assms(1) by (simp_all add: th_view_def)
  have par: "?n div 2 < ?n" using assms(2) by (cases ts) auto
  have live: "\<forall>i < ?n. \<exists>p u. th_array h ! i = Some p \<and> th_mem h p = Some u"
    using h by (auto simp: nth_append)
  have get: "arr_get (?n div 2) ?h = Some (Some (fst (ts ! (?n div 2))))"
    "arr_expire (?n div 2) ?h = Some (due_at (ts ! (?n div 2)))"
    using h par by (simp_all add: arr_get_def arr_expire_def nth_append)
  show ?thesis
  proof (cases "due_at (ts ! (?n div 2)) \<le> ht_expire t")
    case True
    then have "th_add_loop a (Suc ?n) ?h = Some (Suc ?n, ?h)"
      using get assms(3) by (subst th_add_loop.simps) simp
    then show ?thesis using h by (auto simp: nth_append)
  next
    case False
    let ?g = "?h\<lparr>th_array := (th_array h)[Suc ?n := Some (fst (ts ! (?n div 2)))]\<rparr>"
    have "th_add_loop a (Suc ?n) ?h = th_add_loop a (?n div 2) ?g"
      using False get assms(3) h by (subst th_add_loop.simps) (simp add: arr_set_def Let_def)
    moreover have "\<exists>hole' h'. th_add_loop a (?n div 2) ?g = Some (hole', h') \<and> hole' < ?n \<and> th_mem h' = th_mem ?g \<and>
        length (th_array h') = length (th_array ?g) \<and> th_cur_size h' = th_cur_size ?g \<and>
        (\<forall>i < ?n. th_array h' ! i \<noteq> None) \<and> th_array h' ! ?n = th_array ?g ! ?n"
      using par assms(3) live h by (intro th_add_loop_inside) simp_all
    ultimately show ?thesis using h by (auto simp: nth_append)
  qed
qed

text \<open>With room for two more timers \<open>add_timer\<close> succeeds but leaves a null entry inside the live
  part of the array, and for three or more timers the next \<open>pop_timer\<close> dereferences it.\<close>

theorem heap_add_leaves_gap:
  assumes "th_view h ts (None # r # rest)" "ts \<noteq> []" "th_mem h a = Some t"
  shows "\<exists>h'. th_add_timer (Some a) h = Some h' \<and> th_cur_size h' = length ts + 1 \<and>
    th_array h' ! length ts = None \<and> (3 \<le> length ts \<longrightarrow> th_pop_timer h' = None)"
proof -
  let ?n = "length ts"
  let ?h = "h\<lparr>th_cur_size := Suc ?n\<rparr>"
  have h: "th_cur_size h = ?n" "th_array h = map (Some \<circ> fst) ts @ None # r # rest" "th_capacity h = length (th_array h)"
    "\<forall>t \<in> set ts. th_mem h (fst t) = Some (snd t)"
    using assms(1) by (simp_all add: th_view_def)
  from th_add_loop_gap [OF assms] obtain hole' h1 where h1: "th_add_loop a (Suc ?n) ?h = Some (hole', h1)" "hole' \<noteq> ?n" "hole' < length (th_array h1)"
    "th_cur_size h1 = Suc ?n" "length (th_array h1) = length (th_array h)" "\<forall>i < ?n. th_array h1 ! i \<noteq> None"
    "th_array h1 ! ?n = None"
    by blast
  let ?h' = "h1\<lparr>th_array := (th_array h1)[hole' := Some a]\<rparr>"
  have "th_add_timer (Some a) h = Some ?h'"
    using h h1 by (simp add: th_add_timer_def arr_set_def)
  moreover have "3 \<le> ?n \<longrightarrow> th_pop_timer ?h' = None"
  proof
    assume "3 \<le> ?n"
    moreover from this have "th_array h1 ! 0 \<noteq> None" using h1(6) by fastforce
    ultimately show "th_pop_timer ?h' = None"
      using h h1 by (intro pop_gap_faults [of _ ?n]) (auto simp: nth_list_update)
  qed
  ultimately show ?thesis using h1 by (intro exI [of _ ?h']) simp
qed

subsection \<open>Witnesses\<close>

definition heap_demo_timer :: "nat \<Rightarrow> heap_timer" where
  "heap_demo_timer a = \<lparr>ht_expire = int a, ht_cb_func = Some a, ht_user_data = None\<rparr>"

definition heap_demo :: "nat \<Rightarrow> time_heap" where
  "heap_demo cap = \<lparr>th_mem = heap_demo_mem, th_array = map Some [1, 2, 3] @ replicate (cap - 3) None,
     th_capacity = cap, th_cur_size = 3\<rparr>"

abbreviation heap_demo_timers :: "(addr \<times> heap_timer) list" where
  "heap_demo_timers \<equiv> [(1, heap_demo_timer 1), (2, heap_demo_timer 2), (3, heap_demo_timer 3)]"

lemma heap_demo_view: "3 \<le> cap \<Longrightarrow> th_view (heap_demo cap) heap_demo_timers (replicate (cap - 3) None)"
  by (simp add: th_view_def heap_demo_def heap_demo_mem_def heap_demo_timer_def)

lemma heap_demo_rep: "3 \<le> cap \<Longrightarrow> th_rep (heap_demo cap) heap_demo_timers"
  using heap_demo_view by (auto simp: th_rep_def)

lemma heap_demo_ordered: "heap_ordered heap_demo_timers"
  by (auto simp: heap_ordered_def heap_demo_timer_def less_2_cases_iff)

theorem heap_of_orders_all_but_last_witness:
  "\<exists>h us. time_heap_of (map (Some \<circ> fst) heap_demo_timers) (length heap_demo_timers) 4 heap_demo_mem = Inr (Some h) \<and>
    th_rep h us \<and> mset us = mset heap_demo_timers \<and> th_mem h = heap_demo_mem \<and> heap_ordered us"
  by (rule heap_of_orders_all_but_last) (simp_all add: heap_demo_mem_def heap_demo_timer_def)

theorem heap_pop_removes_root_witness:
  "\<exists>h' us. th_pop_timer (heap_demo 4) = Some h' \<and> th_rep h' us \<and> heap_ordered us \<and>
    add_mset (heap_demo_timers ! 0) (mset us) = mset heap_demo_timers \<and>
    th_mem h' = (th_mem (heap_demo 4))(fst (heap_demo_timers ! 0) := None) \<and>
    (\<forall>t \<in> set (butlast heap_demo_timers). due_at (heap_demo_timers ! 0) \<le> due_at t)"
  by (rule heap_pop_removes_root [OF heap_demo_rep _ heap_demo_ordered]) simp_all


theorem heap_add_at_capacity_faults_witness: "th_add_timer (Some 1) (heap_demo 4) = None"
  by (rule heap_add_at_capacity_faults [OF heap_demo_rep]) (simp_all add: heap_demo_def)

theorem heap_add_leaves_gap_witness:
  "\<exists>h'. th_add_timer (Some 1) (heap_demo 5) = Some h' \<and> th_cur_size h' = length heap_demo_timers + 1 \<and>
    th_array h' ! length heap_demo_timers = None \<and> (3 \<le> length heap_demo_timers \<longrightarrow> th_pop_timer h' = None)"
proof (rule heap_add_leaves_gap)
  show "th_view (heap_demo 5) heap_demo_timers (None # None # [])"
    using heap_demo_view [of 5] by (simp add: numeral_2_eq_2)
  show "th_mem (heap_demo 5) 1 = Some (heap_demo_timer 1)"
    by (simp add: heap_demo_def heap_demo_mem_def heap_demo_timer_def)
qed simp

end
