(* ===== verification/Event_Loop.thy ===== *)
theory Event_Loop
  imports Prelude
begin

text \<open>
  What the event driven servers share: the answers of the kernel to the calls their loops make, the
  run of a handler over a sequence of events, the interface between a handler and the abstract
  machine it implements, and the interface of an interleaved system with an invariant. A handler returns \<open>None\<close> where the C code aborts or leaves its arrays.
\<close>

datatype 'a recv_ans = Rv_data 'a | Rv_eof | Rv_eagain | Rv_error

datatype 'e epoll_ans = Ep_events "'e list" | Ep_eintr | Ep_fail

fun run_events :: "('e \<Rightarrow> 's \<Rightarrow> 's option) \<Rightarrow> 'e list \<Rightarrow> 's \<Rightarrow> 's option" where
  "run_events step [] s = Some s"
| "run_events step (e # es) s = Option.bind (step e s) (run_events step es)"

fun valid_events :: "('e \<Rightarrow> 'a \<Rightarrow> bool) \<Rightarrow> ('e \<Rightarrow> 'a \<Rightarrow> 'a) \<Rightarrow> 'e list \<Rightarrow> 'a \<Rightarrow> bool" where
  "valid_events valid spec [] a = True"
| "valid_events valid spec (e # es) a = (valid e a \<and> valid_events valid spec es (spec e a))"

lemma run_events_append:
  "run_events step (es @ es') s = Option.bind (run_events step es s) (run_events step es')"
  by (induction es arbitrary: s) (auto split: bind_splits)

lemma valid_events_append:
  "valid_events valid spec (es @ es') a = (valid_events valid spec es a \<and> valid_events valid spec es' (fold spec es a))"
  by (induction es arbitrary: a) auto

text \<open>A run of executable actions is a path of the step relation they belong to.\<close>

lemma run_events_reaches:
  assumes "\<And>e s s'. act e s = Some s' \<Longrightarrow> step s s'" "run_events act es s = Some s'"
  shows "step\<^sup>*\<^sup>* s s'"
  using assms(2)
proof (induction es arbitrary: s)
  case (Cons e es)
  then obtain s1 where s1: "act e s = Some s1" "run_events act es s1 = Some s'" by (auto simp: bind_eq_Some_conv)
  then show ?case using assms(1) Cons.IH by (meson converse_rtranclp_into_rtranclp)
qed simp

text \<open>A handler \<open>step\<close> implements the machine \<open>spec\<close> on the events \<open>valid\<close> admits; \<open>ok\<close> is the
  invariant of the concrete state and \<open>abs\<close> what it stands for.\<close>

locale handler =
  fixes step :: "'e \<Rightarrow> 's \<Rightarrow> 's option"
    and spec :: "'e \<Rightarrow> 'a \<Rightarrow> 'a"
    and valid :: "'e \<Rightarrow> 'a \<Rightarrow> bool"
    and ok :: "'s \<Rightarrow> bool"
    and abs :: "'s \<Rightarrow> 'a"
  assumes step_refines: "ok s \<Longrightarrow> valid e (abs s) \<Longrightarrow> \<exists>s'. step e s = Some s' \<and> ok s' \<and> abs s' = spec e (abs s)"
begin

lemma run_refines:
  "ok s \<Longrightarrow> valid_events valid spec es (abs s) \<Longrightarrow>
   \<exists>s'. run_events step es s = Some s' \<and> ok s' \<and> abs s' = fold spec es (abs s)"
proof (induction es arbitrary: s)
  case (Cons e es)
  then obtain s1 where s1: "step e s = Some s1" "ok s1" "abs s1 = spec e (abs s)"
    using step_refines [of s e] by auto
  with Cons.IH [of s1] Cons.prems show ?case by auto
qed auto

lemma run_never_faults: "ok s \<Longrightarrow> valid_events valid spec es (abs s) \<Longrightarrow> run_events step es s \<noteq> None"
  using run_refines [of s es] by auto

end

text \<open>A system of concurrent threads or processes: where it may start, its steps, and an invariant.\<close>

locale transition_system =
  fixes start :: "'s \<Rightarrow> bool"
    and step :: "'s \<Rightarrow> 's \<Rightarrow> bool"
    and inv :: "'s \<Rightarrow> bool"
  assumes start_inv: "start s \<Longrightarrow> inv s"
    and step_inv: "step s s' \<Longrightarrow> inv s \<Longrightarrow> inv s'"
begin

lemma reachable_inv: "start s \<Longrightarrow> step\<^sup>*\<^sup>* s s' \<Longrightarrow> inv s'"
proof -
  assume "step\<^sup>*\<^sup>* s s'" "start s"
  then show "inv s'" by (induction rule: rtranclp_induct) (auto intro: start_inv step_inv)
qed

end

end
