(* ===== verification/C_String.thy ===== *)
theory C_String
  imports Prelude
begin

text \<open>
  The parts of \<open>string.h\<close>, \<open>strings.h\<close>, \<open>stdlib.h\<close> and \<open>stdio.h\<close> the programs use, on character
  lists. A raw character array is a list that may hold NUL bytes; \<open>cstr\<close> reads the C string at its
  start.
\<close>

abbreviation NUL :: char where "NUL \<equiv> CHR 0x00"
abbreviation CR :: char where "CR \<equiv> CHR 0x0D"
abbreviation LF :: char where "LF \<equiv> CHR 0x0A"
abbreviation TAB :: char where "TAB \<equiv> CHR 0x09"
abbreviation crlf :: string where "crlf \<equiv> [CR, LF]"

definition cstr :: "string \<Rightarrow> string" where
  "cstr raw = takeWhile (\<lambda>c. c \<noteq> NUL) raw"

text \<open>Writing bytes over the front of an array.\<close>

definition put_front :: "string \<Rightarrow> string \<Rightarrow> string" where
  "put_front s raw = s @ drop (length s) raw"

lemma cstr_put [simp]: "NUL \<notin> set s \<Longrightarrow> cstr (put_front (s @ [NUL]) raw) = s"
  by (simp add: cstr_def put_front_def takeWhile_append)

lemma cstr_id [simp]: "NUL \<notin> set s \<Longrightarrow> cstr s = s"
  by (simp add: cstr_def takeWhile_eq_all_conv) (metis)

lemma NUL_cstr [simp]: "NUL \<notin> set (cstr raw)"
  by (auto simp: cstr_def dest: set_takeWhileD)

lemma cstr_cut: "cstr (name @ NUL # xs) = cstr name"
  by (induction name) (auto simp: cstr_def)

lemma cstr_append: "NUL \<notin> set xs \<Longrightarrow> cstr (xs @ ys) = xs @ cstr ys"
  by (induction xs) (auto simp: cstr_def)

section \<open>Searching and comparing\<close>

fun is_prefix :: "string \<Rightarrow> string \<Rightarrow> bool" where
  "is_prefix [] t = True"
| "is_prefix (c # s) [] = False"
| "is_prefix (c # s) (d # t) = (c = d \<and> is_prefix s t)"

text \<open>The suffix of the first argument that starts with the second.\<close>

fun strstr :: "string \<Rightarrow> string \<Rightarrow> string option" where
  "strstr [] needle = (if needle = [] then Some [] else None)"
| "strstr (c # s) needle = (if is_prefix needle (c # s) then Some (c # s) else strstr s needle)"

definition strchr :: "string \<Rightarrow> char \<Rightarrow> string option" where
  "strchr s c = (case dropWhile (\<lambda>d. d \<noteq> c) s of [] \<Rightarrow> None | t \<Rightarrow> Some t)"

definition strpbrk :: "string \<Rightarrow> string \<Rightarrow> string option" where
  "strpbrk s accept = (case dropWhile (\<lambda>d. d \<notin> set accept) s of [] \<Rightarrow> None | t \<Rightarrow> Some t)"

text \<open>The string behind the leading characters of \<open>accept\<close>: \<open>s + strspn(s, accept)\<close>.\<close>

definition skipspn :: "string \<Rightarrow> string \<Rightarrow> string" where
  "skipspn s accept = dropWhile (\<lambda>d. d \<in> set accept) s"

definition tolower :: "char \<Rightarrow> char" where
  "tolower c = (let n = (of_char c :: nat) in if 65 \<le> n \<and> n \<le> 90 then char_of (n + 32) else c)"

definition strcaseeq :: "string \<Rightarrow> string \<Rightarrow> bool" where
  "strcaseeq s t \<longleftrightarrow> map tolower s = map tolower t"

text \<open>\<open>strncasecmp(s, t, n) == 0\<close>\<close>

definition strncaseeq :: "string \<Rightarrow> string \<Rightarrow> nat \<Rightarrow> bool" where
  "strncaseeq s t n \<longleftrightarrow> map tolower (take n s) = map tolower (take n t)"

lemma strncaseeq_length: "strncaseeq s t n \<Longrightarrow> n \<le> length t \<Longrightarrow> n \<le> length s"
proof -
  assume "strncaseeq s t n" "n \<le> length t"
  moreover from this(1) have "length (map tolower (take n s)) = length (map tolower (take n t))"
    unfolding strncaseeq_def by (rule arg_cong)
  ultimately show "n \<le> length s" by simp
qed

lemma is_prefix_append [simp]: "is_prefix s (s @ t)"
  by (induction s) auto

lemma is_prefix_iff: "is_prefix s t \<longleftrightarrow> (\<exists>u. t = s @ u)"
  by (induction s t rule: is_prefix.induct) auto

lemma strstr_None: "strstr s n = None \<longleftrightarrow> \<not> (\<exists>u v. s = u @ n @ v)"
proof (induction s n rule: strstr.induct)
  case (2 c s n)
  have "(\<exists>u v. c # s = u @ n @ v) \<longleftrightarrow> is_prefix n (c # s) \<or> (\<exists>u v. s = u @ n @ v)"
    unfolding is_prefix_iff by (metis append_Cons append_Nil list.inject list.exhaust)
  with 2 show ?case by auto
qed simp

lemma strstr_Some: "strstr s n = Some t \<Longrightarrow> \<exists>u. s = u @ t \<and> is_prefix n t"
proof (induction s n rule: strstr.induct)
  case (2 c s n)
  show ?case
  proof (cases "is_prefix n (c # s)")
    case False
    with 2 obtain u where "s = u @ t" "is_prefix n t" by auto
    then show ?thesis by (intro exI [of _ "c # u"]) simp
  qed (use 2 in auto)
qed (auto split: if_splits)

lemma strstr_append: "strstr s n \<noteq> None \<Longrightarrow> strstr (s @ t) n \<noteq> None"
proof -
  assume "strstr s n \<noteq> None"
  then obtain u v where "s = u @ n @ v" unfolding strstr_None by auto
  then have "s @ t = u @ n @ (v @ t)" by simp
  then show ?thesis unfolding strstr_None by (intro notI, elim notE) (intro exI)
qed

lemma strchr_split [simp]: "c \<notin> set s \<Longrightarrow> strchr (s @ c # t) c = Some (c # t)"
  by (simp add: strchr_def dropWhile_append)

lemma strchr_None: "strchr s c = None \<longleftrightarrow> c \<notin> set s"
proof -
  have "strchr s c = None \<longleftrightarrow> dropWhile (\<lambda>d. d \<noteq> c) s = []"
    by (cases "dropWhile (\<lambda>d. d \<noteq> c) s") (simp_all only: strchr_def list.case, simp_all)
  then show ?thesis by auto
qed

lemma strchr_absent [simp]: "c \<notin> set s \<Longrightarrow> strchr s c = None"
  by (simp add: strchr_None)

lemma strchr_Some: "strchr s c = Some t \<Longrightarrow> \<exists>u v. t = c # v \<and> s = u @ c # v \<and> c \<notin> set u"
proof -
  assume *: "strchr s c = Some t"
  then have t: "t = dropWhile (\<lambda>d. d \<noteq> c) s" "t \<noteq> []" by (auto simp: strchr_def split: list.splits)
  moreover have "s = takeWhile (\<lambda>d. d \<noteq> c) s @ t" using t(1) by simp
  moreover have "c \<notin> set (takeWhile (\<lambda>d. d \<noteq> c) s)" by (auto dest: set_takeWhileD)
  moreover have "hd t = c" using t hd_dropWhile [of "\<lambda>d. d \<noteq> c" s] by auto
  ultimately show ?thesis by (metis list.collapse)
qed

section \<open>Numbers\<close>

definition digit :: "nat \<Rightarrow> char" where
  "digit d = char_of (48 + d)"

definition is_digit :: "char \<Rightarrow> bool" where
  "is_digit c \<longleftrightarrow> 48 \<le> (of_char c :: nat) \<and> (of_char c :: nat) \<le> 57"

definition digit_val :: "char \<Rightarrow> nat" where
  "digit_val c = of_char c - 48"

text \<open>\<open>%d\<close>\<close>

fun dec_nat :: "nat \<Rightarrow> string" where
  "dec_nat n = (if n < 10 then [digit n] else dec_nat (n div 10) @ [digit (n mod 10)])"

declare dec_nat.simps [simp del]

definition dec_int :: "int \<Rightarrow> string" where
  "dec_int i = (if i < 0 then CHR ''-'' # dec_nat (nat (- i)) else dec_nat (nat i))"

definition is_space :: "char \<Rightarrow> bool" where
  "is_space c \<longleftrightarrow> c = CHR '' '' \<or> (9 \<le> (of_char c :: nat) \<and> (of_char c :: nat) \<le> 13)"

definition digits_val :: "string \<Rightarrow> nat" where
  "digits_val s = foldl (\<lambda>v c. 10 * v + digit_val c) 0 (takeWhile is_digit s)"

text \<open>\<open>atoi\<close>, \<open>atol\<close>: white space, a sign, digits; 0 when there are none.\<close>

definition atoi :: "string \<Rightarrow> int" where
  "atoi s = (let t = dropWhile is_space s in
     case t of
       c # u \<Rightarrow> if c = CHR ''-'' then - int (digits_val u)
                else if c = CHR ''+'' then int (digits_val u)
                else int (digits_val t)
     | [] \<Rightarrow> 0)"

lemma of_char_digit: "d < 10 \<Longrightarrow> (of_char (digit d) :: nat) = 48 + d"
  by (simp add: digit_def)

lemma is_digit_digit [simp]: "d < 10 \<Longrightarrow> is_digit (digit d)"
  by (simp add: is_digit_def of_char_digit)

lemma digit_val_digit [simp]: "d < 10 \<Longrightarrow> digit_val (digit d) = d"
  by (simp add: digit_val_def of_char_digit)

lemma dec_nat_digits: "list_all is_digit (dec_nat n) \<and> dec_nat n \<noteq> []"
  by (induction n rule: dec_nat.induct) (simp add: dec_nat.simps [of n for n])

lemma length_dec_nat: "n < 10 ^ k \<Longrightarrow> 0 < k \<Longrightarrow> length (dec_nat n) \<le> k"
proof (induction k arbitrary: n)
  case (Suc k)
  show ?case
  proof (cases "n < 10")
    case True
    then show ?thesis by (simp add: dec_nat.simps [of n])
  next
    case False
    then have "0 < k" "n div 10 < 10 ^ k" using Suc.prems(1) by (cases k; auto simp: div_less_iff_less_mult)+
    with Suc.IH [of "n div 10"] False show ?thesis by (simp add: dec_nat.simps [of n])
  qed
qed simp

lemma NUL_dec_nat [simp]: "NUL \<notin> set (dec_nat n)"
  using dec_nat_digits [of n] by (auto simp: list_all_iff is_digit_def)

lemma foldl_dec_nat: "foldl (\<lambda>v c. 10 * v + digit_val c) 0 (dec_nat n) = n"
proof (induction n rule: dec_nat.induct)
  case (1 n)
  then show ?case by (cases "n < 10") (simp_all add: dec_nat.simps [of n])
qed

lemma digits_val_dec: "digits_val (dec_nat n @ s) = n" if "s = [] \<or> \<not> is_digit (hd s)"
proof -
  have "takeWhile is_digit (dec_nat n @ s) = dec_nat n"
    using that dec_nat_digits [of n]
    by (cases s) (auto simp: takeWhile_append list_all_iff takeWhile_eq_all_conv)
  then show ?thesis by (simp add: digits_val_def foldl_dec_nat)
qed

lemma digit_not_space: "is_digit c \<Longrightarrow> \<not> is_space c \<and> c \<noteq> CHR ''-'' \<and> c \<noteq> CHR ''+''"
  by (auto simp: is_digit_def is_space_def)

lemma dec_nat_Cons: "\<exists>c u. dec_nat n = c # u \<and> is_digit c"
  using dec_nat_digits [of n] by (cases "dec_nat n") auto

text \<open>Printing with \<open>%d\<close> and reading with \<open>atoi\<close> are inverse, whatever text follows the number.\<close>

lemma atoi_dec_nat: "s = [] \<or> \<not> is_digit (hd s) \<Longrightarrow> atoi (dec_nat n @ s) = int n"
proof -
  assume s: "s = [] \<or> \<not> is_digit (hd s)"
  obtain c u where cu: "dec_nat n = c # u" "is_digit c" using dec_nat_Cons by blast
  from digits_val_dec [OF s, of n] cu show ?thesis by (simp add: atoi_def digit_not_space)
qed

lemma atoi_dec_int: "s = [] \<or> \<not> is_digit (hd s) \<Longrightarrow> atoi (dec_int i @ s) = i"
proof -
  assume s: "s = [] \<or> \<not> is_digit (hd s)"
  from digits_val_dec [OF s, of "nat (- i)"] atoi_dec_nat [OF s, of "nat i"] show ?thesis
    by (cases "i < 0") (simp_all add: dec_int_def atoi_def is_space_def)
qed

section \<open>Words\<close>

text \<open>\<open>sscanf(s, "%s %s %s", ...)\<close>: the words, separated by white space.\<close>

function words :: "string \<Rightarrow> string list" where
  "words s = (let t = dropWhile is_space s in
     if t = [] then [] else takeWhile (\<lambda>c. \<not> is_space c) t # words (dropWhile (\<lambda>c. \<not> is_space c) t))"
  by auto
termination
proof (relation "measure length", goal_cases)
  case (2 s t)
  then have t: "\<not> is_space (hd t)" "length t \<le> length s" "t \<noteq> []"
    using length_dropWhile_le [of is_space s] hd_dropWhile [of is_space s] by simp_all
  then show ?case using length_dropWhile_le [of "\<lambda>c. \<not> is_space c" "tl t"] by (cases t) simp_all
qed simp

declare words.simps [simp del]

lemma words_Nil [simp]: "words [] = []"
  by (simp add: words.simps)

lemma words_space [simp]: "is_space c \<Longrightarrow> words (c # s) = words s"
  by (simp add: words.simps [of "c # s"] words.simps [of s])

lemma words_word:
  assumes "w \<noteq> []" "list_all (\<lambda>c. \<not> is_space c) w" "s = [] \<or> is_space (hd s)"
  shows "words (w @ s) = w # words s"
proof -
  have "dropWhile is_space (w @ s) = w @ s" using assms(1,2) by (cases w) auto
  moreover have "takeWhile (\<lambda>c. \<not> is_space c) (w @ s) = w" "dropWhile (\<lambda>c. \<not> is_space c) (w @ s) = s"
    using assms(2,3) by (cases s; simp add: list_all_iff)+
  ultimately show ?thesis using assms(1) by (simp add: words.simps [of "w @ s"])
qed

end
