(* ===== verification/Inactive_Link.thy ===== *)
theory Inactive_Link
  imports Sort_Timer_List Event_Loop C_String "HOL-Library.Multiset"
begin

text \<open>
  The server of \<open>socket/timer/handling_inactive_link.cpp\<close>, which closes connections that stay silent: the
  client of the ascending timer list. The list is the pointer structure of \<^theory_text>\<open>Sort_Timer_List\<close>; a
  connection's \<open>client_data\<close> and its timer point at each other.
\<close>

definition IL_FD_LIMIT :: int where "IL_FD_LIMIT = 65535"
definition TIMESLOT :: int where "TIMESLOT = 5"
definition IL_BUFFER_SIZE :: nat where "IL_BUFFER_SIZE = 64"

record il_client =
  ic_sockfd :: int
  ic_buf :: string
  ic_timer :: ptr

datatype il_call = Il_add int int | Il_del int int | Il_close int | Il_alarm int

text \<open>The static variables and the locals of \<open>main\<close>. \<open>main\<close> declares an \<open>epollfd\<close> of its own, so that the
  static one, which the callback uses, keeps its initial value.\<close>

definition static_epollfd :: int where "static_epollfd = 0"

record inactive =
  il_listenfd :: int
  il_pipe0 :: int
  il_pipe1 :: int
  il_epollfd :: int
  il_list :: sort_timer_list
  il_users :: "int \<Rightarrow> il_client"
  il_timeout :: bool
  il_stop :: bool
  il_calls :: "il_call list"

definition il_user :: "int \<Rightarrow> bool" where
  "il_user fd \<longleftrightarrow> 0 \<le> fd \<and> fd < IL_FD_LIMIT"

text \<open>\<open>user_data\<close> points at an entry of \<open>users\<close>; the pointer is the entry's number. The callback asserts
  that it is not null.\<close>

definition cb_func :: "(int \<Rightarrow> il_client) \<Rightarrow> ptr \<Rightarrow> il_call list option \<Rightarrow> il_call list option" where
  "cb_func users user_data w = do {
     cs \<leftarrow> w;
     i \<leftarrow> user_data;
     Some (cs @ [Il_del static_epollfd (ic_sockfd (users (int i))), Il_close (ic_sockfd (users (int i)))])
   }"

definition timer_handler :: "int \<Rightarrow> inactive \<Rightarrow> inactive option" where
  "timer_handler cur s = do {
     (l, w) \<leftarrow> tick (\<lambda>f. cb_func (il_users s)) cur (il_list s) (Some (il_calls s));
     cs \<leftarrow> w;
     Some (s\<lparr>il_list := l, il_calls := cs @ [Il_alarm TIMESLOT]\<rparr>)
   }"

text \<open>\<open>main\<close> up to its loop: the answers of \<open>socket\<close>, \<open>bind\<close>, \<open>listen\<close>, \<open>epoll_create\<close> and \<open>socketpair\<close> are
  asserted; the heap of the static list starts empty, the new entries of \<open>users\<close> are arbitrary.\<close>

definition il_main_init :: "int \<Rightarrow> int \<Rightarrow> int \<Rightarrow> int \<Rightarrow> (int \<times> int) option \<Rightarrow> (int \<Rightarrow> il_client) \<Rightarrow> inactive option" where
  "il_main_init listenfd bind_ret listen_ret epollfd pair junk =
     (if listenfd < 0 \<or> bind_ret = -1 \<or> listen_ret = -1 \<or> epollfd = -1 then None
      else do {
        (p0, p1) \<leftarrow> pair;
        Some \<lparr>il_listenfd = listenfd, il_pipe0 = p0, il_pipe1 = p1, il_epollfd = epollfd, il_list = new_sort_timer_list Map.empty,
          il_users = junk, il_timeout = False, il_stop = False,
          il_calls = [Il_add epollfd listenfd, Il_add epollfd p0, Il_alarm TIMESLOT]\<rparr>
      })"

text \<open>A new connection: \<open>a\<close> is the address \<open>new\<close> returns. The answer of \<open>accept\<close> is used as an index
  without a check.\<close>

definition il_accept :: "int \<Rightarrow> addr \<Rightarrow> int \<Rightarrow> inactive \<Rightarrow> inactive option" where
  "il_accept connfd a cur s =
     (if \<not> il_user connfd then None
      else do {
        let timer = new_util_timer\<lparr>ut_user_data := Some (nat connfd), ut_cb_func := Some 0, ut_expire := cur + 3 * TIMESLOT\<rparr>;
        l \<leftarrow> add_timer (Some a) ((il_list s)\<lparr>stl_mem := (stl_mem (il_list s))(a \<mapsto> timer)\<rparr>);
        Some (s\<lparr>il_calls := il_calls s @ [Il_add (il_epollfd s) connfd],
          il_users := (il_users s)(connfd := (il_users s connfd)\<lparr>ic_sockfd := connfd, ic_timer := Some a\<rparr>), il_list := l\<rparr>)
      })"

datatype il_signal = Il_ALRM | Il_TERM | Il_other

definition il_signal :: "il_signal \<Rightarrow> inactive \<Rightarrow> inactive" where
  "il_signal sig s = (case sig of Il_ALRM \<Rightarrow> s\<lparr>il_timeout := True\<rparr> | Il_TERM \<Rightarrow> s\<lparr>il_stop := True\<rparr> | Il_other \<Rightarrow> s)"

text \<open>The end of a connection: the callback by hand, then the timer if there is one.\<close>

definition il_drop :: "int \<Rightarrow> inactive \<Rightarrow> inactive option" where
  "il_drop fd s = do {
     cs \<leftarrow> cb_func (il_users s) (Some (nat fd)) (Some (il_calls s));
     l \<leftarrow> (if ic_timer (il_users s fd) = None then Some (il_list s) else del_timer (ic_timer (il_users s fd)) (il_list s));
     Some (s\<lparr>il_calls := cs, il_list := l\<rparr>)
   }"

definition il_fill :: "string recv_ans \<Rightarrow> string" where
  "il_fill ans = (case ans of
      Rv_data bs \<Rightarrow> take (IL_BUFFER_SIZE - 1) bs @ replicate (IL_BUFFER_SIZE - length (take (IL_BUFFER_SIZE - 1) bs)) NUL
    | _ \<Rightarrow> replicate IL_BUFFER_SIZE NUL)"

definition il_recv :: "int \<Rightarrow> string recv_ans \<Rightarrow> int \<Rightarrow> inactive \<Rightarrow> inactive option" where
  "il_recv fd ans cur s =
     (if \<not> il_user fd then None
      else
        let s1 = s\<lparr>il_users := (il_users s)(fd := (il_users s fd)\<lparr>ic_buf := il_fill ans\<rparr>)\<rparr>; timer = ic_timer (il_users s fd) in
        case ans of
          Rv_eagain \<Rightarrow> Some s1
        | Rv_error \<Rightarrow> il_drop fd s1
        | Rv_eof \<Rightarrow> il_drop fd s1
        | Rv_data bs \<Rightarrow>
            if bs = [] then il_drop fd s1
            else if timer = None then Some s1
            else do {
              m \<leftarrow> store timer (\<lambda>n. n\<lparr>ut_expire := cur + 3 * TIMESLOT\<rparr>) (stl_mem (il_list s1));
              l \<leftarrow> adjust_timer timer ((il_list s1)\<lparr>stl_mem := m\<rparr>);
              Some (s1\<lparr>il_list := l\<rparr>)
            })"

record il_event =
  ie_fd :: int
  ie_in :: bool
  ie_connfd :: int
  ie_new :: addr
  ie_now :: int
  ie_signals :: "il_signal list recv_ans"
  ie_data :: "string recv_ans"

definition il_event :: "il_event \<Rightarrow> inactive \<Rightarrow> inactive option" where
  "il_event e s =
     (if ie_fd e = il_listenfd s then il_accept (ie_connfd e) (ie_new e) (ie_now e) s
      else if ie_fd e = il_pipe0 s \<and> ie_in e then (case ie_signals e of Rv_data sigs \<Rightarrow> Some (fold il_signal sigs s) | _ \<Rightarrow> Some s)
      else if ie_in e then il_recv (ie_fd e) (ie_data e) (ie_now e) s
      else Some s)"

text \<open>One pass of the loop; \<open>cur\<close> is the time \<open>tick\<close> reads. The timers wait for the end of the pass.\<close>

definition il_timers :: "int \<Rightarrow> inactive \<Rightarrow> inactive option" where
  "il_timers cur s = (if il_timeout s then map_option (\<lambda>s'. s'\<lparr>il_timeout := False\<rparr>) (timer_handler cur s) else Some s)"

definition il_round :: "il_event list \<Rightarrow> int \<Rightarrow> inactive \<Rightarrow> inactive option" where
  "il_round es cur s = Option.bind (run_events il_event es s) (il_timers cur)"

fun il_loop :: "(il_event epoll_ans \<times> int) list \<Rightarrow> inactive \<Rightarrow> (bool \<times> inactive) option" where
  "il_loop answers s =
     (if il_stop s then Some (True, s)
      else (case answers of
          [] \<Rightarrow> Some (False, s)
        | (Ep_fail, _) # _ \<Rightarrow> Some (True, s)
        | (Ep_eintr, cur) # rest \<Rightarrow> Option.bind (il_round [] cur s) (il_loop rest)
        | (Ep_events es, cur) # rest \<Rightarrow> Option.bind (il_round es cur s) (il_loop rest)))"

definition il_main_end :: "inactive \<Rightarrow> inactive" where
  "il_main_end s = s\<lparr>il_calls := il_calls s @ [Il_close (il_listenfd s), Il_close (il_pipe1 s), Il_close (il_pipe0 s)]\<rparr>"

section \<open>The deadlines the state stands for\<close>

text \<open>Each open connection with the address of its timer and its deadline.\<close>

definition deadlines :: "inactive \<Rightarrow> (int \<rightharpoonup> addr \<times> int)" where
  "deadlines s fd = (if il_user fd then do {
      a \<leftarrow> ic_timer (il_users s fd);
      n \<leftarrow> stl_mem (il_list s) a;
      if ut_user_data n = Some (nat fd) then Some (a, ut_expire n) else None
    } else None)"

definition il_job :: "inactive \<Rightarrow> addr \<times> job \<Rightarrow> bool" where
  "il_job s x \<longleftrightarrow> (\<exists>a e fd. x = (a, e, Some 0, Some (nat fd)) \<and> il_user fd \<and> ic_timer (il_users s fd) = Some a \<and> ic_sockfd (il_users s fd) = fd)"

definition il_rep :: "inactive \<Rightarrow> (addr \<times> job) list \<Rightarrow> bool" where
  "il_rep s xs \<longleftrightarrow> stl_rep (il_list s) xs \<and> sorted (map jexp xs) \<and> dom (stl_mem (il_list s)) = fst ` set xs \<and> (\<forall>x \<in> set xs. il_job s x)"

lemma stl_rep_mem: "stl_rep l xs \<Longrightarrow> (a, j) \<in> set xs \<Longrightarrow> \<exists>n. stl_mem l a = Some n \<and> ut_job n = j"
  by (auto simp: stl_rep_def dest!: split_list)

lemma il_user_inj: "il_user fd \<Longrightarrow> il_user fd' \<Longrightarrow> nat fd = nat fd' \<longleftrightarrow> fd = fd'"
  by (auto simp: il_user_def)

lemma deadlines_iff:
  assumes "il_rep s xs"
  shows "deadlines s fd = Some (a, e) \<longleftrightarrow> il_user fd \<and> (a, e, Some 0, Some (nat fd)) \<in> set xs"
proof
  assume "deadlines s fd = Some (a, e)"
  then obtain n where n: "il_user fd" "ic_timer (il_users s fd) = Some a" "stl_mem (il_list s) a = Some n" "ut_user_data n = Some (nat fd)" "ut_expire n = e"
    by (auto simp: deadlines_def bind_eq_Some_conv split: if_splits)
  then obtain j where j: "(a, j) \<in> set xs" using assms by (force simp: il_rep_def dom_def)
  then have "ut_job n = j" using n assms stl_rep_mem [of "il_list s" xs a j] by (auto simp: il_rep_def)
  moreover obtain e' fd' where "j = (e', Some 0, Some (nat fd'))" using assms j by (fastforce simp: il_rep_def il_job_def)
  ultimately show "il_user fd \<and> (a, e, Some 0, Some (nat fd)) \<in> set xs" using n j by (auto simp: ut_job_def)
next
  assume x: "il_user fd \<and> (a, e, Some 0, Some (nat fd)) \<in> set xs"
  then obtain n where n: "stl_mem (il_list s) a = Some n" "ut_job n = (e, Some 0, Some (nat fd))"
    using assms stl_rep_mem by (fastforce simp: il_rep_def)
  obtain fd' where "il_user fd'" "nat fd = nat fd'" "ic_timer (il_users s fd') = Some a"
    using assms x by (fastforce simp: il_rep_def il_job_def)
  then have "ic_timer (il_users s fd) = Some a" using x il_user_inj by metis
  then show "deadlines s fd = Some (a, e)" using x n by (simp add: deadlines_def ut_job_def)
qed


lemma deadlines_eqI:
  assumes "il_rep s xs" "\<And>fd a e. il_user fd \<Longrightarrow> (a, e, Some 0, Some (nat fd)) \<in> set xs \<longleftrightarrow> m fd = Some (a, e)" "\<And>fd. \<not> il_user fd \<Longrightarrow> m fd = None"
  shows "deadlines s = m"
proof
  fix fd
  show "deadlines s fd = m fd"
  proof (cases "il_user fd")
    case True
    then have "deadlines s fd = Some x \<longleftrightarrow> m fd = Some x" for x
      using deadlines_iff [OF assms(1), of fd "fst x" "snd x"] assms(2) [of fd "fst x" "snd x"] by simp
    then show ?thesis by (metis not_None_eq)
  next
    case False
    then show ?thesis using assms(3) [of fd] by (simp add: deadlines_def)
  qed
qed

lemma deadlines_None: "\<not> il_user fd \<Longrightarrow> deadlines s fd = None"
  by (simp add: deadlines_def)

text \<open>A list step that puts one timer's job in place of another or drops it, seen from the heap.\<close>

lemma dom_after:
  assumes "stl_rep l' ys" "stl_frame zs l l'" "dom (stl_mem l) \<subseteq> fst ` set zs" "\<forall>x \<in> set zs. x \<notin> set ys \<longrightarrow> stl_mem l' (fst x) = None"
  shows "dom (stl_mem l') = fst ` set ys"
proof
  show "fst ` set ys \<subseteq> dom (stl_mem l')" using stl_rep_mem [OF assms(1)] by fastforce
  show "dom (stl_mem l') \<subseteq> fst ` set ys"
  proof
    fix a assume a: "a \<in> dom (stl_mem l')"
    then have "a \<in> fst ` set zs" using assms(2,3) by (auto simp: stl_frame_def) (metis domI subsetD)
    then obtain x where "x \<in> set zs" "fst x = a" by blast
    then show "a \<in> fst ` set ys" using a assms(4) by auto
  qed
qed

abbreviation il_ok :: "inactive \<Rightarrow> bool" where
  "il_ok s \<equiv> \<exists>xs. il_rep s xs"

lemma il_accept_ok:
  assumes "il_rep s xs" "il_user fd" "deadlines s fd = None" "\<forall>fd'. \<forall>e. deadlines s fd' \<noteq> Some (a, e)"
  shows "\<exists>s'. il_accept fd a cur s = Some s' \<and> il_ok s' \<and> deadlines s' = (deadlines s)(fd \<mapsto> (a, cur + 3 * TIMESLOT)) \<and>
    il_calls s' = il_calls s @ [Il_add (il_epollfd s) fd] \<and> il_timeout s' = il_timeout s \<and> il_stop s' = il_stop s \<and>
    il_listenfd s' = il_listenfd s \<and> il_pipe0 s' = il_pipe0 s"
proof -
  define x where "x = (a, cur + 3 * TIMESLOT, Some (0 :: nat), Some (nat fd))"
  define n where "n = new_util_timer\<lparr>ut_user_data := Some (nat fd), ut_cb_func := Some 0, ut_expire := cur + 3 * TIMESLOT\<rparr>"
  define l0 where "l0 = (il_list s)\<lparr>stl_mem := (stl_mem (il_list s))(a \<mapsto> n)\<rparr>"
  have old: "\<exists>e' fd'. y = (b, e', Some 0, Some (nat fd')) \<and> il_user fd' \<and> deadlines s fd' = Some (b, e') \<and> ic_timer (il_users s fd') = Some b \<and> ic_sockfd (il_users s fd') = fd'"
    if y: "y \<in> set xs" and b: "fst y = b" for y b
  proof -
    obtain e' fd' where "y = (b, e', Some 0, Some (nat fd'))" "il_user fd'" "ic_timer (il_users s fd') = Some b" "ic_sockfd (il_users s fd') = fd'"
      using y b assms(1) by (fastforce simp: il_rep_def il_job_def)
    then show ?thesis using y deadlines_iff [OF assms(1), of fd' b e'] by auto
  qed
  have new: "a \<notin> fst ` set xs" using old assms(4) by fastforce
  have rep0: "stl_rep l0 xs" using assms(1) new by (auto simp: l0_def il_rep_def stl_rep_def)
  obtain l where l: "add_timer (Some a) l0 = Some l" "stl_rep l (ins_job x xs)" "stl_frame (ins_job x xs) l0 l"
    using add_timer_ok [of l0 xs x n] rep0 new by (auto simp: l0_def x_def n_def new_util_timer_def ut_job_def)
  define s' where "s' = s\<lparr>il_calls := il_calls s @ [Il_add (il_epollfd s) fd],
          il_users := (il_users s)(fd := (il_users s fd)\<lparr>ic_sockfd := fd, ic_timer := Some a\<rparr>), il_list := l\<rparr>"
  have s': "il_accept fd a cur s = Some s'"
    using l(1) assms(2) by (simp add: il_accept_def s'_def l0_def n_def Let_def)
  have "dom (stl_mem l) = fst ` set (ins_job x xs)"
    using assms(1) by (intro dom_after [OF l(2,3)]) (auto simp: l0_def il_rep_def x_def)
  moreover have "il_job s' y" if y: "y \<in> set xs" for y
  proof -
    obtain e' fd' where "y = (fst y, e', Some 0, Some (nat fd'))" "il_user fd'" "deadlines s fd' = Some (fst y, e')"
        "ic_timer (il_users s fd') = Some (fst y)" "ic_sockfd (il_users s fd') = fd'" using old [OF y refl] by blast
    moreover have "fd' \<noteq> fd" using calculation assms(3) by auto
    ultimately show ?thesis unfolding il_job_def by (intro exI [of _ "fst y"] exI [of _ e'] exI [of _ fd']) (simp add: s'_def)
  qed
  moreover have "il_job s' x" using assms(2) by (auto simp: il_job_def x_def s'_def)
  ultimately have rep: "il_rep s' (ins_job x xs)"
    using l(2) assms(1) by (auto simp: il_rep_def s'_def sorted_ins_job)
  have "deadlines s' = (deadlines s)(fd \<mapsto> (a, cur + 3 * TIMESLOT))"
  proof (rule deadlines_eqI [OF rep])
    fix fd' a' e'
    assume "il_user fd'"
    then show "(a', e', Some 0, Some (nat fd')) \<in> set (ins_job x xs) \<longleftrightarrow> ((deadlines s)(fd \<mapsto> (a, cur + 3 * TIMESLOT))) fd' = Some (a', e')"
      using deadlines_iff [OF assms(1), of fd'] assms(2,3) il_user_inj [of fd' fd] by (auto simp: x_def)
  next
    fix fd' assume "\<not> il_user fd'"
    then show "((deadlines s)(fd \<mapsto> (a, cur + 3 * TIMESLOT))) fd' = None" using assms(2) by (auto simp: deadlines_None)
  qed
  then show ?thesis using s' rep by (auto simp: s'_def)
qed

lemma il_rep_split:
  assumes "il_rep s xs" "deadlines s fd = Some (a, e)"
  obtains us vs where "xs = us @ (a, e, Some 0, Some (nat fd)) # vs" "il_user fd" "ic_timer (il_users s fd) = Some a"
    "ic_sockfd (il_users s fd) = fd" "a \<notin> fst ` set (us @ vs)" "\<forall>e'. \<forall>b. (b, e', Some 0, Some (nat fd)) \<notin> set (us @ vs)"
proof -
  have fd: "il_user fd" "(a, e, Some 0, Some (nat fd)) \<in> set xs" using deadlines_iff [OF assms(1)] assms(2) by auto
  then obtain us vs where xs: "xs = us @ (a, e, Some 0, Some (nat fd)) # vs" by (meson split_list)
  obtain fd' where fd': "il_user fd'" "nat fd = nat fd'" "ic_timer (il_users s fd') = Some a" "ic_sockfd (il_users s fd') = fd'"
    using assms(1) fd by (fastforce simp: il_rep_def il_job_def)
  then have "fd' = fd" using fd(1) il_user_inj by metis
  moreover have d: "a \<notin> fst ` set (us @ vs)" using assms(1) xs by (auto simp: il_rep_def stl_rep_def)
  moreover have "(b, e', Some 0, Some (nat fd)) \<notin> set (us @ vs)" for b e'
  proof
    assume b: "(b, e', Some 0, Some (nat fd)) \<in> set (us @ vs)"
    then have "deadlines s fd = Some (b, e')" using deadlines_iff [OF assms(1), of fd b e'] fd(1) xs by auto
    then show False using b d assms(2) by force
  qed
  ultimately show thesis using that fd xs fd' by blast
qed


lemma il_rep_users:
  assumes "il_rep s xs" "\<And>fd. ic_timer (us' fd) = ic_timer (il_users s fd)" "\<And>fd. ic_sockfd (us' fd) = ic_sockfd (il_users s fd)"
  shows "il_rep (s\<lparr>il_users := us'\<rparr>) xs" "deadlines (s\<lparr>il_users := us'\<rparr>) = deadlines s"
  using assms by (auto simp: il_rep_def il_job_def deadlines_def fun_eq_iff)

lemma il_drop_ok:
  assumes "il_rep s xs" "deadlines s fd = Some (a, e)"
  shows "\<exists>s'. il_drop fd s = Some s' \<and> il_ok s' \<and> deadlines s' = (deadlines s)(fd := None) \<and>
    il_calls s' = il_calls s @ [Il_del static_epollfd fd, Il_close fd] \<and> il_timeout s' = il_timeout s \<and> il_stop s' = il_stop s \<and>
    il_listenfd s' = il_listenfd s \<and> il_pipe0 s' = il_pipe0 s"
proof -
  define x where "x = (a, e, Some (0 :: nat), Some (nat fd))"
  obtain us vs where u: "xs = us @ x # vs" "il_user fd" "ic_timer (il_users s fd) = Some a" "ic_sockfd (il_users s fd) = fd"
    "a \<notin> fst ` set (us @ vs)" "\<forall>e'. \<forall>b. (b, e', Some 0, Some (nat fd)) \<notin> set (us @ vs)"
    unfolding x_def using il_rep_split [OF assms] by blast
  obtain l where l: "del_timer (Some a) (il_list s) = Some l" "stl_rep l (us @ vs)" "stl_mem l a = None" "stl_frame (us @ x # vs) (il_list s) l"
    using del_timer_ok [of "il_list s" us x vs] assms(1) u(1) by (auto simp: il_rep_def x_def)
  have "dom (stl_mem l) = fst ` set (us @ vs)"
    using assms(1) u(1) l(3) by (intro dom_after [OF l(2,4)]) (auto simp: il_rep_def x_def)
  then have rep: "il_rep (s\<lparr>il_calls := cs, il_list := l\<rparr>) (us @ vs)" for cs
    using l(2) assms(1) u(1) by (auto simp: il_rep_def il_job_def sorted_append)
  have "deadlines (s\<lparr>il_calls := cs, il_list := l\<rparr>) = (deadlines s)(fd := None)" for cs
  proof (rule deadlines_eqI [OF rep])
    fix fd' a' e'
    assume "il_user fd'"
    then show "(a', e', Some 0, Some (nat fd')) \<in> set (us @ vs) \<longleftrightarrow> ((deadlines s)(fd := None)) fd' = Some (a', e')"
      using deadlines_iff [OF assms(1), of fd'] il_user_inj [OF _ u(2), of fd'] u(1,6) by (auto simp: x_def)
  qed (simp add: deadlines_None)
  then show ?thesis using l(1) u(2,3,4) rep
    by (auto simp: il_drop_def cb_func_def il_user_def)
qed

lemma il_adjust_ok:
  assumes "il_rep s xs" "deadlines s fd = Some (a, e)" "e \<le> e'"
  shows "\<exists>m l. store (Some a) (\<lambda>n. n\<lparr>ut_expire := e'\<rparr>) (stl_mem (il_list s)) = Some m \<and>
    adjust_timer (Some a) ((il_list s)\<lparr>stl_mem := m\<rparr>) = Some l \<and> il_ok (s\<lparr>il_list := l\<rparr>) \<and>
    deadlines (s\<lparr>il_list := l\<rparr>) = (deadlines s)(fd \<mapsto> (a, e'))"
proof -
  define x where "x = (a, e', Some (0 :: nat), Some (nat fd))"
  obtain us vs where u: "xs = us @ (a, e, Some 0, Some (nat fd)) # vs" "il_user fd" "ic_timer (il_users s fd) = Some a" "ic_sockfd (il_users s fd) = fd"
    "a \<notin> fst ` set (us @ vs)" "\<forall>e'. \<forall>b. (b, e', Some 0, Some (nat fd)) \<notin> set (us @ vs)"
    using il_rep_split [OF assms(1,2)] by blast
  have rep0: "stl_rep (il_list s) (us @ (a, e, Some 0, Some (nat fd)) # vs)" using assms(1) u(1) by (simp add: il_rep_def)
  obtain m where m: "store (Some a) (\<lambda>n. n\<lparr>ut_expire := e'\<rparr>) (stl_mem (il_list s)) = Some m"
    "stl_rep ((il_list s)\<lparr>stl_mem := m\<rparr>) (us @ x # vs)" "\<forall>b. b \<noteq> a \<longrightarrow> m b = stl_mem (il_list s) b"
    using set_expire_ok [OF rep0, of e'] by (auto simp: x_def)
  obtain l where l: "adjust_timer (Some a) ((il_list s)\<lparr>stl_mem := m\<rparr>) = Some l" "stl_rep l (us @ ins_job x vs)"
    "stl_frame (us @ ins_job x vs) ((il_list s)\<lparr>stl_mem := m\<rparr>) l"
    using adjust_timer_ok [OF m(2)] by (auto simp: x_def)
  have "dom m \<subseteq> fst ` set (us @ ins_job x vs)"
  proof
    fix b assume "b \<in> dom m"
    then show "b \<in> fst ` set (us @ ins_job x vs)"
      using assms(1) u(1) m(3) by (cases "b = a") (auto simp: il_rep_def x_def dom_def set_eq_iff)
  qed
  then have "dom (stl_mem l) = fst ` set (us @ ins_job x vs)" by (intro dom_after [OF l(2,3)]) auto
  moreover have "il_job s x" using u by (auto simp: il_job_def x_def)
  moreover have "sorted (map jexp (us @ ins_job x vs))"
    using assms(1,3) u(1) by (auto simp: il_rep_def sorted_append sorted_ins_job x_def)
  ultimately have rep: "il_rep (s\<lparr>il_list := l\<rparr>) (us @ ins_job x vs)"
    using l(2) assms(1) u(1) by (auto simp: il_rep_def il_job_def)
  have "deadlines (s\<lparr>il_list := l\<rparr>) = (deadlines s)(fd \<mapsto> (a, e'))"
  proof (rule deadlines_eqI [OF rep])
    fix fd' a' b
    assume "il_user fd'"
    then show "(a', b, Some 0, Some (nat fd')) \<in> set (us @ ins_job x vs) \<longleftrightarrow> ((deadlines s)(fd \<mapsto> (a, e'))) fd' = Some (a', b)"
      using deadlines_iff [OF assms(1), of fd'] il_user_inj [OF _ u(2), of fd'] u(1,6) by (auto simp: x_def)
  next
    fix fd' assume "\<not> il_user fd'"
    then show "((deadlines s)(fd \<mapsto> (a, e'))) fd' = None" using u(2) by (auto simp: deadlines_None)
  qed
  then show ?thesis using m(1) l(1) rep by blast
qed


section \<open>The abstract server\<close>

text \<open>What the server stands for: the deadlines, the two flags, and the sockets it has closed.\<close>

type_synonym idle_spec = "(int \<rightharpoonup> addr \<times> int) \<times> bool \<times> bool \<times> int multiset"

definition il_closed :: "il_call list \<Rightarrow> int multiset" where
  "il_closed cs = mset (concat (map (\<lambda>c. case c of Il_close fd \<Rightarrow> [fd] | _ \<Rightarrow> []) cs))"

lemma il_closed_simps [simp]: "il_closed [] = {#}" "il_closed (cs @ cs') = il_closed cs + il_closed cs'"
  "il_closed (Il_close fd # cs) = add_mset fd (il_closed cs)" "il_closed (Il_add i j # cs) = il_closed cs"
  "il_closed (Il_del i j # cs) = il_closed cs" "il_closed (Il_alarm k # cs) = il_closed cs"
  by (simp_all add: il_closed_def)

definition il_abs :: "inactive \<Rightarrow> idle_spec" where
  "il_abs s = (deadlines s, il_timeout s, il_stop s, il_closed (il_calls s))"

definition spec_idle :: "int \<Rightarrow> int \<Rightarrow> il_event \<Rightarrow> idle_spec \<Rightarrow> idle_spec" where
  "spec_idle lfd pfd e = (\<lambda>(m, timeout, stop, closed).
     if ie_fd e = lfd then (m(ie_connfd e \<mapsto> (ie_new e, ie_now e + 15)), timeout, stop, closed)
     else if \<not> ie_in e then (m, timeout, stop, closed)
     else if ie_fd e = pfd then (case ie_signals e of
         Rv_data sigs \<Rightarrow> (m, timeout \<or> Il_ALRM \<in> set sigs, stop \<or> Il_TERM \<in> set sigs, closed)
       | _ \<Rightarrow> (m, timeout, stop, closed))
     else (case ie_data e of
         Rv_eagain \<Rightarrow> (m, timeout, stop, closed)
       | Rv_data (b # bs) \<Rightarrow> (m(ie_fd e \<mapsto> (fst (the (m (ie_fd e))), ie_now e + 15)), timeout, stop, closed)
       | _ \<Rightarrow> (m(ie_fd e := None), timeout, stop, add_mset (ie_fd e) closed)))"

text \<open>What the kernel and the allocator promise: \<open>accept\<close> returns a descriptor that is not open and within
  the table, \<open>new\<close> an address that is not in use, only open connections are reported, and the clock does not run backwards.\<close>

definition valid_idle :: "int \<Rightarrow> int \<Rightarrow> il_event \<Rightarrow> idle_spec \<Rightarrow> bool" where
  "valid_idle lfd pfd e = (\<lambda>(m, timeout, stop, closed).
     if ie_fd e = lfd then il_user (ie_connfd e) \<and> m (ie_connfd e) = None \<and> (\<forall>fd. \<forall>d. m fd \<noteq> Some (ie_new e, d))
     else if \<not> ie_in e \<or> ie_fd e = pfd then True
     else \<exists>a d. m (ie_fd e) = Some (a, d) \<and> d \<le> ie_now e + 15)"

lemma il_signals_fold:
  "fold il_signal sigs s = s\<lparr>il_timeout := il_timeout s \<or> Il_ALRM \<in> set sigs, il_stop := il_stop s \<or> Il_TERM \<in> set sigs\<rparr>"
proof (induction sigs arbitrary: s)
  case (Cons x sigs)
  then show ?case by (cases x) (simp_all add: il_signal_def)
qed simp

lemma il_rep_flags:
  "il_rep (s\<lparr>il_timeout := t, il_stop := b\<rparr>) xs \<longleftrightarrow> il_rep s xs" "deadlines (s\<lparr>il_timeout := t, il_stop := b\<rparr>) = deadlines s"
  "il_rep (s\<lparr>il_timeout := t\<rparr>) xs \<longleftrightarrow> il_rep s xs" "deadlines (s\<lparr>il_timeout := t\<rparr>) = deadlines s"
  by (auto simp: il_rep_def il_job_def deadlines_def fun_eq_iff)

abbreviation il_at :: "int \<Rightarrow> int \<Rightarrow> inactive \<Rightarrow> bool" where
  "il_at lfd pfd s \<equiv> il_ok s \<and> il_listenfd s = lfd \<and> il_pipe0 s = pfd"

lemma il_recv_ok:
  assumes "il_rep s xs" "deadlines s fd = Some (a, d)" "d \<le> cur + 15"
  shows "\<exists>s'. il_recv fd ans cur s = Some s' \<and> il_at (il_listenfd s) (il_pipe0 s) s' \<and> il_timeout s' = il_timeout s \<and> il_stop s' = il_stop s \<and>
    deadlines s' = (case ans of Rv_eagain \<Rightarrow> deadlines s | Rv_data (b # bs) \<Rightarrow> (deadlines s)(fd \<mapsto> (a, cur + 15)) | _ \<Rightarrow> (deadlines s)(fd := None)) \<and>
    il_closed (il_calls s') = (case ans of Rv_eagain \<Rightarrow> il_closed (il_calls s) | Rv_data (b # bs) \<Rightarrow> il_closed (il_calls s) | _ \<Rightarrow> add_mset fd (il_closed (il_calls s)))"
proof -
  define s1 where "s1 = s\<lparr>il_users := (il_users s)(fd := (il_users s fd)\<lparr>ic_buf := il_fill ans\<rparr>)\<rparr>"
  have fd: "il_user fd" "ic_timer (il_users s fd) = Some a" using il_rep_split [OF assms(1,2)] by blast+
  have s1: "il_rep s1 xs" "deadlines s1 = deadlines s"
    unfolding s1_def by (rule il_rep_users [OF assms(1)]; simp)+
  have keep: "il_timeout s1 = il_timeout s" "il_stop s1 = il_stop s" "il_listenfd s1 = il_listenfd s" "il_pipe0 s1 = il_pipe0 s" "il_calls s1 = il_calls s"
    by (simp_all add: s1_def)
  obtain s2 where s2: "il_drop fd s1 = Some s2" "il_ok s2" "deadlines s2 = (deadlines s)(fd := None)"
      "il_calls s2 = il_calls s @ [Il_del static_epollfd fd, Il_close fd]" "il_timeout s2 = il_timeout s" "il_stop s2 = il_stop s"
      "il_listenfd s2 = il_listenfd s" "il_pipe0 s2 = il_pipe0 s"
    using il_drop_ok [OF s1(1), of fd a d] assms(2) s1(2) keep by auto
  obtain m l where l: "store (Some a) (\<lambda>n. n\<lparr>ut_expire := cur + 15\<rparr>) (stl_mem (il_list s1)) = Some m"
      "adjust_timer (Some a) ((il_list s1)\<lparr>stl_mem := m\<rparr>) = Some l" "il_ok (s1\<lparr>il_list := l\<rparr>)"
      "deadlines (s1\<lparr>il_list := l\<rparr>) = (deadlines s)(fd \<mapsto> (a, cur + 15))"
    using il_adjust_ok [OF s1(1), of fd a d "cur + 15"] assms(2,3) s1(2) by auto
  have recv: "il_recv fd ans cur s = (case ans of Rv_eagain \<Rightarrow> Some s1 | Rv_data (b # bs) \<Rightarrow> Some (s1\<lparr>il_list := l\<rparr>) | _ \<Rightarrow> Some s2)"
    using fd s2(1) l(1,2)
    by (auto simp: il_recv_def Let_def TIMESLOT_def s1_def [symmetric] split: recv_ans.splits list.splits)
  show ?thesis
  proof (cases "\<exists>b bs. ans = Rv_data (b # bs)")
    case True
    then show ?thesis using recv l(3,4) keep by auto
  next
    case False
    then show ?thesis using recv s1 s2 keep by (cases ans) (auto split: list.splits)
  qed
qed

interpretation idle: handler il_event "spec_idle lfd pfd" "valid_idle lfd pfd" "il_at lfd pfd" il_abs
  for lfd pfd
proof (unfold_locales, goal_cases)
  case (1 s e)
  then obtain xs where xs: "il_rep s xs" "il_listenfd s = lfd" "il_pipe0 s = pfd" by blast
  consider "ie_fd e = lfd" | "ie_fd e \<noteq> lfd" "\<not> ie_in e" | "ie_fd e \<noteq> lfd" "ie_in e" "ie_fd e = pfd" | "ie_fd e \<noteq> lfd" "ie_in e" "ie_fd e \<noteq> pfd" by blast
  then show ?case
  proof cases
    case 1
    then show ?thesis
      using il_accept_ok [OF xs(1), of "ie_connfd e" "ie_new e" "ie_now e"] xs \<open>valid_idle lfd pfd e (il_abs s)\<close>
      by (auto simp: il_event_def valid_idle_def spec_idle_def il_abs_def TIMESLOT_def)
  next
    case 2
    then show ?thesis using xs by (auto simp: il_event_def spec_idle_def il_abs_def)
  next
    case 3
    then show ?thesis
      using xs by (cases "ie_signals e") (auto simp: il_event_def spec_idle_def il_abs_def il_signals_fold il_rep_flags)
  next
    case 4
    then obtain a d where "deadlines s (ie_fd e) = Some (a, d)" "d \<le> ie_now e + 15"
      using \<open>valid_idle lfd pfd e (il_abs s)\<close> xs by (auto simp: valid_idle_def il_abs_def)
    then show ?thesis
      using il_recv_ok [OF xs(1), of "ie_fd e" a d "ie_now e" "ie_data e"] xs 4
      by (cases "ie_data e") (auto simp: il_event_def spec_idle_def il_abs_def split: list.splits)
  qed
qed


text \<open>At the end of a pass with an alarm every connection that is past its deadline is closed.\<close>

definition overdue :: "int \<Rightarrow> (int \<rightharpoonup> addr \<times> int) \<Rightarrow> int set" where
  "overdue cur m = {fd. \<exists>a d. m fd = Some (a, d) \<and> d \<le> cur}"

definition spec_timers :: "int \<Rightarrow> idle_spec \<Rightarrow> idle_spec" where
  "spec_timers cur = (\<lambda>(m, timeout, stop, closed).
     if timeout then (m |` (- overdue cur m), False, stop, closed + mset_set (overdue cur m)) else (m, timeout, stop, closed))"

definition job_fd :: "addr \<times> job \<Rightarrow> int" where
  "job_fd x = int (the (snd (snd (snd x))))"

lemma fire_cb_func:
  "\<forall>x \<in> set ys. il_job s x \<Longrightarrow>
   fire (\<lambda>f. cb_func (il_users s)) ys (Some cs) = Some (cs @ concat (map (\<lambda>x. [Il_del static_epollfd (job_fd x), Il_close (job_fd x)]) ys))"
proof (induction ys arbitrary: cs)
  case (Cons y ys)
  then obtain a e fd where "y = (a, e, Some 0, Some (nat fd))" "il_user fd" "ic_sockfd (il_users s fd) = fd"
    by (auto simp: il_job_def)
  then show ?case using Cons by (simp add: cb_func_def job_fd_def il_user_def)
qed simp

lemma il_closed_fire: "il_closed (concat (map (\<lambda>x. [Il_del k (job_fd x), Il_close (job_fd x)]) ys)) = mset (map job_fd ys)"
  by (induction ys) simp_all

lemma job_fd_inj:
  assumes "il_rep s xs"
  shows "distinct (map job_fd xs)"
proof -
  have "x = y" if xy: "x \<in> set xs" "y \<in> set xs" "job_fd x = job_fd y" for x y
  proof -
    obtain a e fd b e' fd' where "x = (a, e, Some 0, Some (nat fd))" "il_user fd" "y = (b, e', Some 0, Some (nat fd'))" "il_user fd'"
      using xy(1,2) assms unfolding il_rep_def il_job_def by meson
    moreover have "fd' = fd" using calculation xy(3) by (auto simp: job_fd_def il_user_def)
    moreover have "deadlines s fd = Some (a, e)" "deadlines s fd = Some (b, e')"
      using calculation xy(1,2) deadlines_iff [OF assms, of fd] by auto
    ultimately show ?thesis by simp
  qed
  then have "inj_on job_fd (set xs)" by (intro inj_onI) blast
  moreover have "distinct xs" using assms by (auto simp: il_rep_def stl_rep_def distinct_map)
  ultimately show ?thesis by (simp add: distinct_map)
qed

lemma overdue_jobs:
  assumes "il_rep s xs"
  shows "mset_set (overdue cur (deadlines s)) = mset (map job_fd (filter (\<lambda>x. jexp x \<le> cur) xs))"
proof -
  have "overdue cur (deadlines s) = set (map job_fd (filter (\<lambda>x. jexp x \<le> cur) xs))"
  proof
    show "overdue cur (deadlines s) \<subseteq> set (map job_fd (filter (\<lambda>x. jexp x \<le> cur) xs))"
      using deadlines_iff [OF assms] by (force simp: overdue_def job_fd_def il_user_def)
    show "set (map job_fd (filter (\<lambda>x. jexp x \<le> cur) xs)) \<subseteq> overdue cur (deadlines s)"
    proof
      fix fd assume "fd \<in> set (map job_fd (filter (\<lambda>x. jexp x \<le> cur) xs))"
      then obtain x where x: "x \<in> set xs" "jexp x \<le> cur" "fd = job_fd x" by auto
      then obtain a e fd' where "x = (a, e, Some 0, Some (nat fd'))" "il_user fd'" using assms unfolding il_rep_def il_job_def by meson
      then show "fd \<in> overdue cur (deadlines s)" using x deadlines_iff [OF assms, of fd'] by (auto simp: overdue_def job_fd_def il_user_def)
    qed
  qed
  moreover have "distinct (map job_fd (filter (\<lambda>x. jexp x \<le> cur) xs))" using job_fd_inj [OF assms] by (simp add: distinct_map_filter)
  ultimately show ?thesis by (simp only: mset_set_set)
qed

lemma il_timers_ok:
  assumes "il_at lfd pfd s"
  shows "\<exists>s'. il_timers cur s = Some s' \<and> il_at lfd pfd s' \<and> il_abs s' = spec_timers cur (il_abs s)"
proof (cases "il_timeout s")
  case False
  then show ?thesis using assms by (simp add: il_timers_def il_abs_def spec_timers_def)
next
  case True
  obtain xs where xs: "il_rep s xs" using assms by blast
  let ?due = "filter (\<lambda>x. jexp x \<le> cur) xs" and ?keep = "filter (\<lambda>x. cur < jexp x) xs"
  have jobs: "\<forall>x \<in> set xs. il_job s x \<and> jcb x \<noteq> None" using xs by (auto simp: il_rep_def il_job_def)
  obtain l where l: "tick (\<lambda>f. cb_func (il_users s)) cur (il_list s) (Some (il_calls s)) = Some (l, fire (\<lambda>f. cb_func (il_users s)) ?due (Some (il_calls s)))"
      "stl_rep l ?keep" "stl_frame xs (il_list s) l" "\<forall>x \<in> set ?due. stl_mem l (fst x) = None"
    using tick_ok [of "il_list s" xs cur "\<lambda>f. cb_func (il_users s)" "Some (il_calls s)"] jobs xs
    by (auto simp: il_rep_def takeWhile_sorted_filter dropWhile_sorted_filter)
  define cs where "cs = il_calls s @ concat (map (\<lambda>x. [Il_del static_epollfd (job_fd x), Il_close (job_fd x)]) ?due)"
  define s' where "s' = s\<lparr>il_list := l, il_calls := cs @ [Il_alarm TIMESLOT], il_timeout := False\<rparr>"
  have s': "il_timers cur s = Some s'"
    using True l(1) fire_cb_func [of ?due s "il_calls s"] jobs by (simp add: il_timers_def timer_handler_def s'_def cs_def)
  have "dom (stl_mem l) = fst ` set ?keep"
    using xs l(4) by (intro dom_after [OF l(2,3)]) (auto simp: il_rep_def not_less, blast)
  then have rep: "il_rep s' ?keep"
    using xs l(2) jobs by (auto simp: il_rep_def s'_def il_job_def sorted_filter)
  have "deadlines s' = deadlines s |` (- overdue cur (deadlines s))"
  proof (rule deadlines_eqI [OF rep])
    fix fd a e assume "il_user fd"
    then show "(a, e, Some 0, Some (nat fd)) \<in> set ?keep \<longleftrightarrow> (deadlines s |` (- overdue cur (deadlines s))) fd = Some (a, e)"
      using deadlines_iff [OF xs, of fd a e, symmetric] by (auto simp: restrict_map_def overdue_def not_le split: if_splits)
  qed (simp add: restrict_map_def deadlines_None)
  moreover have "il_closed (il_calls s') = il_closed (il_calls s) + mset_set (overdue cur (deadlines s))"
    using overdue_jobs [OF xs] il_closed_fire by (simp add: s'_def cs_def)
  ultimately show ?thesis
    using s' rep assms True by (auto simp: il_abs_def spec_timers_def s'_def)
qed

section \<open>The loop\<close>

definition spec_round :: "int \<Rightarrow> int \<Rightarrow> il_event list \<times> int \<Rightarrow> idle_spec \<Rightarrow> idle_spec" where
  "spec_round lfd pfd r a = spec_timers (snd r) (fold (spec_idle lfd pfd) (fst r) a)"

definition valid_round :: "int \<Rightarrow> int \<Rightarrow> il_event list \<times> int \<Rightarrow> idle_spec \<Rightarrow> bool" where
  "valid_round lfd pfd r = valid_events (valid_idle lfd pfd) (spec_idle lfd pfd) (fst r)"

interpretation rounds: handler "\<lambda>r. il_round (fst r) (snd r)" "spec_round lfd pfd" "valid_round lfd pfd" "il_at lfd pfd" il_abs
  for lfd pfd
proof (unfold_locales, goal_cases)
  case (1 s r)
  then obtain s1 where s1: "run_events il_event (fst r) s = Some s1" "il_at lfd pfd s1" "il_abs s1 = fold (spec_idle lfd pfd) (fst r) (il_abs s)"
    using idle.run_refines [where lfd = lfd and pfd = pfd and s = s and es = "fst r"] by (auto simp: valid_round_def)
  then show ?case using il_timers_ok [OF s1(2), of "snd r"] by (auto simp: il_round_def spec_round_def)
qed

text \<open>The abstract loop: \<open>il_answer\<close> is what an answer of \<open>epoll_wait\<close> has to handle.\<close>

definition il_answer :: "il_event epoll_ans \<times> int \<Rightarrow> il_event list \<times> int" where
  "il_answer r = ((case fst r of Ep_events es \<Rightarrow> es | _ \<Rightarrow> []), snd r)"

fun spec_loop :: "int \<Rightarrow> int \<Rightarrow> (il_event epoll_ans \<times> int) list \<Rightarrow> idle_spec \<Rightarrow> bool \<times> idle_spec" where
  "spec_loop lfd pfd answers (m, timeout, stop, closed) =
     (if stop then (True, m, timeout, stop, closed)
      else (case answers of
          [] \<Rightarrow> (False, m, timeout, stop, closed)
        | r # rest \<Rightarrow> if fst r = Ep_fail then (True, m, timeout, stop, closed)
                      else spec_loop lfd pfd rest (spec_round lfd pfd (il_answer r) (m, timeout, stop, closed))))"

lemma il_loop_refines:
  "il_at lfd pfd s \<Longrightarrow> valid_events (valid_round lfd pfd) (spec_round lfd pfd) (map il_answer answers) (il_abs s) \<Longrightarrow>
   \<exists>ended s'. il_loop answers s = Some (ended, s') \<and> il_at lfd pfd s' \<and> (ended, il_abs s') = spec_loop lfd pfd answers (il_abs s)"
proof (induction answers arbitrary: s)
  case Nil
  then show ?case by (auto simp: il_abs_def)
next
  case (Cons r rest)
  show ?case
  proof (cases "il_stop s \<or> fst r = Ep_fail")
    case True
    then show ?thesis using Cons.prems(1) by (cases r) (auto simp: il_abs_def)
  next
    case False
    then obtain s1 where s1: "il_round (fst (il_answer r)) (snd (il_answer r)) s = Some s1" "il_at lfd pfd s1" "il_abs s1 = spec_round lfd pfd (il_answer r) (il_abs s)"
      using rounds.step_refines [where lfd = lfd and pfd = pfd and s = s and e = "il_answer r"] Cons.prems by auto
    have "il_loop (r # rest) s = il_loop rest s1"
      using False s1(1) by (cases r; cases "fst r") (simp_all add: il_answer_def)
    moreover have "spec_loop lfd pfd (r # rest) (il_abs s) = spec_loop lfd pfd rest (il_abs s1)"
      using False s1(3) by (simp add: il_abs_def)
    ultimately show ?thesis using Cons.IH [OF s1(2)] Cons.prems(2) s1(3) by simp
  qed
qed


lemma il_main_init_at:
  assumes "il_main_init lfd b li ep (Some (p0, p1)) junk = Some s"
  shows "il_at lfd p0 s" "il_abs s = (Map.empty, False, False, {#})"
proof -
  have s: "s = \<lparr>il_listenfd = lfd, il_pipe0 = p0, il_pipe1 = p1, il_epollfd = ep, il_list = new_sort_timer_list Map.empty,
          il_users = junk, il_timeout = False, il_stop = False, il_calls = [Il_add ep lfd, Il_add ep p0, Il_alarm TIMESLOT]\<rparr>"
    using assms by (simp add: il_main_init_def split: if_splits)
  have rep: "il_rep s []" by (simp add: s il_rep_def stl_rep_def new_sort_timer_list_def)
  then show "il_at lfd p0 s" by (auto simp: s)
  have "deadlines s = Map.empty" by (rule deadlines_eqI [OF rep]) simp_all
  then show "il_abs s = (Map.empty, False, False, {#})" by (simp add: il_abs_def) (simp add: s)
qed

lemma silent_events:
  assumes "valid_events (valid_idle lfd pfd) (spec_idle lfd pfd) es (m, t, b, c)" "m fd = Some (a, d)" "\<forall>e \<in> set es. ie_fd e \<noteq> fd"
  shows "\<exists>m' t' b' c'. fold (spec_idle lfd pfd) es (m, t, b, c) = (m', t', b', c') \<and> m' fd = Some (a, d) \<and> count c' fd = count c fd \<and>
    (t' \<longleftrightarrow> t \<or> (\<exists>e \<in> set es. \<exists>sigs. ie_fd e = pfd \<and> ie_fd e \<noteq> lfd \<and> ie_in e \<and> ie_signals e = Rv_data sigs \<and> Il_ALRM \<in> set sigs))"
  using assms
proof (induction es arbitrary: m t b c)
  case (Cons e es)
  obtain m1 t1 b1 c1 where e: "spec_idle lfd pfd e (m, t, b, c) = (m1, t1, b1, c1)" by (metis prod.exhaust)
  have v: "valid_idle lfd pfd e (m, t, b, c)" "ie_fd e \<noteq> fd" using Cons.prems by simp_all
  have "m1 fd = Some (a, d)" "count c1 fd = count c fd"
      "t1 \<longleftrightarrow> t \<or> (\<exists>sigs. ie_fd e = pfd \<and> ie_fd e \<noteq> lfd \<and> ie_in e \<and> ie_signals e = Rv_data sigs \<and> Il_ALRM \<in> set sigs)"
    using e v Cons.prems(2) by (auto simp: spec_idle_def valid_idle_def split: if_splits recv_ans.splits list.splits)
  then show ?case using Cons.IH [of m1 t1 b1 c1] Cons.prems e by auto
qed simp

section \<open>Properties\<close>

text \<open>C4: The main loop of the server, timers included, never faults and is the abstract server that keeps one
  deadline per open connection: 15 seconds after its last data, and closed with the first alarm after it.\<close>
theorem inactive_loop_refines:
  assumes "il_main_init lfd b li ep (Some (p0, p1)) junk = Some s"
    "valid_events (valid_round lfd p0) (spec_round lfd p0) (map il_answer answers) (Map.empty, False, False, {#})"
  shows "\<exists>ended s'. il_loop answers s = Some (ended, s') \<and> (ended, il_abs s') = spec_loop lfd p0 answers (Map.empty, False, False, {#})"
proof -
  obtain ended s' where "il_loop answers s = Some (ended, s')" "(ended, il_abs s') = spec_loop lfd p0 answers (il_abs s)"
    using il_loop_refines [OF il_main_init_at(1) [OF assms(1)], of answers] il_main_init_at(2) [OF assms(1)] assms(2) by metis
  then show ?thesis using il_main_init_at(2) [OF assms(1)] by (simp del: spec_loop.simps il_loop.simps)
qed


section \<open>Witnesses\<close>

definition il_demo_event :: "int \<Rightarrow> il_event" where
  "il_demo_event fd = \<lparr>ie_fd = fd, ie_in = True, ie_connfd = 7, ie_new = 1, ie_now = 100, ie_signals = Rv_data [Il_ALRM], ie_data = Rv_eagain\<rparr>"

definition il_demo :: inactive where
  "il_demo = \<lparr>il_listenfd = 3, il_pipe0 = 4, il_pipe1 = 5, il_epollfd = 6, il_list = new_sort_timer_list Map.empty,
     il_users = (\<lambda>_. \<lparr>ic_sockfd = 0, ic_buf = [], ic_timer = None\<rparr>), il_timeout = False, il_stop = False, il_calls = [Il_add 6 3, Il_add 6 4, Il_alarm 5]\<rparr>"

text \<open>Connection 7 arrives at time 100 and is closed by the alarm at time 120.\<close>

theorem inactive_loop_refines_witness:
  "\<exists>ended s'. il_loop [(Ep_events [il_demo_event 3], 101), (Ep_eintr, 105), (Ep_events [il_demo_event 4], 120)] il_demo = Some (ended, s') \<and>
     (ended, il_abs s') = (False, Map.empty, False, False, {#7#})"
proof -
  have "il_main_init 3 0 0 6 (Some (4, 5)) (\<lambda>_. \<lparr>ic_sockfd = 0, ic_buf = [], ic_timer = None\<rparr>) = Some il_demo"
    by (simp add: il_main_init_def il_demo_def TIMESLOT_def)
  moreover have "overdue 120 [7 \<mapsto> (1, 115)] = {7}" by (auto simp: overdue_def split: if_splits)
  moreover have "[7 \<mapsto> (1::nat, 115::int)] |` (- {7::int}) = Map.empty" by (auto simp: restrict_map_def)
  ultimately show ?thesis
    using inactive_loop_refines [of 3 0 0 6 4 5 _ il_demo "[(Ep_events [il_demo_event 3], 101), (Ep_eintr, 105), (Ep_events [il_demo_event 4], 120)]"]
    by (simp add: il_answer_def il_demo_event_def valid_round_def valid_idle_def spec_round_def spec_idle_def spec_timers_def il_user_def IL_FD_LIMIT_def)
qed

definition il_demo2 :: inactive where
  "il_demo2 = il_demo\<lparr>il_list := \<lparr>stl_mem = [1 \<mapsto> \<lparr>ut_expire = 115, ut_cb_func = Some 0, ut_user_data = Some 7, ut_prev = None, ut_next = None\<rparr>],
     stl_head = Some 1, stl_tail = Some 1\<rparr>, il_users := (\<lambda>_. \<lparr>ic_sockfd = 7, ic_buf = [], ic_timer = Some 1\<rparr>)\<rparr>"


end
