(* ===== verification/Rio.thy ===== *)
theory Rio
  imports Prelude
begin

text \<open>
  The robust I/O package of \<open>socket/csapp/rio.c\<close>. The kernel side of a descriptor is a script of
  answers: what each \<open>read\<close> or \<open>write\<close> will find. A script is finite, and an exhausted one is at
  end of file (reading) or takes everything offered (writing), so every loop of the package ends;
  a signal interrupts a call finitely often.
\<close>

section \<open>The kernel\<close>

text \<open>\<open>Chunk bs\<close>: the bytes \<open>bs\<close> have arrived; an empty chunk is an end of file.\<close>

datatype rd_event = Chunk string | Rd_EINTR | Rd_error

datatype rd_result = Got string | Interrupted | Failed

fun k_read :: "nat \<Rightarrow> rd_event list \<Rightarrow> rd_result \<times> rd_event list" where
  "k_read n [] = (Got [], [])"
| "k_read n (Chunk bs # ks) =
     (if length bs \<le> n then (Got bs, ks) else (Got (take n bs), Chunk (drop n bs) # ks))"
| "k_read n (Rd_EINTR # ks) = (Interrupted, ks)"
| "k_read n (Rd_error # ks) = (Failed, ks)"

text \<open>\<open>Takes k\<close>: the next \<open>write\<close> takes at most \<open>k\<close> bytes. \<open>errno\<close> is only assigned by a failing call,
  and \<open>write\<close> may return 0 without one.\<close>

datatype wr_event = Takes nat | Wr_EINTR | Wr_error

datatype errno = EINTR | EOTHER

fun k_write :: "string \<Rightarrow> errno \<Rightarrow> wr_event list \<Rightarrow> int \<times> errno \<times> wr_event list" where
  "k_write bs en [] = (int (length bs), en, [])"
| "k_write bs en (Takes k # ks) = (int (min k (length bs)), en, ks)"
| "k_write bs en (Wr_EINTR # ks) = (-1, EINTR, ks)"
| "k_write bs en (Wr_error # ks) = (-1, EOTHER, ks)"

section \<open>The unbuffered routines\<close>

text \<open>\<open>None\<close> is the result -1; \<open>Some bs\<close> the bytes in \<open>usrbuf\<close>, whose number is the result.\<close>

function rio_readn_loop :: "nat \<Rightarrow> string \<Rightarrow> rd_event list \<Rightarrow> string option \<times> rd_event list" where
  "rio_readn_loop nleft buf ks =
     (if nleft > 0 then
        (case k_read nleft ks of
           (Failed, ks') \<Rightarrow> (None, ks')
         | (Interrupted, ks') \<Rightarrow> rio_readn_loop nleft buf ks'
         | (Got bs, ks') \<Rightarrow>
             if bs = [] then (Some buf, ks')
             else rio_readn_loop (nleft - length bs) (buf @ bs) ks')
      else (Some buf, ks))"
  by auto

lemma k_read_Got:
  "(Got bs, ks') = k_read n ks \<Longrightarrow> 0 < n \<Longrightarrow> bs \<noteq> [] \<Longrightarrow> length ks' + (n - length bs) < length ks + n"
  by (cases "(n, ks)" rule: k_read.cases) (auto split: if_splits simp: neq_Nil_conv)

lemma k_read_Interrupted: "(Interrupted, ks') = k_read n ks \<Longrightarrow> length ks' < length ks"
  by (cases "(n, ks)" rule: k_read.cases) (auto split: if_splits)

termination rio_readn_loop
  by (relation "measure (\<lambda>(nleft, buf, ks). length ks + nleft)") (auto dest: k_read_Got k_read_Interrupted)

declare rio_readn_loop.simps [simp del]

definition rio_readn :: "nat \<Rightarrow> rd_event list \<Rightarrow> string option \<times> rd_event list" where
  "rio_readn n ks = rio_readn_loop n [] ks"

text \<open>The bytes that were sent are the last component.\<close>

function rio_writen_loop :: "string \<Rightarrow> errno \<Rightarrow> wr_event list \<Rightarrow> string \<Rightarrow> bool \<times> wr_event list \<times> string" where
  "rio_writen_loop buf en ks sent =
     (if length buf > 0 then
        (case k_write buf en ks of (nw, en', ks') \<Rightarrow>
           if nw \<le> 0 then
             (if en' = EINTR then rio_writen_loop buf en' ks' sent else (False, ks', sent))
           else rio_writen_loop (drop (nat nw) buf) en' ks' (sent @ take (nat nw) buf))
      else (True, ks, sent))"
  by auto

lemma k_write_shrinks:
  "k_write bs en ks = (nw, en', ks') \<Longrightarrow> bs \<noteq> [] \<Longrightarrow> length ks' < length ks \<or> (ks' = [] \<and> nw = int (length bs))"
  by (cases "(bs, en, ks)" rule: k_write.cases) auto

termination rio_writen_loop
  by (relation "measure (\<lambda>(buf, en, ks, sent). length ks + length buf)")
    (auto dest!: k_write_shrinks [OF sym])

declare rio_writen_loop.simps [simp del]

text \<open>\<open>rio_writen fd usrbuf n\<close>: \<open>n\<close> bytes of \<open>usrbuf\<close>; whether \<open>n\<close> (rather than -1) is returned.\<close>

definition rio_writen :: "string \<Rightarrow> nat \<Rightarrow> errno \<Rightarrow> wr_event list \<Rightarrow> bool \<times> wr_event list \<times> string" where
  "rio_writen usrbuf n en ks = rio_writen_loop (take n usrbuf) en ks []"

section \<open>The buffered routines\<close>

record rio_t =
  rio_fd :: nat
  rio_cnt :: int
  rio_bufptr :: nat
  rio_buf :: string

definition RIO_BUFSIZE :: nat where "RIO_BUFSIZE = 8192"

definition rio_readinitb :: "nat \<Rightarrow> rio_t \<Rightarrow> rio_t" where
  "rio_readinitb fd rp = rp\<lparr>rio_fd := fd, rio_cnt := 0, rio_bufptr := 0\<rparr>"

text \<open>\<open>read\<close> overwrites the front of \<open>rio_buf\<close>.\<close>

definition fill_buf :: "string \<Rightarrow> string \<Rightarrow> string" where
  "fill_buf bs buf = bs @ drop (length bs) buf"

datatype fill_result = Filled | At_EOF | Fill_error

function rio_fill :: "rio_t \<Rightarrow> rd_event list \<Rightarrow> fill_result \<times> rio_t \<times> rd_event list" where
  "rio_fill rp ks =
     (if rio_cnt rp \<le> 0 then
        (case k_read RIO_BUFSIZE ks of
           (Failed, ks') \<Rightarrow> (Fill_error, rp\<lparr>rio_cnt := -1\<rparr>, ks')
         | (Interrupted, ks') \<Rightarrow> rio_fill (rp\<lparr>rio_cnt := -1\<rparr>) ks'
         | (Got bs, ks') \<Rightarrow>
             if bs = [] then (At_EOF, rp\<lparr>rio_cnt := 0\<rparr>, ks')
             else rio_fill (rp\<lparr>rio_cnt := int (length bs), rio_buf := fill_buf bs (rio_buf rp), rio_bufptr := 0\<rparr>) ks')
      else (Filled, rp, ks))"
  by auto

termination rio_fill
  by (relation "measures [\<lambda>(rp, ks). if rio_cnt rp \<le> 0 then 1 else 0, \<lambda>(rp, ks). length ks]")
    (auto dest: k_read_Interrupted)

declare rio_fill.simps [simp del]

type_synonym rio_state = "rio_t \<times> rd_event list"

definition rio_read :: "nat \<Rightarrow> rio_state \<Rightarrow> string option \<times> rio_state" where
  "rio_read n st = (case rio_fill (fst st) (snd st) of
     (Fill_error, rp, ks) \<Rightarrow> (None, rp, ks)
   | (At_EOF, rp, ks) \<Rightarrow> (Some [], rp, ks)
   | (Filled, rp, ks) \<Rightarrow>
       let cnt = (if rio_cnt rp < int n then rio_cnt rp else int n) in
       (Some (take (nat cnt) (drop (rio_bufptr rp) (rio_buf rp))),
        rp\<lparr>rio_bufptr := rio_bufptr rp + nat cnt, rio_cnt := rio_cnt rp - cnt\<rparr>, ks))"

text \<open>\<open>rio_readlineb\<close> leaves \<open>usrbuf\<close> alone when it returns 0 at once (\<open>Line_eof\<close>); an error returns -1
  after the bytes read so far were stored, without a terminating NUL (\<open>Line_error\<close>); otherwise
  \<open>usrbuf\<close> holds the line and a NUL (\<open>Line\<close>), and the result is the length of the line.\<close>

datatype line_result = Line string | Line_eof | Line_error string

abbreviation newline :: char where "newline \<equiv> CHR 0x0A"

primrec rio_readlineb_loop :: "nat \<Rightarrow> string \<Rightarrow> rio_state \<Rightarrow> line_result \<times> rio_state" where
  "rio_readlineb_loop 0 buf st = (Line buf, st)"
| "rio_readlineb_loop (Suc k) buf st = (case rio_read 1 st of
     (None, st') \<Rightarrow> (Line_error buf, st')
   | (Some [], st') \<Rightarrow> (if buf = [] then Line_eof else Line buf, st')
   | (Some (c # _), st') \<Rightarrow>
       if c = newline then (Line (buf @ [c]), st') else rio_readlineb_loop k (buf @ [c]) st')"

definition rio_readlineb :: "nat \<Rightarrow> rio_state \<Rightarrow> line_result \<times> rio_state" where
  "rio_readlineb maxlen st = rio_readlineb_loop (maxlen - 1) [] st"

function rio_readnb_loop :: "nat \<Rightarrow> string \<Rightarrow> rio_state \<Rightarrow> string option \<times> rio_state" where
  "rio_readnb_loop nleft buf st =
     (if nleft > 0 then
        (case rio_read nleft st of
           (None, st') \<Rightarrow> (None, st')
         | (Some bs, st') \<Rightarrow>
             if bs = [] then (Some buf, st') else rio_readnb_loop (nleft - length bs) (buf @ bs) st')
      else (Some buf, st))"
  by auto
termination by (relation "measure fst") auto

declare rio_readnb_loop.simps [simp del]

definition rio_readnb :: "nat \<Rightarrow> rio_state \<Rightarrow> string option \<times> rio_state" where
  "rio_readnb n st = rio_readnb_loop n [] st"

section \<open>What a descriptor will deliver\<close>

text \<open>The bytes up to the next end of file or error, and whether it is an error.\<close>

fun content :: "rd_event list \<Rightarrow> string \<times> bool" where
  "content [] = ([], False)"
| "content (Chunk bs # ks) = (if bs = [] then ([], False) else (bs @ fst (content ks), snd (content ks)))"
| "content (Rd_EINTR # ks) = content ks"
| "content (Rd_error # ks) = ([], True)"

text \<open>The contract of a reader that hides interruptions, and the loops over it.\<close>

fun line_of :: "nat \<Rightarrow> string \<Rightarrow> string" where
  "line_of 0 bs = []"
| "line_of (Suc k) [] = []"
| "line_of (Suc k) (c # bs) = c # (if c = newline then [] else line_of k bs)"

text \<open>What a line reader with room for \<open>k\<close> bytes returns before the end \<open>e\<close> of the bytes \<open>bs\<close>.\<close>

definition line_spec :: "nat \<Rightarrow> string \<times> bool \<Rightarrow> line_result" where
  "line_spec k r = (let l = line_of k (fst r) in
     if length l = k \<or> newline \<in> set l then Line l
     else if snd r then Line_error l else if l = [] then Line_eof else Line l)"

lemma length_line_of: "length (line_of k bs) \<le> k"
  by (induction k bs rule: line_of.induct) auto

lemma line_of_all: "length (line_of k bs) < k \<Longrightarrow> newline \<notin> set (line_of k bs) \<Longrightarrow> line_of k bs = bs"
  by (induction k bs rule: line_of.induct) (auto split: if_splits)

locale byte_source =
  fixes ok :: "'s \<Rightarrow> bool"
    and rest :: "'s \<Rightarrow> string \<times> bool"
    and rd :: "nat \<Rightarrow> 's \<Rightarrow> string option \<times> 's"
  assumes rd_data: "ok s \<Longrightarrow> fst (rest s) \<noteq> [] \<Longrightarrow> 0 < n \<Longrightarrow> \<exists>ds s'. rd n s = (Some ds, s') \<and> ok s' \<and> ds \<noteq> [] \<and>
      length ds \<le> n \<and> fst (rest s) = ds @ fst (rest s') \<and> snd (rest s') = snd (rest s)"
    and rd_end: "ok s \<Longrightarrow> fst (rest s) = [] \<Longrightarrow> 0 < n \<Longrightarrow>
      fst (rd n s) = (if snd (rest s) then None else Some []) \<and> ok (snd (rd n s))"
begin

primrec getline :: "nat \<Rightarrow> string \<Rightarrow> 's \<Rightarrow> line_result \<times> 's" where
  "getline 0 buf s = (Line buf, s)"
| "getline (Suc k) buf s = (case rd 1 s of
     (None, s') \<Rightarrow> (Line_error buf, s')
   | (Some [], s') \<Rightarrow> (if buf = [] then Line_eof else Line buf, s')
   | (Some (c # _), s') \<Rightarrow> if c = newline then (Line (buf @ [c]), s') else getline k (buf @ [c]) s')"

function getn :: "nat \<Rightarrow> string \<Rightarrow> 's \<Rightarrow> string option \<times> 's" where
  "getn nleft buf s =
     (if nleft > 0 then
        (case rd nleft s of
           (None, s') \<Rightarrow> (None, s')
         | (Some bs, s') \<Rightarrow> if bs = [] then (Some buf, s') else getn (nleft - length bs) (buf @ bs) s')
      else (Some buf, s))"
  by auto
termination by (relation "measure fst") auto

declare getn.simps [simp del]

lemma getn_full:
  assumes "ok s" "n \<le> length (fst (rest s))"
  shows "\<exists>s'. getn n buf s = (Some (buf @ take n (fst (rest s))), s') \<and> ok s' \<and>
    rest s' = (drop n (fst (rest s)), snd (rest s))"
  using assms
proof (induction n arbitrary: buf s rule: less_induct)
  case (less n)
  show ?case
  proof (cases "n = 0")
    case True
    with less.prems show ?thesis by (simp add: getn.simps)
  next
    case False
    with less.prems obtain ds s1 where ds: "rd n s = (Some ds, s1)" "ok s1" "ds \<noteq> []" "length ds \<le> n"
      "fst (rest s) = ds @ fst (rest s1)" "snd (rest s1) = snd (rest s)"
      using rd_data [of s n] by fastforce
    then have "n - length ds < n" "n - length ds \<le> length (fst (rest s1))" using less.prems False by auto
    from less.IH [OF this(1) ds(2) this(2), of "buf @ ds"] ds False show ?thesis
      by (simp add: getn.simps [of n])
  qed
qed

lemma getn_short:
  assumes "ok s" "length (fst (rest s)) < n"
  shows "\<exists>s'. getn n buf s = (if snd (rest s) then None else Some (buf @ fst (rest s)), s') \<and> ok s'"
  using assms
proof (induction n arbitrary: buf s rule: less_induct)
  case (less n)
  show ?case
  proof (cases "fst (rest s) = []")
    case True
    then show ?thesis
      using rd_end [OF less.prems(1) True, of n] less.prems(2)
      by (cases "rd n s") (auto simp: getn.simps [of n] split: if_splits)
  next
    case False
    with less.prems obtain ds s1 where ds: "rd n s = (Some ds, s1)" "ok s1" "ds \<noteq> []" "length ds \<le> n"
      "fst (rest s) = ds @ fst (rest s1)" "snd (rest s1) = snd (rest s)"
      using rd_data [of s n] by fastforce
    then have "n - length ds < n" "length (fst (rest s1)) < n - length ds" using less.prems by auto
    from less.IH [OF this(1) ds(2) this(2), of "buf @ ds"] ds less.prems(2) show ?thesis
      by (auto simp: getn.simps [of n])
  qed
qed

lemma getline_complete:
  assumes "ok s" "length (line_of k (fst (rest s))) = k \<or> newline \<in> set (line_of k (fst (rest s)))"
  shows "\<exists>s'. getline k buf s = (Line (buf @ line_of k (fst (rest s))), s') \<and> ok s' \<and>
    rest s' = (drop (length (line_of k (fst (rest s)))) (fst (rest s)), snd (rest s))"
  using assms
proof (induction k arbitrary: buf s)
  case 0
  then show ?case by simp
next
  case (Suc k)
  then have "fst (rest s) \<noteq> []" by auto
  with rd_data [OF Suc.prems(1) this, of 1] obtain c s1 where c: "rd 1 s = (Some [c], s1)" "ok s1"
    "fst (rest s) = c # fst (rest s1)" "snd (rest s1) = snd (rest s)"
    by (auto simp: le_Suc_eq length_Suc_conv)
  show ?case
  proof (cases "c = newline")
    case True
    moreover have "rest s1 = (fst (rest s1), snd (rest s))" using c(4) by (simp add: prod_eq_iff)
    ultimately show ?thesis using c by simp
  next
    case False
    with Suc.prems(2) c have "length (line_of k (fst (rest s1))) = k \<or> newline \<in> set (line_of k (fst (rest s1)))"
      by auto
    from Suc.IH [OF c(2) this, of "buf @ [c]"] False c show ?thesis by simp
  qed
qed

lemma getline_incomplete:
  assumes "ok s" "length (line_of k (fst (rest s))) < k" "newline \<notin> set (line_of k (fst (rest s)))"
  shows "fst (getline k buf s) = (if snd (rest s) then Line_error (buf @ fst (rest s))
      else if buf @ fst (rest s) = [] then Line_eof else Line (buf @ fst (rest s))) \<and> ok (snd (getline k buf s))"
  using assms
proof (induction k arbitrary: buf s)
  case 0
  then show ?case by simp
next
  case (Suc k)
  show ?case
  proof (cases "fst (rest s) = []")
    case True
    then show ?thesis
      using rd_end [OF Suc.prems(1) True, of 1] by (cases "rd 1 s") (auto split: if_splits)
  next
    case False
    with rd_data [OF Suc.prems(1) this, of 1] obtain c s1 where c: "rd 1 s = (Some [c], s1)" "ok s1"
      "fst (rest s) = c # fst (rest s1)" "snd (rest s1) = snd (rest s)"
      by (auto simp: le_Suc_eq length_Suc_conv)
    with Suc.prems have "c \<noteq> newline" "length (line_of k (fst (rest s1))) < k" "newline \<notin> set (line_of k (fst (rest s1)))"
      by (auto split: if_splits)
    with Suc.IH [OF c(2) this(2,3), of "buf @ [c]"] c show ?thesis by simp
  qed
qed

lemma getline_spec:
  assumes "ok s"
  shows "fst (getline k [] s) = line_spec k (rest s) \<and> ok (snd (getline k [] s))"
proof (cases "length (line_of k (fst (rest s))) = k \<or> newline \<in> set (line_of k (fst (rest s)))")
  case True
  from getline_complete [OF assms True, of "[]"] True show ?thesis by (auto simp: line_spec_def Let_def)
next
  case False
  then have "length (line_of k (fst (rest s))) < k" "newline \<notin> set (line_of k (fst (rest s)))"
    using length_line_of [of k "fst (rest s)"] by auto
  with getline_incomplete [OF assms this, of "[]"] line_of_all [OF this] show ?thesis
    by (simp add: line_spec_def)
qed

end

text \<open>A source whose peer has closed: nothing follows the end of file.\<close>

locale closing_source = byte_source +
  assumes rd_stays: "ok s \<Longrightarrow> rest s = ([], False) \<Longrightarrow> 0 < n \<Longrightarrow> rest (snd (rd n s)) = ([], False)"
begin

lemma getline_rest:
  assumes "ok s" "rest s = (bs, False)"
  shows "rest (snd (getline k buf s)) = (drop (length (line_of k bs)) bs, False)"
  using assms
proof (induction k arbitrary: buf s bs)
  case 0
  then show ?case by simp
next
  case (Suc k)
  show ?case
  proof (cases bs)
    case Nil
    with rd_end [OF Suc.prems(1), of 1] rd_stays [OF Suc.prems(1), of 1] Suc.prems(2) show ?thesis
      by (cases "rd 1 s") auto
  next
    case (Cons b bs')
    with rd_data [OF Suc.prems(1), of 1] Suc.prems(2) obtain c s1 where c: "rd 1 s = (Some [c], s1)" "ok s1"
      "bs = c # fst (rest s1)" "snd (rest s1) = False"
      by (auto simp: le_Suc_eq length_Suc_conv)
    then have "rest s1 = (bs', False)" using Cons by (simp add: prod_eq_iff)
    with Suc.IH [OF c(2) this, of "buf @ [c]"] c Cons show ?thesis by simp
  qed
qed

end

section \<open>The buffered reader is a byte source\<close>

definition rio_ok :: "rio_state \<Rightarrow> bool" where
  "rio_ok st \<longleftrightarrow> length (rio_buf (fst st)) = RIO_BUFSIZE \<and>
     (0 < rio_cnt (fst st) \<longrightarrow> rio_bufptr (fst st) + nat (rio_cnt (fst st)) \<le> RIO_BUFSIZE)"

definition rio_rest :: "rio_state \<Rightarrow> string \<times> bool" where
  "rio_rest st = (take (nat (rio_cnt (fst st))) (drop (rio_bufptr (fst st)) (rio_buf (fst st))) @ fst (content (snd st)),
     snd (content (snd st)))"

lemma k_read_content:
  "0 < n \<Longrightarrow> k_read n ks = (r, ks') \<Longrightarrow> (case r of
     Failed \<Rightarrow> content ks = ([], True)
   | Interrupted \<Rightarrow> content ks = content ks'
   | Got bs \<Rightarrow> length bs \<le> n \<and> (if bs = [] then content ks = ([], False)
       else content ks = (bs @ fst (content ks'), snd (content ks'))))"
  by (cases "(n, ks)" rule: k_read.cases) (auto split: if_splits)

definition fill_post :: "string \<times> bool \<Rightarrow> fill_result \<times> rio_state \<Rightarrow> bool" where
  "fill_post old x \<longleftrightarrow> rio_ok (snd x) \<and> (case fst x of
     Filled \<Rightarrow> 0 < rio_cnt (fst (snd x)) \<and> rio_rest (snd x) = old
   | At_EOF \<Rightarrow> old = ([], False)
   | Fill_error \<Rightarrow> old = ([], True))"

lemma rio_fill_ok:
  assumes "rio_ok (rp, ks)"
  shows "fill_post (rio_rest (rp, ks)) (rio_fill rp ks)"
  using assms
proof (induction rp ks rule: rio_fill.induct)
  case (1 rp ks)
  show ?case
  proof (cases "rio_cnt rp \<le> 0")
    case True
    obtain r ks' where k: "k_read RIO_BUFSIZE ks = (r, ks')" by fastforce
    have pos: "0 < RIO_BUFSIZE" by (simp add: RIO_BUFSIZE_def)
    have old: "rio_rest (rp, ks) = content ks" using True by (simp add: rio_rest_def)
    have len: "length (rio_buf rp) = RIO_BUFSIZE" using "1.prems" by (simp add: rio_ok_def)
    note kc = k_read_content [OF pos k]
    show ?thesis
    proof (cases r)
      case (Got bs)
      show ?thesis
      proof (cases "bs = []")
        case nil: True
        with Got k kc True old len show ?thesis
          by (simp add: rio_fill.simps [of rp ks] rio_ok_def fill_post_def)
      next
        case False
        let ?rp = "rp\<lparr>rio_cnt := int (length bs), rio_buf := fill_buf bs (rio_buf rp), rio_bufptr := 0\<rparr>"
        have "rio_ok (?rp, ks')" using kc Got len by (simp add: rio_ok_def fill_buf_def)
        moreover have "rio_rest (?rp, ks') = rio_rest (rp, ks)"
          using kc Got False old by (simp add: rio_rest_def fill_buf_def)
        ultimately show ?thesis
          using "1.IH"(1) [OF True k [symmetric] Got False] Got k True False
          by (simp add: rio_fill.simps [of rp ks])
      qed
    next
      case Interrupted
      have "rio_ok (rp\<lparr>rio_cnt := -1\<rparr>, ks')" using len by (simp add: rio_ok_def)
      moreover have "rio_rest (rp\<lparr>rio_cnt := -1\<rparr>, ks') = rio_rest (rp, ks)"
        using kc Interrupted old by (simp add: rio_rest_def)
      ultimately show ?thesis
        using "1.IH"(2) [OF True k [symmetric] Interrupted] Interrupted k True
        by (simp add: rio_fill.simps [of rp ks])
    next
      case Failed
      with k kc True old len show ?thesis by (simp add: rio_fill.simps [of rp ks] rio_ok_def fill_post_def)
    qed
  next
    case False
    with "1.prems" show ?thesis by (simp add: rio_fill.simps [of rp ks] fill_post_def)
  qed
qed

interpretation rio: byte_source rio_ok rio_rest rio_read
proof (unfold_locales, goal_cases)
  case (1 st n)
  obtain r rp ks where f: "rio_fill (fst st) (snd st) = (r, rp, ks)" by (cases "rio_fill (fst st) (snd st)") auto
  have post: "fill_post (rio_rest st) (r, rp, ks)" using rio_fill_ok [of "fst st" "snd st"] 1(1) f by simp
  with 1(2) have r: "r = Filled" "0 < rio_cnt rp" "rio_rest (rp, ks) = rio_rest st" "rio_ok (rp, ks)"
    by (cases r; simp add: fill_post_def)+
  define c where "c = min (nat (rio_cnt rp)) n"
  have cnt: "(if rio_cnt rp < int n then rio_cnt rp else int n) = int c" using r(2) by (simp add: c_def)
  let ?d = "drop (rio_bufptr rp) (rio_buf rp)"
  let ?st = "(rp\<lparr>rio_bufptr := rio_bufptr rp + c, rio_cnt := rio_cnt rp - int c\<rparr>, ks)"
  have len: "nat (rio_cnt rp) \<le> length ?d" using r(2,4) by (auto simp: rio_ok_def)
  have "rio_read n st = (Some (take c ?d), ?st)" using f r(1) cnt by (simp add: rio_read_def)
  moreover have "rio_ok ?st" using r by (auto simp: rio_ok_def c_def)
  moreover have "take c ?d \<noteq> []" using len r(2) 1(3) by (auto simp: c_def)
  moreover have "take (nat (rio_cnt rp)) ?d = take c ?d @ take (nat (rio_cnt rp - int c)) (drop c ?d)"
  proof -
    have "nat (rio_cnt rp) = c + nat (rio_cnt rp - int c)" using r(2) by (simp add: c_def)
    then show ?thesis by (metis take_add)
  qed
  then have "fst (rio_rest st) = take c ?d @ fst (rio_rest ?st)"
    using r(3) by (simp add: rio_rest_def add.commute prod_eq_iff)
  moreover have "snd (rio_rest ?st) = snd (rio_rest st)" using r(3) by (simp add: rio_rest_def prod_eq_iff)
  ultimately show ?case by (intro exI [of _ "take c ?d"] exI [of _ ?st]) (simp add: c_def)
next
  case (2 st n)
  obtain r rp ks where f: "rio_fill (fst st) (snd st) = (r, rp, ks)" by (cases "rio_fill (fst st) (snd st)") auto
  have post: "fill_post (rio_rest st) (r, rp, ks)" using rio_fill_ok [of "fst st" "snd st"] 2(1) f by simp
  show ?case
  proof (cases r)
    case Filled
    with post have "rio_rest (rp, ks) = rio_rest st" "0 < rio_cnt rp" "rio_ok (rp, ks)" by (simp_all add: fill_post_def)
    with 2(2) show ?thesis by (auto simp: rio_rest_def rio_ok_def RIO_BUFSIZE_def)
  qed (use post f in \<open>simp_all add: rio_read_def fill_post_def\<close>)
qed

lemma rio_readlineb_getline: "rio_readlineb_loop k buf st = rio.getline k buf st"
  by (induction k arbitrary: buf st) (auto split: prod.splits option.splits list.splits)

lemma rio_readnb_getn: "rio_readnb_loop n buf st = rio.getn n buf st"
proof (induction n buf st rule: rio_readnb_loop.induct)
  case (1 n buf st)
  then show ?case
    by (simp add: rio_readnb_loop.simps [of n] rio.getn.simps [of n] split: prod.splits option.splits)
qed

text \<open>The cases a client of the line reader meets.\<close>

lemma line_of_line: "newline \<notin> set l \<Longrightarrow> length l < k \<Longrightarrow> line_of k (l @ newline # bs) = l @ [newline]"
proof (induction l arbitrary: k)
  case Nil
  then show ?case by (cases k) simp_all
next
  case (Cons c l)
  then show ?case by (cases k) auto
qed

lemma rio_readlineb_line:
  assumes "rio_ok st" "rio_rest st = (l @ newline # bs, e)" "newline \<notin> set l" "length l + 1 < maxlen"
  shows "\<exists>st'. rio_readlineb maxlen st = (Line (l @ [newline]), st') \<and> rio_ok st' \<and> rio_rest st' = (bs, e)"
proof -
  have "line_of (maxlen - 1) (fst (rio_rest st)) = l @ [newline]"
    using assms(2-4) by (simp add: line_of_line)
  with rio.getline_complete [OF assms(1), of "maxlen - 1" "[]"] assms(2) show ?thesis
    by (simp add: rio_readlineb_def rio_readlineb_getline)
qed

lemma rio_readlineb_end:
  assumes "rio_ok st" "rio_rest st = ([], e)" "1 < maxlen"
  shows "fst (rio_readlineb maxlen st) = (if e then Line_error [] else Line_eof) \<and> rio_ok (snd (rio_readlineb maxlen st))"
proof -
  have "line_of (maxlen - 1) [] = []" by (cases "maxlen - 1") simp_all
  with rio.getline_spec [OF assms(1), of "maxlen - 1"] assms(2,3) show ?thesis
    by (simp add: rio_readlineb_def rio_readlineb_getline line_spec_def)
qed

text \<open>A peer that sends its bytes and closes: no end of file before the last one, no error.\<close>

definition closes :: "rd_event list \<Rightarrow> bool" where
  "closes ks \<longleftrightarrow> Chunk [] \<notin> set ks \<and> Rd_error \<notin> set ks"

lemma k_read_closes: "closes ks \<Longrightarrow> 0 < n \<Longrightarrow> k_read n ks = (r, ks') \<Longrightarrow> closes ks' \<and> r \<noteq> Failed \<and> (r = Got [] \<longrightarrow> ks' = [])"
  by (cases "(n, ks)" rule: k_read.cases) (auto simp: closes_def split: if_splits)

lemma rio_fill_closes:
  "closes ks \<Longrightarrow> rio_fill rp ks = (r, rp', ks') \<Longrightarrow>
    closes ks' \<and> r \<noteq> Fill_error \<and> (r = At_EOF \<longrightarrow> ks' = [] \<and> rio_cnt rp' = 0)"
proof (induction rp ks rule: rio_fill.induct)
  case (1 rp ks)
  obtain q ks1 where k: "k_read RIO_BUFSIZE ks = (q, ks1)" by fastforce
  have kc: "closes ks1" "q \<noteq> Failed" "q = Got [] \<longrightarrow> ks1 = []"
    using k_read_closes [OF "1.prems"(1) _ k] by (auto simp: RIO_BUFSIZE_def)
  show ?case
  proof (cases "rio_cnt rp \<le> 0")
    case True
    show ?thesis
    proof (cases q)
      case (Got bs)
      with "1.IH"(1) [OF True k [symmetric] Got] "1.prems"(2) True k kc show ?thesis
        by (cases "bs = []") (auto simp: rio_fill.simps [of rp ks])
    next
      case Interrupted
      with "1.IH"(2) [OF True k [symmetric] Interrupted] "1.prems"(2) True k kc show ?thesis
        by (simp add: rio_fill.simps [of rp ks])
    qed (use kc in simp)
  qed (use "1.prems" in \<open>auto simp: rio_fill.simps [of rp ks]\<close>)
qed

lemma rio_read_closes:
  assumes "closes (snd st)" "rio_read n st = (r, st')"
  shows "closes (snd st') \<and> r \<noteq> None"
  using assms rio_fill_closes [OF assms(1), of "fst st"]
  by (auto simp: rio_read_def Let_def split: prod.splits fill_result.splits)

interpretation rioc: closing_source "\<lambda>st. rio_ok st \<and> closes (snd st)" rio_rest rio_read
proof (unfold_locales, goal_cases)
  case (1 st n)
  with rio.rd_data [of st n] show ?case using rio_read_closes [of st n] by blast
next
  case (2 st n)
  with rio.rd_end [of st n] show ?case using rio_read_closes [of st n] by (cases "rio_read n st") auto
next
  case (3 st n)
  obtain r rp ks where f: "rio_fill (fst st) (snd st) = (r, rp, ks)" by (cases "rio_fill (fst st) (snd st)") auto
  have post: "fill_post (rio_rest st) (r, rp, ks)" using rio_fill_ok [of "fst st" "snd st"] 3(1) f by simp
  have "r \<noteq> Filled"
    using post 3(2) by (auto simp: fill_post_def rio_rest_def rio_ok_def RIO_BUFSIZE_def)
  then have "r = At_EOF" "ks = []" "rio_cnt rp = 0"
    using rio_fill_closes [of "snd st", OF _ f] 3(1) by (cases r; simp)+
  with f show ?case by (simp add: rio_read_def rio_rest_def)
qed

lemma rio_readlineb_rest:
  assumes "rio_ok st" "closes (snd st)" "rio_rest st = (bs, False)"
  shows "rio_rest (snd (rio_readlineb maxlen st)) = (drop (length (line_of (maxlen - 1) bs)) bs, False)"
  using rioc.getline_rest [of st bs "maxlen - 1" "[]"] assms by (simp add: rio_readlineb_def rio_readlineb_getline)

lemma rio_readlineb_spec:
  assumes "rio_ok st"
  shows "fst (rio_readlineb maxlen st) = line_spec (maxlen - 1) (rio_rest st) \<and> rio_ok (snd (rio_readlineb maxlen st))"
  using rio.getline_spec [OF assms, of "maxlen - 1"] by (simp add: rio_readlineb_def rio_readlineb_getline)

lemma rio_readlineb_closes:
  "closes (snd st) \<Longrightarrow> closes (snd (snd (rio_readlineb maxlen st)))"
proof -
  have "closes (snd st) \<Longrightarrow> closes (snd (snd (rio_readlineb_loop k buf st)))" for k buf
  proof (induction k arbitrary: buf st)
    case (Suc k)
    obtain r st' where r: "rio_read 1 st = (r, st')" by (cases "rio_read 1 st")
    from rio_read_closes [OF Suc.prems r] Suc.IH [of st'] r show ?case
      by (auto split: option.splits list.splits)
  qed simp
  then show "closes (snd st) \<Longrightarrow> closes (snd (snd (rio_readlineb maxlen st)))" by (simp add: rio_readlineb_def)
qed

lemma rio_readlineb_stays_at_end:
  assumes "rio_ok st" "closes (snd st)" "rio_rest st = ([], False)" "1 < maxlen"
  shows "\<exists>st'. rio_readlineb maxlen st = (Line_eof, st') \<and> rio_ok st' \<and> closes (snd st') \<and> rio_rest st' = ([], False)"
  using rio_readlineb_end [OF assms(1,3,4)] rio_readlineb_rest [OF assms(1-3), of maxlen]
    rio_readlineb_closes [OF assms(2), of maxlen]
  by (cases "rio_readlineb maxlen st") auto

section \<open>Properties\<close>

text \<open>What a reader of \<open>n\<close> bytes returns: all of them, or at end of file what there was, or -1.\<close>

definition read_spec :: "nat \<Rightarrow> string \<times> bool \<Rightarrow> string option" where
  "read_spec n r = (if n \<le> length (fst r) then Some (take n (fst r)) else if snd r then None else Some (fst r))"

lemma rio_readn_loop_ok:
  "fst (rio_readn_loop n buf ks) = map_option ((@) buf) (read_spec n (content ks)) \<and>
   (n \<le> length (fst (content ks)) \<longrightarrow>
     content (snd (rio_readn_loop n buf ks)) = (drop n (fst (content ks)), snd (content ks)))"
proof (induction n buf ks rule: rio_readn_loop.induct)
  case (1 n buf ks)
  obtain r ks' where k: "k_read n ks = (r, ks')" by fastforce
  show ?case
  proof (cases "n > 0")
    case True
    note kc = k_read_content [OF True k]
    show ?thesis
    proof (cases r)
      case (Got bs)
      show ?thesis
      proof (cases "bs = []")
        case False
        with "1.IH"(1) [OF True k [symmetric] Got False] Got k True kc show ?thesis
          by (auto simp: rio_readn_loop.simps [of n] read_spec_def)
      qed (use Got k True kc in \<open>simp add: rio_readn_loop.simps [of n] read_spec_def\<close>)
    next
      case Interrupted
      with "1.IH"(2) [OF True k [symmetric] Interrupted] k True kc show ?thesis
        by (simp add: rio_readn_loop.simps [of n])
    qed (use k True kc in \<open>simp add: rio_readn_loop.simps [of n] read_spec_def\<close>)
  qed (simp add: rio_readn_loop.simps [of 0] read_spec_def)
qed

text \<open>\<open>rio_readn\<close> hides short reads and interruptions: it returns exactly the next \<open>n\<close> bytes of the
  descriptor, fewer only at end of file, and -1 only if an error comes before them; after a full
  read the descriptor continues with the next byte.\<close>

theorem rio_readn_delivers:
  "fst (rio_readn n ks) = read_spec n (content ks) \<and>
   (n \<le> length (fst (content ks)) \<longrightarrow>
     content (snd (rio_readn n ks)) = (drop n (fst (content ks)), snd (content ks)))"
  using rio_readn_loop_ok [of n "[]" ks]
  by (cases "read_spec n (content ks)") (simp_all add: rio_readn_def)

theorem rio_readn_delivers_witness:
  "fst (rio_readn 3 [Chunk ''ab'', Rd_EINTR, Chunk ''cd'']) = Some ''abc'' \<and>
   content (snd (rio_readn 3 [Chunk ''ab'', Rd_EINTR, Chunk ''cd''])) = (''d'', False)"
  using rio_readn_delivers [of 3 "[Chunk ''ab'', Rd_EINTR, Chunk ''cd'']"]
  by (simp add: read_spec_def numeral_3_eq_3)

lemma rio_writen_loop_ok:
  assumes "rio_writen_loop buf en ks sent = (done, ks', sent')"
  shows "\<exists>k \<le> length buf. sent' = sent @ take k buf \<and> (done \<longleftrightarrow> k = length buf)"
  using assms
proof (induction buf en ks sent rule: rio_writen_loop.induct)
  case (1 buf en ks sent)
  show ?case
  proof (cases "buf = []")
    case True
    with "1.prems" show ?thesis by (simp add: rio_writen_loop.simps [of "[]"])
  next
    case False
    obtain nw en' ks1 where k: "k_write buf en ks = (nw, en', ks1)" by (cases "k_write buf en ks") auto
    have nw: "nw \<le> int (length buf)" using k by (cases "(buf, en, ks)" rule: k_write.cases) auto
    show ?thesis
    proof (cases "nw \<le> 0")
      case True
      with "1.IH"(1) [of nw "(en', ks1)" en' ks1] "1.prems" False k show ?thesis
        by (cases "en' = EINTR") (auto simp: rio_writen_loop.simps [of buf] intro: exI [of _ 0])
    next
      case pos: False
      then obtain j where j: "j \<le> length buf - nat nw" "sent' = (sent @ take (nat nw) buf) @ take j (drop (nat nw) buf)"
        "done \<longleftrightarrow> j = length buf - nat nw"
        using "1.IH"(2) [of nw "(en', ks1)" en' ks1] "1.prems" False k
        by (auto simp: rio_writen_loop.simps [of buf])
      then have "sent' = sent @ take (nat nw + j) buf" by (simp add: take_add)
      moreover have "nat nw + j \<le> length buf" "done \<longleftrightarrow> nat nw + j = length buf" using j nw pos by linarith+
      ultimately show ?thesis by blast
    qed
  qed
qed

text \<open>\<open>rio_writen\<close> sends a prefix of the \<open>n\<close> bytes, in order and without gaps or repetitions,
  whatever sizes the kernel takes and however often it is interrupted; it returns \<open>n\<close> exactly when
  the prefix is all of them.\<close>

theorem rio_writen_sends_prefix:
  "\<exists>k \<le> length (take n buf). snd (snd (rio_writen buf n en ks)) = take k (take n buf) \<and>
    (fst (rio_writen buf n en ks) \<longleftrightarrow> k = length (take n buf))"
  using rio_writen_loop_ok [of "take n buf" en ks "[]"]
  by (cases "rio_writen buf n en ks") (simp add: rio_writen_def)

text \<open>\<open>rio_readlineb\<close> returns the next line with its newline, cut at \<open>maxlen - 1\<close> bytes, the
  unterminated rest at end of file, 0 at once when there is nothing, or -1 at an error; when the line
  is complete the buffered reader continues with the byte behind it.\<close>

theorem rio_readlineb_reads_line:
  assumes "rio_ok st"
  shows "fst (rio_readlineb maxlen st) = line_spec (maxlen - 1) (rio_rest st) \<and> rio_ok (snd (rio_readlineb maxlen st)) \<and>
    (let l = line_of (maxlen - 1) (fst (rio_rest st)) in length l = maxlen - 1 \<or> newline \<in> set l \<longrightarrow>
      rio_rest (snd (rio_readlineb maxlen st)) = (drop (length l) (fst (rio_rest st)), snd (rio_rest st)))"
  using rio.getline_spec [OF assms, of "maxlen - 1"] rio.getline_complete [OF assms, of "maxlen - 1" "[]"]
  by (auto simp: rio_readlineb_def rio_readlineb_getline Let_def)

text \<open>\<open>rio_readnb\<close> meets the specification of \<open>rio_readn\<close> on what is left in its buffer and behind
  it, so it can be mixed with \<open>rio_readlineb\<close>.\<close>

theorem rio_readnb_delivers:
  assumes "rio_ok st"
  shows "fst (rio_readnb n st) = read_spec n (rio_rest st) \<and> rio_ok (snd (rio_readnb n st)) \<and>
    (n \<le> length (fst (rio_rest st)) \<longrightarrow>
      rio_rest (snd (rio_readnb n st)) = (drop n (fst (rio_rest st)), snd (rio_rest st)))"
proof (cases "n \<le> length (fst (rio_rest st))")
  case True
  from rio.getn_full [OF assms True, of "[]"] True show ?thesis
    by (auto simp: rio_readnb_def rio_readnb_getn read_spec_def)
next
  case False
  then have "length (fst (rio_rest st)) < n" by simp
  from rio.getn_short [OF assms this, of "[]"] False show ?thesis
    by (auto simp: rio_readnb_def rio_readnb_getn read_spec_def)
qed

text \<open>C31: What one side sends with \<open>rio_writen\<close> the other side gets with \<open>rio_readn\<close> or, buffered, with \<open>rio_readnb\<close>:
  when the write reports success and its bytes are what arrives, in whatever pieces and with whatever
  interruptions, the reader of as many bytes returns exactly the writer's buffer.\<close>
theorem rio_write_read_roundtrip:
  assumes "fst (rio_writen buf n en ws)" "n \<le> length buf" "content ks = (snd (snd (rio_writen buf n en ws)), e)"
    "rio_ok st" "rio_rest st = (snd (snd (rio_writen buf n en ws)), e)"
  shows "fst (rio_readn n ks) = Some (take n buf) \<and> fst (rio_readnb n st) = Some (take n buf)"
proof -
  obtain ok ws' sent where w: "rio_writen_loop (take n buf) en ws [] = (ok, ws', sent)" by (metis prod.exhaust)
  then have "sent = take n buf"
    using assms(1,2) rio_writen_loop_ok [OF w] by (auto simp: rio_writen_def)
  then have "snd (snd (rio_writen buf n en ws)) = take n buf" using w by (simp add: rio_writen_def)
  then show ?thesis
    using assms(2-5) rio_readn_loop_ok [of n "[]" ks] rio_readnb_delivers [OF assms(4), of n]
    by (simp add: rio_readn_def read_spec_def)
qed

subsection \<open>Witnesses\<close>

definition rio_demo :: rio_state where
  "rio_demo = (rio_readinitb 3 \<lparr>rio_fd = 0, rio_cnt = 5, rio_bufptr = 7, rio_buf = replicate RIO_BUFSIZE CHR 0x00\<rparr>,
     [Chunk ''GET'', Rd_EINTR, Chunk [CHR 0x0A, CHR ''x'']])"

lemma rio_demo_ok: "rio_ok rio_demo"
  by (simp add: rio_demo_def rio_ok_def rio_readinitb_def)

theorem rio_readlineb_reads_line_witness:
  "fst (rio_readlineb 10 rio_demo) = line_spec (10 - 1) (rio_rest rio_demo) \<and> rio_ok (snd (rio_readlineb 10 rio_demo)) \<and>
    (let l = line_of (10 - 1) (fst (rio_rest rio_demo)) in length l = 10 - 1 \<or> newline \<in> set l \<longrightarrow>
      rio_rest (snd (rio_readlineb 10 rio_demo)) = (drop (length l) (fst (rio_rest rio_demo)), snd (rio_rest rio_demo)))"
  by (rule rio_readlineb_reads_line [OF rio_demo_ok])

theorem rio_readnb_delivers_witness:
  "fst (rio_readnb 5 rio_demo) = read_spec 5 (rio_rest rio_demo) \<and> rio_ok (snd (rio_readnb 5 rio_demo)) \<and>
    (5 \<le> length (fst (rio_rest rio_demo)) \<longrightarrow>
      rio_rest (snd (rio_readnb 5 rio_demo)) = (drop 5 (fst (rio_rest rio_demo)), snd (rio_rest rio_demo)))"
  by (rule rio_readnb_delivers [OF rio_demo_ok])

theorem rio_write_read_roundtrip_witness:
  "fst (rio_readn 3 [Chunk ''a'', Rd_EINTR, Chunk ''bc'']) = Some ''abc'' \<and> fst (rio_readnb 3 (fst rio_demo, [Chunk ''a'', Rd_EINTR, Chunk ''bc''])) = Some ''abc''"
proof -
  have w: "rio_writen ''abc'' 3 EOTHER [Takes 2, Wr_EINTR] = (True, [], ''abc'')"
    by (simp add: rio_writen_def rio_writen_loop.simps [of "[x]" for x] rio_writen_loop.simps [of "[]"]
        rio_writen_loop.simps [of "[x, y, z]" for x y z])
  have "rio_ok (fst rio_demo, [Chunk ''a'', Rd_EINTR, Chunk ''bc''])"
    "rio_rest (fst rio_demo, [Chunk ''a'', Rd_EINTR, Chunk ''bc'']) = (''abc'', False)"
    by (simp_all add: rio_demo_def rio_ok_def rio_rest_def rio_readinitb_def)
  then show ?thesis
    using rio_write_read_roundtrip [of "''abc''" 3 EOTHER "[Takes 2, Wr_EINTR]" "[Chunk ''a'', Rd_EINTR, Chunk ''bc'']" False] w by simp
qed

end
