(* ===== verification/Tiny_Web.thy ===== *)
theory Tiny_Web
  imports Rio C_String
begin

text \<open>
  The Tiny web server of \<open>socket/csapp/tiny_web.c\<close> and its CGI program \<open>cgi_adder.c\<close>. A transaction
  maps the bytes of a connection to the sequence of what is sent on it (one \<open>Send\<close> per
  \<open>rio_writen\<close>) and of the programs run. Uninitialised stack arrays are arguments; \<open>None\<close> is a
  buffer overrun or a transaction that never returns. \<open>sprintf(b, "%s...", b)\<close> appends, as the C
  library does it.
\<close>

definition MAXLINE :: nat where "MAXLINE = 1024"

text \<open>What \<open>stat\<close> tells of a file, and what \<open>open\<close> and \<open>mmap\<close> deliver (\<open>None\<close> when they fail).\<close>

record tiny_stat =
  st_isreg :: bool
  st_rusr :: bool
  st_xusr :: bool
  st_size :: nat

record tiny_files =
  tf_stat :: "string \<Rightarrow> tiny_stat option"
  tf_mmap :: "string \<Rightarrow> string option"

record tiny_stack =
  j_buf :: string
  j_hdr :: string
  j_method :: string
  j_uri :: string
  j_filetype :: string

datatype tiny_act = Send string | Run_cgi string string

text \<open>What a call of \<open>rio_readlineb\<close> leaves in its array.\<close>

definition line_into :: "line_result \<Rightarrow> string \<Rightarrow> string" where
  "line_into r raw = (case r of
     Line s \<Rightarrow> put_front (s @ [NUL]) raw | Line_eof \<Rightarrow> raw | Line_error s \<Rightarrow> put_front s raw)"

partial_function (option) read_requesthdrs_loop :: "string \<Rightarrow> rio_state \<Rightarrow> rio_state option" where
  "read_requesthdrs_loop raw st =
     (if cstr raw \<noteq> crlf then
        (case rio_readlineb MAXLINE st of (r, st') \<Rightarrow> read_requesthdrs_loop (line_into r raw) st')
      else Some st)"

definition read_requesthdrs :: "string \<Rightarrow> rio_state \<Rightarrow> rio_state option" where
  "read_requesthdrs raw st =
     (case rio_readlineb MAXLINE st of (r, st') \<Rightarrow> read_requesthdrs_loop (line_into r raw) st')"

text \<open>\<open>filename\<close> is an array of \<open>MAXLINE\<close> bytes.\<close>

definition fits :: "string \<Rightarrow> bool" where
  "fits s \<longleftrightarrow> length s < MAXLINE"

definition parse_uri :: "string \<Rightarrow> (bool \<times> string \<times> string) option" where
  "parse_uri uri =
     (if strstr uri ''cgi-bin'' = None then
        if uri = [] then None
        else let filename = ''.'' @ uri @ (if last uri = CHR ''/'' then ''home.html'' else []) in
          if fits filename then Some (True, filename, []) else None
      else case strchr uri (CHR ''?'') of
          Some ptr \<Rightarrow>
            let filename = ''.'' @ take (length uri - length ptr) uri in
            if fits filename then Some (False, filename, tl ptr) else None
        | None \<Rightarrow> let filename = ''.'' @ uri in
            if fits filename then Some (False, filename, []) else None)"

definition get_filetype :: "string \<Rightarrow> string \<Rightarrow> string" where
  "get_filetype filename filetype =
     (if strstr filename ''.html'' \<noteq> None then ''text/html''
      else if strstr filename ''.gif'' \<noteq> None then ''image/gif''
      else if strstr filename ''.png'' \<noteq> None then ''image/png''
      else if strstr filetype ''.jpg'' \<noteq> None then ''image/jpeg''
      else ''text/plain'')"

definition clienterror :: "string \<Rightarrow> string \<Rightarrow> string \<Rightarrow> string \<Rightarrow> tiny_act list" where
  "clienterror cause errnum shortmsg longmsg = (
     let body = ''<html><title>Tiny Error</title>'' @
       ''<body bgcolor=ffffff>'' @ crlf @
       errnum @ '': '' @ shortmsg @ crlf @
       ''<p>'' @ longmsg @ '': '' @ cause @ crlf @
       ''<hr><em>The Tiny Web server</em>'' @ crlf in
     [Send (''HTTP/1.0 '' @ errnum @ '' '' @ shortmsg @ crlf),
      Send (''Content-type: text/html'' @ crlf),
      Send (''Content-length: '' @ dec_nat (length body) @ crlf @ crlf),
      Send body])"

definition serve_static :: "tiny_files \<Rightarrow> string \<Rightarrow> string \<Rightarrow> nat \<Rightarrow> tiny_act list" where
  "serve_static fs filetype0 filename filesize = (
     let filetype = get_filetype filename filetype0;
       buf = ''HTTP/1.0 200 OK'' @ crlf @
         ''Server: Tiny Web Server'' @ crlf @
         ''Connection: close'' @ crlf @
         ''Content-length: '' @ dec_nat filesize @ crlf @
         ''Content-type: '' @ filetype @ crlf @ crlf in
     Send buf # (case tf_mmap fs filename of None \<Rightarrow> [] | Some srcp \<Rightarrow> [Send (take filesize srcp)]))"

definition serve_dynamic :: "string \<Rightarrow> string \<Rightarrow> tiny_act list" where
  "serve_dynamic filename cgiargs =
     [Send (''HTTP/1.0 200 OK'' @ crlf), Send (''Server: Tiny Web Server'' @ crlf), Run_cgi filename cgiargs]"

text \<open>The second half of \<open>doit\<close>, from \<open>parse_uri\<close> on.\<close>

definition tiny_respond :: "tiny_files \<Rightarrow> tiny_stack \<Rightarrow> string \<Rightarrow> tiny_act list option" where
  "tiny_respond fs j uri = do {
     (is_static, filename, cgiargs) \<leftarrow> parse_uri uri;
     (case tf_stat fs filename of
        None \<Rightarrow> Some (clienterror filename ''404'' ''Not found'' ''Tiny couldn't find this file'')
      | Some sbuf \<Rightarrow>
          if is_static then
            if \<not> st_isreg sbuf \<or> \<not> st_rusr sbuf
            then Some (clienterror filename ''403'' ''Forbidden'' ''Tiny couldn't read the file'')
            else Some (serve_static fs (j_filetype j) filename (st_size sbuf) @ serve_dynamic filename cgiargs)
          else
            if \<not> st_isreg sbuf \<or> \<not> st_xusr sbuf
            then Some (clienterror filename ''403'' ''Forbidden'' ''Tiny couldn't run the CGI program'')
            else Some (serve_dynamic filename cgiargs))
   }"

definition doit :: "tiny_files \<Rightarrow> tiny_stack \<Rightarrow> nat \<Rightarrow> rio_t \<Rightarrow> rd_event list \<Rightarrow> tiny_act list option" where
  "doit fs j fd rp ks = (
     let st = (rio_readinitb fd rp, ks);
       (r, st1) = rio_readlineb MAXLINE st;
       ws = words (cstr (line_into r (j_buf j)));
       method = (case ws of w # _ \<Rightarrow> w | _ \<Rightarrow> j_method j);
       uri = (case ws of _ # w # _ \<Rightarrow> w | _ \<Rightarrow> j_uri j) in
     if \<not> strcaseeq method ''GET''
     then Some (clienterror method ''501'' ''Not implemented'' ''Tiny does not implement this method'')
     else do { _ \<leftarrow> read_requesthdrs (j_hdr j) st1; tiny_respond fs j uri })"

section \<open>The CGI adder\<close>

text \<open>\<open>cgi_adder.c\<close>: the text printed for a query string; \<open>None\<close> is the null pointer
  dereference of \<open>*p\<close> when the query has no \<open>&\<close>. \<open>sprintf\<close> of a null \<open>buf\<close> into \<open>content\<close> is overwritten by
  the next line. The sum is C's \<open>int\<close> addition where it does not overflow.\<close>

definition adder_content :: "int \<Rightarrow> int \<Rightarrow> string" where
  "adder_content n1 n2 =
     ''Welcome to add.com: '' @ ''The Internet addition portal.'' @ crlf @ ''<p>'' @
     ''The answer is: '' @ dec_int n1 @ '' + '' @ dec_int n2 @ '' = '' @ dec_int (n1 + n2) @ crlf @ ''<p>'' @
     ''Thanks for visiting!'' @ crlf"

definition cgi_adder :: "string option \<Rightarrow> string option" where
  "cgi_adder query = do {
     (n1, n2) \<leftarrow> (case query of
        None \<Rightarrow> Some (0, 0)
      | Some buf \<Rightarrow> (case strchr buf (CHR ''&'') of
          None \<Rightarrow> None
        | Some p \<Rightarrow> Some (atoi (take (length buf - length p) buf), atoi (tl p))));
     let content = adder_content n1 n2;
     Some (''Connection: close'' @ crlf @ ''Content-length: '' @ dec_nat (length content) @ crlf @
       ''Content-type: text/html'' @ crlf @ crlf @ content)
   }"

section \<open>Lemmas\<close>

lemma cstr_LF: "LF \<notin> set h \<Longrightarrow> cstr (put_front (h @ [LF] @ [NUL]) raw) = crlf \<longleftrightarrow> h = [CR]"
proof (cases "NUL \<in> set h")
  case True
  assume "LF \<notin> set h"
  then have "LF \<notin> set (cstr (put_front (h @ [LF] @ [NUL]) raw))"
    using True by (auto simp: cstr_def put_front_def takeWhile_append1 [of NUL] dest: set_takeWhileD)
  then have "cstr (put_front (h @ [LF] @ [NUL]) raw) \<noteq> crlf" by auto
  with True show ?thesis by auto
next
  case False
  assume "LF \<notin> set h"
  with False cstr_put [of "h @ [LF]" raw] show ?thesis by (auto simp: append_eq_Cons_conv)
qed

text \<open>A header block: lines that are not empty, then the empty line.\<close>

definition header_ok :: "string \<Rightarrow> bool" where
  "header_ok h \<longleftrightarrow> LF \<notin> set h \<and> h \<noteq> [CR] \<and> length h + 1 < MAXLINE"

definition header_block :: "string list \<Rightarrow> string" where
  "header_block hs = concat (map (\<lambda>h. h @ [LF]) hs) @ crlf"

lemma read_requesthdrs_ok:
  assumes "rio_ok st" "rio_rest st = (header_block hs @ body, e)" "\<forall>h \<in> set hs. header_ok h"
  shows "\<exists>st'. read_requesthdrs raw st = Some st' \<and> rio_ok st' \<and> rio_rest st' = (body, e)"
  using assms
proof (induction hs arbitrary: st raw)
  case Nil
  then obtain st' where st': "rio_readlineb MAXLINE st = (Line (crlf), st')" "rio_ok st'" "rio_rest st' = (body, e)"
    using rio_readlineb_line [of st "[CR]" body e MAXLINE] by (auto simp: header_block_def MAXLINE_def)
  moreover have "cstr (line_into (Line crlf) raw) = crlf"
    using cstr_LF [of "[CR]" raw] by (simp add: line_into_def)
  ultimately show ?case
    by (simp add: read_requesthdrs_def read_requesthdrs_loop.simps)
next
  case (Cons h hs)
  then have h: "LF \<notin> set h" "h \<noteq> [CR]" "length h + 1 < MAXLINE" by (simp_all add: header_ok_def)
  have "rio_rest st = (h @ LF # header_block hs @ body, e)" using Cons.prems(2) by (simp add: header_block_def)
  from rio_readlineb_line [OF Cons.prems(1) this h(1,3)] obtain st1 where
    st1: "rio_readlineb MAXLINE st = (Line (h @ [LF]), st1)" "rio_ok st1" "rio_rest st1 = (header_block hs @ body, e)"
    by blast
  have "cstr (line_into (Line (h @ [LF])) raw) \<noteq> crlf"
    using cstr_LF [OF h(1), of raw] h(2) by (simp add: line_into_def)
  then have "read_requesthdrs raw st = read_requesthdrs (line_into (Line (h @ [LF])) raw) st1"
    using st1(1) by (simp add: read_requesthdrs_def read_requesthdrs_loop.simps [of "line_into (Line (h @ [LF])) raw"])
  with Cons.IH [OF st1(2,3)] Cons.prems(3) show ?case by simp
qed

lemma words_request:
  assumes "m \<noteq> []" "u \<noteq> []" "v \<noteq> []" "list_all (\<lambda>c. \<not> is_space c) (m @ u @ v)"
  shows "words (m @ '' '' @ u @ '' '' @ v @ crlf) = [m, u, v]"
proof -
  have sp: "is_space (CHR '' '')" "is_space CR" "is_space LF" by (simp_all add: is_space_def)
  show ?thesis using assms sp by (simp add: words_word)
qed

lemma read_requesthdrs_loop_stuck:
  assumes "rio_ok st" "closes (snd st)" "rio_rest st = ([], False)" "cstr raw \<noteq> crlf"
  shows "read_requesthdrs_loop raw st = None"
proof (rule ccontr)
  assume "read_requesthdrs_loop raw st \<noteq> None"
  then obtain y where y: "read_requesthdrs_loop raw st = Some y" by blast
  let ?stuck = "\<lambda>raw st. rio_ok st \<and> closes (snd st) \<and> rio_rest st = ([], False) \<and> cstr raw \<noteq> crlf"
  have "\<not> ?stuck raw st"
  proof (rule read_requesthdrs_loop.raw_induct [OF _ y])
    fix loop raw st y
    assume IH: "\<And>raw st y. loop raw st = Some y \<Longrightarrow> \<not> ?stuck raw st"
      and body: "(if cstr raw \<noteq> crlf then case rio_readlineb MAXLINE st of (r, st') \<Rightarrow> loop (line_into r raw) st'
        else Some st) = Some (y :: rio_state)"
    show "\<not> ?stuck raw st"
    proof
      assume s: "?stuck raw st"
      then obtain st' where "rio_readlineb MAXLINE st = (Line_eof, st')" "?stuck raw st'"
        using rio_readlineb_stays_at_end [of st MAXLINE] by (auto simp: MAXLINE_def)
      moreover from this(1) s body have "loop raw st' = Some y" by (simp add: line_into_def)
      ultimately show False using IH by blast
    qed
  qed
  with assms show False by simp
qed

lemma dec_int_no_amp: "CHR ''&'' \<notin> set (dec_int i)"
proof -
  have "CHR ''&'' \<notin> set (dec_nat n)" for n
    using dec_nat_digits [of n] by (auto simp: list_all_iff is_digit_def)
  then show ?thesis by (simp add: dec_int_def)
qed

text \<open>A request line and the pieces it is read into.\<close>

definition request_line :: "string \<Rightarrow> string \<Rightarrow> string \<Rightarrow> string" where
  "request_line m u v = m @ '' '' @ u @ '' '' @ v @ crlf"

definition request_ok :: "string \<Rightarrow> string \<Rightarrow> string \<Rightarrow> bool" where
  "request_ok m u v \<longleftrightarrow> m \<noteq> [] \<and> u \<noteq> [] \<and> v \<noteq> [] \<and> list_all (\<lambda>c. \<not> is_space c \<and> c \<noteq> NUL) (m @ u @ v) \<and>
     length (request_line m u v) < MAXLINE"

lemma read_request_line:
  assumes "request_ok m u v" "content ks = (request_line m u v @ bs, e)" "length (rio_buf rp) = RIO_BUFSIZE"
  shows "\<exists>st. rio_readlineb MAXLINE (rio_readinitb fd rp, ks) = (Line (request_line m u v), st) \<and> rio_ok st \<and>
    rio_rest st = (bs, e) \<and> words (cstr (line_into (Line (request_line m u v)) raw)) = [m, u, v]"
proof -
  let ?l = "m @ '' '' @ u @ '' '' @ v @ [CR]"
  have l: "request_line m u v = ?l @ [LF]" by (simp add: request_line_def)
  have all: "\<forall>c \<in> set (m @ u @ v). \<not> is_space c \<and> c \<noteq> NUL" using assms(1) by (simp add: request_ok_def list_all_iff)
  have "is_space LF" by (simp add: is_space_def)
  with all have "LF \<notin> set (m @ u @ v)" "NUL \<notin> set (m @ u @ v)" by blast+
  then have ok: "list_all (\<lambda>c. \<not> is_space c) (m @ u @ v)" "NUL \<notin> set ?l" "LF \<notin> set ?l"
    using all by (simp_all add: list_all_iff)
  have "rio_ok (rio_readinitb fd rp, ks)" "rio_rest (rio_readinitb fd rp, ks) = (?l @ LF # bs, e)"
    using assms(2,3) by (simp_all add: rio_ok_def rio_rest_def rio_readinitb_def request_line_def)
  from rio_readlineb_line [OF this ok(3), of MAXLINE] obtain st where
    st: "rio_readlineb MAXLINE (rio_readinitb fd rp, ks) = (Line (?l @ [LF]), st)" "rio_ok st" "rio_rest st = (bs, e)"
    using assms(1) by (auto simp: request_ok_def request_line_def)
  have "cstr (line_into (Line (?l @ [LF])) raw) = ?l @ [LF]"
    using ok(2) cstr_put [of "?l @ [LF]" raw] by (simp add: line_into_def)
  moreover have "words (?l @ [LF]) = [m, u, v]"
    using words_request [of m u v] ok(1) assms(1) by (simp add: request_ok_def)
  ultimately show ?thesis using st unfolding l by (intro exI [of _ st]) simp
qed

lemma closes_after_line:
  assumes "rio_readlineb maxlen (rp, ks) = (r, st)" "closes ks"
  shows "closes (snd st)"
  using rio_readlineb_closes [of "(rp, ks)" maxlen] assms by simp

lemma read_requesthdrs_stuck:
  assumes "rio_ok st" "closes (snd st)" "rio_rest st = (concat (map (\<lambda>h. h @ [LF]) hs), False)"
    "\<forall>h \<in> set hs. header_ok h" "cstr raw \<noteq> crlf"
  shows "read_requesthdrs raw st = None"
  using assms
proof (induction hs arbitrary: st raw)
  case Nil
  then obtain st' where st': "rio_readlineb MAXLINE st = (Line_eof, st')" "rio_ok st'" "closes (snd st')"
    "rio_rest st' = ([], False)"
    using rio_readlineb_stays_at_end [of st MAXLINE] by (auto simp: MAXLINE_def)
  with read_requesthdrs_loop_stuck [OF st'(2-4) Nil.prems(5)] show ?case
    by (simp add: read_requesthdrs_def line_into_def)
next
  case (Cons h hs)
  then have h: "LF \<notin> set h" "h \<noteq> [CR]" "length h + 1 < MAXLINE" by (simp_all add: header_ok_def)
  have "rio_rest st = (h @ LF # concat (map (\<lambda>h. h @ [LF]) hs), False)" using Cons.prems(3) by simp
  from rio_readlineb_line [OF Cons.prems(1) this h(1,3)] obtain st1 where
    st1: "rio_readlineb MAXLINE st = (Line (h @ [LF]), st1)" "rio_ok st1" "rio_rest st1 = (concat (map (\<lambda>h. h @ [LF]) hs), False)"
    by blast
  have c: "closes (snd st1)" using rio_readlineb_closes [OF Cons.prems(2), of MAXLINE] st1(1) by simp
  have ne: "cstr (line_into (Line (h @ [LF])) raw) \<noteq> crlf"
    using cstr_LF [OF h(1), of raw] h(2) by (simp add: line_into_def)
  then have "read_requesthdrs raw st = read_requesthdrs (line_into (Line (h @ [LF])) raw) st1"
    using st1(1) by (simp add: read_requesthdrs_def read_requesthdrs_loop.simps [of "line_into (Line (h @ [LF])) raw"])
  with Cons.IH [OF st1(2) c st1(3) _ ne] Cons.prems(4) show ?case by simp
qed

lemma doit_request:
  assumes "request_ok m u v" "content ks = (request_line m u v @ header_block hs @ body, e)"
    "\<forall>h \<in> set hs. header_ok h" "length (rio_buf rp) = RIO_BUFSIZE"
  shows "doit fs j fd rp ks = (if strcaseeq m ''GET'' then tiny_respond fs j u
    else Some (clienterror m ''501'' ''Not implemented'' ''Tiny does not implement this method''))"
proof -
  from read_request_line [OF assms(1,2,4)] obtain st where
    st: "rio_readlineb MAXLINE (rio_readinitb fd rp, ks) = (Line (request_line m u v), st)" "rio_ok st"
      "rio_rest st = (header_block hs @ body, e)" "words (cstr (line_into (Line (request_line m u v)) (j_buf j))) = [m, u, v]"
    by blast
  from read_requesthdrs_ok [OF st(2,3) assms(3)] obtain st' where "read_requesthdrs (j_hdr j) st = Some st'" by blast
  with st show ?thesis by (simp add: doit_def)
qed

section \<open>Properties\<close>

text \<open>A well-formed request, however the network cuts it into pieces, is read completely and
  answered: a GET by the response to its URI, every other method by the 501 error page.\<close>

theorem tiny_answers_request:
  assumes "request_ok m u v" "content ks = (request_line m u v @ header_block hs @ body, e)"
    "\<forall>h \<in> set hs. header_ok h" "length (rio_buf rp) = RIO_BUFSIZE"
  shows "doit fs j fd rp ks = (if strcaseeq m ''GET'' then tiny_respond fs j u
    else Some (clienterror m ''501'' ''Not implemented'' ''Tiny does not implement this method''))"
  by (rule doit_request [OF assms])

text \<open>A client that sends a GET request without the empty line and closes its side is never
  answered: \<open>read_requesthdrs\<close> ignores the end of file and the server, which serves one client at a
  time, loops forever.\<close>

theorem tiny_hangs_at_eof:
  assumes "request_ok m u v" "strcaseeq m ''GET''" "content ks = (request_line m u v @ concat (map (\<lambda>h. h @ [LF]) hs), False)"
    "closes ks" "\<forall>h \<in> set hs. header_ok h" "length (rio_buf rp) = RIO_BUFSIZE" "cstr (j_hdr j) \<noteq> crlf"
  shows "doit fs j fd rp ks = None"
proof -
  from read_request_line [OF assms(1,3,6)] obtain st where
    st: "rio_readlineb MAXLINE (rio_readinitb fd rp, ks) = (Line (request_line m u v), st)" "rio_ok st"
      "rio_rest st = (concat (map (\<lambda>h. h @ [LF]) hs), False)"
      "words (cstr (line_into (Line (request_line m u v)) (j_buf j))) = [m, u, v]"
    by blast
  have "read_requesthdrs (j_hdr j) st = None"
    by (rule read_requesthdrs_stuck [OF st(2) closes_after_line [OF st(1) assms(4)] st(3) assms(5,7)])
  with st assms(2) show ?thesis by (simp add: doit_def)
qed

text \<open>\<open>parse_uri\<close>: a URI without \<open>cgi-bin\<close> names a static file below the working directory, with
  \<open>home.html\<close> for a directory; otherwise the part before the first \<open>?\<close> is the program and the part
  behind it the arguments. A directory URI of 1014 bytes or more overruns \<open>filename\<close>.\<close>

theorem parse_uri_meaning:
  "(strstr uri ''cgi-bin'' = None \<and> uri \<noteq> [] \<longrightarrow> parse_uri uri =
      (if last uri \<noteq> CHR ''/'' then if length uri < 1023 then Some (True, ''.'' @ uri, []) else None
       else if length uri < 1014 then Some (True, ''.'' @ uri @ ''home.html'', []) else None)) \<and>
   (strstr (path @ ''?'' @ args) ''cgi-bin'' \<noteq> None \<and> CHR ''?'' \<notin> set path \<longrightarrow>
     parse_uri (path @ ''?'' @ args) = (if length path < 1023 then Some (False, ''.'' @ path, args) else None)) \<and>
   (strstr path ''cgi-bin'' \<noteq> None \<and> CHR ''?'' \<notin> set path \<longrightarrow>
     parse_uri path = (if length path < 1023 then Some (False, ''.'' @ path, []) else None))"
  by (intro conjI impI; elim conjE exE; auto simp: parse_uri_def fits_def MAXLINE_def)

text \<open>A readable static file is sent in full with its length in the header, and then \<open>doit\<close>
  falls through to \<open>serve_dynamic\<close>: a second status line follows the file and the file itself is
  executed as a program.\<close>

theorem tiny_static_also_runs:
  assumes "parse_uri uri = Some (True, filename, [])" "tf_stat fs filename = Some sb" "st_isreg sb" "st_rusr sb"
    "tf_mmap fs filename = Some data" "length data = st_size sb"
  shows "\<exists>hdr. tiny_respond fs j uri = Some ([Send hdr, Send data, Send (''HTTP/1.0 200 OK'' @ crlf),
      Send (''Server: Tiny Web Server'' @ crlf), Run_cgi filename []]) \<and>
    (\<exists>pre post. hdr = pre @ ''Content-length: '' @ post @ crlf @ crlf \<and> atoi post = int (length data))"
proof -
  let ?t = "get_filetype filename (j_filetype j)"
  let ?post = "dec_nat (length data) @ crlf @ ''Content-type: '' @ ?t"
  let ?pre = "''HTTP/1.0 200 OK'' @ crlf @ ''Server: Tiny Web Server'' @ crlf @ ''Connection: close'' @ crlf"
  have "atoi ?post = int (length data)" by (rule atoi_dec_nat) (simp add: is_digit_def)
  moreover have "tiny_respond fs j uri = Some ([Send (?pre @ ''Content-length: '' @ ?post @ crlf @ crlf), Send data,
      Send (''HTTP/1.0 200 OK'' @ crlf), Send (''Server: Tiny Web Server'' @ crlf), Run_cgi filename []])"
    using assms by (simp add: tiny_respond_def serve_static_def serve_dynamic_def Let_def)
  ultimately show ?thesis by (intro exI conjI) (assumption, rule refl)
qed

definition adder_page :: "int \<Rightarrow> int \<Rightarrow> string" where
  "adder_page a b = (''Connection: close'' @ crlf @ ''Content-length: '' @
      dec_nat (length (adder_content a b)) @ crlf @ ''Content-type: text/html'' @ crlf @ crlf) @ adder_content a b"

lemma adder_request:
  assumes "strstr path ''cgi-bin'' \<noteq> None" "CHR ''?'' \<notin> set path" "length path < 1023"
    "tf_stat fs (''.'' @ path) = Some sb" "st_isreg sb" "st_xusr sb"
  shows "tiny_respond fs j (path @ ''?'' @ dec_int a @ ''&'' @ dec_int b) =
      Some [Send (''HTTP/1.0 200 OK'' @ crlf), Send (''Server: Tiny Web Server'' @ crlf), Run_cgi (''.'' @ path) (dec_int a @ ''&'' @ dec_int b)]"
    and "cgi_adder (Some (dec_int a @ ''&'' @ dec_int b)) = Some (adder_page a b)"
proof -
  let ?q = "dec_int a @ ''&'' @ dec_int b"
  have cgi: "strstr (path @ ''?'' @ ?q) ''cgi-bin'' \<noteq> None" by (rule strstr_append [OF assms(1)])
  have "parse_uri (path @ ''?'' @ ?q) = Some (False, ''.'' @ path, ?q)"
    using cgi assms(2,3) by (auto simp: parse_uri_def fits_def MAXLINE_def)
  then show "tiny_respond fs j (path @ ''?'' @ ?q) =
      Some [Send (''HTTP/1.0 200 OK'' @ crlf), Send (''Server: Tiny Web Server'' @ crlf), Run_cgi (''.'' @ path) ?q]"
    using assms(4-6) by (simp add: tiny_respond_def serve_dynamic_def)
  show "cgi_adder (Some ?q) = Some (adder_page a b)"
    using atoi_dec_int [of "[]"] dec_int_no_amp by (simp add: cgi_adder_def adder_page_def Let_def)
qed

text \<open>A request for the CGI adder with two numbers is dispatched to the program with the query
  string that makes it print their sum.\<close>

theorem adder_adds:
  assumes "strstr path ''cgi-bin'' \<noteq> None" "CHR ''?'' \<notin> set path" "length path < 1023"
    "tf_stat fs (''.'' @ path) = Some sb" "st_isreg sb" "st_xusr sb"
  shows "\<exists>q out pre. tiny_respond fs j (path @ ''?'' @ dec_int a @ ''&'' @ dec_int b) =
      Some [Send (''HTTP/1.0 200 OK'' @ crlf), Send (''Server: Tiny Web Server'' @ crlf), Run_cgi (''.'' @ path) q] \<and>
    cgi_adder (Some q) = Some out \<and> out = pre @ adder_content a b"
proof -
  have "adder_page a b = (''Connection: close'' @ crlf @ ''Content-length: '' @
      dec_nat (length (adder_content a b)) @ crlf @ ''Content-type: text/html'' @ crlf @ crlf) @ adder_content a b"
    by (simp only: adder_page_def)
  with adder_request [OF assms] show ?thesis by (intro exI conjI) (assumption, assumption, assumption)
qed

subsection \<open>Witnesses\<close>

definition demo_rio :: rio_t where
  "demo_rio = \<lparr>rio_fd = 0, rio_cnt = 0, rio_bufptr = 0, rio_buf = replicate RIO_BUFSIZE NUL\<rparr>"

definition demo_stack :: tiny_stack where
  "demo_stack = \<lparr>j_buf = [NUL], j_hdr = [NUL], j_method = [], j_uri = [], j_filetype = []\<rparr>"

abbreviation demo_stat :: tiny_stat where
  "demo_stat \<equiv> \<lparr>st_isreg = True, st_rusr = True, st_xusr = True, st_size = 2\<rparr>"

definition demo_files :: tiny_files where
  "demo_files = \<lparr>tf_stat = (\<lambda>f. Some demo_stat),
     tf_mmap = (\<lambda>f. Some ''hi'')\<rparr>"

lemma demo_request_ok: "request_ok ''GET'' ''/a'' ''HTTP/1.0''"
  by (simp add: request_ok_def request_line_def is_space_def MAXLINE_def)

lemma demo_rio_len: "length (rio_buf demo_rio) = RIO_BUFSIZE"
  by (simp add: demo_rio_def)

theorem tiny_answers_request_witness:
  "doit demo_files demo_stack 4 demo_rio [Chunk (request_line ''GET'' ''/a'' ''HTTP/1.0''), Rd_EINTR, Chunk (header_block [''Host: x'' @ [CR]])] =
    (if strcaseeq ''GET'' ''GET'' then tiny_respond demo_files demo_stack ''/a''
     else Some (clienterror ''GET'' ''501'' ''Not implemented'' ''Tiny does not implement this method''))"
proof (rule tiny_answers_request [OF demo_request_ok _ _ demo_rio_len])
  show "content [Chunk (request_line ''GET'' ''/a'' ''HTTP/1.0''), Rd_EINTR, Chunk (header_block [''Host: x'' @ [CR]])] =
      (request_line ''GET'' ''/a'' ''HTTP/1.0'' @ header_block [''Host: x'' @ [CR]] @ [], False)"
    by (simp add: request_line_def header_block_def)
qed (simp add: header_ok_def MAXLINE_def)

theorem tiny_hangs_at_eof_witness:
  "doit demo_files demo_stack 4 demo_rio [Chunk (request_line ''GET'' ''/a'' ''HTTP/1.0'')] = None"
proof (rule tiny_hangs_at_eof [OF demo_request_ok _ _ _ _ demo_rio_len])
  show "content [Chunk (request_line ''GET'' ''/a'' ''HTTP/1.0'')] =
      (request_line ''GET'' ''/a'' ''HTTP/1.0'' @ concat (map (\<lambda>h. h @ [LF]) []), False)"
    by (simp add: request_line_def)
qed (simp_all add: strcaseeq_def closes_def request_line_def demo_stack_def cstr_def)

theorem parse_uri_meaning_witness:
  "parse_uri ''/d/'' = Some (True, ''./d/home.html'', []) \<and>
   parse_uri ''/cgi-bin/adder?1&2'' = Some (False, ''./cgi-bin/adder'', ''1&2'') \<and>
   parse_uri ''/cgi-bin/adder'' = Some (False, ''./cgi-bin/adder'', [])"
  using parse_uri_meaning [of "''/d/''" "''/cgi-bin/adder''" "''1&2''"] by simp

theorem tiny_static_also_runs_witness:
  "\<exists>hdr. tiny_respond demo_files demo_stack ''/a'' = Some ([Send hdr, Send ''hi'', Send (''HTTP/1.0 200 OK'' @ crlf),
      Send (''Server: Tiny Web Server'' @ crlf), Run_cgi ''./a'' []]) \<and>
    (\<exists>pre post. hdr = pre @ ''Content-length: '' @ post @ crlf @ crlf \<and> atoi post = int (length ''hi''))"
  by (rule tiny_static_also_runs [where sb = demo_stat]) (simp_all add: demo_files_def parse_uri_def fits_def MAXLINE_def)

theorem adder_adds_witness:
  "\<exists>q out pre. tiny_respond demo_files demo_stack (''/cgi-bin/adder'' @ ''?'' @ dec_int 3 @ ''&'' @ dec_int 4) =
      Some [Send (''HTTP/1.0 200 OK'' @ crlf), Send (''Server: Tiny Web Server'' @ crlf), Run_cgi (''.'' @ ''/cgi-bin/adder'') q] \<and>
    cgi_adder (Some q) = Some out \<and> out = pre @ adder_content 3 4"
  by (rule adder_adds [where sb = demo_stat]) (simp_all add: demo_files_def)

end
