(* ===== verification/Echo_Servers.thy ===== *)
theory Echo_Servers
  imports Tiny_Web
begin

text \<open>
  The echo servers of \<open>socket/csapp\<close> over the robust I/O package: the \<open>echo\<close> routine the iterative
  and the process based server share, the socket helpers of \<open>socket_package.c\<close>, and the client
  pool of the \<open>select\<close> based server \<open>echoserver_select_event.c\<close>.
\<close>

section \<open>The \<open>echo\<close> routine\<close>

text \<open>\<open>n\<close> is a \<open>size_t\<close>: a read error is the number \<open>SIZE_MAX\<close>, which is not 0, and \<open>rio_writen\<close> is
  asked to send that many bytes of \<open>buf\<close>; the overrun is \<open>None\<close>. \<open>en\<close> is the value \<open>errno\<close> has when a
  \<open>write\<close> returns 0.\<close>

partial_function (option) echo :: "errno \<Rightarrow> rio_state \<Rightarrow> wr_event list \<Rightarrow> string \<Rightarrow> (wr_event list \<times> string) option" where
  "echo en st ws sent =
     (case rio_readlineb MAXLINE st of
        (Line_eof, st') \<Rightarrow> Some (ws, sent)
      | (Line_error s, st') \<Rightarrow> None
      | (Line s, st') \<Rightarrow>
          if s = [] then Some (ws, sent)
          else (case rio_writen s (length s) en ws of (_, ws', out) \<Rightarrow> echo en st' ws' (sent @ out)))"

text \<open>The accept loop of \<open>echoserver.c\<close> for a sequence of connections, each with its read and
  write side: what each client is sent, and the descriptors that are closed.\<close>

type_synonym connection = "int \<times> rd_event list \<times> wr_event list"

fun echoserver :: "errno \<Rightarrow> rio_t \<Rightarrow> connection list \<Rightarrow> ((int \<times> string) list) option" where
  "echoserver en rp [] = Some []"
| "echoserver en rp ((connfd, ks, ws) # cs) = do {
     (_, out) \<leftarrow> echo en (rio_readinitb (nat connfd) rp, ks) ws [];
     rest \<leftarrow> echoserver en rp cs;
     Some ((connfd, out) # rest)
   }"

section \<open>Opening sockets\<close>

text \<open>One candidate of \<open>getaddrinfo\<close>: what \<open>socket\<close> returns for it and whether \<open>connect\<close> (or \<open>bind\<close>)
  succeeds. The result and the descriptors closed on the way.\<close>

fun open_clientfd_loop :: "(int \<times> bool) list \<Rightarrow> int list \<Rightarrow> int \<times> int list" where
  "open_clientfd_loop [] closed = (-1, closed)"
| "open_clientfd_loop ((clientfd, connects) # ps) closed =
     (if clientfd < 0 then open_clientfd_loop ps closed
      else if connects then (clientfd, closed)
      else open_clientfd_loop ps (closed @ [clientfd]))"

definition open_clientfd :: "(int \<times> bool) list option \<Rightarrow> int \<times> int list" where
  "open_clientfd listp = (case listp of None \<Rightarrow> (-1, []) | Some ps \<Rightarrow> open_clientfd_loop ps [])"

definition open_listenfd :: "(int \<times> bool) list option \<Rightarrow> bool \<Rightarrow> int \<times> int list" where
  "open_listenfd listp listens = (case listp of None \<Rightarrow> (-1, [])
   | Some ps \<Rightarrow> (case open_clientfd_loop ps [] of (listenfd, closed) \<Rightarrow>
       if listenfd < 0 then (-1, closed)
       else if \<not> listens then (-1, closed @ [listenfd])
       else (listenfd, closed)))"

section \<open>The pool of the \<open>select\<close> server\<close>

definition FD_SETSIZE :: nat where "FD_SETSIZE = 1024"

text \<open>\<open>sel_kernel fd\<close> is the read side of a descriptor; \<open>sel_out\<close> records \<open>rio_writen\<close> and \<open>sel_closed\<close>
  the closed descriptors, in order.\<close>

record sel_pool =
  sel_maxfd :: int
  sel_read_set :: "int set"
  sel_ready_set :: "int set"
  sel_nready :: int
  sel_maxi :: int
  sel_clientfd :: "int list"
  sel_clientrio :: "rio_t list"
  sel_byte_cnt :: int
  sel_kernel :: "int \<Rightarrow> rd_event list"
  sel_out :: "(int \<times> string) list"
  sel_closed :: "int list"

definition init_pool :: "int \<Rightarrow> sel_pool \<Rightarrow> sel_pool" where
  "init_pool listenfd p = p\<lparr>sel_maxi := -1, sel_clientfd := replicate FD_SETSIZE (-1),
     sel_maxfd := listenfd, sel_read_set := {listenfd}\<rparr>"

text \<open>\<open>FD_SET\<close> on a descriptor outside \<open>0 ..< FD_SETSIZE\<close> is undefined.\<close>

definition fd_set :: "int \<Rightarrow> int set \<Rightarrow> int set option" where
  "fd_set fd s = (if 0 \<le> fd \<and> fd < int FD_SETSIZE then Some (insert fd s) else None)"

text \<open>The first free entry from \<open>i\<close> on.\<close>

fun free_slot :: "int list \<Rightarrow> nat \<Rightarrow> nat option" where
  "free_slot [] i = None"
| "free_slot (fd # fds) i = (if fd < 0 then Some i else free_slot fds (Suc i))"

definition add_client :: "int \<Rightarrow> sel_pool \<Rightarrow> sel_pool option" where
  "add_client connfd p = (
     let p1 = p\<lparr>sel_nready := sel_nready p - 1\<rparr> in
     case free_slot (sel_clientfd p1) 0 of
       None \<Rightarrow> Some p1
     | Some i \<Rightarrow> do {
         rs \<leftarrow> fd_set connfd (sel_read_set p1);
         Some (p1\<lparr>sel_clientfd := (sel_clientfd p1)[i := connfd],
           sel_clientrio := (sel_clientrio p1)[i := rio_readinitb (nat connfd) (sel_clientrio p1 ! i)],
           sel_read_set := rs,
           sel_maxfd := (if connfd > sel_maxfd p1 then connfd else sel_maxfd p1),
           sel_maxi := (if int i > sel_maxi p1 then int i else sel_maxi p1)\<rparr>)
       })"

text \<open>One round of the loop of \<open>check_clients\<close>: the client's \<open>rio_t\<close> is copied into a local variable
  and the copy is not written back.\<close>

definition check_client :: "nat \<Rightarrow> sel_pool \<Rightarrow> sel_pool option" where
  "check_client i p = (
     let connfd = sel_clientfd p ! i; rio = sel_clientrio p ! i in
     if connfd > 0 \<and> connfd \<in> sel_ready_set p then
       let p1 = p\<lparr>sel_nready := sel_nready p - 1\<rparr> in
       (case rio_readlineb MAXLINE (rio, sel_kernel p1 connfd) of (r, _, ks) \<Rightarrow>
          let p2 = p1\<lparr>sel_kernel := (sel_kernel p1)(connfd := ks)\<rparr> in
          case r of
            Line s \<Rightarrow> Some (p2\<lparr>sel_byte_cnt := sel_byte_cnt p2 + int (length s), sel_out := sel_out p2 @ [(connfd, s)]\<rparr>)
          | Line_error s \<Rightarrow> None
          | Line_eof \<Rightarrow> Some (p2\<lparr>sel_closed := sel_closed p2 @ [connfd], sel_read_set := sel_read_set p2 - {connfd},
              sel_clientfd := (sel_clientfd p2)[i := -1]\<rparr>))
     else Some p)"

fun check_clients_loop :: "nat list \<Rightarrow> sel_pool \<Rightarrow> sel_pool option" where
  "check_clients_loop [] p = Some p"
| "check_clients_loop (i # is) p = (if sel_nready p > 0 then Option.bind (check_client i p) (check_clients_loop is) else Some p)"

definition check_clients :: "sel_pool \<Rightarrow> sel_pool option" where
  "check_clients p = check_clients_loop [0..<nat (sel_maxi p + 1)] p"

text \<open>One round of the main loop: \<open>select\<close> answers with \<open>ready\<close> and \<open>nready\<close>, \<open>accept\<close> with \<open>connfd\<close>.\<close>

definition select_round :: "int \<Rightarrow> int set \<Rightarrow> int \<Rightarrow> int \<Rightarrow> sel_pool \<Rightarrow> sel_pool option" where
  "select_round listenfd ready nready connfd p = (
     let p1 = p\<lparr>sel_ready_set := ready, sel_nready := nready\<rparr> in
     do {
       p2 \<leftarrow> (if listenfd \<in> sel_ready_set p1 then add_client connfd p1 else Some p1);
       check_clients p2
     })"

section \<open>Lemmas\<close>

text \<open>A peer that takes everything in the end.\<close>

definition takes_all :: "wr_event list \<Rightarrow> bool" where
  "takes_all ws \<longleftrightarrow> Wr_error \<notin> set ws \<and> Takes 0 \<notin> set ws"

lemma k_write_takes_all: "takes_all ws \<Longrightarrow> bs \<noteq> [] \<Longrightarrow> k_write bs en ws = (nw, en', ws') \<Longrightarrow>
    takes_all ws' \<and> (0 < nw \<or> en' = EINTR)"
  by (cases "(bs, en, ws)" rule: k_write.cases) (auto simp: takes_all_def)

lemma rio_writen_loop_all:
  "takes_all ws \<Longrightarrow> \<exists>ws'. rio_writen_loop buf en ws sent = (True, ws', sent @ buf) \<and> takes_all ws'"
proof (induction buf en ws sent rule: rio_writen_loop.induct)
  case (1 buf en ws sent)
  show ?case
  proof (cases "buf = []")
    case True
    with 1 show ?thesis by (simp add: rio_writen_loop.simps [of "[]"])
  next
    case False
    obtain nw en' ws1 where k: "k_write buf en ws = (nw, en', ws1)" by (cases "k_write buf en ws") auto
    have t: "takes_all ws1" "0 < nw \<or> en' = EINTR" using k_write_takes_all [OF "1.prems" False k] by auto
    show ?thesis
    proof (cases "nw \<le> 0")
      case True
      with "1.IH"(1) [of nw "(en', ws1)" en' ws1] False k t show ?thesis
        by (simp add: rio_writen_loop.simps [of buf])
    next
      case pos: False
      with "1.IH"(2) [of nw "(en', ws1)" en' ws1] False k t show ?thesis
        by (simp add: rio_writen_loop.simps [of buf])
    qed
  qed
qed

lemma rio_writen_all: "takes_all ws \<Longrightarrow> \<exists>ws'. rio_writen s (length s) en ws = (True, ws', s) \<and> takes_all ws'"
  using rio_writen_loop_all [of ws s en "[]"] by (simp add: rio_writen_def)

lemma line_of_Cons: "bs \<noteq> [] \<Longrightarrow> 0 < k \<Longrightarrow> line_of k bs \<noteq> []"
  by (cases bs; cases k) simp_all

lemma line_of_append: "\<exists>r. bs = line_of k bs @ r"
  by (induction k bs rule: line_of.induct) auto

lemma line_of_drop: "line_of k bs @ drop (length (line_of k bs)) bs = bs"
  using line_of_append [of bs k] by (metis append_eq_conv_conj)

lemma line_spec_data: "bs \<noteq> [] \<Longrightarrow> 0 < k \<Longrightarrow> line_spec k (bs, False) = Line (line_of k bs)"
  using line_of_Cons [of bs k] by (simp add: line_spec_def Let_def)

lemma echo_ok:
  assumes "rio_ok st" "closes (snd st)" "rio_rest st = (bs, False)" "takes_all ws"
  shows "\<exists>ws'. echo en st ws sent = Some (ws', sent @ bs) \<and> takes_all ws'"
  using assms
proof (induction "length bs" arbitrary: bs st ws sent rule: less_induct)
  case less
  obtain r st' where r: "rio_readlineb MAXLINE st = (r, st')" by (cases "rio_readlineb MAXLINE st")
  have k: "0 < MAXLINE - 1" "1 < MAXLINE" by (simp_all add: MAXLINE_def)
  show ?case
  proof (cases "bs = []")
    case True
    with rio_readlineb_end [OF less.prems(1) _ k(2), of False] less.prems r show ?thesis
      by (simp add: echo.simps [of en st])
  next
    case False
    let ?l = "line_of (MAXLINE - 1) bs"
    let ?bs = "drop (length ?l) bs"
    have rr: "r = Line ?l" "rio_ok st'" "closes (snd st')" "rio_rest st' = (?bs, False)"
      using rio_readlineb_spec [OF less.prems(1), of MAXLINE] rio_readlineb_closes [OF less.prems(2), of MAXLINE]
        rio_readlineb_rest [OF less.prems(1-3), of MAXLINE] r less.prems(3) line_spec_data [OF False k(1)] by auto
    have ne: "?l \<noteq> []" using line_of_Cons [OF False k(1)] .
    then have "length ?bs < length bs" using False by simp
    moreover obtain ws1 where w: "rio_writen ?l (length ?l) en ws = (True, ws1, ?l)" "takes_all ws1"
      using rio_writen_all [OF less.prems(4)] by blast
    ultimately obtain ws' where "echo en st' ws1 (sent @ ?l) = Some (ws', (sent @ ?l) @ ?bs)" "takes_all ws'"
      using less.hyps [OF _ rr(2-4), of ws1 "sent @ ?l"] by auto
    moreover have "echo en st ws sent = echo en st' ws1 (sent @ ?l)"
      using r rr(1) ne w by (simp add: echo.simps [of en st])
    ultimately show ?thesis by (simp add: line_of_drop)
  qed
qed

lemma closes_content: "closes ks \<Longrightarrow> snd (content ks) = False"
  by (induction ks rule: content.induct) (auto simp: closes_def)

lemma free_slot_Some: "free_slot fds k = Some i \<Longrightarrow> k \<le> i \<and> i < k + length fds \<and> fds ! (i - k) < 0"
proof (induction fds k rule: free_slot.induct)
  case (2 fd fds k)
  show ?case
  proof (cases "fd < 0")
    case False
    with 2 have "Suc k \<le> i" "i < Suc k + length fds" "fds ! (i - Suc k) < 0" by auto
    moreover from this have "i - k = Suc (i - Suc k)" by simp
    ultimately show ?thesis by simp
  qed (use 2 in auto)
qed simp

text \<open>Taking a free entry and freeing a taken one.\<close>

lemma entry_split: "i < length fds \<Longrightarrow> set fds = insert (fds ! i) (set (take i fds) \<union> set (drop (Suc i) fds)) \<and>
    set (fds[i := c]) = insert c (set (take i fds) \<union> set (drop (Suc i) fds))"
  by (subst (1) id_take_nth_drop [of i fds]) (simp_all add: upd_conv_take_nth_drop)

lemma entry_take:
  "i < length fds \<Longrightarrow> fds ! i < 0 \<Longrightarrow> 0 \<le> (c :: int) \<Longrightarrow> {fd \<in> set (fds[i := c]). 0 \<le> fd} = insert c {fd \<in> set fds. 0 \<le> fd}"
  using entry_split [of i fds c] by auto

lemma entry_free:
  assumes "i < length fds" "0 \<le> (fds ! i :: int)" "\<And>j. j < length fds \<Longrightarrow> j \<noteq> i \<Longrightarrow> fds ! i \<noteq> fds ! j"
  shows "{fd \<in> set (fds[i := -1]). 0 \<le> fd} = {fd \<in> set fds. 0 \<le> fd} - {fds ! i}"
proof -
  have "fds ! i \<notin> set (take i fds)"
  proof
    assume "fds ! i \<in> set (take i fds)"
    then obtain j where "j < i" "fds ! j = fds ! i" by (auto simp: in_set_conv_nth)
    with assms(1) assms(3) [of j] show False by simp
  qed
  moreover have "fds ! i \<notin> set (drop (Suc i) fds)"
  proof
    assume "fds ! i \<in> set (drop (Suc i) fds)"
    then obtain j where j: "j < length fds - Suc i" "fds ! (Suc i + j) = fds ! i" by (auto simp: in_set_conv_nth)
    from j(1) have "Suc i + j < length fds" by linarith
    with j(2) assms(3) [of "Suc i + j"] show False by simp
  qed
  ultimately obtain R where "set fds = insert (fds ! i) R" "set (fds[i := -1]) = insert (-1) R" "fds ! i \<notin> R"
    using entry_split [OF assms(1), of "-1"] by blast
  then show ?thesis by auto
qed

definition pool_ok :: "int \<Rightarrow> sel_pool \<Rightarrow> bool" where
  "pool_ok l p \<longleftrightarrow> length (sel_clientfd p) = FD_SETSIZE \<and> length (sel_clientrio p) = FD_SETSIZE \<and>
     -1 \<le> sel_maxi p \<and> sel_maxi p < int FD_SETSIZE \<and> 0 \<le> l \<and> l \<le> sel_maxfd p \<and>
     sel_read_set p = insert l {fd \<in> set (sel_clientfd p). 0 \<le> fd} \<and> l \<notin> set (sel_clientfd p) \<and>
     (\<forall>i < FD_SETSIZE. 0 \<le> sel_clientfd p ! i \<longrightarrow> int i \<le> sel_maxi p \<and> sel_clientfd p ! i \<le> sel_maxfd p \<and>
       rio_cnt (sel_clientrio p ! i) = 0) \<and>
     (\<forall>i < FD_SETSIZE. length (rio_buf (sel_clientrio p ! i)) = RIO_BUFSIZE) \<and>
     (\<forall>i < FD_SETSIZE. \<forall>j < FD_SETSIZE. i \<noteq> j \<longrightarrow> 0 \<le> sel_clientfd p ! i \<longrightarrow> sel_clientfd p ! i \<noteq> sel_clientfd p ! j)"

lemma pool_okD:
  assumes "pool_ok l p"
  shows pool_len: "length (sel_clientfd p) = FD_SETSIZE" "length (sel_clientrio p) = FD_SETSIZE"
    and pool_maxi: "-1 \<le> sel_maxi p" "sel_maxi p < int FD_SETSIZE"
    and pool_set: "sel_read_set p = insert l {fd \<in> set (sel_clientfd p). 0 \<le> fd}" "l \<notin> set (sel_clientfd p)"
    and pool_client: "i < FD_SETSIZE \<Longrightarrow> 0 \<le> sel_clientfd p ! i \<Longrightarrow> int i \<le> sel_maxi p \<and> sel_clientfd p ! i \<le> sel_maxfd p \<and>
       rio_cnt (sel_clientrio p ! i) = 0"
    and pool_buf: "i < FD_SETSIZE \<Longrightarrow> length (rio_buf (sel_clientrio p ! i)) = RIO_BUFSIZE"
    and pool_inj: "i < FD_SETSIZE \<Longrightarrow> j < FD_SETSIZE \<Longrightarrow> i \<noteq> j \<Longrightarrow> 0 \<le> sel_clientfd p ! i \<Longrightarrow>
       sel_clientfd p ! i \<noteq> sel_clientfd p ! j"
  using assms unfolding pool_ok_def by blast+

lemma init_pool_ok:
  assumes "length (sel_clientrio p) = FD_SETSIZE" "\<forall>i < FD_SETSIZE. length (rio_buf (sel_clientrio p ! i)) = RIO_BUFSIZE"
    "0 \<le> l"
  shows "pool_ok l (init_pool l p)"
  using assms by (auto simp: pool_ok_def init_pool_def)

lemma add_client_ok:
  assumes "pool_ok l p" "0 \<le> c" "c < int FD_SETSIZE" "c \<noteq> l" "c \<notin> set (sel_clientfd p)"
  shows "\<exists>p'. add_client c p = Some p' \<and> pool_ok l p' \<and> sel_kernel p' = sel_kernel p"
proof (cases "free_slot (sel_clientfd p) 0")
  case None
  with assms(1) show ?thesis by (simp add: add_client_def pool_ok_def)
next
  case (Some i)
  note len = pool_len [OF assms(1)]
  have i: "i < FD_SETSIZE" "sel_clientfd p ! i < 0" using free_slot_Some [OF Some] len by auto
  let ?fds = "(sel_clientfd p)[i := c]"
  have "{fd \<in> set ?fds. 0 \<le> fd} = insert c {fd \<in> set (sel_clientfd p). 0 \<le> fd}"
    using i len assms(2) by (intro entry_take) simp_all
  moreover have "l \<notin> set ?fds"
    using pool_set(2) [OF assms(1)] assms(4) set_update_subset_insert [of "sel_clientfd p" i c] by auto
  moreover have "c \<noteq> sel_clientfd p ! j" "sel_clientfd p ! j \<noteq> c" if "j < FD_SETSIZE" for j
    using assms(5) that len nth_mem [of j "sel_clientfd p"] by auto
  moreover have "sel_maxi p < int i \<longrightarrow> j \<le> i" "sel_maxfd p < c \<longrightarrow> sel_clientfd p ! j \<le> c"
    if "j < FD_SETSIZE" "0 \<le> sel_clientfd p ! j" for j
    using pool_client [OF assms(1) that] by auto
  ultimately have "pool_ok l (p\<lparr>sel_nready := n, sel_clientfd := ?fds,
      sel_clientrio := (sel_clientrio p)[i := rio_readinitb (nat c) (sel_clientrio p ! i)],
      sel_read_set := insert c (sel_read_set p), sel_maxfd := (if c > sel_maxfd p then c else sel_maxfd p),
      sel_maxi := (if int i > sel_maxi p then int i else sel_maxi p)\<rparr>)" for n
    using assms(1) i unfolding pool_ok_def
    by (intro conjI allI impI) (simp_all add: nth_list_update rio_readinitb_def insert_commute split: if_splits)
  then show ?thesis
    using assms(2,3) Some by (simp add: add_client_def fd_set_def Let_def split del: if_split cong: if_cong)
qed

lemma check_client_ok:
  assumes "pool_ok l p" "i < FD_SETSIZE" "\<forall>fd. closes (sel_kernel p fd)"
  shows "\<exists>p'. check_client i p = Some p' \<and> pool_ok l p' \<and> (\<forall>fd. closes (sel_kernel p' fd)) \<and> sel_maxi p' = sel_maxi p"
proof (cases "sel_clientfd p ! i > 0 \<and> sel_clientfd p ! i \<in> sel_ready_set p")
  case True
  let ?c = "sel_clientfd p ! i"
  let ?st = "(sel_clientrio p ! i, sel_kernel p ?c)"
  obtain r rp ks where r: "rio_readlineb MAXLINE ?st = (r, rp, ks)" by (cases "rio_readlineb MAXLINE ?st") auto
  note len = pool_len [OF assms(1)] and inj = pool_inj [OF assms(1) assms(2)]
  have "rio_ok ?st"
    using pool_client [OF assms(1,2)] pool_buf [OF assms(1,2)] True by (simp add: rio_ok_def)
  from rio_readlineb_spec [OF this, of MAXLINE] r closes_content [of "sel_kernel p ?c"] assms(3)
  have "r \<noteq> Line_error s" for s
    by (auto simp: line_spec_def rio_rest_def Let_def split: if_splits)
  moreover have "closes ks" using rio_readlineb_closes [of ?st MAXLINE] r assms(3) by simp
  then have kernel: "\<forall>fd. closes (((sel_kernel p)(?c := ks)) fd)" using assms(3) by simp
  moreover have "pool_ok l (p\<lparr>sel_nready := n, sel_kernel := k, sel_byte_cnt := b, sel_out := out\<rparr>)" for n k b out
    using assms(1) by (simp add: pool_ok_def)
  moreover have "pool_ok l (p\<lparr>sel_nready := n, sel_kernel := k, sel_closed := cl,
      sel_read_set := sel_read_set p - {?c}, sel_clientfd := (sel_clientfd p)[i := -1]\<rparr>)" for n k cl
  proof -
    have free: "{fd \<in> set ((sel_clientfd p)[i := -1]). 0 \<le> fd} = {fd \<in> set (sel_clientfd p). 0 \<le> fd} - {?c}"
      using True assms(2) len inj by (intro entry_free) auto
    have l: "l \<notin> set (sel_clientfd p)" "?c \<noteq> l" "sel_read_set p = insert l {fd \<in> set (sel_clientfd p). 0 \<le> fd}"
      using pool_set [OF assms(1)] nth_mem [of i "sel_clientfd p"] assms(2) len by auto
    have "0 \<le> l" using assms(1) by (simp add: pool_ok_def)
    then have l': "l \<notin> set ((sel_clientfd p)[i := -1])"
      using l(1) set_update_subset_insert [of "sel_clientfd p" i "-1"] by auto
    show ?thesis
      using assms(1,2) free l l' unfolding pool_ok_def
      by (intro conjI allI impI) (auto simp add: nth_list_update split: if_splits)
  qed
  ultimately show ?thesis
    using True r by (cases r) (auto simp: check_client_def Let_def)
next
  case False
  then have "check_client i p = Some p" by (auto simp: check_client_def Let_def)
  with assms show ?thesis by blast
qed

lemma check_clients_loop_ok:
  assumes "pool_ok l p" "\<forall>i \<in> set is. i < FD_SETSIZE" "\<forall>fd. closes (sel_kernel p fd)"
  shows "\<exists>p'. check_clients_loop is p = Some p' \<and> pool_ok l p' \<and> (\<forall>fd. closes (sel_kernel p' fd))"
  using assms
proof (induction "is" arbitrary: p)
  case (Cons i "is")
  then obtain p1 where "check_client i p = Some p1" "pool_ok l p1" "\<forall>fd. closes (sel_kernel p1 fd)"
    using check_client_ok [of l p i] by auto
  with Cons show ?case by simp
qed simp

lemma open_clientfd_loop_ok:
  "open_clientfd_loop ps closed = (fd, closed') \<Longrightarrow>
     \<exists>k. closed' = closed @ filter (\<lambda>s. 0 \<le> s) (map fst (take k ps)) \<and> (\<forall>p \<in> set (take k ps). fst p < 0 \<or> \<not> snd p) \<and>
       (if fd < 0 then fd = -1 \<and> k \<ge> length ps else k < length ps \<and> ps ! k = (fd, True))"
proof (induction ps closed rule: open_clientfd_loop.induct)
  case (2 s connects ps closed)
  show ?case
  proof (cases "0 \<le> s \<and> connects")
    case True
    with 2 show ?thesis by (intro exI [of _ 0]) auto
  next
    case False
    with 2 obtain k where "closed' = (if s < 0 then closed else closed @ [s]) @ filter (\<lambda>s. 0 \<le> s) (map fst (take k ps)) \<and>
        (\<forall>p \<in> set (take k ps). fst p < 0 \<or> \<not> snd p) \<and> (if fd < 0 then fd = -1 \<and> k \<ge> length ps else k < length ps \<and> ps ! k = (fd, True))"
      by (cases "s < 0") auto
    with False show ?thesis by (intro exI [of _ "Suc k"]) auto
  qed
qed auto

section \<open>Properties\<close>

text \<open>\<open>echo\<close> sends back exactly the bytes its client sends before it closes, in order, whatever
  sizes the network reads and writes come in, and returns.\<close>

theorem echo_echoes:
  assumes "rio_ok st" "closes (snd st)" "rio_rest st = (bs, False)" "takes_all ws"
  shows "\<exists>ws'. echo en st ws [] = Some (ws', bs)"
  using echo_ok [OF assms, of en "[]"] by auto

text \<open>\<open>open_clientfd\<close> and \<open>open_listenfd\<close> leak no descriptor: every socket opened on the way is
  closed again, in order, except the one that is returned.\<close>

theorem open_fd_no_leak:
  "\<exists>k. (case open_clientfd (Some ps) of (fd, closed) \<Rightarrow>
      filter (\<lambda>s. 0 \<le> s) (map fst (take k ps)) = closed @ (if fd < 0 then [] else [fd]) \<and>
      (fd = -1 \<or> (fd, True) \<in> set ps) \<and> (fd < 0 \<longrightarrow> length ps \<le> k)) \<and>
    (case open_listenfd (Some ps) listens of (fd, closed) \<Rightarrow>
      filter (\<lambda>s. 0 \<le> s) (map fst (take k ps)) = closed @ (if fd < 0 then [] else [fd]))"
proof -
  obtain fd closed where r: "open_clientfd_loop ps [] = (fd, closed)" by fastforce
  then obtain k where k: "closed = filter (\<lambda>s. 0 \<le> s) (map fst (take k ps))"
    "if fd < 0 then fd = -1 \<and> k \<ge> length ps else k < length ps \<and> ps ! k = (fd, True)"
    using open_clientfd_loop_ok [of ps "[]"] by auto
  show ?thesis
  proof (cases "fd < 0")
    case True
    with r k show ?thesis by (intro exI [of _ k]) (auto simp: open_clientfd_def open_listenfd_def)
  next
    case False
    then have "filter (\<lambda>s. 0 \<le> s) (map fst (take (Suc k) ps)) = closed @ [fd]"
      using k by (simp add: take_Suc_conv_app_nth)
    moreover have "(fd, True) \<in> set ps" using k False by (metis nth_mem)
    ultimately show ?thesis
      using False r by (intro exI [of _ "Suc k"]) (auto simp: open_clientfd_def open_listenfd_def)
  qed
qed

text \<open>A round of the \<open>select\<close> server, with clients that send and close, never faults and keeps the
  pool consistent: the watched descriptors are exactly the listening one and the clients in the
  table, no client is in the table twice, and the scan bounds cover all of them.\<close>

theorem select_round_keeps_pool:
  assumes "pool_ok l p" "\<forall>fd. closes (sel_kernel p fd)"
    "l \<in> ready \<longrightarrow> 0 \<le> connfd \<and> connfd < int FD_SETSIZE \<and> connfd \<noteq> l \<and> connfd \<notin> set (sel_clientfd p)"
  shows "\<exists>p'. select_round l ready nready connfd p = Some p' \<and> pool_ok l p'"
proof -
  let ?p = "p\<lparr>sel_ready_set := ready, sel_nready := nready\<rparr>"
  have "pool_ok l ?p" using assms(1) by (simp add: pool_ok_def)
  moreover have "\<exists>p2. add_client connfd ?p = Some p2 \<and> pool_ok l p2 \<and> sel_kernel p2 = sel_kernel p" if "l \<in> ready"
    using add_client_ok [OF calculation, of connfd] assms(3) that by simp
  ultimately obtain p2 where p2: "(if l \<in> ready then add_client connfd ?p else Some ?p) = Some p2" "pool_ok l p2"
    "sel_kernel p2 = sel_kernel p"
    by (cases "l \<in> ready") auto
  have "\<forall>i \<in> set [0..<nat (sel_maxi p2 + 1)]. i < FD_SETSIZE" using pool_maxi [OF p2(2)] by auto
  from check_clients_loop_ok [OF p2(2) this] assms(2) p2(3) obtain p' where "check_clients p2 = Some p'" "pool_ok l p'"
    by (auto simp: check_clients_def)
  with p2(1) show ?thesis by (simp add: select_round_def Let_def)
qed

lemma rio_read_exhausted: "snd st = [] \<Longrightarrow> snd (snd (rio_read n st)) = []"
  by (simp add: rio_read_def rio_fill.simps [of _ "[]"] Let_def)

lemma readlineb_exhausted: "snd st = [] \<Longrightarrow> snd (snd (rio_readlineb_loop k buf st)) = []"
proof (induction k arbitrary: buf st)
  case (Suc k)
  obtain r st' where r: "rio_read 1 st = (r, st')" by (cases "rio_read 1 st")
  with rio_read_exhausted [OF Suc.prems, of 1] Suc.IH [of st'] show ?case
    by (auto split: option.splits list.splits)
qed simp

text \<open>The \<open>select\<close> server loses input: of two lines that arrive together only the first is
  echoed. The rest is read into the copy of the client's buffer that \<open>check_clients\<close> throws away, and
  neither the stored buffer nor the descriptor holds it afterwards.\<close>

theorem select_server_loses_input:
  assumes "pool_ok l p" "i < FD_SETSIZE" "0 < sel_clientfd p ! i" "sel_clientfd p ! i \<in> sel_ready_set p"
    "sel_kernel p (sel_clientfd p ! i) = [Chunk (line @ LF # others)]" "LF \<notin> set line" "length line + 1 < MAXLINE"
    "length (line @ LF # others) \<le> RIO_BUFSIZE"
  shows "\<exists>p'. check_client i p = Some p' \<and> sel_out p' = sel_out p @ [(sel_clientfd p ! i, line @ [LF])] \<and>
    rio_rest (sel_clientrio p' ! i, sel_kernel p' (sel_clientfd p ! i)) = ([], False)"
proof -
  let ?c = "sel_clientfd p ! i" and ?rp = "sel_clientrio p ! i"
  let ?st = "(?rp, sel_kernel p ?c)"
  have cnt: "rio_cnt ?rp = 0" using pool_client [OF assms(1,2)] assms(3) by simp
  have ok: "rio_ok ?st" using cnt pool_buf [OF assms(1,2)] by (simp add: rio_ok_def)
  have rest: "rio_rest ?st = (line @ LF # others, False)" using cnt assms(5) by (simp add: rio_rest_def)
  from rio_readlineb_line [OF ok rest assms(6,7)] obtain st' where
    st': "rio_readlineb MAXLINE ?st = (Line (line @ [LF]), st')" "rio_rest st' = (others, False)"
    by blast
  have ks: "snd st' = []"
  proof -
    obtain k where k: "MAXLINE - 1 = Suc k" by (cases "MAXLINE - 1") (auto simp: MAXLINE_def)
    have "snd (snd (rio_read 1 ?st)) = []"
      unfolding rio_read_def using cnt assms(5,8) by (simp add: rio_fill.simps Let_def)
    then have "snd (snd (rio_readlineb_loop (Suc k) [] ?st)) = []"
      using readlineb_exhausted by (auto split: prod.splits option.splits list.splits)
    with st'(1) k show ?thesis by (simp add: rio_readlineb_def)
  qed
  obtain rp' where st'': "st' = (rp', [])" using ks by (cases st') auto
  show ?thesis
    using assms(3,4) st'(1) cnt unfolding st''
    by (intro exI [of _ "p\<lparr>sel_nready := sel_nready p - 1, sel_kernel := (sel_kernel p)(?c := []),
        sel_byte_cnt := sel_byte_cnt p + int (length (line @ [LF])), sel_out := sel_out p @ [(?c, line @ [LF])]\<rparr>"])
      (simp add: check_client_def Let_def rio_rest_def)
qed

subsection \<open>Witnesses\<close>

definition demo_pool :: sel_pool where
  "demo_pool = init_pool 3 \<lparr>sel_maxfd = 0, sel_read_set = {}, sel_ready_set = {}, sel_nready = 0, sel_maxi = 0,
     sel_clientfd = [], sel_clientrio = replicate FD_SETSIZE demo_rio, sel_byte_cnt = 0,
     sel_kernel = (\<lambda>_. [Chunk [CHR ''a'', LF, CHR ''b'']]), sel_out = [], sel_closed = []\<rparr>"

lemma demo_pool_ok: "pool_ok 3 demo_pool"
  unfolding demo_pool_def by (rule init_pool_ok) (simp_all add: demo_rio_def)

definition demo_pool2 :: sel_pool where
  "demo_pool2 = demo_pool\<lparr>sel_maxfd := 5, sel_read_set := {3, 5}, sel_maxi := 0, sel_ready_set := {5}, sel_nready := 1,
     sel_clientfd := (replicate FD_SETSIZE (-1))[0 := 5]\<rparr>"

lemma demo_pool2_ok: "pool_ok 3 demo_pool2"
proof -
  have "{fd \<in> set ((replicate FD_SETSIZE (-1))[0 := 5]). 0 \<le> fd} = insert 5 {fd \<in> set (replicate FD_SETSIZE (-1)). (0 :: int) \<le> fd}"
    by (rule entry_take) (simp_all add: FD_SETSIZE_def)
  moreover have "{fd \<in> set (replicate FD_SETSIZE (-1)). (0 :: int) \<le> fd} = {}" by auto
  moreover have "set ((replicate FD_SETSIZE (-1))[0 := 5]) \<subseteq> {5, -1 :: int}"
    using set_update_subset_insert [of "replicate FD_SETSIZE (-1)" 0 "5 :: int"] by (auto simp: FD_SETSIZE_def)
  ultimately show ?thesis
    unfolding pool_ok_def
    by (intro conjI) (auto simp: demo_pool2_def demo_pool_def init_pool_def demo_rio_def nth_list_update FD_SETSIZE_def)
qed

theorem echo_echoes_witness:
  "\<exists>ws'. echo EOTHER (demo_rio, [Chunk ''hel'', Rd_EINTR, Chunk [CHR ''o'', LF]]) [Takes 2, Wr_EINTR] [] = Some (ws', [CHR ''h'', CHR ''e'', CHR ''l'', CHR ''o'', LF])"
  by (rule echo_echoes) (simp_all add: rio_ok_def rio_rest_def demo_rio_def closes_def takes_all_def)

theorem open_fd_no_leak_witness:
  "\<exists>k. (case open_clientfd (Some [(-1, False), (4, False), (5, True)]) of (fd, closed) \<Rightarrow>
      filter (\<lambda>s. 0 \<le> s) (map fst (take k [(-1, False), (4, False), (5, True)])) = closed @ (if fd < 0 then [] else [fd]) \<and>
      (fd = -1 \<or> (fd, True) \<in> set [(-1, False), (4, False), (5, True)]) \<and> (fd < 0 \<longrightarrow> length [(-1 :: int, False), (4, False), (5, True)] \<le> k)) \<and>
    (case open_listenfd (Some [(-1, False), (4, False), (5, True)]) False of (fd, closed) \<Rightarrow>
      filter (\<lambda>s. 0 \<le> s) (map fst (take k [(-1, False), (4, False), (5, True)])) = closed @ (if fd < 0 then [] else [fd]))"
  by (rule open_fd_no_leak)

theorem select_round_keeps_pool_witness:
  "\<exists>p'. select_round 3 {3} 1 7 demo_pool = Some p' \<and> pool_ok 3 p'"
  by (rule select_round_keeps_pool [OF demo_pool_ok])
    (simp_all add: demo_pool_def init_pool_def closes_def FD_SETSIZE_def)

theorem select_server_loses_input_witness:
  "\<exists>p'. check_client 0 demo_pool2 = Some p' \<and> sel_out p' = sel_out demo_pool2 @ [(sel_clientfd demo_pool2 ! 0, ''a'' @ [LF])] \<and>
    rio_rest (sel_clientrio p' ! 0, sel_kernel p' (sel_clientfd demo_pool2 ! 0)) = ([], False)"
  by (rule select_server_loses_input [OF demo_pool2_ok, where others = "''b''"])
    (simp_all add: demo_pool2_def demo_pool_def init_pool_def FD_SETSIZE_def MAXLINE_def RIO_BUFSIZE_def)

end
