(* ===== verification/Echo_Programs.thy ===== *)
theory Echo_Programs
  imports Echo_Servers Event_Loop
begin

text \<open>
  The other programs around the \<open>echo\<close> routine: the clients \<open>csapp/echoclient.c\<close> and
  \<open>echo/echoclient.c\<close>, the server with one process per client (\<open>csapp/echoserver_process.c\<close>), with one thread
  per client (\<open>csapp/echoserver_thread.c\<close>), the one that also reads its terminal
  (\<open>csapp/echoserver_select.c\<close>), and the server \<open>echo/echoserver.c\<close> on plain \<open>read\<close> and \<open>write\<close>.
\<close>

section \<open>The client over the robust I/O package\<close>

text \<open>\<open>fgets(buf, n, stdin)\<close>: the line and the rest of the input, or a null pointer.\<close>
definition fgets :: "nat \<Rightarrow> string \<Rightarrow> (string \<times> string) option" where
  "fgets n input = (if input = [] then None
     else let l = line_of (n - 1) input in Some (l, drop (length l) input))"

lemma fgets_shorter: "fgets MAXLINE input = Some (l, rest) \<Longrightarrow> length rest < length input"
proof -
  assume a: "fgets MAXLINE input = Some (l, rest)"
  then have "input \<noteq> []" by (auto simp: fgets_def split: if_splits)
  moreover from this have "line_of (MAXLINE - 1) input \<noteq> []" by (rule line_of_Cons) (simp add: MAXLINE_def)
  ultimately show ?thesis using a by (auto simp: fgets_def Let_def split: if_splits)
qed

text \<open>The loop of \<open>main\<close>: the input typed, the connection, \<open>buf\<close>; what was sent and what was printed.\<close>

function echoclient :: "errno \<Rightarrow> string \<Rightarrow> rio_state \<Rightarrow> wr_event list \<Rightarrow> string \<Rightarrow> string \<Rightarrow> string \<Rightarrow> string \<times> string" where
  "echoclient en input st ws buf sent out = (case fgets MAXLINE input of
     None \<Rightarrow> (sent, out)
   | Some (l, input') \<Rightarrow>
       let buf1 = put_front (l @ [NUL]) buf in
       (case rio_writen buf1 (length (cstr buf1)) en ws of (_, ws', bytes) \<Rightarrow>
          (case rio_readlineb MAXLINE st of (r, st') \<Rightarrow>
             let buf2 = line_into r buf1 in
             echoclient en input' st' ws' buf2 (sent @ bytes) (out @ cstr buf2))))"
  by auto
termination echoclient
  by (relation "measure (\<lambda>(en, input, st, ws, buf, sent, out). length input)") (auto dest: fgets_shorter)

declare echoclient.simps [simp del]

section \<open>The server with one process per client\<close>

record proc_server =
  psv_parent :: "int set"
  psv_children :: "(nat \<times> connection) list"
  psv_zombies :: "nat list"
  psv_sent :: "(int \<times> string) list"

text \<open>\<open>waitpid(-1, 0, WNOHANG)\<close> with some children running: one that has ended, 0 when all still run, -1 when
  there is none.\<close>

fun waitpid_any :: "bool \<Rightarrow> nat list \<Rightarrow> int \<times> nat list" where
  "waitpid_any running [] = (if running then 0 else - 1, [])"
| "waitpid_any running (z # zs) = (int z, zs)"

function sigchld_handler :: "bool \<Rightarrow> nat list \<Rightarrow> nat list" where
  "sigchld_handler running zombies = (case waitpid_any running zombies of (r, zombies') \<Rightarrow>
     if 0 < r then sigchld_handler running zombies' else zombies')"
  by auto
lemma waitpid_shorter: "(r, zs') = waitpid_any running zs \<Longrightarrow> 0 < r \<Longrightarrow> length zs' < length zs"
  by (cases zs) (auto split: if_splits)

termination sigchld_handler
  by (relation "measure (\<lambda>(running, zombies). length zombies)") (auto dest: waitpid_shorter)

declare sigchld_handler.simps [simp del]

text \<open>What happens to the server: \<open>accept\<close> returns, and \<open>fork\<close> gives a process or fails; a child runs its
  part, from \<open>close(listenfd)\<close> to \<open>exit(0)\<close>; the handler runs.\<close>

datatype ps_event = Ps_accept connection "nat option" | Ps_child nat | Ps_sigchld

definition psv_close :: "int \<Rightarrow> int set \<Rightarrow> int set" where
  "psv_close fd fds = fds - {fd}"

fun psv_step :: "errno \<Rightarrow> rio_t \<Rightarrow> ps_event \<Rightarrow> proc_server \<Rightarrow> proc_server option" where
  "psv_step en rp (Ps_accept conn child) s =
     (let parent = (if 0 \<le> fst conn then insert (fst conn) (psv_parent s) else psv_parent s);
          children = (case child of None \<Rightarrow> psv_children s | Some pid \<Rightarrow> psv_children s @ [(pid, conn)]) in
      Some (s\<lparr>psv_children := children, psv_parent := psv_close (fst conn) parent\<rparr>))"
| "psv_step en rp (Ps_child pid) s = (case map_of (psv_children s) pid of
       None \<Rightarrow> None
     | Some (connfd, ks, ws) \<Rightarrow> do {
         (_, out) \<leftarrow> echo en (rio_readinitb (nat connfd) rp, ks) ws [];
         Some (s\<lparr>psv_children := filter (\<lambda>c. fst c \<noteq> pid) (psv_children s), psv_zombies := psv_zombies s @ [pid],
           psv_sent := psv_sent s @ [(connfd, out)]\<rparr>) })"
| "psv_step en rp Ps_sigchld s = Some (s\<lparr>psv_zombies := sigchld_handler (psv_children s \<noteq> []) (psv_zombies s)\<rparr>)"

definition psv_init :: "int \<Rightarrow> proc_server" where
  "psv_init listenfd = \<lparr>psv_parent = {listenfd}, psv_children = [], psv_zombies = [], psv_sent = []\<rparr>"

section \<open>The server with one thread per client\<close>

text \<open>Where a thread is: about to read its argument, which is a block of the heap that holds the
  descriptor; in \<open>echo\<close>; about to close.\<close>
datatype tsv_pc = Th_start addr | Th_free addr int | Th_echo int | Th_close int | Th_end

record thr_server =
  tsv_heap :: "int heap"
  tsv_conns :: "int \<rightharpoonup> rd_event list \<times> wr_event list"
  tsv_threads :: "tsv_pc list"
  tsv_sent :: "(int \<times> string) list"

text \<open>\<open>malloc\<close> returns the block \<open>p\<close> (or a null pointer, whose use faults), \<open>accept\<close> a connection; whether
  \<open>pthread_create\<close> succeeded is not looked at. Or thread \<open>k\<close> takes a step.\<close>

datatype tsv_event = Ts_accept ptr connection bool | Ts_thread nat

definition tsv_accept :: "ptr \<Rightarrow> connection \<Rightarrow> bool \<Rightarrow> thr_server \<Rightarrow> thr_server option" where
  "tsv_accept connfdp conn created s = (case connfdp of None \<Rightarrow> None | Some p \<Rightarrow>
     Some (s\<lparr>tsv_heap := (tsv_heap s)(p \<mapsto> fst conn),
       tsv_conns := (if 0 \<le> fst conn then (tsv_conns s)(fst conn \<mapsto> snd conn) else tsv_conns s),
       tsv_threads := tsv_threads s @ (if created then [Th_start p] else [])\<rparr>))"

text \<open>One step of \<open>thread\<close>; \<open>echo\<close> on a descriptor that is not open fails like a read error.\<close>

definition tsv_thread :: "errno \<Rightarrow> rio_t \<Rightarrow> nat \<Rightarrow> thr_server \<Rightarrow> thr_server option" where
  "tsv_thread en rp k s = (if length (tsv_threads s) \<le> k then None else case tsv_threads s ! k of
       Th_start p \<Rightarrow> do {
         connfd \<leftarrow> load (Some p) (tsv_heap s);
         Some (s\<lparr>tsv_threads := (tsv_threads s)[k := Th_free p connfd]\<rparr>) }
     | Th_free p connfd \<Rightarrow> do {
         h \<leftarrow> free (Some p) (tsv_heap s);
         Some (s\<lparr>tsv_heap := h, tsv_threads := (tsv_threads s)[k := Th_echo connfd]\<rparr>) }
     | Th_echo connfd \<Rightarrow> do {
         (ks, ws) \<leftarrow> tsv_conns s connfd;
         (_, out) \<leftarrow> echo en (rio_readinitb (nat connfd) rp, ks) ws [];
         Some (s\<lparr>tsv_sent := tsv_sent s @ [(connfd, out)], tsv_threads := (tsv_threads s)[k := Th_close connfd]\<rparr>) }
     | Th_close connfd \<Rightarrow> Some (s\<lparr>tsv_conns := (tsv_conns s)(connfd := None), tsv_threads := (tsv_threads s)[k := Th_end]\<rparr>)
     | Th_end \<Rightarrow> None)"

fun tsv_step :: "errno \<Rightarrow> rio_t \<Rightarrow> tsv_event \<Rightarrow> thr_server \<Rightarrow> thr_server option" where
  "tsv_step en rp (Ts_accept p conn created) s = tsv_accept p conn created s"
| "tsv_step en rp (Ts_thread k) s = tsv_thread en rp k s"

definition tsv_init :: thr_server where
  "tsv_init = \<lparr>tsv_heap = (\<lambda>_. None), tsv_conns = (\<lambda>_. None), tsv_threads = [], tsv_sent = []\<rparr>"

section \<open>The server that reads its terminal\<close>

record term_server =
  tms_input :: string
  tms_printed :: string
  tms_sent :: "(int \<times> string) list"
  tms_exited :: bool

definition commmand :: "term_server \<Rightarrow> term_server" where
  "commmand s = (case fgets MAXLINE (tms_input s) of
       None \<Rightarrow> s\<lparr>tms_exited := True\<rparr>
     | Some (l, rest) \<Rightarrow> s\<lparr>tms_input := rest, tms_printed := tms_printed s @ cstr l\<rparr>)"

text \<open>One round: which of the two descriptors are ready, and the connection \<open>accept\<close> would return.\<close>

definition term_round :: "errno \<Rightarrow> rio_t \<Rightarrow> bool \<times> connection option \<Rightarrow> term_server \<Rightarrow> term_server option" where
  "term_round en rp ready s = (
     let s1 = (if fst ready then commmand s else s) in
     if tms_exited s1 then Some s1
     else case snd ready of
         None \<Rightarrow> Some s1
       | Some (connfd, ks, ws) \<Rightarrow> do {
           (_, out) \<leftarrow> echo en (rio_readinitb (nat connfd) rp, ks) ws [];
           Some (s1\<lparr>tms_sent := tms_sent s1 @ [(connfd, out)]\<rparr>) })"

fun term_loop :: "errno \<Rightarrow> rio_t \<Rightarrow> (bool \<times> connection option) list \<Rightarrow> term_server \<Rightarrow> term_server option" where
  "term_loop en rp [] s = Some s"
| "term_loop en rp (r # rs) s = do {
     s' \<leftarrow> term_round en rp r s;
     if tms_exited s' then Some s' else term_loop en rp rs s' }"

section \<open>Server and client on plain \<open>read\<close> and \<open>write\<close>\<close>

text \<open>The inner loop of \<open>echo/echoserver.c\<close>. Each \<open>write\<close> is tried once and its result is not looked at;
  a \<open>read\<close> that fails gives the count -1, and the \<open>write\<close> of as many bytes leaves the buffer (\<open>None\<close>). Terminal
  and client are given the same treatment; what each of them has received is returned.\<close>

definition write_once :: "string \<Rightarrow> wr_event list \<Rightarrow> string \<times> wr_event list" where
  "write_once bs ws = (case k_write bs EOTHER ws of (nw, _, ws') \<Rightarrow> (take (nat nw) bs, ws'))"

function raw_echo :: "rd_event list \<Rightarrow> wr_event list \<Rightarrow> wr_event list \<Rightarrow> string \<times> string \<Rightarrow> (string \<times> string) option" where
  "raw_echo ks ts ws got = (case k_read 1024 ks of
     (Got bs, ks') \<Rightarrow>
       if bs = [] then Some got
       else (case write_once bs ts of (t, ts') \<Rightarrow> (case write_once bs ws of (w, ws') \<Rightarrow>
         raw_echo ks' ts' ws' (fst got @ t, snd got @ w)))
   | (_, ks') \<Rightarrow> None)"
  by auto
text \<open>What is still to come from a descriptor.\<close>
definition rd_size :: "rd_event list \<Rightarrow> nat" where
  "rd_size ks = sum_list (map (\<lambda>e. case e of Chunk bs \<Rightarrow> Suc (length bs) | _ \<Rightarrow> 1) ks)"

lemma k_read_shorter: "(Got bs, ks') = k_read n ks \<Longrightarrow> bs \<noteq> [] \<Longrightarrow> rd_size ks' < rd_size ks"
  by (cases "(n, ks)" rule: k_read.cases) (auto simp: rd_size_def split: if_splits)

termination raw_echo
  by (relation "measure (\<lambda>(ks, ts, ws, got). rd_size ks)") (auto dest: k_read_shorter)

declare raw_echo.simps [simp del]

text \<open>\<open>recv(fd, buf, n, MSG_WAITALL)\<close>: all bytes, unless the stream ends or fails or a signal comes first.\<close>

function recv_waitall :: "nat \<Rightarrow> rd_event list \<Rightarrow> string \<Rightarrow> string \<times> rd_event list" where
  "recv_waitall n ks got = (if n = 0 then (got, ks) else (case k_read n ks of
     (Got bs, ks') \<Rightarrow> if bs = [] then (got, ks') else recv_waitall (n - length bs) ks' (got @ bs)
   | (_, ks') \<Rightarrow> (got, ks')))"
  by auto
termination recv_waitall
  by (relation "measure (\<lambda>(n, ks, got). rd_size ks)") (auto dest: k_read_shorter)

declare recv_waitall.simps [simp del]

text \<open>The loop of \<open>echo/echoclient.c\<close>: the terminal \<open>ks\<close>, the connection \<open>rs\<close> and \<open>ws\<close>; the result is what was sent
  and what was printed. \<open>recv\<close> overwrites the front of \<open>buf\<close>, and all of the first \<open>count\<close> bytes are printed.\<close>

function raw_client :: "rd_event list \<Rightarrow> rd_event list \<Rightarrow> wr_event list \<Rightarrow> string \<Rightarrow> string \<Rightarrow> (string \<times> string) option" where
  "raw_client ks rs ws sent out = (case k_read 1024 ks of
     (Got bs, ks') \<Rightarrow>
       if bs = [] then Some (sent, out)
       else (case write_once bs ws of (w, ws') \<Rightarrow> (case recv_waitall (length bs) rs [] of (r, rs') \<Rightarrow>
         raw_client ks' rs' ws' (sent @ w) (out @ put_front r bs)))
   | (_, ks') \<Rightarrow> None)"
  by auto
termination raw_client
  by (relation "measure (\<lambda>(ks, rs, ws, sent, out). rd_size ks)") (auto dest: k_read_shorter)

declare raw_client.simps [simp del]

section \<open>Client and server together\<close>

text \<open>One turn of the client's loop.\<close>

lemma echoclient_turn:
  assumes "input \<noteq> []" "NUL \<notin> set input" "takes_all ws" "rio_readlineb MAXLINE st = (r, st')"
  obtains l rest ws' buf1 where "l = line_of (MAXLINE - 1) input" "rest = drop (length l) input" "l @ rest = input"
    "length rest < length input" "NUL \<notin> set l" "NUL \<notin> set rest" "takes_all ws'" "cstr buf1 = l"
    "echoclient en input st ws buf sent out =
       echoclient en rest st' ws' (line_into r buf1) (sent @ l) (out @ cstr (line_into r buf1))"
proof -
  define l where "l = line_of (MAXLINE - 1) input"
  define rest where "rest = drop (length l) input"
  define buf1 where "buf1 = put_front (l @ [NUL]) buf"
  have f: "fgets MAXLINE input = Some (l, rest)" using assms(1) by (simp add: fgets_def l_def rest_def Let_def)
  have split: "l @ rest = input" by (simp add: l_def rest_def line_of_drop)
  then have nul: "NUL \<notin> set l" "NUL \<notin> set rest" using assms(2) by (metis Un_iff set_append)+
  then have c: "cstr buf1 = l" by (simp add: buf1_def)
  obtain ws' where w: "rio_writen buf1 (length l) en ws = (True, ws', l)" and t: "takes_all ws'"
    using rio_writen_all [OF assms(3), of l en] by (auto simp: rio_writen_def put_front_def buf1_def)
  have "echoclient en input st ws buf sent out =
       echoclient en rest st' ws' (line_into r buf1) (sent @ l) (out @ cstr (line_into r buf1))"
    by (subst echoclient.simps) (simp add: f assms(4) w c Let_def buf1_def [symmetric])
  then show ?thesis using that [OF l_def rest_def split fgets_shorter [OF f] nul t c] by blast
qed

lemma echoclient_end: "echoclient en [] st ws buf sent out = (sent, out)"
  by (simp add: echoclient.simps fgets_def)

text \<open>The client cuts its input where the server cuts the stream, so that every line comes back whole.\<close>

lemma echoclient_echoed:
  assumes "rio_ok st" "closes (snd st)" "rio_rest st = (input, False)" "takes_all ws" "NUL \<notin> set input"
  shows "echoclient en input st ws buf sent out = (sent @ input, out @ input)"
  using assms
proof (induction "length input" arbitrary: input st ws buf sent out rule: less_induct)
  case less
  show ?case
  proof (cases "input = []")
    case False
    have k: "0 < MAXLINE - 1" by (simp add: MAXLINE_def)
    obtain r st' where r: "rio_readlineb MAXLINE st = (r, st')" by (cases "rio_readlineb MAXLINE st")
    obtain l rest ws' buf1 where t: "l = line_of (MAXLINE - 1) input" "rest = drop (length l) input" "l @ rest = input"
        "length rest < length input" "NUL \<notin> set l" "NUL \<notin> set rest" "takes_all ws'" "cstr buf1 = l"
        "echoclient en input st ws buf sent out =
           echoclient en rest st' ws' (line_into r buf1) (sent @ l) (out @ cstr (line_into r buf1))"
      using echoclient_turn [OF False less.prems(5,4) r, of en buf sent out] by metis
    have rr: "r = Line l" "rio_ok st'" "closes (snd st')" "rio_rest st' = (rest, False)"
      using rio_readlineb_spec [OF less.prems(1), of MAXLINE] rio_readlineb_closes [OF less.prems(2), of MAXLINE]
        rio_readlineb_rest [OF less.prems(1-3), of MAXLINE] r less.prems(3) line_spec_data [OF False k] t(1,2) by auto
    have "cstr (line_into r buf1) = l" using rr(1) t(5) by (simp add: line_into_def)
    then show ?thesis using t(3,9) less.hyps [OF t(4) rr(2-4) t(7,6)] by auto
  qed (simp add: echoclient_end)
qed

text \<open>What it sends does not depend on what comes back.\<close>

lemma echoclient_sends:
  assumes "takes_all ws" "NUL \<notin> set input"
  shows "fst (echoclient en input st ws buf sent out) = sent @ input"
  using assms
proof (induction "length input" arbitrary: input st ws buf sent out rule: less_induct)
  case less
  show ?case
  proof (cases "input = []")
    case False
    obtain r st' where "rio_readlineb MAXLINE st = (r, st')" by (cases "rio_readlineb MAXLINE st")
    then obtain l rest ws' buf1 where t: "l @ rest = input" "length rest < length input" "NUL \<notin> set rest" "takes_all ws'"
        "echoclient en input st ws buf sent out =
           echoclient en rest st' ws' (line_into r buf1) (sent @ l) (out @ cstr (line_into r buf1))"
      using echoclient_turn [OF False less.prems(2,1), of st r st' en buf sent out] by metis
    then show ?thesis using less.hyps [OF t(2,4,3)] by auto
  qed (simp add: echoclient_end)
qed

lemma rio_init_state:
  assumes "length (rio_buf rp) = RIO_BUFSIZE"
  shows "rio_ok (rio_readinitb fd rp, ks)" "rio_rest (rio_readinitb fd rp, ks) = content ks"
  using assms by (simp_all add: rio_ok_def rio_readinitb_def rio_rest_def)

text \<open>The echo of a connection from its start.\<close>

lemma echo_connection:
  assumes "length (rio_buf rp) = RIO_BUFSIZE" "closes ks" "takes_all ws"
  shows "\<exists>ws'. echo en (rio_readinitb fd rp, ks) ws [] = Some (ws', fst (content ks))"
proof -
  have "content ks = (fst (content ks), False)" using closes_content [OF assms(2)] by (simp add: prod_eq_iff)
  then show ?thesis
    using echo_ok [of "(rio_readinitb fd rp, ks)" "fst (content ks)" ws en "[]"] rio_init_state [OF assms(1)] assms(2,3)
    by auto
qed


text \<open>When the server has closed the connection, the client prints every line as if it had been echoed:
  \<open>rio_readlineb\<close> returns 0, which is not looked at, and leaves the typed line in the buffer.\<close>
theorem echoclient_prints_unechoed:
  assumes "NUL \<notin> set typed" "takes_all ws" "rio_ok st" "closes (snd st)" "rio_rest st = ([], False)"
  shows "snd (echoclient en typed st ws buf sent out) = out @ typed"
  using assms
proof (induction "length typed" arbitrary: typed st ws buf sent out rule: less_induct)
  case less
  show ?case
  proof (cases "typed = []")
    case False
    obtain st' where st': "rio_readlineb MAXLINE st = (Line_eof, st')" "rio_ok st'" "closes (snd st')" "rio_rest st' = ([], False)"
      using rio_readlineb_stays_at_end [OF less.prems(3-5), of MAXLINE] by (auto simp: MAXLINE_def)
    obtain l rest ws' buf1 where t: "l @ rest = typed" "length rest < length typed" "NUL \<notin> set rest" "takes_all ws'" "cstr buf1 = l"
        "echoclient en typed st ws buf sent out =
           echoclient en rest st' ws' (line_into Line_eof buf1) (sent @ l) (out @ cstr (line_into Line_eof buf1))"
      using echoclient_turn [OF False less.prems(1,2) st'(1), of en buf sent out] by metis
    then show ?thesis using less.hyps [OF t(2,3,4) st'(2-4)] by (auto simp: line_into_def)
  qed (simp add: echoclient_end)
qed

section \<open>The process based server refines a table of connections\<close>

text \<open>Abstractly the server has connections in progress, with the bytes each client will send, connections
  that were served, with the bytes that were sent back, and children that have not been waited for.\<close>

type_synonym psv_abs = "(nat \<times> int \<times> string) list \<times> (int \<times> string) list \<times> nat list"

definition psv_view :: "nat \<times> connection \<Rightarrow> nat \<times> int \<times> string" where
  "psv_view c = (fst c, fst (snd c), fst (content (fst (snd (snd c)))))"

definition psv_abs :: "proc_server \<Rightarrow> psv_abs" where
  "psv_abs s = (map psv_view (psv_children s), psv_sent s, psv_zombies s)"

definition psv_ok :: "int \<Rightarrow> proc_server \<Rightarrow> bool" where
  "psv_ok listenfd s \<longleftrightarrow> psv_parent s = {listenfd} \<and> (\<forall>z\<in>set (psv_zombies s). 0 < z) \<and>
     (\<forall>c\<in>set (psv_children s). 0 < fst c \<and> closes (fst (snd (snd c))) \<and> takes_all (snd (snd (snd c))))"

fun psv_spec :: "ps_event \<Rightarrow> psv_abs \<Rightarrow> psv_abs" where
  "psv_spec (Ps_accept conn None) (run, served, zs) = (run, served, zs)"
| "psv_spec (Ps_accept conn (Some pid)) (run, served, zs) = (run @ [(pid, fst conn, fst (content (fst (snd conn))))], served, zs)"
| "psv_spec (Ps_child pid) (run, served, zs) =
     (filter (\<lambda>c. fst c \<noteq> pid) run, served @ [the (map_of run pid)], zs @ [pid])"
| "psv_spec Ps_sigchld (run, served, zs) = (run, served, [])"

text \<open>The kernel returns new descriptors and positive process numbers, and only running children end;
  the peers take what they are sent and close in the end.\<close>

fun psv_valid :: "int \<Rightarrow> ps_event \<Rightarrow> psv_abs \<Rightarrow> bool" where
  "psv_valid listenfd (Ps_accept conn child) a \<longleftrightarrow> fst conn \<noteq> listenfd \<and> 0 \<le> fst conn \<and> closes (fst (snd conn)) \<and>
     takes_all (snd (snd conn)) \<and> child \<noteq> Some 0"
| "psv_valid listenfd (Ps_child pid) a \<longleftrightarrow> pid \<in> fst ` set (fst a)"
| "psv_valid listenfd Ps_sigchld a \<longleftrightarrow> True"

lemma sigchld_handler_reaps: "\<forall>z\<in>set zombies. 0 < z \<Longrightarrow> sigchld_handler running zombies = []"
  by (induction running zombies rule: sigchld_handler.induct) (subst sigchld_handler.simps, case_tac zombies, auto)

lemma map_of_view: "map_of (map psv_view cs) pid = map_option (\<lambda>c. (fst c, fst (content (fst (snd c))))) (map_of cs pid)"
  by (induction cs) (auto simp: psv_view_def)

lemma filter_view: "filter (\<lambda>c. fst c \<noteq> pid) (map psv_view cs) = map psv_view (filter (\<lambda>c. fst c \<noteq> pid) cs)"
  by (induction cs) (auto simp: psv_view_def)

lemma psv_step_refines:
  assumes "length (rio_buf rp) = RIO_BUFSIZE" "psv_ok listenfd s" "psv_valid listenfd e (psv_abs s)"
  shows "\<exists>s'. psv_step en rp e s = Some s' \<and> psv_ok listenfd s' \<and> psv_abs s' = psv_spec e (psv_abs s)"
proof (cases e)
  case (Ps_accept conn child)
  then show ?thesis using assms(2,3)
    by (cases child) (auto simp: psv_ok_def psv_abs_def psv_close_def psv_view_def Let_def)
next
  case (Ps_child pid)
  have "fst ` set (map psv_view (psv_children s)) = fst ` set (psv_children s)" by (auto simp: psv_view_def image_image)
  then have "map_of (psv_children s) pid \<noteq> None"
    using assms(3) Ps_child by (simp add: psv_abs_def map_of_eq_None_iff)
  then obtain connfd ks ws where c: "map_of (psv_children s) pid = Some (connfd, ks, ws)" by auto
  then have mem: "(pid, connfd, ks, ws) \<in> set (psv_children s)" by (rule map_of_SomeD)
  then have k: "closes ks" "takes_all ws" "0 < pid" using assms(2) by (force simp: psv_ok_def)+
  obtain ws' where "echo en (rio_readinitb (nat connfd) rp, ks) ws [] = Some (ws', fst (content ks))"
    using echo_connection [OF assms(1) k(1,2)] by blast
  then show ?thesis using assms(2) c k(3) Ps_child
    by (auto simp: psv_ok_def psv_abs_def map_of_view filter_view)
next
  case Ps_sigchld
  then show ?thesis using assms(2) sigchld_handler_reaps by (auto simp: psv_ok_def psv_abs_def)
qed

interpretation psv: handler "psv_step en rp" psv_spec "psv_valid listenfd"
  "\<lambda>s. psv_ok listenfd s \<and> length (rio_buf rp) = RIO_BUFSIZE" psv_abs for en rp listenfd
  by unfold_locales (auto intro!: psv_step_refines)

text \<open>C27: Every run of the process based server, in every order in which its children run and end, refines the
  table of connections: each accepted client is sent exactly its own bytes, once, by its child, the parent
  keeps no descriptor but the listening one, and no child that ended before the last signal stays a zombie.\<close>
theorem process_server_refines:
  assumes "length (rio_buf rp) = RIO_BUFSIZE" "valid_events (psv_valid listenfd) psv_spec es ([], [], [])"
  shows "\<exists>s. run_events (psv_step en rp) es (psv_init listenfd) = Some s \<and> psv_parent s = {listenfd} \<and>
    psv_abs s = fold psv_spec es ([], [], [])"
proof -
  have "psv_ok listenfd (psv_init listenfd)" "psv_abs (psv_init listenfd) = ([], [], [])"
    by (simp_all add: psv_init_def psv_ok_def psv_abs_def)
  then show ?thesis using psv.run_refines [where s = "psv_init listenfd" and listenfd = listenfd and rp = rp and en = en and es = es] assms
    by (auto simp: psv_ok_def)
qed

section \<open>The thread based server\<close>

text \<open>The block a thread still owns, and the descriptor it will serve or is serving.\<close>

fun own_block :: "tsv_pc \<Rightarrow> addr option" where
  "own_block (Th_start p) = Some p"
| "own_block (Th_free p c) = Some p"
| "own_block _ = None"

fun own_fd :: "int heap \<Rightarrow> tsv_pc \<Rightarrow> int option" where
  "own_fd h (Th_start p) = h p"
| "own_fd h (Th_free p c) = Some c"
| "own_fd h (Th_echo c) = Some c"
| "own_fd h (Th_close c) = Some c"
| "own_fd h Th_end = None"

text \<open>Each of \<open>n\<close> parties owns at most one element of \<open>D\<close>, no two the same, and together they own all of it.\<close>

definition owns :: "nat \<Rightarrow> (nat \<Rightarrow> 'x option) \<Rightarrow> 'x set \<Rightarrow> bool" where
  "owns n f D \<longleftrightarrow> (\<forall>j<n. \<forall>k<n. \<forall>x. f j = Some x \<longrightarrow> f k = Some x \<longrightarrow> j = k) \<and> D = {x. \<exists>k<n. f k = Some x}"

lemma owns_cong: "owns n f D \<Longrightarrow> (\<And>k. k < n \<Longrightarrow> f' k = f k) \<Longrightarrow> owns n f' D"
  by (simp add: owns_def cong: conj_cong)

lemma owns_other: "owns n f D \<Longrightarrow> k < n \<Longrightarrow> f k = Some x \<Longrightarrow> j < n \<Longrightarrow> j \<noteq> k \<Longrightarrow> f j \<noteq> Some x"
  unfolding owns_def by blast

lemma owns_member: "owns n f D \<Longrightarrow> k < n \<Longrightarrow> f k = Some x \<Longrightarrow> x \<in> D"
  unfolding owns_def by blast

lemma owns_add:
  assumes "owns n f D" "x \<notin> D" "f' n = Some x" "\<And>k. k < n \<Longrightarrow> f' k = f k"
  shows "owns (Suc n) f' (insert x D)"
proof -
  have "f' k \<noteq> Some x" if "k < n" for k using owns_member [OF assms(1) that] assms(2,4) that by metis
  then have "j = k" if "j < Suc n" "k < Suc n" "f' j = Some y" "f' k = Some y" for j k y
    using that assms(1,3,4) by (auto simp: less_Suc_eq owns_def)
  moreover have "insert x D = {y. \<exists>k<Suc n. f' k = Some y}"
    using assms(1,3,4) by (auto simp: less_Suc_eq owns_def)
  ultimately show ?thesis by (auto simp: owns_def)
qed

lemma owns_drop:
  assumes "owns n f D" "k < n" "f k = Some x" "f' k = None" "\<And>j. j < n \<Longrightarrow> j \<noteq> k \<Longrightarrow> f' j = f j"
  shows "owns n f' (D - {x})"
proof -
  have f': "f' j = (if j = k then None else f j)" if "j < n" for j using assms(4,5) that by simp
  have other: "f j \<noteq> Some x" if "j < n" "j \<noteq> k" for j using owns_other [OF assms(1-3) that] .
  have "f' j = Some y \<longleftrightarrow> f j = Some y \<and> y \<noteq> x" if "j < n" for j y
    using f' [OF that] other [OF that] assms(3) by (cases "j = k") auto
  moreover have "D = {y. \<exists>j<n. f j = Some y}" using assms(1) by (simp add: owns_def)
  ultimately have "D - {x} = {y. \<exists>j<n. f' j = Some y}" by auto
  moreover have "i = j" if "i < n" "j < n" "f' i = Some y" "f' j = Some y" for i j y
    using that f' assms(1) by (auto simp: owns_def split: if_splits)
  ultimately show ?thesis by (auto simp: owns_def)
qed

text \<open>No block and no connection without a thread that will free or close it.\<close>

definition tsv_ok :: "thr_server \<Rightarrow> bool" where
  "tsv_ok s \<longleftrightarrow>
     owns (length (tsv_threads s)) (\<lambda>k. own_block (tsv_threads s ! k)) (dom (tsv_heap s)) \<and>
     owns (length (tsv_threads s)) (\<lambda>k. own_fd (tsv_heap s) (tsv_threads s ! k)) (dom (tsv_conns s)) \<and>
     (\<forall>p c. Th_free p c \<in> set (tsv_threads s) \<longrightarrow> tsv_heap s p = Some c) \<and>
     (\<forall>c ks ws. tsv_conns s c = Some (ks, ws) \<longrightarrow> closes ks \<and> takes_all ws)"

text \<open>The memory allocator returns unused blocks, the kernel unused descriptors, threads can be created, and a
  thread that has returned does not run.\<close>

fun tsv_valid :: "tsv_event \<Rightarrow> thr_server \<Rightarrow> bool" where
  "tsv_valid (Ts_accept p conn created) s \<longleftrightarrow> p \<noteq> None \<and> the p \<notin> dom (tsv_heap s) \<and> created \<and> 0 \<le> fst conn \<and>
     fst conn \<notin> dom (tsv_conns s) \<and> closes (fst (snd conn)) \<and> takes_all (snd (snd conn))"
| "tsv_valid (Ts_thread k) s \<longleftrightarrow> k < length (tsv_threads s) \<and> tsv_threads s ! k \<noteq> Th_end"

text \<open>The answer a thread still owes: the descriptor and the bytes its client sends.\<close>

fun owed_by :: "int heap \<Rightarrow> (int \<rightharpoonup> rd_event list \<times> wr_event list) \<Rightarrow> tsv_pc \<Rightarrow> (int \<times> string) multiset" where
  "owed_by h C (Th_close c) = {#}"
| "owed_by h C Th_end = {#}"
| "owed_by h C pc = (case own_fd h pc of None \<Rightarrow> {#} | Some c \<Rightarrow> {#(c, fst (content (fst (the (C c)))))#})"

definition owed :: "thr_server \<Rightarrow> nat \<Rightarrow> (int \<times> string) multiset" where
  "owed s k = owed_by (tsv_heap s) (tsv_conns s) (tsv_threads s ! k)"

definition all_owed :: "thr_server \<Rightarrow> (int \<times> string) multiset" where
  "all_owed s = (\<Sum>k<length (tsv_threads s). owed s k)"

fun accepted :: "tsv_event \<Rightarrow> (int \<times> string) multiset" where
  "accepted (Ts_accept p conn created) = {#(fst conn, fst (content (fst (snd conn))))#}"
| "accepted (Ts_thread k) = {#}"

lemma sum_one_changed:
  fixes f :: "nat \<Rightarrow> 'x multiset"
  assumes "k < n" "\<And>j. j < n \<Longrightarrow> j \<noteq> k \<Longrightarrow> f' j = f j"
  shows "(\<Sum>j<n. f' j) + f k = (\<Sum>j<n. f j) + f' k"
proof -
  have "(\<Sum>j<n. f' j) = f' k + (\<Sum>j\<in>{..<n} - {k}. f' j)" "(\<Sum>j<n. f j) = f k + (\<Sum>j\<in>{..<n} - {k}. f j)"
    using assms(1) by (simp_all add: sum.remove)
  moreover have "(\<Sum>j\<in>{..<n} - {k}. f' j) = (\<Sum>j\<in>{..<n} - {k}. f j)" using assms(2) by (intro sum.cong) auto
  ultimately show ?thesis by simp
qed

lemma tsv_okD:
  assumes "tsv_ok s"
  shows "owns (length (tsv_threads s)) (\<lambda>k. own_block (tsv_threads s ! k)) (dom (tsv_heap s))"
    "owns (length (tsv_threads s)) (\<lambda>k. own_fd (tsv_heap s) (tsv_threads s ! k)) (dom (tsv_conns s))"
    "Th_free p c \<in> set (tsv_threads s) \<Longrightarrow> tsv_heap s p = Some c"
    "tsv_conns s c = Some (ks, ws) \<Longrightarrow> closes ks \<and> takes_all ws"
  using assms unfolding tsv_ok_def by blast+

lemma tsv_accept_ok:
  assumes "tsv_ok s" "tsv_valid (Ts_accept p conn created) s"
  shows "\<exists>s'. tsv_accept p conn created s = Some s' \<and> tsv_ok s' \<and> tsv_sent s' = tsv_sent s \<and>
    all_owed s' = all_owed s + accepted (Ts_accept p conn created)"
proof -
  obtain a where a: "p = Some a" "a \<notin> dom (tsv_heap s)" using assms(2) by (cases p) auto
  obtain c ks ws where c: "conn = (c, ks, ws)" by (cases conn) auto
  let ?n = "length (tsv_threads s)" and ?ts = "tsv_threads s @ [Th_start a]" and ?h = "(tsv_heap s)(a \<mapsto> c)"
  define s' where "s' = s\<lparr>tsv_heap := ?h, tsv_conns := (tsv_conns s)(c \<mapsto> (ks, ws)), tsv_threads := ?ts\<rparr>"
  have v: "c \<notin> dom (tsv_conns s)" "0 \<le> c" "closes ks" "takes_all ws" created using assms(2) c by auto
  have not_a: "own_block (tsv_threads s ! k) \<noteq> Some a" if "k < ?n" for k
    using owns_member [OF tsv_okD(1) [OF assms(1)] that] a(2) by metis
  then have fd: "own_fd ?h (?ts ! k) = own_fd (tsv_heap s) (tsv_threads s ! k)" if "k < ?n" for k
    using that [THEN not_a] that by (cases "tsv_threads s ! k") (auto simp: nth_append)
  have "owns (Suc ?n) (\<lambda>k. own_block (?ts ! k)) (insert a (dom (tsv_heap s)))"
    by (rule owns_add [OF tsv_okD(1) [OF assms(1)] a(2)]) (simp_all add: nth_append)
  moreover have "owns (Suc ?n) (\<lambda>k. own_fd ?h (?ts ! k)) (insert c (dom (tsv_conns s)))"
    by (rule owns_add [OF tsv_okD(2) [OF assms(1)] v(1)]) (simp_all add: fd)
  moreover have "Th_free b d \<in> set (tsv_threads s) \<Longrightarrow> ?h b = Some d" for b d
    using tsv_okD(3) [OF assms(1), of b d] a(2) by auto
  ultimately have "tsv_ok s'" using tsv_okD(4) [OF assms(1)] v by (simp add: tsv_ok_def s'_def)
  moreover have "owed s' k = owed s k" if "k < ?n" for k
  proof -
    have "own_fd (tsv_heap s) (tsv_threads s ! k) \<noteq> Some c"
      using owns_member [OF tsv_okD(2) [OF assms(1)] that] v(1) by metis
    then show ?thesis using fd [OF that] that
      by (cases "tsv_threads s ! k") (auto simp: owed_def s'_def nth_append split: option.splits)
  qed
  then have "all_owed s' = all_owed s + {#(c, fst (content ks))#}"
    by (simp add: all_owed_def) (simp add: s'_def owed_def)
  moreover have "tsv_accept p conn created s = Some s'" "tsv_sent s' = tsv_sent s" using a(1) c v by (simp_all add: tsv_accept_def s'_def)
  ultimately show ?thesis using c by auto
qed

text \<open>A thread that moves on without freeing or closing anything.\<close>

lemma tsv_move:
  assumes "tsv_ok s" "k < length (tsv_threads s)" "own_block pc = own_block (tsv_threads s ! k)"
    "own_fd (tsv_heap s) pc = own_fd (tsv_heap s) (tsv_threads s ! k)" "\<And>p c. pc = Th_free p c \<Longrightarrow> tsv_heap s p = Some c"
  shows "tsv_ok (s\<lparr>tsv_threads := (tsv_threads s)[k := pc], tsv_sent := xs\<rparr>)"
proof -
  let ?ts = "(tsv_threads s)[k := pc]"
  have "owns (length (tsv_threads s)) (\<lambda>j. own_block (?ts ! j)) (dom (tsv_heap s))"
    by (rule owns_cong [OF tsv_okD(1) [OF assms(1)]]) (use assms(2,3) in \<open>auto simp: nth_list_update\<close>)
  moreover have "owns (length (tsv_threads s)) (\<lambda>j. own_fd (tsv_heap s) (?ts ! j)) (dom (tsv_conns s))"
    by (rule owns_cong [OF tsv_okD(2) [OF assms(1)]]) (use assms(2,4) in \<open>auto simp: nth_list_update\<close>)
  moreover have "Th_free p c \<in> set ?ts \<Longrightarrow> tsv_heap s p = Some c" for p c
    using set_update_subset_insert [of "tsv_threads s" k pc] assms(5) tsv_okD(3) [OF assms(1), of p c] by blast
  ultimately show ?thesis using tsv_okD(4) [OF assms(1)] by (simp add: tsv_ok_def)
qed

lemma all_owed_changed:
  assumes "k < length (tsv_threads s)" "length (tsv_threads s') = length (tsv_threads s)"
    "\<And>j. j < length (tsv_threads s) \<Longrightarrow> j \<noteq> k \<Longrightarrow> owed s' j = owed s j"
  shows "all_owed s' + owed s k = all_owed s + owed s' k"
  unfolding all_owed_def assms(2) by (rule sum_one_changed [OF assms(1,3)])

lemma tsv_start_ok:
  assumes "tsv_ok s" "k < length (tsv_threads s)" "tsv_threads s ! k = Th_start p"
  shows "\<exists>s'. tsv_thread en rp k s = Some s' \<and> tsv_ok s' \<and> mset (tsv_sent s') + all_owed s' = mset (tsv_sent s) + all_owed s"
proof -
  have "p \<in> dom (tsv_heap s)" using owns_member [OF tsv_okD(1) [OF assms(1)] assms(2)] assms(3) by simp
  then obtain c where c: "tsv_heap s p = Some c" by auto
  define s' where "s' = s\<lparr>tsv_threads := (tsv_threads s)[k := Th_free p c], tsv_sent := tsv_sent s\<rparr>"
  have "tsv_ok s'" unfolding s'_def by (rule tsv_move [OF assms(1,2)]) (use assms(3) c in auto)
  moreover have "all_owed s' + owed s k = all_owed s + owed s' k"
    by (rule all_owed_changed [OF assms(2)]) (simp_all add: s'_def owed_def)
  moreover have "owed s' k = owed s k" using assms(2,3) c by (simp add: s'_def owed_def)
  moreover have "tsv_thread en rp k s = Some s'" using assms(2,3) c by (simp add: tsv_thread_def s'_def)
  ultimately show ?thesis by (intro exI [of _ s']) (simp add: s'_def)
qed

lemma tsv_free_ok:
  assumes "tsv_ok s" "k < length (tsv_threads s)" "tsv_threads s ! k = Th_free p c"
  shows "\<exists>s'. tsv_thread en rp k s = Some s' \<and> tsv_ok s' \<and> mset (tsv_sent s') + all_owed s' = mset (tsv_sent s) + all_owed s"
proof -
  let ?n = "length (tsv_threads s)" and ?ts = "(tsv_threads s)[k := Th_echo c]" and ?h = "(tsv_heap s)(p := None)"
  have c: "tsv_heap s p = Some c" using tsv_okD(3) [OF assms(1)] assms(2,3) nth_mem by metis
  define s' where "s' = s\<lparr>tsv_heap := ?h, tsv_threads := ?ts\<rparr>"
  have other: "own_block (tsv_threads s ! j) \<noteq> Some p" if "j < ?n" "j \<noteq> k" for j
    using owns_other [OF tsv_okD(1) [OF assms(1)] assms(2) _ that] assms(3) by simp
  have fd: "own_fd ?h (?ts ! j) = own_fd (tsv_heap s) (tsv_threads s ! j)" if "j < ?n" for j
    using other [OF that] assms(2,3) by (cases "j = k"; cases "tsv_threads s ! j") auto
  have blocks: "owns ?n (\<lambda>j. own_block (?ts ! j)) (dom (tsv_heap s) - {p})"
    by (rule owns_drop [OF tsv_okD(1) [OF assms(1)] assms(2)]) (use assms(2,3) in auto)
  have fds: "owns ?n (\<lambda>j. own_fd ?h (?ts ! j)) (dom (tsv_conns s))"
    by (rule owns_cong [OF tsv_okD(2) [OF assms(1)] fd])
  have free: "?h q = Some d" if q: "Th_free q d \<in> set ?ts" for q d
  proof -
    obtain j where j: "j < ?n" "?ts ! j = Th_free q d" using q by (auto simp: in_set_conv_nth)
    then have "j \<noteq> k" using assms(2) by auto
    then have "tsv_threads s ! j = Th_free q d" "q \<noteq> p" using j other [OF j(1)] by auto
    then show ?thesis using tsv_okD(3) [OF assms(1), of q d] j(1) nth_mem [of j "tsv_threads s"] by simp
  qed
  have "tsv_ok s'" using blocks fds free tsv_okD(4) [OF assms(1)] by (simp add: tsv_ok_def s'_def dom_fun_upd)
  moreover have "owed s' j = owed s j" if "j < ?n" for j
    using fd [OF that] assms(2,3) by (cases "j = k"; cases "tsv_threads s ! j") (auto simp: owed_def s'_def)
  then have "all_owed s' = all_owed s" by (simp add: all_owed_def s'_def)
  moreover have "tsv_thread en rp k s = Some s'" using assms(2,3) c by (simp add: tsv_thread_def s'_def)
  ultimately show ?thesis by (intro exI [of _ s']) (simp add: s'_def)
qed

lemma tsv_echo_ok:
  assumes "tsv_ok s" "k < length (tsv_threads s)" "tsv_threads s ! k = Th_echo c" "length (rio_buf rp) = RIO_BUFSIZE"
  shows "\<exists>s'. tsv_thread en rp k s = Some s' \<and> tsv_ok s' \<and> mset (tsv_sent s') + all_owed s' = mset (tsv_sent s) + all_owed s"
proof -
  have "c \<in> dom (tsv_conns s)" using owns_member [OF tsv_okD(2) [OF assms(1)] assms(2)] assms(3) by simp
  then obtain ks ws where c: "tsv_conns s c = Some (ks, ws)" by auto
  obtain ws' where e: "echo en (rio_readinitb (nat c) rp, ks) ws [] = Some (ws', fst (content ks))"
    using echo_connection [OF assms(4)] tsv_okD(4) [OF assms(1) c] by blast
  define s' where "s' = s\<lparr>tsv_threads := (tsv_threads s)[k := Th_close c], tsv_sent := tsv_sent s @ [(c, fst (content ks))]\<rparr>"
  have "tsv_ok s'" unfolding s'_def by (rule tsv_move [OF assms(1,2)]) (use assms(3) in auto)
  moreover have "all_owed s' + owed s k = all_owed s + owed s' k"
    by (rule all_owed_changed [OF assms(2)]) (simp_all add: s'_def owed_def)
  moreover have "owed s' k = {#}" "owed s k = {#(c, fst (content ks))#}" using assms(2,3) c by (simp_all add: s'_def owed_def)
  moreover have "tsv_thread en rp k s = Some s'" using assms(2,3) c e by (simp add: tsv_thread_def s'_def)
  ultimately show ?thesis by (intro exI [of _ s']) (simp add: s'_def)
qed

lemma tsv_close_ok:
  assumes "tsv_ok s" "k < length (tsv_threads s)" "tsv_threads s ! k = Th_close c"
  shows "\<exists>s'. tsv_thread en rp k s = Some s' \<and> tsv_ok s' \<and> mset (tsv_sent s') + all_owed s' = mset (tsv_sent s) + all_owed s"
proof -
  let ?n = "length (tsv_threads s)" and ?ts = "(tsv_threads s)[k := Th_end]" and ?C = "(tsv_conns s)(c := None)"
  define s' where "s' = s\<lparr>tsv_conns := ?C, tsv_threads := ?ts\<rparr>"
  have other: "own_fd (tsv_heap s) (tsv_threads s ! j) \<noteq> Some c" if "j < ?n" "j \<noteq> k" for j
    using owns_other [OF tsv_okD(2) [OF assms(1)] assms(2) _ that] assms(3) by simp
  have "owns ?n (\<lambda>j. own_block (?ts ! j)) (dom (tsv_heap s))"
    by (rule owns_cong [OF tsv_okD(1) [OF assms(1)]]) (use assms(2,3) in \<open>auto simp: nth_list_update\<close>)
  moreover have "owns ?n (\<lambda>j. own_fd (tsv_heap s) (?ts ! j)) (dom (tsv_conns s) - {c})"
    by (rule owns_drop [OF tsv_okD(2) [OF assms(1)] assms(2)]) (use assms(2,3) in auto)
  moreover have "Th_free p d \<in> set ?ts \<Longrightarrow> tsv_heap s p = Some d" for p d
    using set_update_subset_insert [of "tsv_threads s" k Th_end] tsv_okD(3) [OF assms(1), of p d] by blast
  moreover have "?C d = Some (ks, ws) \<Longrightarrow> closes ks \<and> takes_all ws" for d ks ws
    using tsv_okD(4) [OF assms(1), of d ks ws] by (simp split: if_splits)
  ultimately have "tsv_ok s'" by (simp add: tsv_ok_def s'_def dom_fun_upd)
  moreover have "owed s' j = owed s j" if "j < ?n" for j
    using other [OF that] assms(2,3) that by (cases "j = k"; cases "tsv_threads s ! j") (auto simp: owed_def s'_def split: option.splits)
  then have "all_owed s' = all_owed s" by (simp add: all_owed_def s'_def)
  moreover have "tsv_thread en rp k s = Some s'" using assms(2,3) by (simp add: tsv_thread_def s'_def)
  ultimately show ?thesis by (intro exI [of _ s']) (simp add: s'_def)
qed

lemma tsv_step_ok:
  assumes "tsv_ok s" "tsv_valid e s" "length (rio_buf rp) = RIO_BUFSIZE"
  shows "\<exists>s'. tsv_step en rp e s = Some s' \<and> tsv_ok s' \<and>
    mset (tsv_sent s') + all_owed s' = mset (tsv_sent s) + all_owed s + accepted e"
proof (cases e)
  case (Ts_accept p conn created)
  then show ?thesis using tsv_accept_ok [of s p conn created] assms by fastforce
next
  case (Ts_thread k)
  then have k: "k < length (tsv_threads s)" "tsv_threads s ! k \<noteq> Th_end" using assms(2) by auto
  then show ?thesis
    using tsv_start_ok [OF assms(1) k(1)] tsv_free_ok [OF assms(1) k(1)] tsv_echo_ok [OF assms(1) k(1) _ assms(3)]
      tsv_close_ok [OF assms(1) k(1)] Ts_thread by (cases "tsv_threads s ! k") simp_all
qed

abbreviation tsv_next :: "errno \<Rightarrow> rio_t \<Rightarrow> tsv_event \<Rightarrow> thr_server \<Rightarrow> thr_server" where
  "tsv_next en rp e s \<equiv> the (tsv_step en rp e s)"

lemma tsv_run_ok:
  assumes "tsv_ok s" "valid_events tsv_valid (tsv_next en rp) es s" "length (rio_buf rp) = RIO_BUFSIZE"
  shows "\<exists>s'. run_events (tsv_step en rp) es s = Some s' \<and> tsv_ok s' \<and>
    mset (tsv_sent s') + all_owed s' = mset (tsv_sent s) + all_owed s + sum_list (map accepted es)"
  using assms(1,2)
proof (induction es arbitrary: s)
  case (Cons e es)
  obtain s1 where s1: "tsv_step en rp e s = Some s1" "tsv_ok s1"
      "mset (tsv_sent s1) + all_owed s1 = mset (tsv_sent s) + all_owed s + accepted e"
    using tsv_step_ok [OF Cons.prems(1) _ assms(3), of e en] Cons.prems(2) by auto
  then show ?case using Cons.IH [OF s1(2)] Cons.prems(2) by (auto simp: add.assoc)
qed simp

text \<open>C28: Every run of the thread based server, in every interleaving of its threads: no step reads or frees a block
  that is gone, because each thread has a block of its own; and when the threads have returned, all blocks are freed,
  all connections closed, and every client was sent exactly its own bytes, once.\<close>
theorem thread_server_exact:
  assumes "length (rio_buf rp) = RIO_BUFSIZE" "valid_events tsv_valid (tsv_next en rp) es tsv_init"
  shows "\<exists>s. run_events (tsv_step en rp) es tsv_init = Some s \<and>
    (set (tsv_threads s) \<subseteq> {Th_end} \<longrightarrow> tsv_heap s = Map.empty \<and> tsv_conns s = Map.empty \<and>
       mset (tsv_sent s) = sum_list (map accepted es))"
proof -
  have "tsv_ok tsv_init" by (simp add: tsv_ok_def tsv_init_def owns_def)
  then obtain s where s: "run_events (tsv_step en rp) es tsv_init = Some s" "tsv_ok s"
      "mset (tsv_sent s) + all_owed s = sum_list (map accepted es)"
    using tsv_run_ok [OF _ assms(2,1)] by (auto simp: tsv_init_def all_owed_def)
  have "tsv_heap s = Map.empty \<and> tsv_conns s = Map.empty \<and> all_owed s = {#}" if ended: "set (tsv_threads s) \<subseteq> {Th_end}"
  proof -
    have pc: "tsv_threads s ! k = Th_end" if "k < length (tsv_threads s)" for k using nth_mem [OF that] ended by auto
    have "dom (tsv_heap s) = {}" "dom (tsv_conns s) = {}" using s(2) pc by (simp_all add: tsv_ok_def owns_def)
    then show ?thesis using pc by (simp add: all_owed_def owed_def)
  qed
  then show ?thesis using s by auto
qed

text \<open>A thread that cannot be created goes unnoticed: its block and its connection are never given back.\<close>
theorem thread_server_leaks:
  "\<exists>s. tsv_step en rp (Ts_accept (Some 1) (5, [], []) False) tsv_init = Some s \<and> tsv_threads s = [] \<and>
     tsv_heap s = [1 \<mapsto> 5] \<and> 5 \<in> dom (tsv_conns s)"
  by (simp add: tsv_accept_def tsv_init_def)

section \<open>The terminal and the plain programs\<close>

text \<open>A round of the server that reads its terminal serves the client that waits, to its end, after at most
  one line of the terminal; but at the end of the terminal the program exits first.\<close>
theorem term_round_serves:
  assumes "length (rio_buf rp) = RIO_BUFSIZE" "closes ks" "takes_all ws" "\<not> tms_exited s"
  shows "\<exists>s'. term_round en rp (b, Some (connfd, ks, ws)) s = Some s' \<and>
    (if b \<and> tms_input s = [] then tms_exited s' \<and> tms_sent s' = tms_sent s
     else \<not> tms_exited s' \<and> tms_sent s' = tms_sent s @ [(connfd, fst (content ks))])"
proof -
  obtain ws' where "echo en (rio_readinitb (nat connfd) rp, ks) ws [] = Some (ws', fst (content ks))"
    using echo_connection [OF assms(1-3)] by blast
  then show ?thesis using assms(4) by (auto simp: term_round_def commmand_def fgets_def Let_def)
qed

text \<open>A stream without interruptions, and a peer that takes each write in full.\<close>

definition smooth :: "rd_event list \<Rightarrow> bool" where
  "smooth ks \<longleftrightarrow> (\<forall>e\<in>set ks. \<exists>bs. e = Chunk bs \<and> bs \<noteq> [])"

definition roomy :: "wr_event list \<Rightarrow> bool" where
  "roomy ws \<longleftrightarrow> (\<forall>e\<in>set ws. \<exists>k\<ge>1024. e = Takes k)"

lemma k_read_smooth:
  assumes "smooth ks" "0 < n"
  obtains bs ks' where "k_read n ks = (Got bs, ks')" "smooth ks'" "fst (content ks) = bs @ fst (content ks')"
    "length bs \<le> n" "bs = [] \<longleftrightarrow> ks = []"
proof (cases ks)
  case Nil
  then show ?thesis using that [of "[]" "[]"] by (simp add: smooth_def)
next
  case (Cons e rest)
  then obtain cs where "e = Chunk cs" "cs \<noteq> []" using assms(1) by (auto simp: smooth_def)
  then show ?thesis using that [of cs rest] that [of "take n cs" "Chunk (drop n cs) # rest"] Cons assms
    by (cases "length cs \<le> n") (auto simp: smooth_def)
qed

lemma write_once_roomy:
  assumes "roomy ws" "length bs \<le> 1024"
  shows "\<exists>ws'. write_once bs ws = (bs, ws') \<and> roomy ws'"
  using assms by (cases ws) (auto simp: write_once_def roomy_def min_def)

lemma raw_echo_smooth:
  "smooth ks \<Longrightarrow> roomy ts \<Longrightarrow> roomy ws \<Longrightarrow>
    raw_echo ks ts ws got = Some (fst got @ fst (content ks), snd got @ fst (content ks))"
proof (induction "rd_size ks" arbitrary: ks ts ws got rule: less_induct)
  case less
  obtain bs ks' where r: "k_read 1024 ks = (Got bs, ks')" "smooth ks'" "fst (content ks) = bs @ fst (content ks')"
      "length bs \<le> 1024" "bs = [] \<longleftrightarrow> ks = []"
    using k_read_smooth [OF less.prems(1), of 1024] by auto
  show ?case
  proof (cases "bs = []")
    case True
    then show ?thesis using r by (simp add: raw_echo.simps)
  next
    case False
    obtain ts' ws' where w: "write_once bs ts = (bs, ts')" "roomy ts'" "write_once bs ws = (bs, ws')" "roomy ws'"
      using write_once_roomy [OF less.prems(2) r(4)] write_once_roomy [OF less.prems(3) r(4)] by blast
    have "rd_size ks' < rd_size ks" using k_read_shorter [OF r(1) [symmetric] False] .
    from less.hyps [OF this r(2) w(2,4)] show ?thesis using False r w by (simp add: raw_echo.simps [of ks])
  qed
qed

lemma recv_waitall_smooth:
  "smooth rs \<Longrightarrow> n \<le> length (fst (content rs)) \<Longrightarrow>
    \<exists>rs'. recv_waitall n rs got = (got @ take n (fst (content rs)), rs') \<and> smooth rs' \<and> fst (content rs') = drop n (fst (content rs))"
proof (induction "rd_size rs" arbitrary: n rs got rule: less_induct)
  case less
  show ?case
  proof (cases "n = 0")
    case True
    then show ?thesis using less.prems by (simp add: recv_waitall.simps)
  next
    case False
    obtain bs rs1 where r: "k_read n rs = (Got bs, rs1)" "smooth rs1" "fst (content rs) = bs @ fst (content rs1)"
        "length bs \<le> n" "bs = [] \<longleftrightarrow> rs = []"
      using k_read_smooth [OF less.prems(1)] False by auto
    then have ne: "bs \<noteq> []" using less.prems(2) False by auto
    have "rd_size rs1 < rd_size rs" using k_read_shorter [OF r(1) [symmetric] ne] .
    from less.hyps [OF this r(2), of "n - length bs" "got @ bs"] show ?thesis
      using False r ne less.prems(2) by (auto simp: recv_waitall.simps [of n])
  qed
qed

lemma raw_client_smooth:
  "smooth ks \<Longrightarrow> smooth rs \<Longrightarrow> roomy ws \<Longrightarrow> fst (content rs) = fst (content ks) @ extra \<Longrightarrow>
    raw_client ks rs ws sent out = Some (sent @ fst (content ks), out @ fst (content ks))"
proof (induction "rd_size ks" arbitrary: ks rs ws sent out rule: less_induct)
  case less
  obtain bs ks' where r: "k_read 1024 ks = (Got bs, ks')" "smooth ks'" "fst (content ks) = bs @ fst (content ks')"
      "length bs \<le> 1024" "bs = [] \<longleftrightarrow> ks = []"
    using k_read_smooth [OF less.prems(1), of 1024] by auto
  show ?case
  proof (cases "bs = []")
    case True
    then show ?thesis using r by (simp add: raw_client.simps)
  next
    case False
    obtain ws' where w: "write_once bs ws = (bs, ws')" "roomy ws'" using write_once_roomy [OF less.prems(3) r(4)] by blast
    obtain rs' where rs': "recv_waitall (length bs) rs [] = (bs, rs')" "smooth rs'" "fst (content rs') = fst (content ks') @ extra"
      using recv_waitall_smooth [OF less.prems(2), of "length bs" "[]"] less.prems(4) r(3) by auto
    have "rd_size ks' < rd_size ks" using k_read_shorter [OF r(1) [symmetric] False] .
    from less.hyps [OF this r(2) rs'(2) w(2) rs'(3)] show ?thesis
      using False r w rs' by (simp add: raw_client.simps [of ks] put_front_def)
  qed
qed

text \<open>The plain programs: on streams without interruptions and with writes that are taken in full, the
  server sends the client's bytes back and shows them, and the client sends and prints what is typed.\<close>
theorem raw_echo_roundtrip:
  assumes "smooth typed" "smooth up" "smooth down" "roomy wc" "roomy ws" "roomy tty"
    and "raw_echo up tty ws ([], []) = Some (shown, reply)" "fst (content up) = fst (content typed)" "fst (content down) = reply"
  shows "raw_client typed down wc [] [] = Some (fst (content typed), fst (content typed)) \<and> shown = fst (content typed)"
  using raw_echo_smooth [OF assms(2,6,5), of "([], [])"] raw_client_smooth [OF assms(1,3,4), of "[]"] assms(7-9) by simp

text \<open>A write that is taken in part loses the rest of its bytes, which the robust \<open>rio_writen\<close> would send.\<close>
theorem raw_echo_drops: "raw_echo [Chunk ''abc''] [] [Takes 1] ([], []) = Some (''abc'', ''a'')"
  by (simp add: raw_echo.simps write_once_def)

section \<open>Concrete runs\<close>

definition demo_rp :: rio_t where
  "demo_rp = \<lparr>rio_fd = 0, rio_cnt = 0, rio_bufptr = 0, rio_buf = replicate RIO_BUFSIZE NUL\<rparr>"

lemma demo_rp_len: "length (rio_buf demo_rp) = RIO_BUFSIZE"
  by (simp add: demo_rp_def)

definition demo_line :: string where "demo_line = ''hi'' @ [newline]"

lemma demo_scripts [simp]:
  "closes [Chunk ''h'', Rd_EINTR, Chunk [CHR ''i'', newline]]" "closes [Chunk demo_line]" "closes []" "takes_all []" "takes_all [Takes (Suc 0)]"
  "demo_line \<noteq> []" "NUL \<notin> set demo_line"
  by (simp_all add: closes_def takes_all_def demo_line_def)


theorem echoclient_prints_unechoed_witness:
  "snd (echoclient EOTHER demo_line (rio_readinitb 4 demo_rp, []) [] [] [] []) = demo_line"
proof -
  have nul: "NUL \<notin> set demo_line" by (simp add: demo_line_def)
  show ?thesis using echoclient_prints_unechoed [OF nul, of "[]" "(rio_readinitb 4 demo_rp, [])" EOTHER "[]" "[]" "[]"]
      rio_init_state [OF demo_rp_len] by simp
qed

definition psv_demo_run :: "ps_event list" where
  "psv_demo_run = [Ps_accept (5, [Chunk demo_line], []) (Some 100), Ps_accept (6, [], []) (Some 101), Ps_child 100, Ps_sigchld]"

theorem process_server_refines_witness:
  "\<exists>s. run_events (psv_step EOTHER demo_rp) psv_demo_run (psv_init 3) = Some s \<and> psv_parent s = {3} \<and>
     psv_abs s = ([(101, 6, [])], [(5, demo_line)], [])"
proof -
  have "valid_events (psv_valid 3) psv_spec psv_demo_run ([], [], [])" by (simp add: psv_demo_run_def)
  moreover have "fold psv_spec psv_demo_run ([], [], []) = ([(101, 6, [])], [(5, demo_line)], [])" by (simp add: psv_demo_run_def)
  ultimately show ?thesis using process_server_refines [OF demo_rp_len, of 3 psv_demo_run EOTHER] by simp
qed

definition tsv_demo_run :: "tsv_event list" where
  "tsv_demo_run = [Ts_accept (Some 1) (5, [Chunk demo_line], []) True, Ts_thread 0, Ts_accept (Some 2) (6, [], []) True,
     Ts_thread 1, Ts_thread 1, Ts_thread 0, Ts_thread 0, Ts_thread 1, Ts_thread 0, Ts_thread 1]"

theorem thread_server_exact_witness:
  "\<exists>s. run_events (tsv_step EOTHER demo_rp) tsv_demo_run tsv_init = Some s \<and> tsv_heap s = Map.empty \<and> tsv_conns s = Map.empty \<and>
     mset (tsv_sent s) = {#(5, demo_line), (6, [])#}"
proof -
  obtain w5 where e5: "echo EOTHER (rio_readinitb 5 demo_rp, [Chunk demo_line]) [] [] = Some (w5, demo_line)"
    using echo_connection [OF demo_rp_len, of "[Chunk demo_line]" "[]" EOTHER 5] by auto
  obtain w6 where e6: "echo EOTHER (rio_readinitb 6 demo_rp, []) [] [] = Some (w6, [])"
    using echo_connection [OF demo_rp_len, of "[]" "[]" EOTHER 6] by auto
  have valid: "valid_events tsv_valid (tsv_next EOTHER demo_rp) tsv_demo_run tsv_init"
    by (simp add: tsv_demo_run_def tsv_init_def tsv_accept_def tsv_thread_def free_def e5 e6)
  have ended: "run_events (tsv_step EOTHER demo_rp) tsv_demo_run tsv_init = Some s \<Longrightarrow> set (tsv_threads s) \<subseteq> {Th_end}" for s
    by (simp add: tsv_demo_run_def tsv_init_def tsv_accept_def tsv_thread_def free_def e5 e6) auto
  from thread_server_exact [OF demo_rp_len valid] ended show ?thesis
    by (auto simp: tsv_demo_run_def add_mset_commute)
qed

theorem term_round_serves_witness:
  "\<exists>s'. term_round EOTHER demo_rp (True, Some (5, [Chunk demo_line], [])) \<lparr>tms_input = ''x'', tms_printed = [], tms_sent = [], tms_exited = False\<rparr> = Some s' \<and>
     \<not> tms_exited s' \<and> tms_sent s' = [(5, demo_line)]"
  using term_round_serves [OF demo_rp_len, of "[Chunk demo_line]" "[]" "\<lparr>tms_input = ''x'', tms_printed = [], tms_sent = [], tms_exited = False\<rparr>" EOTHER True 5]
  by simp

theorem raw_echo_roundtrip_witness:
  "raw_client [Chunk ''ab''] [Chunk ''a'', Chunk ''b''] [] [] [] = Some (''ab'', ''ab'')"
proof -
  have s: "smooth [Chunk ''ab'']" "smooth [Chunk ''a'', Chunk ''b'']" "roomy []" by (simp_all add: smooth_def roomy_def)
  have e: "raw_echo [Chunk ''ab''] [] [] ([], []) = Some (''ab'', ''ab'')" by (simp add: raw_echo.simps write_once_def)
  from raw_echo_roundtrip [OF s(1) s(1) s(2) s(3) s(3) s(3) e] show ?thesis by simp
qed

end
