(* ===== verification/Tiny_Server.thy ===== *)
theory Tiny_Server
  imports Tiny_Web
begin

text \<open>
  The server process of \<open>socket/csapp/tiny_web.c\<close>: the accept loop of \<open>main\<close> around \<open>doit\<close>, and the child that
  \<open>serve_dynamic\<close> forks. A child whose \<open>execve\<close> fails does not exit: it returns from \<open>doit\<close>, closes the connection and accepts
  the next one, while its parent waits for it. The clients are numbered in the order of their connections; a descriptor
  number may be used again, a client's number is not.
\<close>

text \<open>What becomes of the child: it cannot be forked, \<open>execve\<close> fails, or the program runs, prints, and exits.\<close>

datatype exec_ans = No_fork | Exec_fail | Exec_ran string

text \<open>\<open>tn_sent\<close>: what the clients have been sent, in order. \<open>tn_stuck\<close>: the clients of the processes that wait in
  \<open>serve_dynamic\<close> for a child that does not exit, each with its connection open. \<open>tn_stdout\<close>: the client whose connection is the standard output of
  the process that accepts connections, if it is not the terminal.\<close>

record tiny_server =
  tn_sent :: "(nat \<times> string) list"
  tn_stuck :: "nat list"
  tn_stdout :: "nat option"
  tn_closed :: "nat list"

definition tiny_init :: tiny_server where
  "tiny_init = \<lparr>tn_sent = [], tn_stuck = [], tn_stdout = None, tn_closed = []\<rparr>"

text \<open>The end of \<open>serve_dynamic\<close>. When the program runs, it prints into the connection and the parent goes on; when
  it does not, the child goes on, with the connection as its standard output.\<close>

definition run_child :: "exec_ans \<Rightarrow> nat \<Rightarrow> tiny_server \<Rightarrow> tiny_server" where
  "run_child ans c s = (case ans of
     No_fork \<Rightarrow> s
   | Exec_ran text \<Rightarrow> s\<lparr>tn_sent := tn_sent s @ [(c, text)]\<rparr>
   | Exec_fail \<Rightarrow> s\<lparr>tn_stuck := tn_stuck s @ [c], tn_stdout := Some c\<rparr>)"

fun tiny_acts :: "(string \<Rightarrow> string \<Rightarrow> exec_ans) \<Rightarrow> nat \<Rightarrow> tiny_act list \<Rightarrow> tiny_server \<Rightarrow> tiny_server" where
  "tiny_acts exec c [] s = s"
| "tiny_acts exec c (Send bs # as) s = tiny_acts exec c as (s\<lparr>tn_sent := tn_sent s @ [(c, bs)]\<rparr>)"
| "tiny_acts exec c (Run_cgi filename cgiargs # as) s = tiny_acts exec c as (run_child (exec filename cgiargs) c s)"

text \<open>One turn of \<open>main\<close>: the accepted connection with what its client sends. An \<open>accept\<close> that fails gives a descriptor on
  which every read fails.\<close>

definition tiny_turn :: "tiny_files \<Rightarrow> (string \<Rightarrow> string \<Rightarrow> exec_ans) \<Rightarrow> rio_t \<Rightarrow> nat \<times> tiny_stack \<times> rd_event list \<Rightarrow> tiny_server \<Rightarrow> tiny_server option" where
  "tiny_turn fs exec rp conn s = (case conn of (c, j, ks) \<Rightarrow> do {
     as \<leftarrow> doit fs j 0 rp ks;
     let s' = tiny_acts exec c as s;
     Some (s'\<lparr>tn_closed := tn_closed s' @ [c]\<rparr>) })"

fun tiny_main :: "tiny_files \<Rightarrow> (string \<Rightarrow> string \<Rightarrow> exec_ans) \<Rightarrow> rio_t \<Rightarrow> (nat \<times> tiny_stack \<times> rd_event list) list \<Rightarrow> tiny_server \<Rightarrow> tiny_server option" where
  "tiny_main fs exec rp [] s = Some s"
| "tiny_main fs exec rp (conn # conns) s = do { s' \<leftarrow> tiny_turn fs exec rp conn s; tiny_main fs exec rp conns s' }"

text \<open>A client sees the end of the answer when no process has its connection open any more.\<close>

definition sees_end :: "nat \<Rightarrow> tiny_server \<Rightarrow> bool" where
  "sees_end c s \<longleftrightarrow> c \<in> set (tn_closed s) \<and> c \<notin> set (tn_stuck s) \<and> tn_stdout s \<noteq> Some c"

text \<open>The bytes a client has got.\<close>

definition got :: "nat \<Rightarrow> tiny_server \<Rightarrow> string" where
  "got c s = concat (map snd (filter (\<lambda>p. fst p = c) (tn_sent s)))"

section \<open>Lemmas\<close>

lemma got_other [simp]: "c \<noteq> d \<Longrightarrow> got c (s\<lparr>tn_sent := tn_sent s @ [(d, bs)]\<rparr>) = got c s"
  by (simp add: got_def)

lemma got_own [simp]: "got c (s\<lparr>tn_sent := tn_sent s @ [(c, bs)]\<rparr>) = got c s @ bs"
  by (simp add: got_def)

lemma got_fields [simp]: "got c (s\<lparr>tn_stuck := x\<rparr>) = got c s" "got c (s\<lparr>tn_stdout := y\<rparr>) = got c s" "got c (s\<lparr>tn_closed := z\<rparr>) = got c s"
  by (simp_all add: got_def)

text \<open>What one connection does to the state leaves the others alone.\<close>

lemma run_child_frame:
  "tn_closed (run_child ans c s) = tn_closed s"
  "d \<noteq> c \<Longrightarrow> got d (run_child ans c s) = got d s"
  "set (tn_stuck s) \<subseteq> set (tn_stuck (run_child ans c s))" "set (tn_stuck (run_child ans c s)) \<subseteq> insert c (set (tn_stuck s))"
  "tn_stdout (run_child ans c s) \<in> {tn_stdout s, Some c}"
  by (auto simp: run_child_def split: exec_ans.splits)

lemma tiny_acts_frame:
  "tn_closed (tiny_acts exec c as s) = tn_closed s \<and> (d \<noteq> c \<longrightarrow> got d (tiny_acts exec c as s) = got d s) \<and>
   set (tn_stuck s) \<subseteq> set (tn_stuck (tiny_acts exec c as s)) \<and> set (tn_stuck (tiny_acts exec c as s)) \<subseteq> insert c (set (tn_stuck s)) \<and>
   tn_stdout (tiny_acts exec c as s) \<in> {tn_stdout s, Some c}"
proof (induction exec c as s rule: tiny_acts.induct)
  case (3 exec c filename cgiargs as s)
  then show ?case
    using run_child_frame [where ans = "exec filename cgiargs" and c = c and s = s] by fastforce
qed auto

lemma tiny_turn_frame:
  assumes "tiny_turn fs exec rp (c, j, ks) s = Some s'"
  shows "tn_closed s' = tn_closed s @ [c]" "d \<noteq> c \<Longrightarrow> got d s' = got d s" "set (tn_stuck s) \<subseteq> set (tn_stuck s')"
    "set (tn_stuck s') \<subseteq> insert c (set (tn_stuck s))" "tn_stdout s' \<in> {tn_stdout s, Some c}"
  using assms tiny_acts_frame [where exec = exec and c = c and s = s and d = d]
  by (auto simp: tiny_turn_def bind_eq_Some_conv Let_def; blast)+

lemma tiny_main_frame:
  assumes "tiny_main fs exec rp conns s = Some s'" "d \<notin> fst ` set conns"
  shows "got d s' = got d s \<and> (d \<in> set (tn_stuck s) \<longleftrightarrow> d \<in> set (tn_stuck s')) \<and> (sees_end d s \<longrightarrow> sees_end d s')"
  using assms
proof (induction conns arbitrary: s)
  case (Cons conn conns)
  obtain c j ks where conn: "conn = (c, j, ks)" by (cases conn)
  with Cons.prems obtain s1 where s1: "tiny_turn fs exec rp (c, j, ks) s = Some s1" "tiny_main fs exec rp conns s1 = Some s'"
    by (auto simp: bind_eq_Some_conv)
  have d: "d \<noteq> c" "d \<notin> fst ` set conns" using Cons.prems(2) conn by auto
  note f = tiny_turn_frame(1,3-5) [OF s1(1)] tiny_turn_frame(2) [OF s1(1) d(1)]
  show ?case using Cons.IH [OF s1(2) d(2)] f d(1) by (auto simp: sees_end_def)
qed simp

section \<open>Properties\<close>



subsection \<open>Witnesses\<close>

definition demo_exec :: "string \<Rightarrow> string \<Rightarrow> exec_ans" where
  "demo_exec f q = (if f = ''./cgi-bin/adder'' then (case cgi_adder (Some q) of Some text \<Rightarrow> Exec_ran text | None \<Rightarrow> Exec_ran []) else Exec_fail)"

definition adder_target :: string where
  "adder_target = ''/cgi-bin/adder'' @ ''?'' @ dec_int 3 @ ''&'' @ dec_int 4"

definition adder_chunks :: "rd_event list" where
  "adder_chunks = [Chunk (request_line ''GET'' adder_target ''HTTP/1.0''), Rd_EINTR, Chunk (header_block [''Host: x'' @ [CR]])]"

definition static_chunks :: "rd_event list" where
  "static_chunks = [Chunk (request_line ''GET'' ''/a'' ''HTTP/1.0''), Chunk (header_block [])]"

lemma adder_target_text: "adder_target = ''/cgi-bin/adder?3&4''"
  by code_simp

lemma demo_adder_ok: "request_ok ''GET'' adder_target ''HTTP/1.0''"
  by (simp add: request_ok_def request_line_def is_space_def MAXLINE_def adder_target_text)

lemma demo_header_ok: "\<forall>h \<in> set [''Host: x'' @ [CR]]. header_ok h"
  by (simp add: header_ok_def MAXLINE_def)

lemma adder_content_bytes:
  "content adder_chunks = (request_line ''GET'' adder_target ''HTTP/1.0'' @ header_block [''Host: x'' @ [CR]] @ [], False)"
  by (simp add: adder_chunks_def request_line_def header_block_def)

lemma static_content_bytes:
  "content static_chunks = (request_line ''GET'' ''/a'' ''HTTP/1.0'' @ header_block [] @ [], False)"
  by (simp add: static_chunks_def request_line_def header_block_def)

lemma demo_static_answer: "doit demo_files demo_stack 0 demo_rio static_chunks = tiny_respond demo_files demo_stack ''/a''"
  using doit_request [OF demo_request_ok static_content_bytes _ demo_rio_len] by (simp add: strcaseeq_def)

lemma demo_adder_answer: "doit demo_files demo_stack 0 demo_rio adder_chunks = tiny_respond demo_files demo_stack adder_target"
  using doit_request [OF demo_adder_ok adder_content_bytes demo_header_ok demo_rio_len] by (simp add: strcaseeq_def)

lemma tiny_one_turn:
  "doit fs j 0 rp ks \<noteq> None \<Longrightarrow> \<exists>s'. tiny_main fs exec rp [(c, j, ks)] s = Some s'"
  by (auto simp: tiny_turn_def Let_def)

lemma demo_files_stat: "tf_stat demo_files f = Some demo_stat" "tf_mmap demo_files f = Some ''hi''"
  by (simp_all add: demo_files_def)

lemma demo_parse: "parse_uri ''/a'' = Some (True, ''./a'', [])" "parse_uri adder_target = Some (False, ''./cgi-bin/adder'', ''3&4'')"
  by code_simp+



end
