(* ===== verification/Http_Conn.thy ===== *)
theory Http_Conn
  imports C_String
begin

text \<open>
  The HTTP connection of the thread pool server, \<open>socket/pool/http_conn.h\<close> and \<open>http_conn.cpp\<close>. The
  object is a record; the pointers \<open>m_url\<close>, \<open>m_version\<close> and \<open>m_host\<close> point into \<open>m_read_buf\<close> and are
  offsets. System calls are recorded in \<open>hc_log\<close>; their answers are arguments. \<open>None\<close> is an access
  outside a buffer. Text printed for the operator is not kept.
\<close>

section \<open>The object\<close>

definition FILENAME_LEN :: nat where "FILENAME_LEN = 200"
definition READ_BUFFER_SIZE :: nat where "READ_BUFFER_SIZE = 2048"
definition WRITE_BUFFER_SIZE :: nat where "WRITE_BUFFER_SIZE = 1024"

datatype http_method = M_GET | M_POST | M_HEAD | M_PUT | M_DELETE | M_TRACE | M_OPTIONS | M_CONNECT | M_PATCH

datatype check_state = CHECK_STATE_REQUESTLINE | CHECK_STATE_HEADER | CHECK_STATE_CONNECT

datatype http_code = NO_REQUEST | GET_REQUEST | BAD_REQUEST | NO_RESOURCE | FORBIDDEN_REQUEST | FILE_REQUEST |
  INTERNAL_ERROR | CLOSED_CONNECTION

datatype line_status = LINE_OK | LINE_BAD | LINE_OPEN

text \<open>\<open>m_file_address\<close>: null, a mapping of a file, or \<open>MAP_FAILED\<close>.\<close>

datatype file_map = Null_map | Mapped string | Map_failed

record file_stat =
  fs_roth :: bool
  fs_isdir :: bool
  fs_size :: nat

datatype hc_call = Epoll_add int | Epoll_del int | Epoll_mod_in int | Epoll_mod_out int | Close_fd int |
  Set_nonblocking int | Set_reuseaddr int | Munmap file_map nat | Writev string

record http_conn =
  m_user_count :: int
  m_sockfd :: int
  m_read_buf :: string
  m_read_idx :: nat
  m_checked_idx :: nat
  m_start_line :: nat
  m_write_buf :: string
  m_check_state :: check_state
  m_method :: http_method
  m_real_file :: string
  m_url :: "nat option"
  m_version :: "nat option"
  m_host :: "nat option"
  m_content_lenght :: int
  m_linger :: bool
  m_file_address :: file_map
  m_file_stat :: file_stat
  m_iv :: "string list"
  hc_log :: "hc_call list"

text \<open>\<open>m_write_buf\<close> is kept up to \<open>m_write_idx\<close>, its length. An \<open>iovec\<close> is the bytes it covers.\<close>

abbreviation m_write_idx :: "http_conn \<Rightarrow> nat" where "m_write_idx s \<equiv> length (m_write_buf s)"

abbreviation log_call :: "hc_call \<Rightarrow> http_conn \<Rightarrow> http_conn" where
  "log_call c s \<equiv> s\<lparr>hc_log := hc_log s @ [c]\<rparr>"

section \<open>Descriptors and the life of a connection\<close>

definition addfd :: "int \<Rightarrow> http_conn \<Rightarrow> http_conn" where
  "addfd fd s = log_call (Set_nonblocking fd) (log_call (Epoll_add fd) s)"

definition removefd :: "int \<Rightarrow> http_conn \<Rightarrow> http_conn" where
  "removefd fd s = log_call (Close_fd fd) (log_call (Epoll_del fd) s)"

definition close_conn :: "bool \<Rightarrow> http_conn \<Rightarrow> http_conn" where
  "close_conn real_close s =
     (if real_close \<and> m_sockfd s \<noteq> -1
      then let s1 = removefd (m_sockfd s) s in s1\<lparr>m_sockfd := -1, m_user_count := m_user_count s1 - 1\<rparr>
      else s)"

definition hc_reset :: "http_conn \<Rightarrow> http_conn" where
  "hc_reset s = s\<lparr>m_check_state := CHECK_STATE_REQUESTLINE, m_linger := False, m_method := M_GET, m_url := None,
     m_version := None, m_content_lenght := 0, m_host := None, m_start_line := 0, m_checked_idx := 0, m_read_idx := 0,
     m_write_buf := [], m_read_buf := replicate READ_BUFFER_SIZE NUL, m_real_file := []\<rparr>"

definition hc_init :: "int \<Rightarrow> http_conn \<Rightarrow> http_conn" where
  "hc_init sockfd s = (
     let s1 = s\<lparr>m_sockfd := sockfd\<rparr>;
       s2 = addfd sockfd (log_call (Set_reuseaddr sockfd) s1) in
     hc_reset (s2\<lparr>m_user_count := m_user_count s2 + 1\<rparr>))"

section \<open>Reading\<close>

text \<open>What the calls of \<open>recv\<close> find; a finished list is \<open>EAGAIN\<close>.\<close>

datatype recv_event = Recv_data string | Recv_eof | Recv_EAGAIN | Recv_error

definition store_bytes :: "nat \<Rightarrow> string \<Rightarrow> string \<Rightarrow> string" where
  "store_bytes i bs buf = take i buf @ bs @ drop (i + length bs) buf"

text \<open>A \<open>recv\<close> into a full buffer asks for 0 bytes and returns 0; the loop then ends as at end of
  file, also when more bytes are queued than the buffer takes.\<close>

fun hc_read_loop :: "recv_event list \<Rightarrow> http_conn \<Rightarrow> bool \<times> recv_event list \<times> http_conn" where
  "hc_read_loop [] s = (m_read_idx s < READ_BUFFER_SIZE, [], s)"
| "hc_read_loop (e # es) s =
     (if m_read_idx s \<ge> READ_BUFFER_SIZE then (False, e # es, s)
      else case e of
          Recv_EAGAIN \<Rightarrow> (True, es, s)
        | Recv_error \<Rightarrow> (False, es, s)
        | Recv_eof \<Rightarrow> (False, es, s)
        | Recv_data bs \<Rightarrow>
            let room = READ_BUFFER_SIZE - m_read_idx s; got = take room bs;
              s1 = s\<lparr>m_read_buf := store_bytes (m_read_idx s) got (m_read_buf s), m_read_idx := m_read_idx s + length got\<rparr> in
            if bs = [] then (False, es, s)
            else if length bs \<le> room then hc_read_loop es s1
            else (False, Recv_data (drop room bs) # es, s1))"

definition hc_read :: "recv_event list \<Rightarrow> http_conn \<Rightarrow> bool \<times> recv_event list \<times> http_conn" where
  "hc_read es s = (if m_read_idx s \<ge> READ_BUFFER_SIZE then (False, es, s) else hc_read_loop es s)"

section \<open>Parsing\<close>

text \<open>The line splitter. Its loop index is \<open>m_checked_idx\<close>.\<close>

function parse_line :: "http_conn \<Rightarrow> line_status \<times> http_conn" where
  "parse_line s =
     (if m_checked_idx s < m_read_idx s then
        let i = m_checked_idx s; temp = m_read_buf s ! i in
        if temp = CR then
          if i + 1 = m_read_idx s then (LINE_OPEN, s)
          else if m_read_buf s ! (i + 1) = LF
            then (LINE_OK, s\<lparr>m_read_buf := (m_read_buf s)[i := NUL, i + 1 := NUL], m_checked_idx := i + 2\<rparr>)
          else (LINE_BAD, s)
        else if temp = LF then
          if i > 1 \<and> m_read_buf s ! (i - 1) = CR
            then (LINE_OK, s\<lparr>m_read_buf := (m_read_buf s)[i - 1 := NUL, i := NUL], m_checked_idx := i + 1\<rparr>)
          else (LINE_BAD, s)
        else parse_line (s\<lparr>m_checked_idx := i + 1\<rparr>)
      else (LINE_OPEN, s))"
  by auto
termination by (relation "measure (\<lambda>s. m_read_idx s - m_checked_idx s)") auto

declare parse_line.simps [simp del]

text \<open>C strings at an offset of the buffer, and the searches on them as offsets.\<close>

definition cstr_at :: "nat \<Rightarrow> string \<Rightarrow> string" where
  "cstr_at off buf = cstr (drop off buf)"

definition pbrk_at :: "nat \<Rightarrow> string \<Rightarrow> string \<Rightarrow> nat option" where
  "pbrk_at off buf accept = (
     let l = cstr_at off buf; k = length (takeWhile (\<lambda>c. c \<notin> set accept) l) in
     if k < length l then Some (off + k) else None)"

definition spn_at :: "nat \<Rightarrow> string \<Rightarrow> string \<Rightarrow> nat" where
  "spn_at off buf accept = off + length (takeWhile (\<lambda>c. c \<in> set accept) (cstr_at off buf))"

abbreviation blanks :: string where "blanks \<equiv> [CHR '' '', TAB]"

text \<open>The last part of \<open>parse_request_line\<close>, once the version is accepted.\<close>

definition parse_url :: "nat \<Rightarrow> http_conn \<Rightarrow> http_code \<times> http_conn" where
  "parse_url url s = (
     let url' = (if strncaseeq (cstr_at url (m_read_buf s)) ''http://'' 7
                 then pbrk_at (url + 7) (m_read_buf s) ''/'' else Some url);
       s1 = s\<lparr>m_url := url'\<rparr> in
     case url' of
       None \<Rightarrow> (BAD_REQUEST, s1)
     | Some u \<Rightarrow> if m_read_buf s1 ! u \<noteq> CHR ''/'' then (BAD_REQUEST, s1)
                 else (NO_REQUEST, s1\<lparr>m_check_state := CHECK_STATE_HEADER\<rparr>))"

text \<open>Its middle part, once the method is accepted: \<open>url\<close> is the first byte behind it.\<close>

definition parse_version :: "nat \<Rightarrow> http_conn \<Rightarrow> http_code \<times> http_conn" where
  "parse_version url s = (
     case pbrk_at url (m_read_buf s) blanks of
       None \<Rightarrow> (BAD_REQUEST, s\<lparr>m_version := None\<rparr>)
     | Some q \<Rightarrow>
         let buf = (m_read_buf s)[q := NUL];
           v = spn_at (q + 1) buf blanks;
           s1 = s\<lparr>m_read_buf := buf, m_version := Some v\<rparr> in
         if \<not> strcaseeq (cstr_at v buf) ''HTTP/1.1'' then (BAD_REQUEST, s1)
         else parse_url url s1)"

definition parse_request_line :: "nat \<Rightarrow> http_conn \<Rightarrow> http_code \<times> http_conn" where
  "parse_request_line text s = (
     case pbrk_at text (m_read_buf s) blanks of
       None \<Rightarrow> (BAD_REQUEST, s\<lparr>m_url := None\<rparr>)
     | Some p \<Rightarrow>
         let buf = (m_read_buf s)[p := NUL];
           s1 = s\<lparr>m_read_buf := buf, m_url := Some (p + 1)\<rparr> in
         if \<not> strcaseeq (cstr_at text buf) ''GET'' then (BAD_REQUEST, s1)
         else
           let url = spn_at (p + 1) buf blanks in
           parse_version url (s1\<lparr>m_method := M_GET, m_url := Some url\<rparr>))"

definition pares_headers :: "nat \<Rightarrow> http_conn \<Rightarrow> http_code \<times> http_conn" where
  "pares_headers text s = (
     let l = cstr_at text (m_read_buf s) in
     if l = [] then
       if m_content_lenght s \<noteq> 0 then (NO_REQUEST, s\<lparr>m_check_state := CHECK_STATE_CONNECT\<rparr>)
       else (GET_REQUEST, s)
     else if strncaseeq l ''Connection:'' 11 then
       (NO_REQUEST, if strcaseeq (skipspn (drop 11 l) blanks) ''keep-alive'' then s\<lparr>m_linger := True\<rparr> else s)
     else if strncaseeq l ''Content-Length:'' 15 then
       (NO_REQUEST, s\<lparr>m_content_lenght := atoi (skipspn (drop 15 l) blanks)\<rparr>)
     else if strncaseeq l ''Host:'' 5 then
       (NO_REQUEST, s\<lparr>m_host := Some (spn_at (text + 5) (m_read_buf s) blanks)\<rparr>)
     else (NO_REQUEST, s))"

text \<open>The sum is of type \<open>int\<close>, and \<open>text[m_content_lenght] = 0\<close> may lie outside the buffer: \<open>None\<close> is an overflow of the
  one or an overrun by the other. (A number too large for \<open>atoi\<close> ends here as well.)\<close>

definition INT_MAX :: int where "INT_MAX = 2 ^ 31 - 1"

definition pares_content :: "nat \<Rightarrow> http_conn \<Rightarrow> (http_code \<times> http_conn) option" where
  "pares_content text s =
     (if m_content_lenght s + int (m_checked_idx s) > INT_MAX then None
      else if int (m_read_idx s) \<ge> m_content_lenght s + int (m_checked_idx s) then
        let i = int text + m_content_lenght s in
        if 0 \<le> i \<and> i < int READ_BUFFER_SIZE
        then Some (GET_REQUEST, s\<lparr>m_read_buf := (m_read_buf s)[nat i := NUL]\<rparr>)
        else None
      else Some (NO_REQUEST, s))"

text \<open>The files: \<open>stat\<close>, and \<open>open\<close> with \<open>mmap\<close>.\<close>

record web_files =
  wf_stat :: "string \<Rightarrow> file_stat option"
  wf_map :: "string \<Rightarrow> string option"

abbreviation doc_root :: string where "doc_root \<equiv> ''.''"

definition do_request :: "web_files \<Rightarrow> http_conn \<Rightarrow> (http_code \<times> http_conn) option" where
  "do_request fs s = do {
     u \<leftarrow> m_url s;
     let file = doc_root @ take (FILENAME_LEN - length doc_root - 1) (cstr_at u (m_read_buf s));
     let s1 = s\<lparr>m_real_file := file\<rparr>;
     Some (case wf_stat fs file of
        None \<Rightarrow> (NO_RESOURCE, s1)
      | Some st \<Rightarrow>
          let s2 = s1\<lparr>m_file_stat := st\<rparr> in
          if \<not> fs_roth st then (FORBIDDEN_REQUEST, s2)
          else if fs_isdir st then (BAD_REQUEST, s2)
          else (FILE_REQUEST, s2\<lparr>m_file_address :=
            (case wf_map fs file of Some data \<Rightarrow> Mapped data | None \<Rightarrow> Map_failed)\<rparr>))
   }"

text \<open>What the line splitter and the handlers keep.\<close>

lemma parse_line_frame:
  "parse_line s = (ls, s') \<Longrightarrow> m_read_idx s' = m_read_idx s \<and> m_start_line s' = m_start_line s \<and> m_check_state s' = m_check_state s \<and>
    m_checked_idx s \<le> m_checked_idx s' \<and> length (m_read_buf s') = length (m_read_buf s) \<and>
    (m_checked_idx s \<le> m_read_idx s \<longrightarrow> m_checked_idx s' \<le> m_read_idx s')"
proof (induction s rule: parse_line.induct)
  case (1 s)
  let ?i = "m_checked_idx s"
  show ?case
  proof (cases "m_checked_idx s < m_read_idx s \<and> m_read_buf s ! ?i \<noteq> CR \<and> m_read_buf s ! ?i \<noteq> LF")
    case True
    with "1.IH" [OF _ refl refl] "1.prems" show ?thesis by (auto simp: parse_line.simps [of s])
  next
    case False
    with "1.prems" show ?thesis by (auto simp: parse_line.simps [of s] Let_def split: if_splits)
  qed
qed

lemma parse_url_frame: "m_read_idx (snd (parse_url u s)) = m_read_idx s \<and> m_checked_idx (snd (parse_url u s)) = m_checked_idx s \<and>
    m_start_line (snd (parse_url u s)) = m_start_line s \<and> length (m_read_buf (snd (parse_url u s))) = length (m_read_buf s) \<and>
    (m_check_state s = CHECK_STATE_REQUESTLINE \<longrightarrow> m_check_state (snd (parse_url u s)) \<noteq> CHECK_STATE_CONNECT)"
  by (simp add: parse_url_def Let_def split: option.splits)

lemma parse_request_line_frame:
  "m_read_idx (snd (parse_request_line t s)) = m_read_idx s \<and> m_checked_idx (snd (parse_request_line t s)) = m_checked_idx s \<and>
    m_start_line (snd (parse_request_line t s)) = m_start_line s \<and>
    length (m_read_buf (snd (parse_request_line t s))) = length (m_read_buf s) \<and>
    (m_check_state s = CHECK_STATE_REQUESTLINE \<longrightarrow> m_check_state (snd (parse_request_line t s)) \<noteq> CHECK_STATE_CONNECT)"
  by (simp add: parse_request_line_def parse_version_def parse_url_frame Let_def split: option.splits)

lemma pares_headers_frame:
  "m_read_idx (snd (pares_headers t s)) = m_read_idx s \<and> m_checked_idx (snd (pares_headers t s)) = m_checked_idx s \<and>
    m_start_line (snd (pares_headers t s)) = m_start_line s \<and> m_read_buf (snd (pares_headers t s)) = m_read_buf s"
  by (simp add: pares_headers_def Let_def)

lemma pares_content_frame:
  "pares_content t s = Some (ret, s') \<Longrightarrow> m_read_idx s' = m_read_idx s \<and> m_checked_idx s' = m_checked_idx s \<and>
    m_start_line s' = m_start_line s \<and> m_check_state s' = m_check_state s"
  by (auto simp: pares_content_def Let_def split: if_splits)

lemma parse_line_advances: "parse_line s = (LINE_OK, s') \<Longrightarrow> m_checked_idx s < m_checked_idx s' \<and> m_checked_idx s < m_read_idx s"
proof (induction s rule: parse_line.induct)
  case (1 s)
  show ?case
  proof (cases "m_checked_idx s < m_read_idx s \<and> m_read_buf s ! m_checked_idx s \<noteq> CR \<and> m_read_buf s ! m_checked_idx s \<noteq> LF")
    case True
    with "1.IH" [OF _ refl refl] "1.prems" show ?thesis by (auto simp: parse_line.simps [of s])
  next
    case False
    with "1.prems" show ?thesis by (auto simp: parse_line.simps [of s] Let_def split: if_splits)
  qed
qed

text \<open>One round of the loop of \<open>process_read\<close>, whose local variable is \<open>line_status\<close>: \<open>Inl\<close> the loop or the
  function is left, \<open>Inr\<close> it goes on. \<open>None\<close> is a fault.\<close>

definition process_read_round ::
  "web_files \<Rightarrow> line_status \<Rightarrow> http_conn \<Rightarrow> (http_code \<times> http_conn) option + (line_status \<times> http_conn)"
where
  "process_read_round fs line_status s = (
     let (line_status', s1) =
       (if m_check_state s = CHECK_STATE_CONNECT \<and> line_status = LINE_OK then (line_status, s) else parse_line s) in
     if line_status' \<noteq> LINE_OK then Inl (Some (NO_REQUEST, s1))
     else
       let text = m_start_line s1; s2 = s1\<lparr>m_start_line := m_checked_idx s1\<rparr> in
       (case m_check_state s2 of
          CHECK_STATE_REQUESTLINE \<Rightarrow>
            (case parse_request_line text s2 of (ret, s3) \<Rightarrow>
               if ret = BAD_REQUEST then Inl (Some (BAD_REQUEST, s3)) else Inr (line_status', s3))
        | CHECK_STATE_HEADER \<Rightarrow>
            (case pares_headers text s2 of (ret, s3) \<Rightarrow>
               if ret = BAD_REQUEST then Inl (Some (BAD_REQUEST, s3))
               else if ret = GET_REQUEST then Inl (do_request fs s3)
               else Inr (line_status', s3))
        | CHECK_STATE_CONNECT \<Rightarrow>
            (case pares_content text s2 of
               None \<Rightarrow> Inl None
             | Some (ret, s3) \<Rightarrow>
                 if ret = GET_REQUEST then Inl (do_request fs s3) else Inr (LINE_OPEN, s3))))"

definition read_measure :: "line_status \<Rightarrow> http_conn \<Rightarrow> nat" where
  "read_measure ls s = 2 * (m_read_idx s - m_checked_idx s) + (if ls = LINE_OK then 1 else 0)"

lemma process_read_round_decreases:
  assumes "process_read_round fs ls s = Inr (ls', s')"
  shows "read_measure ls' s' < read_measure ls s"
proof (cases "m_check_state s = CHECK_STATE_CONNECT \<and> ls = LINE_OK")
  case True
  with assms pares_content_frame show ?thesis
    by (fastforce simp: process_read_round_def read_measure_def split: option.splits if_splits)
next
  case False
  obtain l s1 where p: "parse_line s = (l, s1)" by fastforce
  with False assms have l: "l = LINE_OK" by (auto simp: process_read_round_def split: if_splits)
  have adv: "m_checked_idx s < m_checked_idx s1" "m_checked_idx s < m_read_idx s" "m_read_idx s1 = m_read_idx s"
    using parse_line_advances p l parse_line_frame [OF p] by auto
  let ?t = "m_start_line s1" and ?s2 = "s1\<lparr>m_start_line := m_checked_idx s1\<rparr>"
  have "m_read_idx s' = m_read_idx s \<and> m_checked_idx s' = m_checked_idx s1"
  proof (cases "m_check_state s1")
    case CHECK_STATE_REQUESTLINE
    with assms False p l have "s' = snd (parse_request_line ?t ?s2)"
      by (cases "parse_request_line ?t ?s2") (simp add: process_read_round_def Let_def split: if_splits)
    then show ?thesis using parse_request_line_frame [of ?t ?s2] adv(3) by simp
  next
    case CHECK_STATE_HEADER
    with assms False p l have "s' = snd (pares_headers ?t ?s2)"
      by (cases "pares_headers ?t ?s2") (simp add: process_read_round_def Let_def split: if_splits)
    then show ?thesis using pares_headers_frame [of ?t ?s2] adv(3) by simp
  next
    case CHECK_STATE_CONNECT
    with False p l have "process_read_round fs ls s = (case pares_content ?t ?s2 of None \<Rightarrow> Inl None
        | Some (ret, s3) \<Rightarrow> if ret = GET_REQUEST then Inl (do_request fs s3) else Inr (LINE_OPEN, s3))"
      by (auto simp: process_read_round_def Let_def)
    with assms have c: "(case pares_content ?t ?s2 of None \<Rightarrow> Inl None
        | Some (ret, s3) \<Rightarrow> if ret = GET_REQUEST then Inl (do_request fs s3) else Inr (LINE_OPEN, s3)) = Inr (ls', s')"
      by (simp only:)
    have "\<exists>ret. pares_content ?t ?s2 = Some (ret, s')"
    proof (cases "pares_content ?t ?s2")
      case (Some y)
      with c show ?thesis by (cases y) (simp split: if_splits)
    qed (use c in simp)
    then obtain ret where "pares_content ?t ?s2 = Some (ret, s')" ..
    from pares_content_frame [OF this] adv(3) show ?thesis by simp
  qed
  with adv show ?thesis by (auto simp: read_measure_def)
qed

function process_read_loop :: "web_files \<Rightarrow> line_status \<Rightarrow> http_conn \<Rightarrow> (http_code \<times> http_conn) option" where
  "process_read_loop fs line_status s = (case process_read_round fs line_status s of
     Inl r \<Rightarrow> r | Inr (line_status', s') \<Rightarrow> process_read_loop fs line_status' s')"
  by auto
termination
  by (relation "measure (\<lambda>(fs, ls, s). read_measure ls s)") (auto dest: process_read_round_decreases)

declare process_read_loop.simps [simp del]

definition process_read :: "web_files \<Rightarrow> http_conn \<Rightarrow> (http_code \<times> http_conn) option" where
  "process_read fs s = process_read_loop fs LINE_OK s"

section \<open>Writing\<close>

definition unmap :: "http_conn \<Rightarrow> http_conn" where
  "unmap s = (if m_file_address s \<noteq> Null_map
     then (log_call (Munmap (m_file_address s) (fs_size (m_file_stat s))) s)\<lparr>m_file_address := Null_map\<rparr> else s)"

text \<open>The answers of \<open>writev\<close>; a finished list is \<open>EAGAIN\<close>. Each call offers the whole \<open>iovec\<close>
  again, from its start.\<close>

datatype writev_event = Wv_takes nat | Wv_EAGAIN | Wv_error

fun hc_write_loop :: "writev_event list \<Rightarrow> int \<Rightarrow> int \<Rightarrow> http_conn \<Rightarrow> bool \<times> http_conn" where
  "hc_write_loop [] bytes_to_send bytes_have_send s = (True, log_call (Epoll_mod_out (m_sockfd s)) s)"
| "hc_write_loop (Wv_EAGAIN # evs) bytes_to_send bytes_have_send s = (True, log_call (Epoll_mod_out (m_sockfd s)) s)"
| "hc_write_loop (Wv_error # evs) bytes_to_send bytes_have_send s = (False, unmap s)"
| "hc_write_loop (Wv_takes n # evs) bytes_to_send bytes_have_send s = (
     let sent = take n (concat (m_iv s));
       s1 = log_call (Writev sent) s;
       bytes_to_send' = bytes_to_send - int (length sent);
       bytes_have_send' = bytes_have_send + int (length sent) in
     if bytes_to_send' \<le> bytes_have_send' then
       let s2 = unmap s1 in
       if m_linger s2 then (True, log_call (Epoll_mod_in (m_sockfd s2)) (hc_reset s2))
       else (False, log_call (Epoll_mod_in (m_sockfd s2)) s2)
     else hc_write_loop evs bytes_to_send' bytes_have_send' s1)"

definition hc_write :: "writev_event list \<Rightarrow> http_conn \<Rightarrow> bool \<times> http_conn" where
  "hc_write evs s =
     (if m_write_idx s = 0 then (True, hc_reset (log_call (Epoll_mod_in (m_sockfd s)) s))
      else hc_write_loop evs (int (m_write_idx s)) 0 s)"

text \<open>\<open>txt\<close> is the formatted text. Text that does not fit is dropped whole (its first part stays behind
  \<open>m_write_idx\<close>).\<close>

definition add_response :: "string \<Rightarrow> http_conn \<Rightarrow> bool \<times> http_conn" where
  "add_response txt s =
     (if m_write_idx s \<ge> WRITE_BUFFER_SIZE then (False, s)
      else if int (length txt) \<ge> int WRITE_BUFFER_SIZE - 1 - int (m_write_idx s) then (False, s)
      else (True, s\<lparr>m_write_buf := m_write_buf s @ txt\<rparr>))"

definition add_status_line :: "nat \<Rightarrow> string \<Rightarrow> http_conn \<Rightarrow> bool \<times> http_conn" where
  "add_status_line status title = add_response (''HTTP/1.1'' @ '' '' @ dec_nat status @ '' '' @ title @ crlf)"

definition add_content_length :: "nat \<Rightarrow> http_conn \<Rightarrow> bool \<times> http_conn" where
  "add_content_length content_length = add_response (''Content-Length: '' @ dec_nat content_length @ crlf)"

definition add_linger :: "http_conn \<Rightarrow> bool \<times> http_conn" where
  "add_linger s = add_response (''Connection: '' @ (if m_linger s then ''keep-alive'' else ''close'') @ crlf) s"

definition add_blank_line :: "http_conn \<Rightarrow> bool \<times> http_conn" where
  "add_blank_line = add_response crlf"

definition add_content :: "string \<Rightarrow> http_conn \<Rightarrow> bool \<times> http_conn" where
  "add_content content = add_response content"

definition add_headers :: "nat \<Rightarrow> http_conn \<Rightarrow> bool \<times> http_conn" where
  "add_headers content_length s =
     (True, snd (add_blank_line (snd (add_linger (snd (add_content_length content_length s))))))"

definition error_400_form :: string where
  "error_400_form = ''Your request has bad syntax or is inherently impossible to satisfy.'' @ [LF]"
definition error_403_form :: string where
  "error_403_form = ''You do not have permission to get file from this server.'' @ [LF]"
definition error_404_form :: string where
  "error_404_form = ''The requested file was not found on this server.'' @ [LF]"
definition error_500_form :: string where
  "error_500_form = ''There was an unusual problem serving the requested file.'' @ [LF]"

text \<open>The four error cases share this text: a page \<open>form\<close> under a status.\<close>

definition error_page :: "nat \<Rightarrow> string \<Rightarrow> string \<Rightarrow> http_conn \<Rightarrow> bool \<times> http_conn" where
  "error_page status title form s = (
     let s1 = snd (add_status_line status title s);
       s2 = snd (add_headers (length form) s1);
       (ok, s3) = add_content form s2 in
     if \<not> ok then (False, s3) else (True, s3\<lparr>m_iv := [m_write_buf s3]\<rparr>))"

definition mapped_bytes :: "file_map \<Rightarrow> string" where
  "mapped_bytes m = (case m of Mapped data \<Rightarrow> data | _ \<Rightarrow> [])"

definition process_write :: "http_code \<Rightarrow> http_conn \<Rightarrow> bool \<times> http_conn" where
  "process_write ret s = (case ret of
     INTERNAL_ERROR \<Rightarrow> error_page 500 ''Internal Error'' error_500_form s
   | BAD_REQUEST \<Rightarrow> error_page 400 ''Bad Request'' error_400_form s
   | NO_RESOURCE \<Rightarrow> error_page 404 ''Not Found'' error_404_form s
   | FORBIDDEN_REQUEST \<Rightarrow> error_page 403 ''Forbidden'' error_403_form s
   | FILE_REQUEST \<Rightarrow>
       let s1 = snd (add_status_line 200 ''OK'' s) in
       if fs_size (m_file_stat s1) \<noteq> 0 then
         let s2 = snd (add_headers (fs_size (m_file_stat s1)) s1) in
         (True, s2\<lparr>m_iv := [m_write_buf s2, take (fs_size (m_file_stat s2)) (mapped_bytes (m_file_address s2))]\<rparr>)
       else
         let ok_string = ''<html><body></body></html>'';
           s2 = snd (add_headers (length ok_string) s1) in
         (False, snd (add_content ok_string s2))
   | _ \<Rightarrow> (False, s))"

definition process :: "web_files \<Rightarrow> http_conn \<Rightarrow> http_conn option" where
  "process fs s = do {
     (read_ret, s1) \<leftarrow> process_read fs s;
     if read_ret = NO_REQUEST then Some (log_call (Epoll_mod_in (m_sockfd s1)) s1)
     else
       let (write_ret, s2) = process_write read_ret s1;
         s3 = (if \<not> write_ret then close_conn True s2 else s2) in
       Some (log_call (Epoll_mod_out (m_sockfd s3)) s3)
   }"

section \<open>Appending bytes to the read buffer\<close>

definition hc_ok :: "http_conn \<Rightarrow> bool" where
  "hc_ok s \<longleftrightarrow> length (m_read_buf s) = READ_BUFFER_SIZE \<and> m_start_line s \<le> m_checked_idx s \<and>
     m_checked_idx s \<le> m_read_idx s \<and> m_read_idx s \<le> READ_BUFFER_SIZE"

definition hc_feed :: "string \<Rightarrow> http_conn \<Rightarrow> http_conn" where
  "hc_feed bs s = s\<lparr>m_read_buf := store_bytes (m_read_idx s) bs (m_read_buf s), m_read_idx := m_read_idx s + length bs\<rparr>"

lemma length_store_bytes [simp]: "i + length bs \<le> length buf \<Longrightarrow> length (store_bytes i bs buf) = length buf"
  by (simp add: store_bytes_def)

lemma nth_store_bytes [simp]: "j < i \<Longrightarrow> i \<le> length buf \<Longrightarrow> store_bytes i bs buf ! j = buf ! j"
  by (simp add: store_bytes_def nth_append)

lemma take_store_bytes: "k \<le> i \<Longrightarrow> i \<le> length buf \<Longrightarrow> take k (store_bytes i bs buf) = take k buf"
  by (simp add: store_bytes_def min_def)

lemma store_bytes_upd: "j < i \<Longrightarrow> i \<le> length buf \<Longrightarrow> (store_bytes i bs buf)[j := c] = store_bytes i bs (buf[j := c])"
  by (simp add: store_bytes_def list_update_append take_update_swap drop_update_cancel)

text \<open>A string that ends at a NUL at \<open>n\<close> does not see what is stored behind it.\<close>

lemma cstr_at_take:
  assumes "off \<le> n" "n < length buf" "buf ! n = NUL"
  shows "cstr_at off buf = cstr (take (n - off) (drop off buf)) \<and> off + length (cstr_at off buf) \<le> n"
proof -
  have "drop (n - off) (drop off buf) = drop n buf" using assms(1) by simp
  also have "\<dots> = NUL # drop (Suc n) buf" using Cons_nth_drop_Suc [OF assms(2)] assms(3) by simp
  finally have "drop off buf = take (n - off) (drop off buf) @ NUL # drop (Suc n) buf"
    using append_take_drop_id [of "n - off" "drop off buf"] by simp
  then have "takeWhile (\<lambda>c. c \<noteq> NUL) (drop off buf) =
      takeWhile (\<lambda>c. c \<noteq> NUL) (take (n - off) (drop off buf) @ NUL # drop (Suc n) buf)"
    by (rule arg_cong)
  then have "cstr_at off buf = cstr (take (n - off) (drop off buf))"
    unfolding cstr_at_def cstr_def by (simp only: takeWhile_tail not_not)
  moreover have "length (cstr (take (n - off) (drop off buf))) \<le> n - off"
    unfolding cstr_def using length_takeWhile_le [of "\<lambda>c. c \<noteq> NUL" "take (n - off) (drop off buf)"] by simp
  ultimately show ?thesis using assms(1) by simp
qed

lemma cstr_at_len: "off \<le> n \<Longrightarrow> n < length buf \<Longrightarrow> buf ! n = NUL \<Longrightarrow> off + length (cstr_at off buf) \<le> n"
  using cstr_at_take by blast

lemma cstr_at_store:
  assumes "off \<le> n" "n < i" "i \<le> length buf" "i + length bs \<le> length buf" "buf ! n = NUL"
  shows "cstr_at off (store_bytes i bs buf) = cstr_at off buf"
proof -
  have "take (n - off) (drop off (store_bytes i bs buf)) = take (n - off) (drop off buf)"
    using assms by (simp add: take_drop take_store_bytes)
  then show ?thesis
    using cstr_at_take [of off n buf] cstr_at_take [of off n "store_bytes i bs buf"] assms by simp
qed

lemma pbrk_at_store:
  assumes "off \<le> n" "n < i" "i \<le> length buf" "i + length bs \<le> length buf" "buf ! n = NUL"
  shows "pbrk_at off (store_bytes i bs buf) acc = pbrk_at off buf acc"
  using cstr_at_store [OF assms] by (simp add: pbrk_at_def)

lemma spn_at_store:
  assumes "off \<le> n" "n < i" "i \<le> length buf" "i + length bs \<le> length buf" "buf ! n = NUL"
  shows "spn_at off (store_bytes i bs buf) acc = spn_at off buf acc"
  using cstr_at_store [OF assms] by (simp add: spn_at_def)

lemma pbrk_at_bound:
  assumes "off \<le> n" "n < length buf" "buf ! n = NUL" "pbrk_at off buf acc = Some p"
  shows "off \<le> p \<and> p < n"
  using cstr_at_take [OF assms(1-3)] assms(4) by (auto simp: pbrk_at_def Let_def split: if_splits)

lemma spn_at_bound:
  assumes "off \<le> n" "n < length buf" "buf ! n = NUL"
  shows "off \<le> spn_at off buf acc \<and> spn_at off buf acc \<le> n"
  using cstr_at_take [OF assms] length_takeWhile_le [of "\<lambda>c. c \<in> set acc" "cstr_at off buf"] by (auto simp: spn_at_def)

lemma parse_line_OK:
  "parse_line s = (LINE_OK, s') \<Longrightarrow> length (m_read_buf s) = READ_BUFFER_SIZE \<Longrightarrow> m_read_idx s \<le> READ_BUFFER_SIZE \<Longrightarrow>
    m_checked_idx s < m_checked_idx s' \<and> m_read_buf s' ! (m_checked_idx s' - 1) = NUL"
proof (induction s rule: parse_line.induct)
  case (1 s)
  let ?i = "m_checked_idx s"
  show ?case
  proof (cases "m_checked_idx s < m_read_idx s \<and> m_read_buf s ! ?i \<noteq> CR \<and> m_read_buf s ! ?i \<noteq> LF")
    case True
    with "1.IH" [OF _ refl refl] "1.prems" show ?thesis by (auto simp: parse_line.simps [of s])
  next
    case False
    with "1.prems" show ?thesis by (auto simp: parse_line.simps [of s] Let_def split: if_splits)
  qed
qed

lemma feed_simps [simp]:
  "m_checked_idx (hc_feed bs s) = m_checked_idx s" "m_start_line (hc_feed bs s) = m_start_line s"
  "m_read_idx (hc_feed bs s) = m_read_idx s + length bs" "m_check_state (hc_feed bs s) = m_check_state s"
  "m_read_buf (hc_feed bs s) = store_bytes (m_read_idx s) bs (m_read_buf s)"
  "m_content_lenght (hc_feed bs s) = m_content_lenght s" "m_linger (hc_feed bs s) = m_linger s"
  by (simp_all add: hc_feed_def)

lemma feed_updates:
  "(hc_feed bs s)\<lparr>m_checked_idx := i\<rparr> = hc_feed bs (s\<lparr>m_checked_idx := i\<rparr>)"
  "(hc_feed bs s)\<lparr>m_start_line := i\<rparr> = hc_feed bs (s\<lparr>m_start_line := i\<rparr>)"
  "(hc_feed bs s)\<lparr>m_check_state := st\<rparr> = hc_feed bs (s\<lparr>m_check_state := st\<rparr>)"
  "(hc_feed bs s)\<lparr>m_url := u\<rparr> = hc_feed bs (s\<lparr>m_url := u\<rparr>)"
  "(hc_feed bs s)\<lparr>m_method := m\<rparr> = hc_feed bs (s\<lparr>m_method := m\<rparr>)"
  "(hc_feed bs s)\<lparr>m_version := u\<rparr> = hc_feed bs (s\<lparr>m_version := u\<rparr>)"
  "(hc_feed bs s)\<lparr>m_host := u\<rparr> = hc_feed bs (s\<lparr>m_host := u\<rparr>)"
  "(hc_feed bs s)\<lparr>m_linger := b\<rparr> = hc_feed bs (s\<lparr>m_linger := b\<rparr>)"
  "(hc_feed bs s)\<lparr>m_content_lenght := c\<rparr> = hc_feed bs (s\<lparr>m_content_lenght := c\<rparr>)"
  by (simp_all add: hc_feed_def)

lemma feed_buf_upd:
  assumes "j < m_read_idx s" "m_read_idx s \<le> length (m_read_buf s)"
  shows "(hc_feed bs s)\<lparr>m_read_buf := (store_bytes (m_read_idx s) bs (m_read_buf s))[j := c]\<rparr> =
    hc_feed bs (s\<lparr>m_read_buf := (m_read_buf s)[j := c]\<rparr>)"
  using store_bytes_upd [OF assms] by (simp add: hc_feed_def)

lemma feed_buf_upd2:
  assumes "j < m_read_idx s" "k < m_read_idx s" "m_read_idx s \<le> length (m_read_buf s)"
  shows "(hc_feed bs s)\<lparr>m_read_buf := (store_bytes (m_read_idx s) bs (m_read_buf s))[j := c, k := c], m_checked_idx := i\<rparr> =
    hc_feed bs (s\<lparr>m_read_buf := (m_read_buf s)[j := c, k := c], m_checked_idx := i\<rparr>)"
  using store_bytes_upd [OF assms(1,3)] store_bytes_upd [of k "m_read_idx s" "(m_read_buf s)[j := c]"] assms
  by (simp add: hc_feed_def)

lemma parse_line_skip:
  "m_checked_idx s < m_read_idx s \<Longrightarrow> m_read_buf s ! m_checked_idx s \<noteq> CR \<Longrightarrow> m_read_buf s ! m_checked_idx s \<noteq> LF \<Longrightarrow>
    parse_line s = parse_line (s\<lparr>m_checked_idx := m_checked_idx s + 1\<rparr>)"
  by (simp add: parse_line.simps [of s])

lemma parse_line_feed:
  "parse_line s = (ls, s') \<Longrightarrow> m_read_idx s \<le> length (m_read_buf s) \<Longrightarrow>
    parse_line (hc_feed bs s) = (if ls = LINE_OK then (LINE_OK, hc_feed bs s') else parse_line (hc_feed bs s'))"
proof (induction s rule: parse_line.induct)
  case (1 s)
  let ?i = "m_checked_idx s"
  show ?case
  proof (cases "?i < m_read_idx s")
    case lt: True
    show ?thesis
    proof (cases "m_read_buf s ! ?i \<noteq> CR \<and> m_read_buf s ! ?i \<noteq> LF")
      case True
      with "1.IH" [OF lt refl refl] "1.prems" lt show ?thesis
        by (simp add: parse_line_skip [of s] parse_line_skip [of "hc_feed bs s"] feed_updates)
    next
      case False
      show ?thesis
      proof (cases "ls = LINE_OK")
        case ok: True
        with False lt "1.prems" show ?thesis
          by (auto simp: parse_line.simps [of s] parse_line.simps [of "hc_feed bs s"] Let_def feed_buf_upd2 split: if_splits)
      next
        case bad: False
        with False lt "1.prems" have "s' = s" by (auto simp: parse_line.simps [of s] Let_def split: if_splits)
        with bad show ?thesis by simp
      qed
    qed
  next
    case False
    with "1.prems" have "s' = s" "ls = LINE_OPEN" by (auto simp: parse_line.simps [of s])
    then show ?thesis by simp
  qed
qed

text \<open>The handlers of a complete line that ends with the NUL at \<open>n\<close>.\<close>

lemma parse_url_feed:
  assumes "url \<le> n" "n < m_read_idx s" "m_read_idx s + length bs \<le> length (m_read_buf s)" "m_read_buf s ! n = NUL"
  shows "parse_url url (hc_feed bs s) = (fst (parse_url url s), hc_feed bs (snd (parse_url url s)))"
proof -
  let ?i = "m_read_idx s" and ?buf = "m_read_buf s"
  have n: "n < ?i" "?i \<le> length ?buf" "?i + length bs \<le> length ?buf" "?buf ! n = NUL" using assms by auto
  note same = cstr_at_store [OF _ n] pbrk_at_store [OF _ n]
  show ?thesis
  proof (cases "strncaseeq (cstr_at url ?buf) ''http://'' 7")
    case True
    have "url + 7 \<le> n"
    proof -
      have "7 \<le> length (cstr_at url ?buf)" using strncaseeq_length [OF True] by simp
      then show ?thesis using cstr_at_len [of url n ?buf] assms by linarith
    qed
    then show ?thesis
      using True same [OF assms(1)] same [of "url + 7"] assms pbrk_at_bound [of "url + 7" n ?buf "''/''"]
      by (auto simp: parse_url_def Let_def feed_updates split: option.splits)
  next
    case False
    then show ?thesis using same [OF assms(1)] assms by (simp add: parse_url_def Let_def feed_updates)
  qed
qed

lemma parse_version_feed:
  assumes "url \<le> n" "n < m_read_idx s" "m_read_idx s + length bs \<le> length (m_read_buf s)" "m_read_buf s ! n = NUL"
  shows "parse_version url (hc_feed bs s) = (fst (parse_version url s), hc_feed bs (snd (parse_version url s)))"
proof (cases "pbrk_at url (m_read_buf s) blanks")
  case None
  with assms show ?thesis by (simp add: parse_version_def pbrk_at_store feed_updates)
next
  case (Some q)
  let ?buf = "(m_read_buf s)[q := NUL]"
  have q: "q < n" using pbrk_at_bound [OF assms(1) _ assms(4) Some] assms by simp
  have b: "n < m_read_idx s" "m_read_idx s \<le> length ?buf" "m_read_idx s + length bs \<le> length ?buf" "?buf ! n = NUL"
    using assms q by (simp_all add: nth_list_update)
  define v where "v = spn_at (q + 1) ?buf blanks"
  have v: "v \<le> n" using spn_at_bound [of "q + 1" n ?buf blanks] b q assms by (simp add: v_def)
  let ?s = "s\<lparr>m_read_buf := ?buf, m_version := Some v\<rparr>"
  have upd: "(store_bytes (m_read_idx s) bs (m_read_buf s))[q := NUL] = store_bytes (m_read_idx s) bs ?buf"
    using store_bytes_upd q assms by simp
  have feed: "(hc_feed bs s)\<lparr>m_read_buf := store_bytes (m_read_idx s) bs ?buf, m_version := Some v\<rparr> = hc_feed bs ?s"
    by (simp add: hc_feed_def)
  have same: "spn_at (q + 1) (store_bytes (m_read_idx s) bs ?buf) blanks = v"
    "cstr_at v (store_bytes (m_read_idx s) bs ?buf) = cstr_at v ?buf"
    using spn_at_store [OF _ b, of "q + 1" blanks] cstr_at_store [OF v b] q by (simp_all add: v_def)
  have "parse_version url (hc_feed bs s) = (if \<not> strcaseeq (cstr_at v ?buf) ''HTTP/1.1'' then (BAD_REQUEST, hc_feed bs ?s)
      else parse_url url (hc_feed bs ?s))"
    using Some pbrk_at_store [OF assms(1,2) _ assms(3,4)] upd feed same assms by (simp add: parse_version_def Let_def)
  moreover have "parse_version url s = (if \<not> strcaseeq (cstr_at v ?buf) ''HTTP/1.1'' then (BAD_REQUEST, ?s) else parse_url url ?s)"
    using Some by (simp add: parse_version_def Let_def v_def)
  moreover have "parse_url url (hc_feed bs ?s) = (fst (parse_url url ?s), hc_feed bs (snd (parse_url url ?s)))"
    using assms(1) b by (intro parse_url_feed [of _ n]) simp_all
  ultimately show ?thesis by simp
qed

lemma parse_request_line_feed:
  assumes "text \<le> n" "n < m_read_idx s" "m_read_idx s + length bs \<le> length (m_read_buf s)" "m_read_buf s ! n = NUL"
  shows "parse_request_line text (hc_feed bs s) =
    (fst (parse_request_line text s), hc_feed bs (snd (parse_request_line text s)))"
proof (cases "pbrk_at text (m_read_buf s) blanks")
  case None
  with assms show ?thesis by (simp add: parse_request_line_def pbrk_at_store feed_updates)
next
  case (Some p)
  let ?buf = "(m_read_buf s)[p := NUL]"
  have p: "p < n" using pbrk_at_bound [OF assms(1) _ assms(4) Some] assms by simp
  have b: "n < m_read_idx s" "m_read_idx s \<le> length ?buf" "m_read_idx s + length bs \<le> length ?buf" "?buf ! n = NUL"
    using assms p by (simp_all add: nth_list_update)
  define url where "url = spn_at (p + 1) ?buf blanks"
  have url: "url \<le> n" using spn_at_bound [of "p + 1" n ?buf blanks] b p assms by (simp add: url_def)
  let ?s1 = "s\<lparr>m_read_buf := ?buf, m_url := Some (p + 1)\<rparr>"
  let ?s2 = "?s1\<lparr>m_method := M_GET, m_url := Some url\<rparr>"
  have upd: "(store_bytes (m_read_idx s) bs (m_read_buf s))[p := NUL] = store_bytes (m_read_idx s) bs ?buf"
    using store_bytes_upd p assms by simp
  have feed: "(hc_feed bs s)\<lparr>m_read_buf := store_bytes (m_read_idx s) bs ?buf, m_url := Some (p + 1)\<rparr> = hc_feed bs ?s1"
    "(hc_feed bs ?s1)\<lparr>m_method := M_GET, m_url := Some url\<rparr> = hc_feed bs ?s2"
    by (simp_all add: hc_feed_def)
  have same: "spn_at (p + 1) (store_bytes (m_read_idx s) bs ?buf) blanks = url"
    "cstr_at text (store_bytes (m_read_idx s) bs ?buf) = cstr_at text ?buf"
    using spn_at_store [OF _ b, of "p + 1" blanks] cstr_at_store [OF assms(1) b] p by (simp_all add: url_def)
  have "parse_request_line text (hc_feed bs s) = (if \<not> strcaseeq (cstr_at text ?buf) ''GET'' then (BAD_REQUEST, hc_feed bs ?s1)
      else parse_version url (hc_feed bs ?s2))"
    using Some pbrk_at_store [OF assms(1,2) _ assms(3,4)] upd feed same assms by (simp add: parse_request_line_def Let_def)
  moreover have "parse_request_line text s = (if \<not> strcaseeq (cstr_at text ?buf) ''GET'' then (BAD_REQUEST, ?s1) else parse_version url ?s2)"
    using Some by (simp add: parse_request_line_def Let_def url_def)
  moreover have "parse_version url (hc_feed bs ?s2) = (fst (parse_version url ?s2), hc_feed bs (snd (parse_version url ?s2)))"
    using url b by (intro parse_version_feed [of _ n]) simp_all
  ultimately show ?thesis by simp
qed

lemma pares_headers_feed:
  assumes "text \<le> n" "n < m_read_idx s" "m_read_idx s + length bs \<le> length (m_read_buf s)" "m_read_buf s ! n = NUL"
  shows "pares_headers text (hc_feed bs s) = (fst (pares_headers text s), hc_feed bs (snd (pares_headers text s)))"
proof -
  have n: "n < m_read_idx s" "m_read_idx s \<le> length (m_read_buf s)" using assms by auto
  have l: "cstr_at text (store_bytes (m_read_idx s) bs (m_read_buf s)) = cstr_at text (m_read_buf s)"
    by (rule cstr_at_store [OF assms(1) n assms(3,4)])
  have h: "spn_at (text + 5) (store_bytes (m_read_idx s) bs (m_read_buf s)) blanks = spn_at (text + 5) (m_read_buf s) blanks"
    if "strncaseeq (cstr_at text (m_read_buf s)) ''Host:'' 5"
  proof -
    have "5 \<le> length (cstr_at text (m_read_buf s))" using strncaseeq_length [OF that] by simp
    then have "text + 5 \<le> n" using cstr_at_len [of "text" n "m_read_buf s"] assms by linarith
    then show ?thesis by (rule spn_at_store [OF _ n assms(3,4)])
  qed
  show ?thesis using l h by (simp add: pares_headers_def Let_def feed_updates)
qed

lemma do_request_code: "do_request fs s = Some (ret, s') \<Longrightarrow> ret \<noteq> NO_REQUEST"
  by (auto simp: do_request_def bind_eq_Some_conv Let_def split: option.splits if_splits)

lemma do_request_state: "do_request fs s = Some (ret, s') \<Longrightarrow> m_check_state s' = m_check_state s"
  by (auto simp: do_request_def bind_eq_Some_conv Let_def split: option.splits if_splits)

lemma connect_stays:
  "process_read_loop fs ls s = Some (ret, s') \<Longrightarrow> m_check_state s = CHECK_STATE_CONNECT \<Longrightarrow> m_check_state s' = CHECK_STATE_CONNECT"
proof (induction fs ls s rule: process_read_loop.induct)
  case (1 fs ls s)
  obtain ls1 s1 where p: "(if ls = LINE_OK then (ls, s) else parse_line s) = (ls1, s1)" by fastforce
  then have st: "m_check_state s1 = CHECK_STATE_CONNECT"
    using "1.prems"(2) parse_line_frame [of s ls1 s1] by (auto split: if_splits)
  show ?case
  proof (cases "process_read_round fs ls s")
    case (Inl r)
    then show ?thesis
      using "1.prems" p st pares_content_frame do_request_state
      by (auto simp: process_read_loop.simps [of fs ls s] process_read_round_def Let_def split: if_splits option.splits prod.splits)
  next
    case (Inr x)
    then have "m_check_state (snd x) = CHECK_STATE_CONNECT"
      using "1.prems"(2) p st
      by (auto simp: process_read_round_def Let_def dest!: pares_content_frame split: if_splits option.splits prod.splits)
    with Inr "1.IH" [of x "fst x" "snd x"] "1.prems"(1) show ?thesis
      by (cases x) (simp add: process_read_loop.simps [of fs ls s])
  qed
qed

text \<open>One round outside the body state, and the same round with more bytes in the buffer.\<close>

lemma line_round:
  assumes "m_check_state s \<noteq> CHECK_STATE_CONNECT" "parse_line s = (LINE_OK, s1)"
  shows "process_read_round fs ls s = (
     let s2 = s1\<lparr>m_start_line := m_checked_idx s1\<rparr>;
       r = (if m_check_state s = CHECK_STATE_REQUESTLINE then parse_request_line (m_start_line s) s2
            else pares_headers (m_start_line s) s2) in
     if fst r = BAD_REQUEST then Inl (Some (BAD_REQUEST, snd r))
     else if m_check_state s = CHECK_STATE_HEADER \<and> fst r = GET_REQUEST then Inl (do_request fs (snd r))
     else Inr (LINE_OK, snd r))"
  using assms parse_line_frame [OF assms(2)]
  by (cases "m_check_state s") (simp_all add: process_read_round_def Let_def split_beta)

lemma no_line_round:
  assumes "m_check_state s \<noteq> CHECK_STATE_CONNECT" "parse_line s = (ls', s1)" "ls' \<noteq> LINE_OK"
  shows "process_read_round fs ls s = Inl (Some (NO_REQUEST, s1))"
  using assms by (simp add: process_read_round_def)

lemma line_round_feed:
  assumes "m_check_state s \<noteq> CHECK_STATE_CONNECT" "hc_ok s" "m_read_idx s + length bs \<le> READ_BUFFER_SIZE"
    "process_read_round fs ls s = Inr (ls', s')"
  shows "process_read_round fs ls (hc_feed bs s) = Inr (ls', hc_feed bs s') \<and> hc_ok s' \<and> m_read_idx s' = m_read_idx s"
proof -
  obtain l s1 where p: "parse_line s = (l, s1)" by fastforce
  then have l: "parse_line s = (LINE_OK, s1)" using no_line_round [OF assms(1) p] assms(4) by (cases "l = LINE_OK") auto
  have len: "length (m_read_buf s) = READ_BUFFER_SIZE" "m_read_idx s \<le> READ_BUFFER_SIZE" "m_start_line s \<le> m_checked_idx s"
    using assms(2) by (simp_all add: hc_ok_def)
  note fr = parse_line_frame [OF l]
  have adv: "m_checked_idx s < m_checked_idx s1" "m_read_buf s1 ! (m_checked_idx s1 - 1) = NUL" "m_checked_idx s1 \<le> m_read_idx s1"
    using parse_line_OK [OF l len(1,2)] fr assms(2) by (auto simp: hc_ok_def)
  let ?s2 = "s1\<lparr>m_start_line := m_checked_idx s1\<rparr>" and ?n = "m_checked_idx s1 - 1" and ?t = "m_start_line s"
  have feed: "parse_line (hc_feed bs s) = (LINE_OK, hc_feed bs s1)"
    using parse_line_feed [OF l, of bs] len by simp
  have n: "?t \<le> ?n" "?n < m_read_idx ?s2" "m_read_idx ?s2 + length bs \<le> length (m_read_buf ?s2)" "m_read_buf ?s2 ! ?n = NUL"
    using adv fr len assms(3) by auto
  note pr = parse_request_line_feed [OF n] and ph = pares_headers_feed [OF n]
  have s2: "(hc_feed bs s1)\<lparr>m_start_line := m_checked_idx s1\<rparr> = hc_feed bs ?s2" by (simp add: feed_updates)
  have "process_read_round fs ls (hc_feed bs s) = Inr (ls', hc_feed bs s')"
    using assms(4) line_round [OF assms(1) l, of fs ls] line_round [OF _ feed, of fs ls] assms(1) pr ph s2
    by (auto simp: Let_def split: if_splits)
  moreover have "hc_ok s' \<and> m_read_idx s' = m_read_idx s"
  proof -
    have "s' = snd (if m_check_state s = CHECK_STATE_REQUESTLINE then parse_request_line ?t ?s2 else pares_headers ?t ?s2)"
      using assms(4) line_round [OF assms(1) l, of fs ls] by (auto simp: Let_def split: if_splits)
    then show ?thesis
      using parse_request_line_frame [of ?t ?s2] pares_headers_frame [of ?t ?s2] adv fr len by (auto simp: hc_ok_def)
  qed
  ultimately show ?thesis by blast
qed

lemma process_read_loop_feed:
  assumes "process_read_loop fs ls s = Some (NO_REQUEST, s')" "m_check_state s \<noteq> CHECK_STATE_CONNECT"
    "m_check_state s' \<noteq> CHECK_STATE_CONNECT" "hc_ok s" "m_read_idx s + length bs \<le> READ_BUFFER_SIZE"
  shows "process_read_loop fs ls1 (hc_feed bs s) = process_read_loop fs ls2 (hc_feed bs s') \<and> m_read_idx s' = m_read_idx s"
  using assms
proof (induction fs ls s arbitrary: ls1 rule: process_read_loop.induct)
  case (1 fs ls s)
  have any: "process_read_loop fs l x = process_read_loop fs l' x" if "m_check_state x \<noteq> CHECK_STATE_CONNECT" for l l' x
    using that by (simp add: process_read_loop.simps [of fs l x] process_read_loop.simps [of fs l' x] process_read_round_def)
  show ?case
  proof (cases "process_read_round fs ls s")
    case (Inl r)
    then have r: "r = Some (NO_REQUEST, s')" using "1.prems"(1) by (simp add: process_read_loop.simps [of fs ls s])
    obtain l s1 where p: "parse_line s = (l, s1)" by fastforce
    have "l \<noteq> LINE_OK"
      using line_round [OF "1.prems"(2), of s1 fs ls] p Inl r by (auto simp: Let_def dest: do_request_code [OF sym] split: if_splits)
    with no_line_round [OF "1.prems"(2) p] Inl r have s': "s' = s1" by simp
    have "parse_line (hc_feed bs s) = parse_line (hc_feed bs s')"
      using parse_line_feed [OF p, of bs] \<open>l \<noteq> LINE_OK\<close> s' "1.prems"(4) by (simp add: hc_ok_def)
    moreover have st: "m_check_state s' = m_check_state s" "m_read_idx s' = m_read_idx s" "m_start_line s' = m_start_line s"
      using parse_line_frame [OF p] s' by auto
    ultimately have "process_read_round fs ls1 (hc_feed bs s) = process_read_round fs ls2 (hc_feed bs s')"
      using "1.prems"(2) by (simp add: process_read_round_def)
    then show ?thesis using st by (simp add: process_read_loop.simps [of fs])
  next
    case (Inr x)
    obtain l1 s1 where x: "x = (l1, s1)" by fastforce
    from line_round_feed [OF "1.prems"(2,4,5)] Inr x
    have f: "process_read_round fs ls (hc_feed bs s) = Inr (l1, hc_feed bs s1)" "hc_ok s1" "m_read_idx s1 = m_read_idx s" by auto
    have loop: "process_read_loop fs l1 s1 = Some (NO_REQUEST, s')"
      using "1.prems"(1) Inr x by (simp add: process_read_loop.simps [of fs ls s])
    then have "m_check_state s1 \<noteq> CHECK_STATE_CONNECT" using connect_stays "1.prems"(3) by blast
    from "1.IH" [OF Inr x [symmetric] loop this "1.prems"(3) f(2)] f(3) "1.prems"(5)
    have IH: "process_read_loop fs l1 (hc_feed bs s1) = process_read_loop fs ls2 (hc_feed bs s') \<and> m_read_idx s' = m_read_idx s1" by simp
    have "process_read_loop fs ls1 (hc_feed bs s) = process_read_loop fs ls (hc_feed bs s)"
      by (rule any) (simp add: "1.prems"(2))
    also have "\<dots> = process_read_loop fs l1 (hc_feed bs s1)" using f(1) by (simp add: process_read_loop.simps [of fs ls])
    finally show ?thesis using IH f(3) by simp
  qed
qed

section \<open>Reading a whole request\<close>

lemma parse_line_finds:
  assumes "m_read_buf s = pre @ l @ crlf @ post" "m_checked_idx s = length pre" "CR \<notin> set l" "LF \<notin> set l"
    "length pre + length l + 2 \<le> m_read_idx s"
  shows "parse_line s = (LINE_OK, s\<lparr>m_read_buf := pre @ l @ [NUL, NUL] @ post, m_checked_idx := length pre + length l + 2\<rparr>)"
  using assms
proof (induction l arbitrary: pre s)
  case Nil
  then have "m_read_buf s ! length pre = CR" "m_read_buf s ! (length pre + 1) = LF" by (simp_all add: nth_append)
  moreover have "(m_read_buf s)[length pre := NUL, length pre + 1 := NUL] = pre @ [NUL, NUL] @ post"
    using Nil by (simp add: list_update_append)
  ultimately show ?case using Nil by (simp add: parse_line.simps [of s])
next
  case (Cons c l)
  then have c: "m_read_buf s ! length pre = c" "c \<noteq> CR" "c \<noteq> LF" by (auto simp: nth_append)
  let ?s = "s\<lparr>m_checked_idx := length pre + 1\<rparr>"
  have "parse_line ?s = (LINE_OK, ?s\<lparr>m_read_buf := (pre @ [c]) @ l @ [NUL, NUL] @ post,
      m_checked_idx := length (pre @ [c]) + length l + 2\<rparr>)"
    using Cons.prems by (intro Cons.IH) simp_all
  then show ?case using c Cons.prems by (simp add: parse_line_skip [of s])
qed

lemma cstr_at_append [simp]: "NUL \<notin> set w \<Longrightarrow> cstr_at (length pre) (pre @ w @ NUL # post) = w"
  by (auto simp: cstr_at_def cstr_def takeWhile_tail takeWhile_eq_all_conv)

lemma cstr_at_prefix: "NUL \<in> set (drop k pre) \<Longrightarrow> k \<le> length pre \<Longrightarrow> cstr_at k (pre @ x) = cstr_at k pre"
  by (simp add: cstr_at_def cstr_def takeWhile_append1 [of NUL])

lemma pbrk_at_append:
  assumes "set w \<inter> set acc = {}" "NUL \<notin> set w" "a \<in> set acc" "a \<noteq> NUL" "NUL \<notin> set v"
  shows "pbrk_at (length pre) (pre @ w @ a # v @ NUL # post) acc = Some (length pre + length w)"
proof -
  have "cstr_at (length pre) (pre @ w @ a # v @ NUL # post) = w @ a # v"
    using cstr_at_append [of "w @ a # v" pre post] assms by simp
  moreover have "takeWhile (\<lambda>c. c \<notin> set acc) (w @ a # v) = w" using assms by (subst takeWhile_append2) auto
  ultimately show ?thesis by (simp add: pbrk_at_def)
qed

lemma spn_at_here: "w \<noteq> [] \<Longrightarrow> hd w \<notin> set acc \<Longrightarrow> NUL \<notin> set w \<Longrightarrow> spn_at (length pre) (pre @ w @ NUL # post) acc = length pre"
  using cstr_at_append [of w pre post] by (cases w) (auto simp: spn_at_def)

text \<open>A request line with single blanks.\<close>

definition target_ok :: "string \<Rightarrow> bool" where
  "target_ok u \<longleftrightarrow> u \<noteq> [] \<and> hd u = CHR ''/'' \<and> set u \<inter> {CHR '' '', TAB, CR, LF, NUL} = {}"

text \<open>What may stand in front of the path: nothing, or a scheme and a host.\<close>

definition target_prefix :: "string \<Rightarrow> bool" where
  "target_prefix pre \<longleftrightarrow> pre = [] \<or>
     (\<exists>host. pre = ''http://'' @ host \<and> set host \<inter> {CHR '' '', TAB, CR, LF, NUL, CHR ''/''} = {})"

lemma parse_url_prefix:
  assumes "target_prefix pre" "target_ok u" "m_read_buf s = b @ pre @ u @ NUL # post"
  shows "parse_url (length b) s = (NO_REQUEST, s\<lparr>m_url := Some (length b + length pre), m_check_state := CHECK_STATE_HEADER\<rparr>)"
proof -
  have u: "u \<noteq> []" "hd u = CHR ''/''" "NUL \<notin> set u" using assms(2) by (auto simp: target_ok_def)
  then obtain u' where u': "u = CHR ''/'' # u'" by (cases u) auto
  have nth: "(b @ pre @ u @ NUL # post) ! (length b + length pre) = CHR ''/''" using u' by (simp add: nth_append)
  show ?thesis
  proof (cases "pre = []")
    case True
    have "cstr_at (length b) (m_read_buf s) = u" using cstr_at_append [of u b post] u assms(3) True by simp
    moreover have "\<not> strncaseeq u ''http://'' 7" using u' by (auto simp: strncaseeq_def tolower_def)
    ultimately show ?thesis using nth assms(3) True by (simp add: parse_url_def)
  next
    case False
    then obtain host where pre: "pre = ''http://'' @ host" and host: "set host \<inter> {CHR '' '', TAB, CR, LF, NUL, CHR ''/''} = {}"
      using assms(1) by (auto simp: target_prefix_def)
    have h: "cstr_at (length b) (m_read_buf s) = ''http://'' @ host @ u"
      using cstr_at_append [of "''http://'' @ host @ u" b post] u host assms(3) pre by simp
    moreover have "strncaseeq (''http://'' @ host @ u) ''http://'' 7" by (simp add: strncaseeq_def)
    moreover have "pbrk_at (length b + 7) (m_read_buf s) ''/'' = Some (length b + 7 + length host)"
      using pbrk_at_append [of host "''/''" "CHR ''/''" u' "b @ ''http://''" post] host u u' assms(3) pre by (simp add: eval_nat_numeral)
    moreover have len: "length b + length pre = length b + 7 + length host" by (simp add: pre)
    moreover have "m_read_buf s ! (length b + 7 + length host) = CHR ''/''" using nth unfolding assms(3) len .
    ultimately show ?thesis by (simp only: parse_url_def Let_def) simp
  qed
qed

lemma target_prefix_chars: "target_prefix pre \<Longrightarrow> set pre \<inter> {CHR '' '', TAB, CR, LF, NUL} = {}"
  by (auto simp: target_prefix_def)

lemma parse_request_line_ok:
  assumes "strcaseeq m ''GET''" "set m \<inter> {CHR '' '', TAB, NUL} = {}" "target_prefix pre" "target_ok u" "strcaseeq v ''HTTP/1.1''"
    "set v \<inter> {CHR '' '', TAB, NUL} = {}"
    "m_read_buf s = m @ '' '' @ (pre @ u) @ '' '' @ v @ NUL # post"
  shows "parse_request_line 0 s = (NO_REQUEST, s\<lparr>m_read_buf := m @ [NUL] @ (pre @ u) @ [NUL] @ v @ NUL # post,
    m_method := M_GET, m_url := Some (length m + 1 + length pre), m_version := Some (length m + length (pre @ u) + 2),
    m_check_state := CHECK_STATE_HEADER\<rparr>)"
proof -
  define t where "t = pre @ u"
  have v: "v \<noteq> []" "hd v \<notin> set blanks" using assms(5,6) by (auto simp: strcaseeq_def neq_Nil_conv)
  have t: "NUL \<notin> set t" "CHR '' '' \<notin> set t" "TAB \<notin> set t" "t \<noteq> []"
    using assms(4) target_prefix_chars [OF assms(3)] by (auto simp: target_ok_def t_def)
  then have t': "hd t \<notin> set blanks" by (metis hd_in_set list.set(1,2) insert_iff empty_iff)
  have buf: "m_read_buf s = m @ '' '' @ t @ '' '' @ v @ NUL # post" using assms(7) by (simp add: t_def)
  have p: "pbrk_at 0 (m_read_buf s) blanks = Some (length m)"
    using pbrk_at_append [of m blanks "CHR '' ''" "t @ '' '' @ v" "[]" post] assms(2,6) buf t by (simp add: Int_insert_left)
  let ?b1 = "m @ [NUL] @ t @ '' '' @ v @ NUL # post"
  have b1: "(m_read_buf s)[length m := NUL] = ?b1" using buf by (simp add: list_update_append)
  have get: "cstr_at 0 ?b1 = m" using cstr_at_append [of m "[]"] assms(2) by simp
  have hd0: "hd (t @ '' '' @ v) \<notin> set blanks" using t' t(4) by (metis hd_append2)
  have url: "spn_at (length m + 1) ?b1 blanks = length m + 1"
    using spn_at_here [OF _ hd0, of "m @ [NUL]" post] t assms(6) by (simp add: Int_insert_left)
  have q: "pbrk_at (length m + 1) ?b1 blanks = Some (length m + 1 + length t)"
    using pbrk_at_append [of t blanks "CHR '' ''" v "m @ [NUL]" post] t assms(6) by (simp add: Int_insert_left)
  let ?b2 = "m @ [NUL] @ t @ [NUL] @ v @ NUL # post"
  have b2: "?b1[length m + 1 + length t := NUL] = ?b2" by (simp add: list_update_append)
  have ver: "spn_at (length m + 1 + length t + 1) ?b2 blanks = length m + length t + 2"
    using spn_at_here [of v blanks "m @ [NUL] @ t @ [NUL]" post] v assms(6) by (simp add: Int_insert_left)
  have verstr: "cstr_at (length m + length t + 2) ?b2 = v"
    using cstr_at_append [of v "m @ [NUL] @ t @ [NUL]" post] assms(6) by (simp add: Int_insert_left)
  define s1 where "s1 = s\<lparr>m_method := M_GET, m_url := Some (length m + 1), m_read_buf := ?b2, m_version := Some (length m + length t + 2)\<rparr>"
  have "parse_request_line 0 s = parse_url (length m + 1) s1"
    using p b1 get url q b2 ver verstr assms(1,5) by (simp add: parse_request_line_def parse_version_def Let_def s1_def)
  also have "\<dots> = (NO_REQUEST, s1\<lparr>m_url := Some (length m + 1 + length pre), m_check_state := CHECK_STATE_HEADER\<rparr>)"
    using parse_url_prefix [OF assms(3,4), of s1 "m @ [NUL]" "v @ NUL # post"] by (simp add: s1_def t_def)
  finally show ?thesis by (cases s) (simp add: s1_def t_def)
qed

definition field_ok :: "string \<Rightarrow> bool" where
  "field_ok h \<longleftrightarrow> h \<noteq> [] \<and> set h \<inter> {CR, LF, NUL} = {} \<and> \<not> strncaseeq h ''Content-Length:'' 15"

definition request_code :: "web_files \<Rightarrow> string \<Rightarrow> http_code" where
  "request_code fs file = (case wf_stat fs file of None \<Rightarrow> NO_RESOURCE
   | Some st \<Rightarrow> if \<not> fs_roth st then FORBIDDEN_REQUEST else if fs_isdir st then BAD_REQUEST else FILE_REQUEST)"

text \<open>The header field that keeps a connection open.\<close>

definition keep_alive :: "string \<Rightarrow> bool" where
  "keep_alive h \<longleftrightarrow> strncaseeq h ''Connection:'' 11 \<and> strcaseeq (skipspn (drop 11 h) blanks) ''keep-alive''"

text \<open>Between two header lines: \<open>pre\<close> has been parsed, \<open>rest\<close> is still to come.\<close>

definition at_header :: "string \<Rightarrow> string \<Rightarrow> string \<Rightarrow> http_conn \<Rightarrow> bool" where
  "at_header u pre rest s \<longleftrightarrow> m_check_state s = CHECK_STATE_HEADER \<and> m_content_lenght s = 0 \<and>
     (\<exists>post. m_read_buf s = pre @ rest @ post) \<and> m_checked_idx s = length pre \<and> m_start_line s = length pre \<and>
     length pre + length rest \<le> m_read_idx s \<and>
     (\<exists>k. m_url s = Some k \<and> k \<le> length pre \<and> NUL \<in> set (drop k pre) \<and> cstr_at k pre = u)"

definition header_next :: "web_files \<Rightarrow> nat \<Rightarrow> http_conn \<Rightarrow> (http_code \<times> http_conn) option + (line_status \<times> http_conn)" where
  "header_next fs t s = (case pares_headers t s of (ret, s') \<Rightarrow>
     if ret = BAD_REQUEST then Inl (Some (BAD_REQUEST, s')) else if ret = GET_REQUEST then Inl (do_request fs s')
     else Inr (LINE_OK, s'))"

lemma header_line:
  assumes "at_header u pre (l @ crlf @ rest) s" "set l \<inter> {CR, LF, NUL} = {}"
  shows "\<exists>s2. process_read_round fs ls s = header_next fs (length pre) s2 \<and>
    at_header u (pre @ l @ [NUL, NUL]) rest s2 \<and> cstr_at (length pre) (m_read_buf s2) = l \<and> m_linger s2 = m_linger s"
proof -
  obtain post k where b: "m_read_buf s = pre @ l @ crlf @ rest @ post" "m_checked_idx s = length pre" "m_start_line s = length pre"
    "m_check_state s = CHECK_STATE_HEADER" "m_content_lenght s = 0" "length pre + length l + 2 + length rest \<le> m_read_idx s"
    and k: "m_url s = Some k" "k \<le> length pre" "NUL \<in> set (drop k pre)" "cstr_at k pre = u"
    using assms(1) by (auto simp: at_header_def)
  let ?s1 = "s\<lparr>m_read_buf := pre @ l @ [NUL, NUL] @ rest @ post, m_checked_idx := length pre + length l + 2\<rparr>"
  have p: "parse_line s = (LINE_OK, ?s1)"
    using b assms(2) by (intro parse_line_finds) auto
  let ?s2 = "?s1\<lparr>m_start_line := m_checked_idx ?s1\<rparr>"
  have "cstr_at (length pre) (m_read_buf ?s2) = l"
    using cstr_at_append [of l pre "NUL # rest @ post"] assms(2) by simp
  moreover have "at_header u (pre @ l @ [NUL, NUL]) rest ?s2"
    using b k by (auto simp: at_header_def cstr_at_prefix)
  moreover have "process_read_round fs ls s = header_next fs (length pre) ?s2"
    using line_round [OF _ p, of fs ls] b by (simp add: Let_def header_next_def split_beta)
  moreover have "m_linger ?s2 = m_linger s" by simp
  ultimately show ?thesis by blast
qed

lemma header_field:
  assumes "at_header u pre rest s2" "field_ok l" "cstr_at t (m_read_buf s2) = l"
  shows "fst (pares_headers t s2) = NO_REQUEST \<and> at_header u pre rest (snd (pares_headers t s2)) \<and>
    m_linger (snd (pares_headers t s2)) = (m_linger s2 \<or> keep_alive l)"
  using assms by (auto simp: pares_headers_def field_ok_def at_header_def keep_alive_def Let_def)

lemma read_headers:
  assumes "at_header u pre (concat (map (\<lambda>h. h @ crlf) hs) @ crlf) s" "\<forall>h \<in> set hs. field_ok h"
  shows "\<exists>s'. process_read_loop fs ls s = do_request fs s' \<and> (\<exists>k. m_url s' = Some k \<and> cstr_at k (m_read_buf s') = u) \<and>
    m_linger s' = (m_linger s \<or> list_ex keep_alive hs)"
  using assms
proof (induction hs arbitrary: pre s ls)
  case Nil
  then obtain s2 where s2: "process_read_round fs ls s = header_next fs (length pre) s2" "at_header u (pre @ [NUL, NUL]) [] s2"
    "cstr_at (length pre) (m_read_buf s2) = []" "m_linger s2 = m_linger s"
    using header_line [of u pre "[]" "[]" s fs ls] by auto
  have h: "pares_headers (length pre) s2 = (GET_REQUEST, s2)" using s2(2,3) by (simp add: pares_headers_def at_header_def)
  obtain post where post: "m_read_buf s2 = (pre @ [NUL, NUL]) @ [] @ post" using s2(2) unfolding at_header_def by blast
  obtain k where k: "m_url s2 = Some k" "k \<le> length (pre @ [NUL, NUL])" "NUL \<in> set (drop k (pre @ [NUL, NUL]))"
    "cstr_at k (pre @ [NUL, NUL]) = u"
    using s2(2) unfolding at_header_def by blast
  have "m_url s2 = Some k \<and> cstr_at k (m_read_buf s2) = u"
    using k(1,4) cstr_at_prefix [OF k(3,2), of post] post by (simp only: append_Nil)
  then show ?case using s2(1,4) h by (intro exI [of _ s2]) (auto simp: process_read_loop.simps [of fs ls s] header_next_def)
next
  case (Cons h hs)
  let ?rest = "concat (map (\<lambda>h. h @ crlf) hs) @ crlf"
  have h: "field_ok h" "set h \<inter> {CR, LF, NUL} = {}" using Cons.prems(2) by (auto simp: field_ok_def)
  have "at_header u pre (h @ crlf @ ?rest) s" using Cons.prems(1) by simp
  from header_line [OF this h(2), of fs ls] obtain s2 where s2: "process_read_round fs ls s = header_next fs (length pre) s2" "at_header u (pre @ h @ [NUL, NUL]) ?rest s2"
    "cstr_at (length pre) (m_read_buf s2) = h" "m_linger s2 = m_linger s"
    by blast
  from header_field [OF s2(2) h(1) s2(3)] have f: "fst (pares_headers (length pre) s2) = NO_REQUEST"
    "at_header u (pre @ h @ [NUL, NUL]) ?rest (snd (pares_headers (length pre) s2))"
    "m_linger (snd (pares_headers (length pre) s2)) = (m_linger s2 \<or> keep_alive h)" by auto
  from Cons.prems(2) have "\<forall>h \<in> set hs. field_ok h" by simp
  from Cons.IH [OF f(2) this, of LINE_OK] obtain s' where
    "process_read_loop fs LINE_OK (snd (pares_headers (length pre) s2)) = do_request fs s'"
    "\<exists>k. m_url s' = Some k \<and> cstr_at k (m_read_buf s') = u"
    "m_linger s' = (m_linger (snd (pares_headers (length pre) s2)) \<or> list_ex keep_alive hs)"
    by blast
  then show ?case using s2(1,4) f(1,3) by (intro exI [of _ s']) (simp add: process_read_loop.simps [of fs ls s] header_next_def split_beta)
qed

lemma do_request_result:
  "m_url s = Some k \<Longrightarrow> cstr_at k (m_read_buf s) = u \<Longrightarrow>
    \<exists>s'. do_request fs s = Some (request_code fs (doc_root @ take 198 u), s') \<and> m_real_file s' = doc_root @ take 198 u \<and>
      m_linger s' = m_linger s"
  by (auto simp: do_request_def request_code_def FILENAME_LEN_def Let_def split: option.splits)

lemma read_request:
  assumes "strcaseeq m ''GET''" "set m \<inter> {CHR '' '', TAB, NUL, CR, LF} = {}" "target_prefix pre" "target_ok u" "strcaseeq v ''HTTP/1.1''"
    "set v \<inter> {CHR '' '', TAB, NUL, CR, LF} = {}" "\<forall>h \<in> set hs. field_ok h"
    "m_check_state s = CHECK_STATE_REQUESTLINE" "m_checked_idx s = 0" "m_start_line s = 0" "m_content_lenght s = 0"
    "m_read_buf s = (m @ '' '' @ (pre @ u) @ '' '' @ v @ crlf @ concat (map (\<lambda>h. h @ crlf) hs) @ crlf) @ post"
    "length (m @ '' '' @ (pre @ u) @ '' '' @ v @ crlf @ concat (map (\<lambda>h. h @ crlf) hs) @ crlf) \<le> m_read_idx s"
  shows "\<exists>s'. process_read fs s = Some (request_code fs (doc_root @ take 198 u), s') \<and> m_real_file s' = doc_root @ take 198 u \<and>
    m_linger s' = (m_linger s \<or> list_ex keep_alive hs)"
proof -
  let ?t = "pre @ u"
  let ?l = "m @ '' '' @ ?t @ '' '' @ v" and ?rest = "concat (map (\<lambda>h. h @ crlf) hs) @ crlf"
  let ?s1 = "s\<lparr>m_read_buf := [] @ ?l @ [NUL, NUL] @ (?rest @ post), m_checked_idx := length ([] :: string) + length ?l + 2\<rparr>"
  have p: "parse_line s = (LINE_OK, ?s1)"
    using assms(2,4,6,9,12,13) target_prefix_chars [OF assms(3)] by (intro parse_line_finds) (auto simp: target_ok_def)
  let ?s2 = "?s1\<lparr>m_start_line := m_checked_idx ?s1\<rparr>"
  let ?pre = "m @ [NUL] @ ?t @ [NUL] @ v @ [NUL, NUL]"
  define s3 where "s3 = ?s2\<lparr>m_read_buf := m @ [NUL] @ ?t @ [NUL] @ v @ NUL # NUL # ?rest @ post,
    m_method := M_GET, m_url := Some (length m + 1 + length pre), m_version := Some (length m + length ?t + 2),
    m_check_state := CHECK_STATE_HEADER\<rparr>"
  have rl: "parse_request_line 0 ?s2 = (NO_REQUEST, s3)"
    unfolding s3_def using assms(1-6) by (intro parse_request_line_ok) auto
  have "process_read_round fs LINE_OK s = Inr (LINE_OK, s3)"
    using line_round [OF _ p, of fs LINE_OK] assms(8,10) rl by (simp add: Let_def)
  moreover have "at_header u ?pre ?rest s3"
  proof -
    have "cstr_at (length (m @ [NUL] @ pre)) ((m @ [NUL] @ pre) @ u @ NUL # v @ [NUL, NUL]) = u"
      by (rule cstr_at_append) (use assms(4) in \<open>auto simp: target_ok_def\<close>)
    then show ?thesis using assms(11,13) by (simp add: at_header_def s3_def)
  qed
  from read_headers [OF this assms(7), of fs LINE_OK] obtain s' k where
    "process_read_loop fs LINE_OK s3 = do_request fs s'" "m_url s' = Some k" "cstr_at k (m_read_buf s') = u"
    "m_linger s' = (m_linger s3 \<or> list_ex keep_alive hs)" by blast
  ultimately show ?thesis
    using do_request_result [of s' k u fs] by (auto simp: process_read_def process_read_loop.simps [of fs LINE_OK s] s3_def)
qed

section \<open>Properties\<close>

fun recv_bytes :: "recv_event list \<Rightarrow> string" where
  "recv_bytes [] = []"
| "recv_bytes (Recv_data bs # es) = bs @ recv_bytes es"
| "recv_bytes (_ # es) = recv_bytes es"

lemma store_store: "i \<le> length buf \<Longrightarrow> store_bytes (i + length a) b (store_bytes i a buf) = store_bytes i (a @ b) buf"
  by (simp add: store_bytes_def min_absorb2 ac_simps)

lemma feed_feed: "m_read_idx s + length a + length b \<le> length (m_read_buf s) \<Longrightarrow> hc_feed b (hc_feed a s) = hc_feed (a @ b) s"
  by (simp add: hc_feed_def store_store add.assoc)

lemma feed_Nil [simp]: "m_read_idx s \<le> length (m_read_buf s) \<Longrightarrow> hc_feed [] s = s"
  by (simp add: hc_feed_def store_bytes_def)

lemma hc_read_loop_ok:
  "hc_ok s \<Longrightarrow> hc_read_loop es s = (True, es', s') \<Longrightarrow>
    \<exists>pre. es = pre @ es' \<and> s' = hc_feed (recv_bytes pre) s \<and> m_read_idx s + length (recv_bytes pre) < READ_BUFFER_SIZE"
proof (induction es s rule: hc_read_loop.induct)
  case (1 s)
  then show ?case by (auto simp: hc_ok_def)
next
  case (2 e es s)
  have len: "length (m_read_buf s) = READ_BUFFER_SIZE" "m_read_idx s < READ_BUFFER_SIZE"
    using 2 by (auto simp: hc_ok_def split: if_splits)
  show ?case
  proof (cases e)
    case (Recv_data bs)
    then have bs: "bs \<noteq> []" "length bs \<le> READ_BUFFER_SIZE - m_read_idx s" "hc_read_loop es (hc_feed bs s) = (True, es', s')"
      using "2.prems"(2) len by (auto simp: Let_def hc_feed_def split: if_splits)
    have ok: "hc_ok (hc_feed bs s)" using "2.prems"(1) bs(2) len by (auto simp: hc_ok_def)
    have "\<exists>pre. es = pre @ es' \<and> s' = hc_feed (recv_bytes pre) (hc_feed bs s) \<and>
        m_read_idx (hc_feed bs s) + length (recv_bytes pre) < READ_BUFFER_SIZE"
      using "2.IH" Recv_data bs ok len by (auto simp: hc_feed_def)
    then obtain pre where "es = pre @ es'" "s' = hc_feed (recv_bytes pre) (hc_feed bs s)"
      "m_read_idx s + length bs + length (recv_bytes pre) < READ_BUFFER_SIZE" by auto
    then show ?thesis using Recv_data len feed_feed [of s bs "recv_bytes pre"] by (intro exI [of _ "e # pre"]) auto
  next
    case Recv_EAGAIN
    with "2.prems" len show ?thesis by (intro exI [of _ "[e]"]) (simp add: hc_feed_def store_bytes_def)
  qed (use 2 len in auto)
qed

text \<open>When \<open>read\<close> reports success it has appended exactly the received bytes, in order, behind the
  old ones, and the buffer still has a free byte; a request that fills the 2048 bytes makes it fail
  and the connection is closed.\<close>

theorem http_read_appends:
  assumes "hc_ok s" "hc_read es s = (True, es', s')"
  shows "\<exists>pre. es = pre @ es' \<and> s' = hc_feed (recv_bytes pre) s \<and> m_read_idx s' < READ_BUFFER_SIZE \<and> hc_ok s'"
proof -
  have "m_read_idx s < READ_BUFFER_SIZE" "hc_read_loop es s = (True, es', s')"
    using assms(2) by (auto simp: hc_read_def split: if_splits)
  with hc_read_loop_ok [OF assms(1) this(2)] assms(1) show ?thesis by (auto simp: hc_ok_def)
qed


lemma reset_ok: "hc_ok (hc_reset s)"
  by (simp add: hc_ok_def hc_reset_def READ_BUFFER_SIZE_def)


lemma parse_line_bad:
  "parse_line s = (LINE_BAD, s1) \<Longrightarrow> m_read_buf s1 = m_read_buf s \<and> m_read_idx s1 = m_read_idx s \<and>
    m_checked_idx s1 < m_read_idx s \<and>
    (let c = m_checked_idx s1; b = m_read_buf s in
      (b ! c = CR \<and> c + 1 < m_read_idx s \<and> b ! (c + 1) \<noteq> LF) \<or> (b ! c = LF \<and> \<not> (1 < c \<and> b ! (c - 1) = CR)))"
proof (induction s rule: parse_line.induct)
  case (1 s)
  show ?case
  proof (cases "m_checked_idx s < m_read_idx s \<and> m_read_buf s ! m_checked_idx s \<noteq> CR \<and> m_read_buf s ! m_checked_idx s \<noteq> LF")
    case True
    with "1.IH" [OF _ refl refl] "1.prems" show ?thesis by (auto simp: parse_line.simps [of s])
  next
    case False
    with "1.prems" show ?thesis by (auto simp: parse_line.simps [of s] Let_def split: if_splits)
  qed
qed

text \<open>A line with a carriage return that is not followed by a line feed (or the other way round) is
  never rejected: \<open>process_read\<close> reports an incomplete request now and whatever else arrives, although
  the line status is \<open>LINE_BAD\<close>.\<close>

theorem http_bad_line_never_rejected:
  assumes "m_check_state s \<noteq> CHECK_STATE_CONNECT" "hc_ok s" "parse_line s = (LINE_BAD, s1)"
  shows "process_read fs s = Some (NO_REQUEST, s1) \<and> process_read fs (hc_feed bs s1) = Some (NO_REQUEST, hc_feed bs s1)"
proof
  show "process_read fs s = Some (NO_REQUEST, s1)"
    using no_line_round [OF assms(1,3), of fs LINE_OK] by (simp add: process_read_def process_read_loop.simps [of fs])
  have bad: "parse_line (hc_feed bs s1) = (LINE_BAD, hc_feed bs s1)"
    using parse_line_bad [OF assms(3)] assms(2)
    by (auto simp: parse_line.simps [of "hc_feed bs s1"] Let_def hc_ok_def)
  have "m_check_state (hc_feed bs s1) \<noteq> CHECK_STATE_CONNECT" using parse_line_frame [OF assms(3)] assms(1) by simp
  from no_line_round [OF this bad, of fs LINE_OK] show "process_read fs (hc_feed bs s1) = Some (NO_REQUEST, hc_feed bs s1)"
    by (simp add: process_read_def process_read_loop.simps [of fs])
qed

lemma parse_line_all_data:
  "(\<forall>i. m_checked_idx s \<le> i \<and> i < m_read_idx s \<longrightarrow> m_read_buf s ! i \<noteq> CR \<and> m_read_buf s ! i \<noteq> LF) \<Longrightarrow>
    m_checked_idx s \<le> m_read_idx s \<Longrightarrow> parse_line s = (LINE_OPEN, s\<lparr>m_checked_idx := m_read_idx s\<rparr>)"
proof (induction s rule: parse_line.induct)
  case (1 s)
  show ?case
  proof (cases "m_checked_idx s < m_read_idx s")
    case True
    with "1.IH" [OF True refl refl] "1.prems" show ?thesis by (simp add: parse_line.simps [of s])
  qed (use "1.prems" in \<open>simp add: parse_line.simps [of s]\<close>)
qed

lemma body_wait:
  assumes "m_check_state s = CHECK_STATE_CONNECT" "int (m_read_idx s) < m_content_lenght s + int (m_checked_idx s)"
    "m_content_lenght s + int (m_checked_idx s) \<le> INT_MAX"
    "\<forall>i. m_checked_idx s \<le> i \<and> i < m_read_idx s \<longrightarrow> m_read_buf s ! i \<noteq> CR \<and> m_read_buf s ! i \<noteq> LF"
    "m_checked_idx s \<le> m_read_idx s"
  shows "process_read fs s = Some (NO_REQUEST, s\<lparr>m_start_line := m_checked_idx s, m_checked_idx := m_read_idx s\<rparr>)"
proof -
  let ?s = "s\<lparr>m_start_line := m_checked_idx s\<rparr>"
  have "process_read_round fs LINE_OK s = Inr (LINE_OPEN, ?s)"
    using assms(1-3) by (simp add: process_read_round_def pares_content_def)
  moreover have "parse_line ?s = (LINE_OPEN, ?s\<lparr>m_checked_idx := m_read_idx ?s\<rparr>)"
    using assms(4,5) by (intro parse_line_all_data) simp_all
  then have "process_read_round fs LINE_OPEN ?s = Inl (Some (NO_REQUEST, ?s\<lparr>m_checked_idx := m_read_idx ?s\<rparr>))"
    by (simp add: process_read_round_def)
  ultimately show ?thesis
    by (simp add: process_read_def process_read_loop.simps [of fs LINE_OK s] process_read_loop.simps [of fs LINE_OPEN ?s])
qed

lemma nth_piece: "take n (drop c buf) = b \<Longrightarrow> n = length b \<Longrightarrow> c \<le> i \<Longrightarrow> i < c + n \<Longrightarrow> c + n \<le> length buf \<Longrightarrow> buf ! i \<in> set b"
  by (metis add_diff_inverse_nat leD nat_add_left_cancel_less nth_mem nth_take nth_drop le_add_diff_inverse add_leD1)

text \<open>A request body that arrives in two pieces is not recognised as complete: after the first piece
  the line splitter has moved \<open>m_checked_idx\<close> into the body, and the body is then measured from there.
  The same bytes in one piece are.\<close>

theorem http_split_body_incomplete:
  assumes "m_check_state s = CHECK_STATE_CONNECT" "hc_ok s" "m_start_line s = m_checked_idx s"
    "m_read_idx s = m_checked_idx s + length b1" "b1 \<noteq> []" "b2 \<noteq> []" "m_content_lenght s = int (length b1 + length b2)"
    "take (length b1) (drop (m_checked_idx s) (m_read_buf s)) = b1" "m_read_idx s + length b2 < READ_BUFFER_SIZE"
    "set (b1 @ b2) \<inter> {CR, LF} = {}"
  shows "\<exists>s1 s2 s3. process_read fs s = Some (NO_REQUEST, s1) \<and> process_read fs (hc_feed b2 s1) = Some (NO_REQUEST, s2) \<and>
    process_read fs (hc_feed b2 s) = do_request fs s3"
proof -
  let ?c = "m_checked_idx s"
  let ?s1 = "s\<lparr>m_start_line := ?c, m_checked_idx := m_read_idx s\<rparr>"
  have len: "length (m_read_buf s) = READ_BUFFER_SIZE" using assms(2) by (simp add: hc_ok_def)
  have "\<forall>i. ?c \<le> i \<and> i < m_read_idx s \<longrightarrow> m_read_buf s ! i \<noteq> CR \<and> m_read_buf s ! i \<noteq> LF"
    using nth_piece [OF assms(8)] assms(4,9,10) len by fastforce
  then have "process_read fs s = Some (NO_REQUEST, ?s1)"
    using assms(1,4,6,7,9) by (intro body_wait) (simp_all add: INT_MAX_def READ_BUFFER_SIZE_def)
  moreover have "process_read fs (hc_feed b2 ?s1) = Some (NO_REQUEST, (hc_feed b2 ?s1)\<lparr>m_start_line := m_checked_idx (hc_feed b2 ?s1),
      m_checked_idx := m_read_idx (hc_feed b2 ?s1)\<rparr>)"
  proof (rule body_wait)
    have "store_bytes (m_read_idx s) b2 (m_read_buf s) ! i \<in> set b2" if "m_read_idx s \<le> i" "i < m_read_idx s + length b2" for i
      using that assms(9) len by (auto simp: store_bytes_def nth_append)
    then show "\<forall>i. m_checked_idx (hc_feed b2 ?s1) \<le> i \<and> i < m_read_idx (hc_feed b2 ?s1) \<longrightarrow>
        m_read_buf (hc_feed b2 ?s1) ! i \<noteq> CR \<and> m_read_buf (hc_feed b2 ?s1) ! i \<noteq> LF"
      using assms(10) by fastforce
  qed (use assms in \<open>simp_all add: INT_MAX_def READ_BUFFER_SIZE_def\<close>)
  moreover have "process_read fs (hc_feed b2 s) = do_request fs ((hc_feed b2 s)\<lparr>m_start_line := ?c,
      m_read_buf := (m_read_buf (hc_feed b2 s))[m_read_idx s + length b2 := NUL]\<rparr>)"
    using assms(1,3,4,7,9)
    by (simp add: process_read_def process_read_loop.simps [of fs LINE_OK] process_read_round_def pares_content_def nat_add_distrib add.assoc
      INT_MAX_def READ_BUFFER_SIZE_def)
  ultimately show ?thesis by blast
qed

text \<open>A negative \<open>Content-Length\<close> that is larger than the part of the buffer before the body makes
  \<open>pares_content\<close> write before the start of the buffer.\<close>

theorem http_negative_length_overruns:
  assumes "m_check_state s = CHECK_STATE_CONNECT" "hc_ok s" "m_content_lenght s < - int (m_start_line s)"
  shows "process_read fs s = None"
  using assms
  by (simp add: process_read_def process_read_loop.simps [of fs LINE_OK] process_read_round_def pares_content_def hc_ok_def Let_def)

text \<open>A \<open>Content-Length\<close> near the largest \<open>int\<close> makes the sum of \<open>pares_content\<close> overflow as soon as the head is read.\<close>

theorem http_huge_length_overflows:
  assumes "m_check_state s = CHECK_STATE_CONNECT" "m_content_lenght s = INT_MAX" "0 < m_checked_idx s"
  shows "process_read fs s = None"
  using assms
  by (simp add: process_read_def process_read_loop.simps [of fs LINE_OK] process_read_round_def pares_content_def)

text \<open>The response head every answer has.\<close>

definition response_head :: "nat \<Rightarrow> string \<Rightarrow> nat \<Rightarrow> bool \<Rightarrow> string" where
  "response_head status title n linger =
     ''HTTP/1.1'' @ '' '' @ dec_nat status @ '' '' @ title @ crlf @
     ''Content-Length: '' @ dec_nat n @ crlf @
     ''Connection: '' @ (if linger then ''keep-alive'' else ''close'') @ crlf @ crlf"

lemma add_response_frame [simp]:
  "m_sockfd (snd (add_response t s)) = m_sockfd s" "hc_log (snd (add_response t s)) = hc_log s"
  "m_file_stat (snd (add_response t s)) = m_file_stat s"
  by (simp_all add: add_response_def)

lemma add_response_ok: "m_write_idx s + length txt < 1023 \<Longrightarrow> add_response txt s = (True, s\<lparr>m_write_buf := m_write_buf s @ txt\<rparr>)"
  by (simp add: add_response_def WRITE_BUFFER_SIZE_def)

lemma write_head:
  assumes "m_write_buf s = []" "length title \<le> 100" "n < 10 ^ 10" "status < 1000"
  shows "snd (add_headers n (snd (add_status_line status title s))) = s\<lparr>m_write_buf := response_head status title n (m_linger s)\<rparr>"
proof -
  have len: "length (dec_nat n) \<le> 10" "length (dec_nat status) \<le> 3"
    using length_dec_nat [of n 10] length_dec_nat [of status 3] assms(3,4) by simp_all
  let ?t1 = "''HTTP/1.1'' @ '' '' @ dec_nat status @ '' '' @ title @ crlf"
  let ?t2 = "''Content-Length: '' @ dec_nat n @ crlf"
  let ?t3 = "''Connection: '' @ (if m_linger s then ''keep-alive'' else ''close'') @ crlf"
  let ?s1 = "s\<lparr>m_write_buf := ?t1\<rparr>" and ?s2 = "s\<lparr>m_write_buf := ?t1 @ ?t2\<rparr>"
    and ?s3 = "s\<lparr>m_write_buf := ?t1 @ ?t2 @ ?t3\<rparr>"
  have "snd (add_status_line status title s) = ?s1"
    using add_response_ok [of s ?t1] assms(1,2) len by (simp add: add_status_line_def)
  moreover have "snd (add_content_length n ?s1) = ?s2"
    using add_response_ok [of ?s1 ?t2] assms(2) len by (simp add: add_content_length_def)
  moreover have "snd (add_linger ?s2) = ?s3"
    using add_response_ok [of ?s2 ?t3] assms(2) len by (simp add: add_linger_def)
  moreover have "snd (add_blank_line ?s3) = s\<lparr>m_write_buf := response_head status title n (m_linger s)\<rparr>"
    using add_response_ok [of ?s3 crlf] assms(2) len by (simp add: add_blank_line_def response_head_def)
  ultimately show ?thesis by (simp add: add_headers_def)
qed

lemma length_response_head: "length title \<le> 100 \<Longrightarrow> n < 10 ^ 10 \<Longrightarrow> status < 1000 \<Longrightarrow> length (response_head status title n linger) \<le> 200"
  using length_dec_nat [of n 10] length_dec_nat [of status 3] by (simp add: response_head_def)

lemma error_page_ok:
  assumes "m_write_buf s = []" "length title \<le> 100" "length form \<le> 100" "status < 1000"
  shows "error_page status title form s = (True, s\<lparr>m_write_buf := response_head status title (length form) (m_linger s) @ form,
    m_iv := [response_head status title (length form) (m_linger s) @ form]\<rparr>)"
proof -
  let ?h = "response_head status title (length form) (m_linger s)"
  have "snd (add_headers (length form) (snd (add_status_line status title s))) = s\<lparr>m_write_buf := ?h\<rparr>"
    using assms by (intro write_head) auto
  moreover have "add_content form (s\<lparr>m_write_buf := ?h\<rparr>) = (True, s\<lparr>m_write_buf := ?h @ form\<rparr>)"
    using add_response_ok [of "s\<lparr>m_write_buf := ?h\<rparr>" form] length_response_head [of title "length form" status "m_linger s"] assms
    by (simp add: add_content_def)
  ultimately show ?thesis by (simp add: error_page_def)
qed

lemma head_not_empty: "response_head status title n linger \<noteq> []"
  by (simp add: response_head_def)

lemma process_write_answer:
  assumes "m_write_buf s = []"
    "(ret, status, title, content) \<in> {(INTERNAL_ERROR, 500, ''Internal Error'', error_500_form), (BAD_REQUEST, 400, ''Bad Request'', error_400_form),
      (NO_RESOURCE, 404, ''Not Found'', error_404_form), (FORBIDDEN_REQUEST, 403, ''Forbidden'', error_403_form)} \<or>
     (ret = FILE_REQUEST \<and> status = 200 \<and> title = ''OK'' \<and> m_file_address s = Mapped content \<and>
       length content = fs_size (m_file_stat s) \<and> content \<noteq> [] \<and> length content < 10 ^ 10)"
  shows "\<exists>buf iv. process_write ret s = (True, s\<lparr>m_write_buf := buf, m_iv := iv\<rparr>) \<and> buf \<noteq> [] \<and> length buf \<le> length (concat iv) \<and>
    concat iv = response_head status title (length content) (m_linger s) @ content"
proof (cases "ret = FILE_REQUEST")
  case True
  with assms(2) have f: "status = 200" "title = ''OK''" "m_file_address s = Mapped content" "length content = fs_size (m_file_stat s)"
    "content \<noteq> []" "length content < 10 ^ 10" by auto
  let ?s1 = "snd (add_status_line 200 ''OK'' s)" and ?h = "response_head 200 ''OK'' (length content) (m_linger s)"
  have st: "m_file_stat ?s1 = m_file_stat s" by (simp add: add_status_line_def)
  have "snd (add_headers (length content) ?s1) = s\<lparr>m_write_buf := ?h\<rparr>"
    using assms(1) f(6) by (intro write_head) simp_all
  then have "process_write ret s = (True, s\<lparr>m_write_buf := ?h, m_iv := [?h, content]\<rparr>)"
    using True f(1-4) st f(5) [folded length_greater_0_conv] by (auto simp: process_write_def Let_def mapped_bytes_def)
  then show ?thesis by (intro exI [of _ "?h"] exI [of _ "[?h, content]"]) (simp add: head_not_empty f(1,2))
next
  case False
  have short: "length error_500_form \<le> 100" "length error_400_form \<le> 100" "length error_404_form \<le> 100" "length error_403_form \<le> 100"
    by (simp_all add: error_500_form_def error_400_form_def error_404_form_def error_403_form_def)
  let ?p = "response_head status title (length content) (m_linger s) @ content"
  have "process_write ret s = (True, s\<lparr>m_write_buf := ?p, m_iv := [?p]\<rparr>)"
    using False assms(2) error_page_ok [OF assms(1)] short by (auto simp: process_write_def)
  then show ?thesis by (intro exI [of _ "?p"] exI [of _ "[?p]"]) (simp add: head_not_empty)
qed


text \<open>\<open>write\<close> treats an answer as sent as soon as half of the bytes of its head are out: the first
  \<open>writev\<close> that takes at least that many ends the exchange, releases the file and, without keep-alive,
  lets the caller close the connection, whatever part of the answer is still unsent.\<close>

theorem http_write_stops_at_half:
  assumes "m_write_buf s \<noteq> []" "m_write_idx s \<le> 2 * n" "n \<le> length (concat (m_iv s))" "m_file_address s = Mapped data"
  shows "\<exists>s'. hc_write (Wv_takes n # evs) s = (m_linger s, s') \<and> m_file_address s' = Null_map \<and>
    hc_log s' = hc_log s @ [Writev (take n (concat (m_iv s))), Munmap (Mapped data) (fs_size (m_file_stat s)), Epoll_mod_in (m_sockfd s)]"
  using assms by (auto simp: hc_write_def unmap_def hc_reset_def Let_def min_def)

text \<open>An existing empty file is never answered: \<open>process_write\<close> builds the page for it and then falls
  through to the default case; \<open>process\<close> closes the connection and afterwards modifies the events of
  descriptor -1.\<close>

theorem http_empty_file_dropped:
  assumes "process_read fs s = Some (FILE_REQUEST, s1)" "fs_size (m_file_stat s1) = 0" "m_sockfd s1 \<noteq> -1"
  shows "\<exists>s'. process fs s = Some s' \<and> m_sockfd s' = -1 \<and>
    hc_log s' = hc_log s1 @ [Epoll_del (m_sockfd s1), Close_fd (m_sockfd s1), Epoll_mod_out (-1)]"
proof -
  let ?s2 = "snd (process_write FILE_REQUEST s1)"
  have "fst (process_write FILE_REQUEST s1) = False" "m_sockfd ?s2 = m_sockfd s1" "hc_log ?s2 = hc_log s1"
    using assms(2)
    by (simp_all add: process_write_def Let_def add_status_line_def add_headers_def add_content_length_def add_linger_def
        add_blank_line_def add_content_def)
  moreover from this(1) obtain s2 where "process_write FILE_REQUEST s1 = (False, s2)" by (cases "process_write FILE_REQUEST s1") auto
  ultimately show ?thesis using assms(1,3) by (simp add: process_def close_conn_def removefd_def Let_def)
qed

subsection \<open>Witnesses\<close>

definition demo_conn :: http_conn where
  "demo_conn = hc_reset \<lparr>m_user_count = 1, m_sockfd = 5, m_read_buf = [], m_read_idx = 0, m_checked_idx = 0, m_start_line = 0,
     m_write_buf = [], m_check_state = CHECK_STATE_REQUESTLINE, m_method = M_GET, m_real_file = [], m_url = None, m_version = None,
     m_host = None, m_content_lenght = 0, m_linger = False, m_file_address = Null_map,
     m_file_stat = \<lparr>fs_roth = True, fs_isdir = False, fs_size = 0\<rparr>, m_iv = [], hc_log = []\<rparr>"

definition demo_web :: web_files where
  "demo_web = \<lparr>wf_stat = (\<lambda>f. Some \<lparr>fs_roth = True, fs_isdir = False, fs_size = 0\<rparr>), wf_map = (\<lambda>f. None)\<rparr>"

lemma demo_conn_ok: "hc_ok demo_conn"
  unfolding demo_conn_def by (rule reset_ok)

lemma demo_conn_simps [simp]:
  "m_check_state demo_conn = CHECK_STATE_REQUESTLINE" "m_checked_idx demo_conn = 0" "m_start_line demo_conn = 0"
  "m_read_idx demo_conn = 0" "m_read_buf demo_conn = replicate READ_BUFFER_SIZE NUL" "m_write_buf demo_conn = []"
  "m_sockfd demo_conn = 5" "m_url demo_conn = None"
  by (simp_all add: demo_conn_def hc_reset_def)

lemma demo_feed: "length bs \<le> READ_BUFFER_SIZE \<Longrightarrow> m_read_buf (hc_feed bs demo_conn) = bs @ replicate (READ_BUFFER_SIZE - length bs) NUL"
  by (simp add: store_bytes_def)

lemma demo_feed_ok: "length bs \<le> READ_BUFFER_SIZE \<Longrightarrow> hc_ok (hc_feed bs demo_conn)"
  by (simp add: hc_ok_def)

theorem http_read_appends_witness:
  "\<exists>pre. [Recv_data ''GE'', Recv_EAGAIN, Recv_eof] = pre @ [Recv_eof] \<and>
    snd (snd (hc_read [Recv_data ''GE'', Recv_EAGAIN, Recv_eof] demo_conn)) = hc_feed (recv_bytes pre) demo_conn \<and>
    m_read_idx (snd (snd (hc_read [Recv_data ''GE'', Recv_EAGAIN, Recv_eof] demo_conn))) < READ_BUFFER_SIZE \<and>
    hc_ok (snd (snd (hc_read [Recv_data ''GE'', Recv_EAGAIN, Recv_eof] demo_conn)))"
  by (rule http_read_appends [OF demo_conn_ok]) (simp add: hc_read_def READ_BUFFER_SIZE_def)


definition demo_get :: string where
  "demo_get = ''GET'' @ '' '' @ (''http://localhost'' @ ''/a'') @ '' '' @ ''HTTP/1.1'' @ crlf @
     concat (map (\<lambda>h. h @ crlf) [''Host: x'', ''Connection: keep-alive'']) @ crlf"

lemma demo_prefix: "target_prefix ''http://localhost''"
  unfolding target_prefix_def by (rule disjI2, rule exI [of _ "''localhost''"]) simp


theorem http_bad_line_never_rejected_witness:
  "process_read demo_web (hc_feed [CR, CHR ''x''] demo_conn) = Some (NO_REQUEST, hc_feed [CR, CHR ''x''] demo_conn) \<and>
    process_read demo_web (hc_feed ''yz'' (hc_feed [CR, CHR ''x''] demo_conn)) =
      Some (NO_REQUEST, hc_feed ''yz'' (hc_feed [CR, CHR ''x''] demo_conn))"
proof (rule http_bad_line_never_rejected)
  show "hc_ok (hc_feed [CR, CHR ''x''] demo_conn)" by (rule demo_feed_ok) (simp add: READ_BUFFER_SIZE_def)
  show "parse_line (hc_feed [CR, CHR ''x''] demo_conn) = (LINE_BAD, hc_feed [CR, CHR ''x''] demo_conn)"
    by (simp add: parse_line.simps [of "hc_feed [CR, CHR ''x''] demo_conn"] store_bytes_def nth_append)
qed simp

definition demo_body :: http_conn where
  "demo_body = hc_feed ''ab'' (demo_conn\<lparr>m_check_state := CHECK_STATE_CONNECT, m_content_lenght := 5\<rparr>)"

theorem http_split_body_incomplete_witness:
  "\<exists>s1 s2 s3. process_read demo_web demo_body = Some (NO_REQUEST, s1) \<and> process_read demo_web (hc_feed ''cde'' s1) = Some (NO_REQUEST, s2) \<and>
    process_read demo_web (hc_feed ''cde'' demo_body) = do_request demo_web s3"
  by (rule http_split_body_incomplete [where ?b1.0 = "''ab''"])
    (simp_all add: demo_body_def hc_ok_def store_bytes_def READ_BUFFER_SIZE_def)

theorem http_negative_length_overruns_witness:
  "process_read demo_web (demo_conn\<lparr>m_check_state := CHECK_STATE_CONNECT, m_content_lenght := -1\<rparr>) = None"
  by (rule http_negative_length_overruns) (use demo_conn_ok in \<open>simp_all add: hc_ok_def\<close>)

theorem http_huge_length_overflows_witness:
  "process_read demo_web (demo_body\<lparr>m_content_lenght := INT_MAX, m_checked_idx := 1\<rparr>) = None"
  by (rule http_huge_length_overflows) (simp_all add: demo_body_def)


theorem http_write_stops_at_half_witness:
  "\<exists>s'. hc_write (Wv_takes 1 # []) (demo_conn\<lparr>m_write_buf := ''ab'', m_iv := [''ab'', ''cdef''], m_file_address := Mapped ''cdef''\<rparr>) =
      (m_linger (demo_conn\<lparr>m_write_buf := ''ab'', m_iv := [''ab'', ''cdef''], m_file_address := Mapped ''cdef''\<rparr>), s') \<and>
    m_file_address s' = Null_map \<and>
    hc_log s' = hc_log (demo_conn\<lparr>m_write_buf := ''ab'', m_iv := [''ab'', ''cdef''], m_file_address := Mapped ''cdef''\<rparr>) @
      [Writev (take 1 (concat (m_iv (demo_conn\<lparr>m_write_buf := ''ab'', m_iv := [''ab'', ''cdef''], m_file_address := Mapped ''cdef''\<rparr>)))),
       Munmap (Mapped ''cdef'') (fs_size (m_file_stat (demo_conn\<lparr>m_write_buf := ''ab'', m_iv := [''ab'', ''cdef''], m_file_address := Mapped ''cdef''\<rparr>))),
       Epoll_mod_in (m_sockfd (demo_conn\<lparr>m_write_buf := ''ab'', m_iv := [''ab'', ''cdef''], m_file_address := Mapped ''cdef''\<rparr>))]"
  by (rule http_write_stops_at_half) simp_all

definition demo_empty :: http_conn where
  "demo_empty = demo_conn\<lparr>m_check_state := CHECK_STATE_CONNECT, m_url := Some 0\<rparr>"

lemma demo_empty_read: "\<exists>s1. process_read demo_web demo_empty = Some (FILE_REQUEST, s1) \<and> fs_size (m_file_stat s1) = 0 \<and> m_sockfd s1 \<noteq> -1"
  by (simp add: demo_empty_def process_read_def process_read_loop.simps [of _ LINE_OK] process_read_round_def pares_content_def INT_MAX_def
      do_request_def demo_web_def Let_def READ_BUFFER_SIZE_def)
    (simp add: demo_conn_def hc_reset_def)

theorem http_empty_file_dropped_witness:
  "\<exists>(s1 :: http_conn) s'. process demo_web demo_empty = Some s' \<and> m_sockfd s' = -1 \<and>
    hc_log s' = hc_log s1 @ [Epoll_del (m_sockfd s1), Close_fd (m_sockfd s1), Epoll_mod_out (-1)]"
proof -
  obtain s1 where "process_read demo_web demo_empty = Some (FILE_REQUEST, s1)" "fs_size (m_file_stat s1) = 0" "m_sockfd s1 \<noteq> -1"
    using demo_empty_read by (elim exE conjE)
  from http_empty_file_dropped [OF this] show ?thesis by (rule exI)
qed

end
