(* ===== verification/Http_Types.thy ===== *)
theory Http_Types
  imports Http_Conn
begin

text \<open>
  Well-formed connections: the indices of an \<open>http_conn\<close> stay within its two buffers, its pointers into the
  read buffer point into it, the file name fits its array, and behind the request line the target is not
  null. Every public operation of the class keeps this.
\<close>

section \<open>The invariant\<close>

definition ptr_ok :: "nat option \<Rightarrow> bool" where
  "ptr_ok p \<longleftrightarrow> (case p of None \<Rightarrow> True | Some u \<Rightarrow> u < READ_BUFFER_SIZE)"

definition hc_wf :: "http_conn \<Rightarrow> bool" where
  "hc_wf s \<longleftrightarrow> hc_ok s \<and> ptr_ok (m_url s) \<and> ptr_ok (m_version s) \<and> ptr_ok (m_host s) \<and>
     (m_check_state s \<noteq> CHECK_STATE_REQUESTLINE \<longrightarrow> m_url s \<noteq> None) \<and>
     m_write_idx s < WRITE_BUFFER_SIZE - 1 \<and> length (m_real_file s) < FILENAME_LEN"

lemma ptr_ok_simps [simp]: "ptr_ok None" "ptr_ok (Some u) \<longleftrightarrow> u < READ_BUFFER_SIZE"
  by (simp_all add: ptr_ok_def)

text \<open>The fields the parser does not touch until the request is complete.\<close>

lemma hc_wf_init: "hc_wf (hc_reset s)"
  using reset_ok [of s] by (simp add: hc_wf_def hc_reset_def WRITE_BUFFER_SIZE_def FILENAME_LEN_def)

lemma hc_wf_log [simp]: "hc_wf (log_call c s) = hc_wf s"
  by (simp add: hc_wf_def hc_ok_def)

section \<open>Parsing\<close>

lemma parse_line_untouched:
  "m_url (snd (parse_line s)) = m_url s \<and> m_version (snd (parse_line s)) = m_version s \<and> m_host (snd (parse_line s)) = m_host s \<and>
   m_write_buf (snd (parse_line s)) = m_write_buf s \<and> m_real_file (snd (parse_line s)) = m_real_file s"
proof (induction s rule: parse_line.induct)
  case (1 s)
  show ?case
  proof (cases "m_checked_idx s < m_read_idx s \<and> m_read_buf s ! m_checked_idx s \<noteq> CR \<and> m_read_buf s ! m_checked_idx s \<noteq> LF")
    case True
    with "1.IH" [OF _ refl refl] show ?thesis by (simp add: parse_line.simps [of s])
  next
    case False
    then show ?thesis by (auto simp: parse_line.simps [of s] Let_def)
  qed
qed

lemma parse_line_wf:
  assumes "hc_wf s" "parse_line s = (ls, s1)"
  shows "hc_wf s1"
  using assms(1) parse_line_frame [OF assms(2)] parse_line_untouched [of s] assms(2) by (auto simp: hc_wf_def hc_ok_def)

text \<open>A line that ends with a NUL at \<open>n\<close>.\<close>

definition line_at :: "nat \<Rightarrow> nat \<Rightarrow> string \<Rightarrow> bool" where
  "line_at t n buf \<longleftrightarrow> t \<le> n \<and> n < length buf \<and> length buf = READ_BUFFER_SIZE \<and> buf ! n = NUL"

lemma line_at_upd: "line_at t n buf \<Longrightarrow> line_at t n (buf[i := NUL])"
  by (cases "i = n") (auto simp: line_at_def)

lemma line_at_later: "line_at t n buf \<Longrightarrow> t' \<le> n \<Longrightarrow> line_at t' n buf"
  by (simp add: line_at_def)

lemma line_pbrk: "line_at t n buf \<Longrightarrow> pbrk_at t buf acc = Some p \<Longrightarrow> t \<le> p \<and> p < n \<and> n < READ_BUFFER_SIZE"
  using pbrk_at_bound [of t n buf acc p] by (simp add: line_at_def)

lemma line_spn: "line_at t n buf \<Longrightarrow> spn_at t buf acc \<le> n \<and> n < READ_BUFFER_SIZE"
  using spn_at_bound [of t n buf acc] by (simp add: line_at_def)

lemma line_word:
  assumes "line_at t n buf" "strncaseeq (cstr_at t buf) w k" "k \<le> length w"
  shows "line_at (t + k) n buf"
proof -
  have "k \<le> length (cstr_at t buf)" using strncaseeq_length [OF assms(2,3)] by simp
  then show ?thesis using cstr_at_len [of t n buf] assms(1) by (simp add: line_at_def)
qed

lemma parse_url_wf:
  assumes "hc_wf s" "line_at url n (m_read_buf s)" "m_check_state s = CHECK_STATE_REQUESTLINE"
  shows "hc_wf (snd (parse_url url s))"
proof -
  define url' where "url' = (if strncaseeq (cstr_at url (m_read_buf s)) ''http://'' 7 then pbrk_at (url + 7) (m_read_buf s) ''/'' else Some url)"
  have ptr: "ptr_ok url'"
  proof (cases "strncaseeq (cstr_at url (m_read_buf s)) ''http://'' 7")
    case True
    have "line_at (url + 7) n (m_read_buf s)" by (rule line_word [OF assms(2) True]) simp
    then show ?thesis using True line_pbrk by (cases url') (force simp: url'_def)+
  next
    case False
    then show ?thesis using assms(2) by (simp add: url'_def line_at_def)
  qed
  have wf: "hc_wf (s\<lparr>m_url := url'\<rparr>)" "u = url' \<Longrightarrow> u \<noteq> None \<Longrightarrow> hc_wf (s\<lparr>m_url := u, m_check_state := CHECK_STATE_HEADER\<rparr>)" for u
    using assms(1,3) ptr by (simp_all add: hc_wf_def hc_ok_def)
  show ?thesis unfolding parse_url_def Let_def url'_def [symmetric]
    using wf by (cases url') simp_all
qed

lemma parse_version_wf:
  assumes "hc_wf s" "line_at url n (m_read_buf s)" "m_check_state s = CHECK_STATE_REQUESTLINE"
  shows "hc_wf (snd (parse_version url s))"
proof (cases "pbrk_at url (m_read_buf s) blanks")
  case None
  then show ?thesis using assms(1) by (simp add: parse_version_def hc_wf_def hc_ok_def)
next
  case (Some q)
  define buf where "buf = (m_read_buf s)[q := NUL]"
  define v where "v = spn_at (Suc q) buf blanks"
  define s1 where "s1 = s\<lparr>m_read_buf := buf, m_version := Some v\<rparr>"
  have q: "q < n" using line_pbrk [OF assms(2) Some] by simp
  then have "line_at (Suc q) n buf" using line_at_later [OF line_at_upd [OF assms(2)], of "Suc q" q] by (simp add: buf_def)
  then have "v < READ_BUFFER_SIZE" using line_spn [of "Suc q" n buf blanks] by (auto simp: v_def)
  then have "hc_wf s1" using assms(1) by (simp add: s1_def hc_wf_def hc_ok_def buf_def)
  moreover have "line_at url n (m_read_buf s1)" using line_at_upd [OF assms(2)] by (simp add: s1_def buf_def)
  ultimately show ?thesis using parse_url_wf [of s1 url n] assms(3)
    by (simp add: parse_version_def Some Let_def buf_def [symmetric] v_def [symmetric] s1_def)
qed

lemma parse_request_line_wf:
  assumes "hc_wf s" "line_at t n (m_read_buf s)" "m_check_state s = CHECK_STATE_REQUESTLINE"
  shows "hc_wf (snd (parse_request_line t s))"
proof (cases "pbrk_at t (m_read_buf s) blanks")
  case None
  then show ?thesis using assms(1,3) by (simp add: parse_request_line_def hc_wf_def hc_ok_def)
next
  case (Some p)
  define buf where "buf = (m_read_buf s)[p := NUL]"
  define url where "url = spn_at (Suc p) buf blanks"
  have p: "p < n" "n < READ_BUFFER_SIZE" using line_pbrk [OF assms(2) Some] by simp_all
  have l: "line_at (Suc p) n buf" using line_at_later [OF line_at_upd [OF assms(2)], of "Suc p" p] p by (simp add: buf_def)
  then have u: "url \<le> n" using line_spn by (simp add: url_def)
  have "hc_wf (s\<lparr>m_read_buf := buf, m_url := Some (Suc p)\<rparr>)" "hc_wf (s\<lparr>m_read_buf := buf, m_method := M_GET, m_url := Some url\<rparr>)"
    using assms(1) p u by (simp_all add: hc_wf_def hc_ok_def buf_def)
  moreover have "line_at url n buf" using line_at_later [OF l u] .
  ultimately show ?thesis
    using parse_version_wf [of "s\<lparr>m_read_buf := buf, m_method := M_GET, m_url := Some url\<rparr>" url n] assms(3)
    by (simp add: parse_request_line_def Some Let_def buf_def [symmetric] url_def [symmetric])
qed

lemma pares_headers_wf:
  assumes "hc_wf s" "line_at t n (m_read_buf s)" "m_check_state s = CHECK_STATE_HEADER"
  shows "hc_wf (snd (pares_headers t s))"
proof -
  have "spn_at (t + 5) (m_read_buf s) blanks < READ_BUFFER_SIZE" if w: "strncaseeq (cstr_at t (m_read_buf s)) ''Host:'' 5"
  proof -
    have "line_at (t + 5) n (m_read_buf s)" by (rule line_word [OF assms(2) w]) simp
    then show ?thesis using line_spn by (meson le_less_trans)
  qed
  then show ?thesis using assms(1,3) by (auto simp: pares_headers_def Let_def hc_wf_def hc_ok_def)
qed

lemma pares_content_wf: "pares_content t s = Some (r, s') \<Longrightarrow> hc_wf s \<Longrightarrow> hc_wf s'"
  by (auto simp: pares_content_def Let_def hc_wf_def hc_ok_def split: if_splits)

lemma do_request_wf: "do_request fs s = Some (r, s') \<Longrightarrow> hc_wf s \<Longrightarrow> hc_wf s'"
  by (auto simp: do_request_def Let_def hc_wf_def hc_ok_def FILENAME_LEN_def bind_eq_Some_conv split: option.splits if_splits)

definition round_wf :: "(http_code \<times> http_conn) option + (line_status \<times> http_conn) \<Rightarrow> bool" where
  "round_wf r \<longleftrightarrow> (case r of Inl None \<Rightarrow> True | Inl (Some (_, s')) \<Rightarrow> hc_wf s' | Inr (_, s') \<Rightarrow> hc_wf s')"

lemma round_wf_simps [simp]: "round_wf (Inl None)" "round_wf (Inl (Some (c, s))) = hc_wf s" "round_wf (Inr (l, s)) = hc_wf s"
  by (simp_all add: round_wf_def)

lemma process_read_round_wf:
  assumes "hc_wf s"
  shows "round_wf (process_read_round fs ls s)"
proof (cases "m_check_state s = CHECK_STATE_CONNECT \<and> ls = LINE_OK")
  case True
  have "hc_wf (s\<lparr>m_start_line := m_checked_idx s\<rparr>)" using assms by (simp add: hc_wf_def hc_ok_def)
  then show ?thesis
    using True pares_content_wf do_request_wf by (fastforce simp: process_read_round_def round_wf_def Let_def split: option.splits prod.splits)
next
  case False
  obtain l s1 where p: "parse_line s = (l, s1)" by fastforce
  have wf1: "hc_wf s1" using parse_line_wf [OF assms p] .
  show ?thesis
  proof (cases "l = LINE_OK")
    case False
    with \<open>\<not> (m_check_state s = CHECK_STATE_CONNECT \<and> ls = LINE_OK)\<close> p wf1 show ?thesis by (auto simp: process_read_round_def)
  next
    case True
    define s2 where "s2 = s1\<lparr>m_start_line := m_checked_idx s1\<rparr>"
    define t where "t = m_start_line s1"
    have wf2: "hc_wf s2" using wf1 by (simp add: s2_def hc_wf_def hc_ok_def)
    have fr: "m_start_line s1 = m_start_line s" "m_checked_idx s1 \<le> m_read_idx s1" "m_read_idx s1 \<le> READ_BUFFER_SIZE"
      using parse_line_frame [OF p] wf1 by (auto simp: hc_wf_def hc_ok_def)
    have "m_checked_idx s < m_checked_idx s1" "m_read_buf s1 ! (m_checked_idx s1 - 1) = NUL"
      using parse_line_OK [of s s1] p True assms by (auto simp: hc_wf_def hc_ok_def)
    then have line: "line_at t (m_checked_idx s1 - 1) (m_read_buf s2)"
      using fr assms wf1 by (auto simp: line_at_def s2_def t_def hc_wf_def hc_ok_def)
    have round: "process_read_round fs ls s = (case m_check_state s2 of
          CHECK_STATE_REQUESTLINE \<Rightarrow> (case parse_request_line t s2 of (ret, s3) \<Rightarrow>
               if ret = BAD_REQUEST then Inl (Some (BAD_REQUEST, s3)) else Inr (LINE_OK, s3))
        | CHECK_STATE_HEADER \<Rightarrow> (case pares_headers t s2 of (ret, s3) \<Rightarrow>
               if ret = BAD_REQUEST then Inl (Some (BAD_REQUEST, s3))
               else if ret = GET_REQUEST then Inl (do_request fs s3) else Inr (LINE_OK, s3))
        | CHECK_STATE_CONNECT \<Rightarrow> (case pares_content t s2 of None \<Rightarrow> Inl None
             | Some (ret, s3) \<Rightarrow> if ret = GET_REQUEST then Inl (do_request fs s3) else Inr (LINE_OPEN, s3)))"
      using False p True by (cases "m_check_state s1") (auto simp: process_read_round_def t_def s2_def Let_def)
    have req: "round_wf (Inl (do_request fs s3))" if "hc_wf s3" for s3
      using do_request_wf [of fs s3] that by (cases "do_request fs s3") auto
    show ?thesis
    proof (cases "m_check_state s2")
      case CHECK_STATE_REQUESTLINE
      then show ?thesis using parse_request_line_wf [OF wf2 line] by (cases "parse_request_line t s2") (simp add: round)
    next
      case CHECK_STATE_HEADER
      then show ?thesis using pares_headers_wf [OF wf2 line] req by (cases "pares_headers t s2") (simp add: round)
    next
      case CHECK_STATE_CONNECT
      then show ?thesis using pares_content_wf [of t s2] wf2 req by (auto simp: round split: prod.splits option.splits)
    qed
  qed
qed

lemma process_read_loop_wf: "process_read_loop fs ls s = Some (r, s') \<Longrightarrow> hc_wf s \<Longrightarrow> hc_wf s'"
proof (induction fs ls s rule: process_read_loop.induct)
  case (1 fs ls s)
  show ?case
  proof (cases "process_read_round fs ls s")
    case (Inl x)
    then show ?thesis using "1.prems" process_read_round_wf [of s fs ls] by (simp add: process_read_loop.simps [of fs ls s])
  next
    case (Inr x)
    obtain ls1 s1 where x: "x = (ls1, s1)" by fastforce
    have "hc_wf s1" using process_read_round_wf [OF "1.prems"(2), of fs ls] Inr x by simp
    then show ?thesis using "1.IH" [OF Inr x [symmetric]] "1.prems" Inr x by (simp add: process_read_loop.simps [of fs ls s])
  qed
qed

section \<open>Reading and writing\<close>

lemma hc_read_loop_wf: "hc_wf s \<Longrightarrow> hc_wf (snd (snd (hc_read_loop es s)))"
proof (induction es s rule: hc_read_loop.induct)
  case (2 e es s)
  show ?case
  proof (cases "m_read_idx s \<ge> READ_BUFFER_SIZE")
    case False
    have stored: "hc_wf (s\<lparr>m_read_buf := store_bytes (m_read_idx s) got (m_read_buf s), m_read_idx := m_read_idx s + length got\<rparr>)"
      if "length got \<le> READ_BUFFER_SIZE - m_read_idx s" for got
      using "2.prems" that False by (auto simp: hc_wf_def hc_ok_def)
    have full: "hc_wf (s\<lparr>m_read_buf := store_bytes (m_read_idx s) (take (READ_BUFFER_SIZE - m_read_idx s) bs) (m_read_buf s), m_read_idx := READ_BUFFER_SIZE\<rparr>)"
      if "\<not> length bs \<le> READ_BUFFER_SIZE - m_read_idx s" for bs
      using stored [of "take (READ_BUFFER_SIZE - m_read_idx s) bs"] that False by simp
    show ?thesis using "2.IH" "2.prems" False stored full by (cases e) (auto simp: Let_def)
  qed (use "2.prems" in simp)
qed simp

lemma add_response_wf: "hc_wf s \<Longrightarrow> hc_wf (snd (add_response txt s))"
  by (auto simp: add_response_def hc_wf_def hc_ok_def WRITE_BUFFER_SIZE_def)

lemmas add_wf = add_response_wf add_response_wf [of _ crlf, folded add_blank_line_def]

lemma add_status_line_wf: "hc_wf s \<Longrightarrow> hc_wf (snd (add_status_line status title s))"
  by (simp add: add_status_line_def add_response_wf)

lemma add_headers_wf: "hc_wf s \<Longrightarrow> hc_wf (snd (add_headers n s))"
  by (simp add: add_headers_def add_content_length_def add_linger_def add_blank_line_def add_response_wf)

lemma add_content_wf: "hc_wf s \<Longrightarrow> hc_wf (snd (add_content c s))"
  by (simp add: add_content_def add_response_wf)

lemma set_iv_wf [simp]: "hc_wf (s\<lparr>m_iv := iv\<rparr>) = hc_wf s"
  by (simp add: hc_wf_def hc_ok_def)

lemma error_page_wf:
  assumes "hc_wf s"
  shows "hc_wf (snd (error_page status title form s))"
proof -
  define s2 where "s2 = snd (add_headers (length form) (snd (add_status_line status title s)))"
  have "hc_wf (snd (add_content form s2))" using assms by (simp add: s2_def add_status_line_wf add_headers_wf add_content_wf)
  then show ?thesis by (cases "add_content form s2") (simp add: error_page_def Let_def s2_def)
qed

lemma process_write_wf: "hc_wf s \<Longrightarrow> hc_wf (snd (process_write ret s))"
  by (cases ret) (simp_all add: process_write_def error_page_wf Let_def add_status_line_wf add_headers_wf add_content_wf)

lemma close_conn_wf: "hc_wf s \<Longrightarrow> hc_wf (close_conn b s)"
  by (simp add: close_conn_def removefd_def Let_def hc_wf_def hc_ok_def)

lemma unmap_wf: "hc_wf s \<Longrightarrow> hc_wf (unmap s)"
  by (simp add: unmap_def hc_wf_def hc_ok_def)

lemma hc_write_loop_wf: "hc_wf s \<Longrightarrow> hc_wf (snd (hc_write_loop evs a b s))"
  by (induction evs a b s rule: hc_write_loop.induct) (simp_all add: Let_def unmap_wf hc_wf_init)

lemma process_wf:
  assumes "process fs s = Some s'" "hc_wf s"
  shows "hc_wf s'"
proof -
  obtain ret s1 where r: "process_read fs s = Some (ret, s1)" using assms(1) by (auto simp: process_def bind_eq_Some_conv)
  have wf1: "hc_wf s1" using process_read_loop_wf r assms(2) unfolding process_read_def by blast
  obtain w s2 where w: "process_write ret s1 = (w, s2)" by fastforce
  have "hc_wf s2" using process_write_wf [OF wf1, of ret] w by simp
  then have "hc_wf (if \<not> w then close_conn True s2 else s2)" using close_conn_wf by simp
  then show ?thesis using assms(1) r w wf1 by (cases "ret = NO_REQUEST") (auto simp: process_def Let_def simp del: if_not_P if_P)
qed

text \<open>The null pointer of \<open>do_request\<close> is never reached, so that a request can only fault in \<open>pares_content\<close>.\<close>

lemma do_request_defined: "hc_wf s \<Longrightarrow> m_check_state s \<noteq> CHECK_STATE_REQUESTLINE \<Longrightarrow> do_request fs s \<noteq> None"
  by (auto simp: hc_wf_def do_request_def Let_def)

text \<open>C12: Every operation of a connection keeps it well formed: a new connection is, and reading, processing
  and writing lead from a well formed connection to a well formed one, whatever the client sends.\<close>
theorem http_conn_typed:
  "hc_wf (hc_init fd s0) \<and>
   (hc_wf s \<longrightarrow> hc_wf (snd (snd (hc_read es s))) \<and> hc_wf (snd (hc_write evs s)) \<and> hc_wf (close_conn b s) \<and>
     (\<forall>s'. process fs s = Some s' \<longrightarrow> hc_wf s'))"
  by (auto simp: hc_init_def Let_def hc_wf_init hc_read_def hc_read_loop_wf hc_write_def hc_write_loop_wf close_conn_wf intro: process_wf)

theorem http_conn_typed_witness:
  "hc_wf demo_conn \<and> hc_wf (snd (snd (hc_read [Recv_data ''GET'', Recv_EAGAIN] demo_conn)))"
proof -
  have wf: "hc_wf demo_conn" unfolding demo_conn_def by (rule hc_wf_init)
  then show ?thesis using http_conn_typed [of 5 demo_conn demo_conn "[Recv_data ''GET'', Recv_EAGAIN]" "[]" True demo_web] by simp
qed

end
