(* ===== verification/Http_Answer.thy ===== *)
theory Http_Answer
  imports C_String
begin

text \<open>
  The two smaller HTTP programs: \<open>socket/http/http.c\<close>, which answers one connection with one file through
  \<open>writev\<close>, and the request parser of \<open>socket/http/http_readParse.cpp\<close>.
\<close>

section \<open>The file server\<close>

definition HA_BUFFER_SIZE :: nat where "HA_BUFFER_SIZE = 1024"

definition status_line :: "bool \<Rightarrow> string" where
  "status_line ok = (if ok then ''200 OK'' else ''500 Internal server error'')"

record ha_stat =
  ha_size :: nat
  ha_regular :: bool
  ha_iroth :: bool

datatype ha_call = Ha_writev "string list" | Ha_send string | Ha_close

text \<open>\<open>snprintf(buf + off, n, ...)\<close> for the text \<open>txt\<close>: at most \<open>n - 1\<close> bytes and a NUL are stored, the result is
  the length of the whole text.\<close>

definition snprintf_at :: "nat \<Rightarrow> nat \<Rightarrow> string \<Rightarrow> string \<Rightarrow> string \<times> nat" where
  "snprintf_at off n txt buf = (let out = (if n = 0 then [] else take (n - 1) txt @ [NUL]) in
     (take off buf @ out @ drop (off + length out) buf, length txt))"

text \<open>The file: \<open>st\<close> is the answer of \<open>stat\<close>, \<open>rd\<close> that of \<open>open\<close> and \<open>read\<close> (\<open>None\<close> when one of them fails).
  \<open>file_buf\<close> has one byte more than the size \<open>stat\<close> gave.\<close>

definition ha_load :: "ha_stat option \<Rightarrow> string option \<Rightarrow> bool \<times> string option" where
  "ha_load st rd = (case st of
      None \<Rightarrow> (False, None)
    | Some f \<Rightarrow>
        if ha_regular f \<and> ha_iroth f then
          (case rd of
             None \<Rightarrow> (False, Some (replicate (ha_size f + 1) NUL))
           | Some bs \<Rightarrow> (True, Some (take (ha_size f) bs @ replicate (ha_size f + 1 - length (take (ha_size f) bs)) NUL)))
        else (False, None))"

definition ha_answer :: "ha_stat option \<Rightarrow> string option \<Rightarrow> ha_call list" where
  "ha_answer st rd = (case ha_load st rd of (valid, file_buf) \<Rightarrow>
     let header_buf = replicate HA_BUFFER_SIZE NUL in
     if valid then
       let (b1, r1) = snprintf_at 0 (HA_BUFFER_SIZE - 1) (''HTTP/1.1'' @ '' '' @ status_line True @ crlf) header_buf;
           (b2, r2) = snprintf_at r1 (HA_BUFFER_SIZE - 1 - r1) (''Content-Length: '' @ dec_nat (ha_size (the st)) @ crlf) b1;
           (b3, r3) = snprintf_at (r1 + r2) (HA_BUFFER_SIZE - 1 - (r1 + r2)) crlf b2
       in [Ha_writev [cstr b3, cstr (the file_buf)], Ha_close]
     else
       let (b1, r1) = snprintf_at 0 (HA_BUFFER_SIZE - 1) (''HTTP/1.1'' @ '' '' @ status_line False @ crlf) header_buf;
           (b2, r2) = snprintf_at r1 (HA_BUFFER_SIZE - 1 - r1) crlf b1
       in [Ha_send (take r2 b2), Ha_close])"

text \<open>\<open>main\<close> behind its asserted calls: the answer of \<open>accept\<close>, then one answer on the connection.\<close>

definition ha_main :: "int \<Rightarrow> int \<Rightarrow> int \<Rightarrow> bool \<Rightarrow> ha_stat option \<Rightarrow> string option \<Rightarrow> ha_call list option" where
  "ha_main sock bind_ret listen_ret accepted st rd =
     (if sock < 0 \<or> bind_ret = -1 \<or> listen_ret = -1 then None
      else Some (if accepted then ha_answer st rd else []))"

lemma snprintf_at_fits:
  "length txt < n \<Longrightarrow> n \<le> k \<Longrightarrow> length pre = off \<Longrightarrow>
   snprintf_at off n txt (pre @ replicate k NUL) = ((pre @ txt) @ replicate (k - length txt) NUL, length txt)"
proof -
  assume "length txt < n" "n \<le> k" "length pre = off"
  moreover have "replicate (k - length txt) NUL = NUL # replicate (k - Suc (length txt)) NUL"
    using calculation(1,2) by (metis Suc_diff_Suc less_le_trans replicate_Suc)
  ultimately show ?thesis by (simp add: snprintf_at_def Let_def)
qed

definition ha_head :: "nat \<Rightarrow> string" where
  "ha_head n = ''HTTP/1.1 200 OK'' @ crlf @ ''Content-Length: '' @ dec_nat n @ crlf @ crlf"

lemma cstr_padded: "NUL \<notin> set xs \<Longrightarrow> cstr (xs @ replicate k NUL) = xs"
  by (cases k) (simp_all add: cstr_cut)

lemma ha_answer_valid:
  assumes "ha_regular f" "ha_iroth f" "ha_size f < 10 ^ 19"
  shows "ha_answer (Some f) (Some bs) = [Ha_writev [ha_head (ha_size f), cstr (take (ha_size f) bs)], Ha_close]"
proof -
  define t1 t2 where "t1 = ''HTTP/1.1'' @ '' '' @ status_line True @ crlf" and "t2 = ''Content-Length: '' @ dec_nat (ha_size f) @ crlf"
  have len: "length t1 = 17" "length t2 \<le> 37" using length_dec_nat [OF assms(3)] by (simp_all add: t1_def t2_def status_line_def)
  have s1: "snprintf_at 0 1023 t1 (replicate 1024 NUL) = (t1 @ replicate 1007 NUL, 17)"
    using snprintf_at_fits [of t1 1023 1024 "[]" 0] len by simp
  have s2: "snprintf_at 17 1006 t2 (t1 @ replicate 1007 NUL) = ((t1 @ t2) @ replicate (1007 - length t2) NUL, length t2)"
    using snprintf_at_fits [of t2 1006 1007 t1 17] len by simp
  have s3: "snprintf_at (17 + length t2) (1023 - (17 + length t2)) crlf ((t1 @ t2) @ replicate (1007 - length t2) NUL) =
      (((t1 @ t2) @ crlf) @ replicate (1007 - length t2 - 2) NUL, 2)"
    using snprintf_at_fits [of crlf "1023 - (17 + length t2)" "1007 - length t2" "t1 @ t2" "17 + length t2"] len by simp
  have head: "(t1 @ t2) @ crlf = ha_head (ha_size f)" by (simp add: t1_def t2_def ha_head_def status_line_def)
  have nul: "NUL \<notin> set (ha_head (ha_size f))" by (simp add: ha_head_def)
  have load: "ha_load (Some f) (Some bs) = (True, Some (take (ha_size f) bs @ replicate (Suc (ha_size f - length (take (ha_size f) bs))) NUL))"
    using assms(1,2) by (simp add: ha_load_def Suc_diff_le)
  have "ha_answer (Some f) (Some bs) = [Ha_writev [cstr (ha_head (ha_size f) @ replicate (1007 - length t2 - 2) NUL), cstr (take (ha_size f) bs)], Ha_close]"
    unfolding ha_answer_def load prod.case Let_def HA_BUFFER_SIZE_def if_True option.sel t1_def [symmetric] t2_def [symmetric]
    using s1 s2 s3 by (simp add: cstr_cut head [symmetric])
  then show ?thesis by (simp add: cstr_padded [OF nul])
qed

lemma ha_answer_invalid:
  assumes "\<not> fst (ha_load st rd)"
  shows "ha_answer st rd = [Ha_send ''HT'', Ha_close]"
proof -
  define t1 where "t1 = ''HTTP/1.1'' @ '' '' @ status_line False @ crlf"
  have len: "length t1 = 36" by (simp add: t1_def status_line_def)
  have s1: "snprintf_at 0 1023 t1 (replicate 1024 NUL) = (t1 @ replicate 988 NUL, 36)"
    using snprintf_at_fits [of t1 1023 1024 "[]" 0] len by simp
  have s2: "snprintf_at 36 987 crlf (t1 @ replicate 988 NUL) = ((t1 @ crlf) @ replicate 986 NUL, 2)"
    using snprintf_at_fits [of crlf 987 988 t1 36] len by simp
  obtain fb where load: "ha_load st rd = (False, fb)" using assms by (metis prod.collapse)
  have "ha_answer st rd = [Ha_send (take 2 (t1 @ crlf @ replicate 986 NUL)), Ha_close]"
    unfolding ha_answer_def load prod.case Let_def HA_BUFFER_SIZE_def if_False t1_def [symmetric]
    using s1 s2 by simp
  then show ?thesis by (simp add: t1_def)
qed


text \<open>A readable file is sent after a header that names its size; the body is the file itself as long as no
  byte of it is NUL, and otherwise only its beginning, shorter than announced.\<close>
theorem http_file_sent:
  assumes "ha_regular f" "ha_iroth f" "ha_size f < 10 ^ 19" "length bs = ha_size f"
  shows "ha_answer (Some f) (Some bs) = [Ha_writev [ha_head (ha_size f), cstr bs], Ha_close] \<and>
    (length (cstr bs) = ha_size f \<longleftrightarrow> NUL \<notin> set bs)"
proof
  show "ha_answer (Some f) (Some bs) = [Ha_writev [ha_head (ha_size f), cstr bs], Ha_close]"
    using ha_answer_valid [OF assms(1-3), of bs] assms(4) by simp
  show "length (cstr bs) = ha_size f \<longleftrightarrow> NUL \<notin> set bs"
  proof
    assume "length (cstr bs) = ha_size f"
    then have "cstr bs = bs" using assms(4) takeWhile_eq_take [of "\<lambda>c. c \<noteq> NUL" bs] by (simp add: cstr_def)
    then show "NUL \<notin> set bs" using NUL_cstr by metis
  qed (use assms(4) in simp)
qed

text \<open>A request that cannot be answered gets two bytes of the status line: \<open>send\<close> is given the length of the
  last piece instead of the sum.\<close>
theorem http_error_cut_short:
  assumes "st = None \<or> rd = None \<or> \<not> ha_regular (the st) \<or> \<not> ha_iroth (the st)"
  shows "ha_answer st rd = [Ha_send ''HT'', Ha_close]"
proof (rule ha_answer_invalid)
  show "\<not> fst (ha_load st rd)" using assms by (cases st; cases rd) (auto simp: ha_load_def)
qed

section \<open>The request parser\<close>

datatype rp_line = RP_LINE_OK | RP_LINE_BAD | RP_LINE_OPEN
datatype rp_state = RP_REQUESTLINE | RP_HEADER
datatype rp_code = RP_NO_REQUEST | RP_GET_REQUEST | RP_BAD_REQUEST | RP_FORBIDDEN_REQUEST | RP_INTERNAL_ERROR | RP_CLOSED_CONNECTION

text \<open>\<open>parse_line\<close> gets \<open>checked_index\<close> by value: its caller does not learn how far it went.\<close>

function rp_parse_line :: "string \<Rightarrow> nat \<Rightarrow> nat \<Rightarrow> rp_line \<times> string" where
  "rp_parse_line buffer i n =
     (if n \<le> i then (RP_LINE_OPEN, buffer)
      else if buffer ! i = CR then
        (if i + 1 = n then (RP_LINE_OPEN, buffer)
         else if buffer ! (i + 1) = LF then (RP_LINE_OK, buffer[i := NUL, i + 1 := NUL])
         else (RP_LINE_BAD, buffer))
      else if buffer ! i = LF then
        (if 1 < i \<and> buffer ! (i - 1) = CR then (RP_LINE_OK, buffer[i - 1 := NUL, i := NUL]) else (RP_LINE_BAD, buffer))
      else rp_parse_line buffer (Suc i) n)"
  by pat_completeness auto

termination by (relation "measure (\<lambda>(buffer, i, n). n - i)") auto

declare rp_parse_line.simps [simp del]

definition rp_parse_requestline :: "string \<Rightarrow> rp_state \<Rightarrow> rp_code \<times> rp_state" where
  "rp_parse_requestline temp checkState = (case strpbrk temp '' '' of
      None \<Rightarrow> (RP_BAD_REQUEST, checkState)
    | Some sp \<Rightarrow>
        (let method = take (length temp - length sp) temp; url = tl sp in
         if method \<noteq> ''GET'' then (RP_BAD_REQUEST, checkState)
         else (case strpbrk url '' '' of
             None \<Rightarrow> (RP_BAD_REQUEST, checkState)
           | Some sp2 \<Rightarrow> if tl sp2 \<noteq> ''HTTP/1.1'' then (RP_BAD_REQUEST, checkState) else (RP_NO_REQUEST, RP_HEADER))))"

lemma strpbrk_space: "CHR '' '' \<notin> set a \<Longrightarrow> strpbrk (a @ CHR '' '' # b) '' '' = Some (CHR '' '' # b)"
  by (simp add: strpbrk_def dropWhile_append)

lemma strpbrk_split:
  "strpbrk s '' '' = (if CHR '' '' \<in> set s then Some (dropWhile (\<lambda>d. d \<noteq> CHR '' '') s) else None)"
proof (cases "CHR '' '' \<in> set s")
  case True
  then have "dropWhile (\<lambda>d. d \<noteq> CHR '' '') s \<noteq> []" by (simp add: dropWhile_eq_Nil_conv)
  then show ?thesis using True by (auto simp: strpbrk_def split: list.splits)
next
  case False
  then have "dropWhile (\<lambda>d. d \<noteq> CHR '' '') s = []" by (auto simp: dropWhile_eq_Nil_conv)
  then show ?thesis using False by (simp add: strpbrk_def del: dropWhile_eq_Nil_conv)
qed

text \<open>A request line is accepted exactly if it is \<open>GET\<close>, a target without blanks and \<open>HTTP/1.1\<close>, with single
  blanks between them; everything else is \<open>BAD_REQUEST\<close> and leaves the state alone.\<close>
theorem requestline_accepts:
  "rp_parse_requestline temp st =
     (if \<exists>url. CHR '' '' \<notin> set url \<and> temp = ''GET '' @ url @ '' HTTP/1.1'' then (RP_NO_REQUEST, RP_HEADER) else (RP_BAD_REQUEST, st))"
proof (cases "\<exists>url. CHR '' '' \<notin> set url \<and> temp = ''GET '' @ url @ '' HTTP/1.1''")
  case True
  then obtain url where u: "CHR '' '' \<notin> set url" "temp = ''GET'' @ CHR '' '' # url @ CHR '' '' # ''HTTP/1.1''" by auto
  have "strpbrk temp '' '' = Some (CHR '' '' # url @ CHR '' '' # ''HTTP/1.1'')" unfolding u(2) by (rule strpbrk_space) simp
  then show ?thesis using True u strpbrk_space [OF u(1), of "''HTTP/1.1''"] by (simp add: rp_parse_requestline_def)
next
  case False
  have "rp_parse_requestline temp st = (RP_BAD_REQUEST, st)"
  proof (rule ccontr)
    assume ne: "rp_parse_requestline temp st \<noteq> (RP_BAD_REQUEST, st)"
    define sp where "sp = dropWhile (\<lambda>d. d \<noteq> CHR '' '') temp"
    define sp2 where "sp2 = dropWhile (\<lambda>d. d \<noteq> CHR '' '') (tl sp)"
    have c: "CHR '' '' \<in> set temp" "take (length temp - length sp) temp = ''GET''" "CHR '' '' \<in> set (tl sp)" "tl sp2 = ''HTTP/1.1''"
      using ne by (auto simp: rp_parse_requestline_def strpbrk_split sp_def sp2_def Let_def split: if_splits)
    have sp: "temp = takeWhile (\<lambda>d. d \<noteq> CHR '' '') temp @ sp" "hd sp = CHR '' ''" "sp \<noteq> []"
      using c(1) hd_dropWhile [of "\<lambda>d. d \<noteq> CHR '' ''" temp] by (auto simp: sp_def dropWhile_eq_Nil_conv)
    then have "takeWhile (\<lambda>d. d \<noteq> CHR '' '') temp = take (length temp - length sp) temp"
      by (metis append_eq_conv_conj diff_add_inverse2 length_append)
    then have t: "temp = ''GET '' @ tl sp" using sp c(2) by (metis append.assoc append_Cons append_Nil list.collapse)
    have sp2: "tl sp = takeWhile (\<lambda>d. d \<noteq> CHR '' '') (tl sp) @ sp2" "hd sp2 = CHR '' ''" "sp2 \<noteq> []"
      using c(3) hd_dropWhile [of "\<lambda>d. d \<noteq> CHR '' ''" "tl sp"] by (auto simp: sp2_def dropWhile_eq_Nil_conv)
    then have "tl sp = takeWhile (\<lambda>d. d \<noteq> CHR '' '') (tl sp) @ '' HTTP/1.1''" using c(4) by (metis list.collapse)
    moreover have "CHR '' '' \<notin> set (takeWhile (\<lambda>d. d \<noteq> CHR '' '') (tl sp))" by (auto dest: set_takeWhileD)
    ultimately show False using False t by metis
  qed
  then show ?thesis using False by simp
qed

section \<open>Witnesses\<close>

theorem http_file_sent_witness:
  "ha_answer (Some \<lparr>ha_size = 2, ha_regular = True, ha_iroth = True\<rparr>) (Some ''ab'') = [Ha_writev [ha_head 2, ''ab''], Ha_close]"
  using http_file_sent [of "\<lparr>ha_size = 2, ha_regular = True, ha_iroth = True\<rparr>" "''ab''"] by (simp add: cstr_def)

theorem http_error_cut_short_witness: "ha_answer None (Some ''ab'') = [Ha_send ''HT'', Ha_close]"
  using http_error_cut_short [of None "Some ''ab''"] by simp

end
