(* ===== verification/Thread_Pool.thy ===== *)
theory Thread_Pool
  imports Event_Loop
begin

text \<open>
  The half-sync/half-reactive thread pool of \<open>socket/pool/threadpool.h\<close> over the mutex and the semaphore
  of \<open>socket/thread/locker.h\<close>. A thread is a program counter; \<open>tp_act\<close> is the next atomic action of a
  thread, \<open>None\<close> when it is blocked or has ended, and the pool's runs interleave these actions.
\<close>

section \<open>Locks and semaphores\<close>

text \<open>The mutex holds the thread that owns it. \<open>None\<close> as a result is a thread that has to wait.\<close>

definition locker_lock :: "nat \<Rightarrow> nat option \<Rightarrow> nat option option" where
  "locker_lock t m = (if m = None then Some (Some t) else None)"

definition locker_unlock :: "nat option \<Rightarrow> nat option" where
  "locker_unlock m = None"

definition sem_init_value :: nat where "sem_init_value = 0"

definition sem_wait :: "nat \<Rightarrow> nat option" where
  "sem_wait v = (if 0 < v then Some (v - 1) else None)"

definition sem_post :: "nat \<Rightarrow> nat" where
  "sem_post v = v + 1"

section \<open>The pool\<close>

text \<open>Where a thread is: in \<open>append\<close> (A) or in \<open>run\<close> (W). A request is a pointer, \<open>None\<close> is null.\<close>

datatype 'r pc =
    A_idle
  | A_lock "'r option" | A_locked "'r option" | A_full | A_pushed | A_post | A_ret bool
  | W_loop | W_wait | W_lock | W_locked | W_empty | W_got "'r option" | W_run 'r | W_end

text \<open>The members of \<open>threadpool\<close>, the threads, and what has been pushed, taken and processed so far.\<close>

record 'r pool =
  tp_max :: nat
  tp_queue :: "'r option list"
  tp_mutex :: "nat option"
  tp_sem :: nat
  tp_stop :: bool
  tp_pcs :: "'r pc list"
  tp_pushed :: "'r option list"
  tp_taken :: "'r option list"
  tp_processed :: "'r list"

text \<open>The constructor creates and detaches its threads one by one; a failure leaves the threads
  already started behind and throws. \<open>Inl n\<close>: an exception, with \<open>n\<close> threads running. A missing answer
  is a thread that cannot be created.\<close>

fun create_threads :: "nat \<Rightarrow> nat \<Rightarrow> (bool \<times> bool) list \<Rightarrow> nat + nat" where
  "create_threads 0 started _ = Inr started"
| "create_threads (Suc n) started [] = Inl started"
| "create_threads (Suc n) started ((created, detached) # rest) =
     (if \<not> created then Inl started
      else if \<not> detached then Inl (Suc started)
      else create_threads n (Suc started) rest)"

definition threadpool :: "int \<Rightarrow> int \<Rightarrow> (bool \<times> bool) list \<Rightarrow> nat \<Rightarrow> nat + 'r pool" where
  "threadpool thread_number max_requests answers appenders =
     (if thread_number \<le> 0 \<or> max_requests \<le> 0 then Inl 0
      else case create_threads (nat thread_number) 0 answers of
          Inl n \<Rightarrow> Inl n
        | Inr n \<Rightarrow> Inr \<lparr>tp_max = nat max_requests, tp_queue = [], tp_mutex = None, tp_sem = sem_init_value, tp_stop = False,
            tp_pcs = replicate n W_loop @ replicate appenders A_idle, tp_pushed = [], tp_taken = [], tp_processed = []\<rparr>)"

definition threadpool_destroy :: "'r pool \<Rightarrow> 'r pool" where
  "threadpool_destroy s = s\<lparr>tp_stop := True\<rparr>"

abbreviation goto :: "nat \<Rightarrow> 'r pc \<Rightarrow> 'r pool \<Rightarrow> 'r pool" where
  "goto t p s \<equiv> s\<lparr>tp_pcs := (tp_pcs s)[t := p]\<rparr>"

text \<open>The actions of \<open>append\<close>.\<close>

fun append_act :: "nat \<Rightarrow> 'r pc \<Rightarrow> 'r pool \<Rightarrow> 'r pool option" where
  "append_act t (A_lock r) s = map_option (\<lambda>m. goto t (A_locked r) (s\<lparr>tp_mutex := m\<rparr>)) (locker_lock t (tp_mutex s))"
| "append_act t (A_locked r) s =
     (if length (tp_queue s) > tp_max s then Some (goto t A_full s)
      else Some (goto t A_pushed (s\<lparr>tp_queue := tp_queue s @ [r], tp_pushed := tp_pushed s @ [r]\<rparr>)))"
| "append_act t A_full s = Some (goto t (A_ret False) (s\<lparr>tp_mutex := locker_unlock (tp_mutex s)\<rparr>))"
| "append_act t A_pushed s = Some (goto t A_post (s\<lparr>tp_mutex := locker_unlock (tp_mutex s)\<rparr>))"
| "append_act t A_post s = Some (goto t (A_ret True) (s\<lparr>tp_sem := sem_post (tp_sem s)\<rparr>))"
| "append_act t (A_ret b) s = Some (goto t A_idle s)"
| "append_act t _ s = None"

text \<open>The actions of \<open>run\<close>.\<close>

fun run_act :: "nat \<Rightarrow> 'r pc \<Rightarrow> 'r pool \<Rightarrow> 'r pool option" where
  "run_act t W_loop s = Some (goto t (if tp_stop s then W_end else W_wait) s)"
| "run_act t W_wait s = map_option (\<lambda>v. goto t W_lock (s\<lparr>tp_sem := v\<rparr>)) (sem_wait (tp_sem s))"
| "run_act t W_lock s = map_option (\<lambda>m. goto t W_locked (s\<lparr>tp_mutex := m\<rparr>)) (locker_lock t (tp_mutex s))"
| "run_act t W_locked s = (case tp_queue s of
      [] \<Rightarrow> Some (goto t W_empty s)
    | r # q \<Rightarrow> Some (goto t (W_got r) (s\<lparr>tp_queue := q, tp_taken := tp_taken s @ [r]\<rparr>)))"
| "run_act t W_empty s = Some (goto t W_loop (s\<lparr>tp_mutex := locker_unlock (tp_mutex s)\<rparr>))"
| "run_act t (W_got r) s = Some (goto t (case r of None \<Rightarrow> W_loop | Some q \<Rightarrow> W_run q) (s\<lparr>tp_mutex := locker_unlock (tp_mutex s)\<rparr>))"
| "run_act t (W_run q) s = Some (goto t W_loop (s\<lparr>tp_processed := tp_processed s @ [q]\<rparr>))"
| "run_act t _ s = None"

definition tp_act :: "nat \<Rightarrow> 'r pool \<Rightarrow> 'r pool option" where
  "tp_act t s = (if length (tp_pcs s) \<le> t then None
     else case append_act t (tp_pcs s ! t) s of Some s' \<Rightarrow> Some s' | None \<Rightarrow> run_act t (tp_pcs s ! t) s)"

text \<open>The steps of the pool: an action of a thread, a call of \<open>append\<close>, a \<open>sem_wait\<close> that a signal
  interrupts (\<open>run\<close> ignores its result and goes on), and the destructor's write to \<open>m_stop\<close>.\<close>

inductive tp_step :: "'r pool \<Rightarrow> 'r pool \<Rightarrow> bool" where
  act: "tp_act t s = Some s' \<Longrightarrow> tp_step s s'"
| call: "t < length (tp_pcs s) \<Longrightarrow> tp_pcs s ! t = A_idle \<Longrightarrow> tp_step s (goto t (A_lock r) s)"
| interrupt: "t < length (tp_pcs s) \<Longrightarrow> tp_pcs s ! t = W_wait \<Longrightarrow> tp_step s (goto t W_lock s)"
| stop: "tp_step s (threadpool_destroy s)"

text \<open>\<open>append\<close> as its caller sees it.\<close>

definition append_now :: "'r option \<Rightarrow> 'r pool \<Rightarrow> bool \<times> 'r pool" where
  "append_now r s = (if length (tp_queue s) > tp_max s then (False, s)
     else (True, s\<lparr>tp_queue := tp_queue s @ [r], tp_pushed := tp_pushed s @ [r], tp_sem := sem_post (tp_sem s)\<rparr>))"

section \<open>The invariant\<close>

fun holds_lock :: "'r pc \<Rightarrow> bool" where
  "holds_lock (A_locked r) = True"
| "holds_lock A_full = True"
| "holds_lock A_pushed = True"
| "holds_lock W_locked = True"
| "holds_lock W_empty = True"
| "holds_lock (W_got r) = True"
| "holds_lock _ = False"

text \<open>The threads that will still wake a worker or are themselves awake: an \<open>append\<close> before its \<open>post\<close>, a
  worker between \<open>wait\<close> and the look into the queue.\<close>

fun carries_token :: "'r pc \<Rightarrow> bool" where
  "carries_token A_pushed = True"
| "carries_token A_post = True"
| "carries_token W_lock = True"
| "carries_token W_locked = True"
| "carries_token _ = False"

definition tokens :: "'r pool \<Rightarrow> nat" where
  "tokens s = tp_sem s + length (filter carries_token (tp_pcs s))"

fun in_flight :: "'r pc \<Rightarrow> 'r multiset" where
  "in_flight (W_got (Some q)) = {#q#}"
| "in_flight (W_run q) = {#q#}"
| "in_flight _ = {#}"

definition requests :: "'r option list \<Rightarrow> 'r multiset" where
  "requests rs = mset (map the (filter (\<lambda>r. r \<noteq> None) rs))"

definition lock_inv :: "'r pool \<Rightarrow> bool" where
  "lock_inv s \<longleftrightarrow> (\<forall>t < length (tp_pcs s). holds_lock (tp_pcs s ! t) \<longleftrightarrow> tp_mutex s = Some t) \<and>
     (\<forall>t. tp_mutex s = Some t \<longrightarrow> t < length (tp_pcs s))"

definition order_inv :: "'r pool \<Rightarrow> bool" where
  "order_inv s \<longleftrightarrow> tp_pushed s = tp_taken s @ tp_queue s"

definition bound_inv :: "'r pool \<Rightarrow> bool" where
  "bound_inv s \<longleftrightarrow> length (tp_queue s) \<le> Suc (tp_max s)"

definition token_inv :: "'r pool \<Rightarrow> bool" where
  "token_inv s \<longleftrightarrow> length (tp_queue s) \<le> tokens s"

definition flight_inv :: "'r pool \<Rightarrow> bool" where
  "flight_inv s \<longleftrightarrow> requests (tp_taken s) = mset (tp_processed s) + sum_list (map in_flight (tp_pcs s))"

definition tp_inv :: "'r pool \<Rightarrow> bool" where
  "tp_inv s \<longleftrightarrow> lock_inv s \<and> order_inv s \<and> bound_inv s \<and> token_inv s \<and> flight_inv s"

text \<open>The effect of one changed program counter on sums and counts.\<close>

lemma sum_list_upd: "t < length xs \<Longrightarrow> sum_list (xs[t := p]) + xs ! t = sum_list xs + (p :: 'a :: comm_monoid_add)"
proof (induction xs arbitrary: t)
  case (Cons x xs)
  then show ?case by (cases t) (simp_all add: ac_simps)
qed simp

lemma sum_list_zeros: "sum_list (replicate n (0 :: 'a :: comm_monoid_add)) = 0"
  by (induction n) simp_all

lemma filter_upd:
  "t < length xs \<Longrightarrow> length (filter P (xs[t := p])) + (if P (xs ! t) then 1 else 0) = length (filter P xs) + (if P p then 1 else 0)"
proof (induction xs arbitrary: t)
  case (Cons x xs)
  then show ?case by (cases t) auto
qed simp

lemma tokens_upd:
  "t < length (tp_pcs s) \<Longrightarrow> length (filter carries_token ((tp_pcs s)[t := p])) + (if carries_token (tp_pcs s ! t) then 1 else 0) =
    length (filter carries_token (tp_pcs s)) + (if carries_token p then 1 else 0)"
  by (rule filter_upd)

lemma flight_upd:
  "t < length (tp_pcs s) \<Longrightarrow> sum_list (map in_flight ((tp_pcs s)[t := p])) + in_flight (tp_pcs s ! t) =
    sum_list (map in_flight (tp_pcs s)) + in_flight p"
  using sum_list_upd [of t "map in_flight (tp_pcs s)" "in_flight p"] by (simp add: map_update)

text \<open>Every action of a thread is one of these.\<close>

inductive tp_atom :: "nat \<Rightarrow> 'r pool \<Rightarrow> 'r pool \<Rightarrow> bool" where
  lock: "tp_pcs s ! t = A_lock r \<Longrightarrow> tp_mutex s = None \<Longrightarrow> tp_atom t s (goto t (A_locked r) (s\<lparr>tp_mutex := Some t\<rparr>))"
| full: "tp_pcs s ! t = A_locked r \<Longrightarrow> tp_max s < length (tp_queue s) \<Longrightarrow> tp_atom t s (goto t A_full s)"
| push: "tp_pcs s ! t = A_locked r \<Longrightarrow> length (tp_queue s) \<le> tp_max s \<Longrightarrow>
    tp_atom t s (goto t A_pushed (s\<lparr>tp_queue := tp_queue s @ [r], tp_pushed := tp_pushed s @ [r]\<rparr>))"
| unlock_full: "tp_pcs s ! t = A_full \<Longrightarrow> tp_atom t s (goto t (A_ret False) (s\<lparr>tp_mutex := None\<rparr>))"
| unlock_pushed: "tp_pcs s ! t = A_pushed \<Longrightarrow> tp_atom t s (goto t A_post (s\<lparr>tp_mutex := None\<rparr>))"
| post: "tp_pcs s ! t = A_post \<Longrightarrow> tp_atom t s (goto t (A_ret True) (s\<lparr>tp_sem := Suc (tp_sem s)\<rparr>))"
| ret: "tp_pcs s ! t = A_ret b \<Longrightarrow> tp_atom t s (goto t A_idle s)"
| ended: "tp_pcs s ! t = W_loop \<Longrightarrow> tp_stop s \<Longrightarrow> tp_atom t s (goto t W_end s)"
| loop: "tp_pcs s ! t = W_loop \<Longrightarrow> \<not> tp_stop s \<Longrightarrow> tp_atom t s (goto t W_wait s)"
| wait: "tp_pcs s ! t = W_wait \<Longrightarrow> 0 < tp_sem s \<Longrightarrow> tp_atom t s (goto t W_lock (s\<lparr>tp_sem := tp_sem s - 1\<rparr>))"
| wlock: "tp_pcs s ! t = W_lock \<Longrightarrow> tp_mutex s = None \<Longrightarrow> tp_atom t s (goto t W_locked (s\<lparr>tp_mutex := Some t\<rparr>))"
| empty: "tp_pcs s ! t = W_locked \<Longrightarrow> tp_queue s = [] \<Longrightarrow> tp_atom t s (goto t W_empty s)"
| take: "tp_pcs s ! t = W_locked \<Longrightarrow> tp_queue s = r # q \<Longrightarrow>
    tp_atom t s (goto t (W_got r) (s\<lparr>tp_queue := q, tp_taken := tp_taken s @ [r]\<rparr>))"
| unlock_empty: "tp_pcs s ! t = W_empty \<Longrightarrow> tp_atom t s (goto t W_loop (s\<lparr>tp_mutex := None\<rparr>))"
| skip: "tp_pcs s ! t = W_got None \<Longrightarrow> tp_atom t s (goto t W_loop (s\<lparr>tp_mutex := None\<rparr>))"
| got: "tp_pcs s ! t = W_got (Some q) \<Longrightarrow> tp_atom t s (goto t (W_run q) (s\<lparr>tp_mutex := None\<rparr>))"
| run: "tp_pcs s ! t = W_run q \<Longrightarrow> tp_atom t s (goto t W_loop (s\<lparr>tp_processed := tp_processed s @ [q]\<rparr>))"

lemma tp_act_atom: "tp_act t s = Some s' \<Longrightarrow> tp_atom t s s'"
  by (cases "tp_pcs s ! t")
    (auto simp: tp_act_def locker_lock_def locker_unlock_def sem_wait_def sem_post_def
      split: if_splits list.splits option.splits intro: tp_atom.intros [simplified])

lemma tp_atom_pcs: "tp_atom t s s' \<Longrightarrow> t < length (tp_pcs s) \<Longrightarrow> tp_pcs s' = (tp_pcs s)[t := tp_pcs s' ! t]"
  by (induction rule: tp_atom.induct) simp_all

lemma tp_act_bound: "tp_act t s = Some s' \<Longrightarrow> t < length (tp_pcs s)"
  by (simp add: tp_act_def split: if_splits)

lemma lock_inv_atom: "tp_atom t s s' \<Longrightarrow> t < length (tp_pcs s) \<Longrightarrow> lock_inv s \<Longrightarrow> lock_inv s'"
  by (induction rule: tp_atom.induct) (auto simp: lock_inv_def nth_list_update)

lemma order_inv_atom: "tp_atom t s s' \<Longrightarrow> order_inv s \<Longrightarrow> order_inv s'"
  by (induction rule: tp_atom.induct) (auto simp: order_inv_def)

lemma bound_inv_atom: "tp_atom t s s' \<Longrightarrow> bound_inv s \<Longrightarrow> bound_inv s'"
  by (induction rule: tp_atom.induct) (auto simp: bound_inv_def)

lemma token_inv_atom:
  assumes "tp_atom t s s'" "t < length (tp_pcs s)" "token_inv s"
  shows "token_inv s'"
proof -
  have "length (filter carries_token (tp_pcs s')) + (if carries_token (tp_pcs s ! t) then 1 else 0) =
      length (filter carries_token (tp_pcs s)) + (if carries_token (tp_pcs s' ! t) then 1 else 0)"
    using tokens_upd [OF assms(2)] tp_atom_pcs [OF assms(1,2)] by metis
  with assms show ?thesis
    by (induction rule: tp_atom.induct) (simp_all add: token_inv_def tokens_def)
qed

lemma requests_append: "requests (rs @ [r]) = requests rs + (case r of None \<Rightarrow> {#} | Some q \<Rightarrow> {#q#})"
  by (cases r) (simp_all add: requests_def)

lemma flight_inv_atom:
  assumes "tp_atom t s s'" "t < length (tp_pcs s)" "flight_inv s"
  shows "flight_inv s'"
proof -
  have "sum_list (map in_flight (tp_pcs s')) + in_flight (tp_pcs s ! t) =
      sum_list (map in_flight (tp_pcs s)) + in_flight (tp_pcs s' ! t)"
    using flight_upd [OF assms(2)] tp_atom_pcs [OF assms(1,2)] by metis
  with assms show ?thesis
    by (induction rule: tp_atom.induct) (auto simp: flight_inv_def requests_append split: option.splits)
qed

lemma tp_inv_step:
  assumes "tp_step s s'" "tp_inv s"
  shows "tp_inv s'"
  using assms(1)
proof cases
  case (act t)
  then have "tp_atom t s s'" "t < length (tp_pcs s)" by (auto dest: tp_act_atom tp_act_bound)
  then show ?thesis using assms(2) unfolding tp_inv_def
    by (blast intro: lock_inv_atom order_inv_atom bound_inv_atom token_inv_atom flight_inv_atom)
next
  case (call t r)
  then show ?thesis using assms(2) tokens_upd [OF call(2), of "A_lock r"] flight_upd [OF call(2), of "A_lock r"]
    by (auto simp: tp_inv_def lock_inv_def order_inv_def bound_inv_def token_inv_def flight_inv_def tokens_def nth_list_update)
next
  case (interrupt t)
  then show ?thesis using assms(2) tokens_upd [OF interrupt(2), of W_lock] flight_upd [OF interrupt(2), of W_lock]
    by (auto simp: tp_inv_def lock_inv_def order_inv_def bound_inv_def token_inv_def flight_inv_def tokens_def nth_list_update)
next
  case stop
  then show ?thesis using assms(2)
    by (simp add: threadpool_destroy_def tp_inv_def lock_inv_def order_inv_def bound_inv_def token_inv_def flight_inv_def tokens_def)
qed

definition tp_start :: "'r pool \<Rightarrow> bool" where
  "tp_start s \<longleftrightarrow> (\<exists>n m as k. threadpool n m as k = Inr s)"

lemma tp_inv_start:
  assumes "tp_start s"
  shows "tp_inv s"
proof -
  obtain m n k where s: "s = \<lparr>tp_max = m, tp_queue = [], tp_mutex = None, tp_sem = 0, tp_stop = False,
      tp_pcs = replicate n W_loop @ replicate k A_idle, tp_pushed = [], tp_taken = [], tp_processed = []\<rparr>"
    using assms by (auto simp: tp_start_def threadpool_def sem_init_value_def split: if_splits sum.splits)
  have "\<not> holds_lock (tp_pcs s ! t)" if "t < length (tp_pcs s)" for t
    using that by (simp add: s nth_append)
  then have "lock_inv s" by (simp add: lock_inv_def) (simp add: s)
  then show ?thesis
    by (simp add: s tp_inv_def order_inv_def bound_inv_def token_inv_def flight_inv_def requests_def sum_list_zeros)
qed

interpretation tp: transition_system tp_start tp_step tp_inv
  by unfold_locales (rule tp_inv_start, assumption, rule tp_inv_step)

section \<open>Properties\<close>


text \<open>C7: No request is lost or served twice, and requests are taken in the order they were pushed: in every reachable
  state the pushed requests are the taken ones followed by the queue, and each taken request that is
  not null has been processed or is in the hands of exactly one worker.\<close>
theorem threadpool_fifo_no_loss:
  assumes "tp_start s0" "tp_step\<^sup>*\<^sup>* s0 s"
  shows "tp_pushed s = tp_taken s @ tp_queue s \<and>
    requests (tp_taken s) = mset (tp_processed s) + sum_list (map in_flight (tp_pcs s))"
  using tp.reachable_inv [OF assms] by (simp add: tp_inv_def order_inv_def flight_inv_def)

lemma holder_acts:
  assumes "t < length (tp_pcs s)" "holds_lock (tp_pcs s ! t)"
  shows "\<exists>s'. tp_act t s = Some s'"
  using assms by (cases "tp_pcs s ! t") (auto simp: tp_act_def split: list.splits)

fun is_worker :: "'r pc \<Rightarrow> bool" where
  "is_worker W_loop = True"
| "is_worker W_wait = True"
| "is_worker W_lock = True"
| "is_worker W_locked = True"
| "is_worker W_empty = True"
| "is_worker (W_got r) = True"
| "is_worker (W_run q) = True"
| "is_worker _ = False"

lemma free_act:
  assumes "t < length (tp_pcs s)" "tp_mutex s = None"
    "tp_pcs s ! t \<noteq> A_idle" "tp_pcs s ! t \<noteq> W_end" "tp_pcs s ! t = W_wait \<longrightarrow> 0 < tp_sem s"
  shows "\<exists>s'. tp_act t s = Some s'"
  using assms by (cases "tp_pcs s ! t") (auto simp: tp_act_def locker_lock_def sem_wait_def split: list.splits)

text \<open>C8: No wake-up is lost: while a request is queued and a worker has not ended, some thread can act, so the
  pool is never stuck with work to do.\<close>
theorem threadpool_never_stuck:
  assumes "tp_start s0" "tp_step\<^sup>*\<^sup>* s0 s" "tp_queue s \<noteq> []" "w < length (tp_pcs s)" "is_worker (tp_pcs s ! w)"
  shows "\<exists>t s'. tp_act t s = Some s'"
proof (cases "tp_mutex s")
  case (Some t)
  have inv: "tp_inv s" by (rule tp.reachable_inv [OF assms(1,2)])
  then show ?thesis using holder_acts [of t s] Some by (auto simp: tp_inv_def lock_inv_def)
next
  case None
  have inv: "token_inv s" using tp.reachable_inv [OF assms(1,2)] by (simp add: tp_inv_def)
  show ?thesis
  proof (cases "tp_sem s")
    case 0
    then have "filter carries_token (tp_pcs s) \<noteq> []" using inv assms(3) by (auto simp: token_inv_def tokens_def)
    then obtain p where "p \<in> set (tp_pcs s)" "carries_token p" by (auto simp: filter_empty_conv)
    then obtain t where "t < length (tp_pcs s)" "carries_token (tp_pcs s ! t)" by (auto simp: in_set_conv_nth)
    then show ?thesis using free_act [of t s] None by (cases "tp_pcs s ! t") auto
  next
    case (Suc n)
    then show ?thesis using free_act [of w s] None assms(4,5) by (cases "tp_pcs s ! w") auto
  qed
qed

text \<open>C9: The queue is bounded, but by one more than \<open>max_requests\<close>, the number the members' comment gives: it
  never holds more than \<open>max_requests + 1\<close> requests, and a queue of \<open>max_requests\<close> still takes another.\<close>
theorem threadpool_queue_bound:
  assumes "tp_start s0" "tp_step\<^sup>*\<^sup>* s0 s"
  shows "length (tp_queue s) \<le> tp_max s + 1 \<and>
    (fst (append_now r s) \<longleftrightarrow> length (tp_queue s) \<le> tp_max s) \<and>
    (length (tp_queue s) = tp_max s \<longrightarrow> length (tp_queue (snd (append_now r s))) = tp_max s + 1)"
  using tp.reachable_inv [OF assms] by (simp add: tp_inv_def bound_inv_def append_now_def)

text \<open>What \<open>append\<close> does: run without interference, its four steps (three when the queue is full) have exactly the
  effect and the result of \<open>append_now\<close>, and the mutex is free again.\<close>
theorem threadpool_append_effect:
  assumes "t < length (tp_pcs s)" "tp_pcs s ! t = A_lock r" "tp_mutex s = None"
  shows "run_events tp_act (if length (tp_queue s) > tp_max s then [t, t, t] else [t, t, t, t]) s =
    Some (goto t (A_ret (fst (append_now r s))) (snd (append_now r s)))"
  using assms by (simp add: tp_act_def locker_lock_def locker_unlock_def append_now_def sem_post_def)

text \<open>The destructor does not end the workers: it only sets \<open>m_stop\<close>, and a pool whose workers all wait for a
  request stays as it is, none of its threads can ever act again.\<close>
theorem threadpool_destroy_leaves_workers:
  assumes "tp_sem s = 0" "\<forall>p \<in> set (tp_pcs s). p = W_wait \<or> p = A_idle"
  shows "tp_act t (threadpool_destroy s) = None"
proof (cases "t < length (tp_pcs s)")
  case True
  then have "tp_pcs s ! t = W_wait \<or> tp_pcs s ! t = A_idle" using assms(2) by simp
  then show ?thesis using assms(1) by (auto simp: tp_act_def threadpool_destroy_def sem_wait_def)
qed (simp add: tp_act_def threadpool_destroy_def)

section \<open>Witnesses\<close>

definition demo_tp :: "nat pool" where
  "demo_tp = \<lparr>tp_max = 1, tp_queue = [], tp_mutex = None, tp_sem = 0, tp_stop = False, tp_pcs = [W_loop, A_idle],
     tp_pushed = [], tp_taken = [], tp_processed = []\<rparr>"

definition demo_tp1 :: "nat pool" where
  "demo_tp1 = demo_tp\<lparr>tp_pcs := [W_loop, A_ret True], tp_queue := [Some 7], tp_pushed := [Some 7], tp_sem := 1\<rparr>"

definition demo_tp2 :: "nat pool" where
  "demo_tp2 = demo_tp\<lparr>tp_pcs := [W_run 7, A_ret True], tp_pushed := [Some 7], tp_taken := [Some 7]\<rparr>"

lemma demo_tp_start: "tp_start demo_tp"
  by (auto simp: tp_start_def demo_tp_def threadpool_def sem_init_value_def intro!: exI [of _ 1] exI [of _ "[(True, True)]"])

lemma run_steps: "run_events tp_act ts s = Some s' \<Longrightarrow> tp_step\<^sup>*\<^sup>* s s'"
  by (induction ts arbitrary: s) (auto simp: bind_eq_Some_conv intro: converse_rtranclp_into_rtranclp tp_step.act)

lemma demo_tp_reach1: "tp_step\<^sup>*\<^sup>* demo_tp demo_tp1"
proof -
  have "tp_step demo_tp (goto 1 (A_lock (Some 7)) demo_tp)" by (rule tp_step.call) (simp_all add: demo_tp_def)
  moreover have "run_events tp_act [1, 1, 1, 1] (goto 1 (A_lock (Some 7)) demo_tp) = Some demo_tp1"
    by (simp add: tp_act_def demo_tp_def demo_tp1_def locker_lock_def locker_unlock_def sem_post_def)
  ultimately show ?thesis by (meson run_steps converse_rtranclp_into_rtranclp)
qed

lemma demo_tp_reach2: "tp_step\<^sup>*\<^sup>* demo_tp demo_tp2"
proof -
  have "run_events tp_act [0, 0, 0, 0, 0] demo_tp1 = Some demo_tp2"
    by (simp add: tp_act_def demo_tp_def demo_tp1_def demo_tp2_def locker_lock_def locker_unlock_def sem_wait_def)
  then show ?thesis using demo_tp_reach1 by (meson run_steps rtranclp_trans)
qed

definition demo_tp3 :: "nat pool" where
  "demo_tp3 = demo_tp1\<lparr>tp_pcs := [W_locked, A_ret True], tp_sem := 0, tp_mutex := Some 0\<rparr>"

lemma demo_tp_reach3: "tp_step\<^sup>*\<^sup>* demo_tp demo_tp3"
proof -
  have "run_events tp_act [0, 0, 0] demo_tp1 = Some demo_tp3"
    by (simp add: tp_act_def demo_tp_def demo_tp1_def demo_tp3_def locker_lock_def locker_unlock_def sem_wait_def)
  then show ?thesis using demo_tp_reach1 by (meson run_steps rtranclp_trans)
qed


theorem threadpool_fifo_no_loss_witness:
  "tp_pushed demo_tp2 = tp_taken demo_tp2 @ tp_queue demo_tp2 \<and> tp_pushed demo_tp2 = [Some 7] \<and>
   requests (tp_taken demo_tp2) = mset (tp_processed demo_tp2) + sum_list (map in_flight (tp_pcs demo_tp2))"
  using threadpool_fifo_no_loss [OF demo_tp_start demo_tp_reach2] by (simp add: demo_tp2_def)

theorem threadpool_never_stuck_witness: "\<exists>t s'. tp_act t demo_tp1 = Some s'"
  by (rule threadpool_never_stuck [OF demo_tp_start demo_tp_reach1, of 0]) (simp_all add: demo_tp1_def)

theorem threadpool_queue_bound_witness:
  "length (tp_queue demo_tp1) = tp_max demo_tp1 \<and> length (tp_queue (snd (append_now (Some 8) demo_tp1))) = tp_max demo_tp1 + 1"
  using threadpool_queue_bound [OF demo_tp_start demo_tp_reach1, of "Some 8"] by (simp add: demo_tp1_def demo_tp_def)

theorem threadpool_append_effect_witness:
  "run_events tp_act [1, 1, 1, 1] (goto 1 (A_lock (Some 7)) demo_tp) = Some demo_tp1"
  using threadpool_append_effect [of 1 "goto 1 (A_lock (Some 7)) demo_tp" "Some 7"]
  by (simp add: demo_tp_def demo_tp1_def append_now_def sem_post_def)

theorem threadpool_destroy_leaves_workers_witness:
  "tp_act 0 (threadpool_destroy (demo_tp\<lparr>tp_pcs := [W_wait, A_idle]\<rparr>)) = None"
  by (rule threadpool_destroy_leaves_workers) (simp_all add: demo_tp_def)

end
