(* ===== verification/Web_Server.thy ===== *)
theory Web_Server
  imports Http_Conn Thread_Pool
begin

text \<open>
  The concurrent web server of \<open>socket/pool/main.cpp\<close>: the main thread dispatches \<open>epoll\<close> events to the
  connections of \<open>http_conn.cpp\<close> and hands requests to the thread pool of \<open>threadpool.h\<close>, whose workers
  run \<open>process\<close>. The static \<open>m_user_count\<close> of the connections is one variable of the server.
\<close>

section \<open>The server\<close>

definition MAX_FD :: int where "MAX_FD = 65536"

datatype web_call = Web_send int string | Web_close int

text \<open>\<open>ws_open\<close> records the descriptors that have been initialised and not closed since.\<close>

record web_server =
  ws_listenfd :: int
  ws_users :: "int \<Rightarrow> http_conn"
  ws_user_count :: int
  ws_pool :: "int pool"
  ws_calls :: "web_call list"
  ws_open :: "int set"

text \<open>A method of \<open>users[fd]\<close>; the static counter goes in and comes out. Outside the array: \<open>None\<close>.\<close>

definition on_user :: "int \<Rightarrow> (http_conn \<Rightarrow> http_conn) \<Rightarrow> web_server \<Rightarrow> web_server option" where
  "on_user fd f w = (if 0 \<le> fd \<and> fd < MAX_FD
     then let u = f ((ws_users w fd)\<lparr>m_user_count := ws_user_count w\<rparr>) in
       Some (w\<lparr>ws_users := (ws_users w)(fd := u), ws_user_count := m_user_count u,
         ws_open := (if m_sockfd u = -1 then ws_open w - {fd} else insert fd (ws_open w))\<rparr>)
     else None)"

definition show_error :: "int \<Rightarrow> string \<Rightarrow> web_server \<Rightarrow> web_server" where
  "show_error connfd info w = w\<lparr>ws_calls := ws_calls w @ [Web_send connfd info, Web_close connfd]\<rparr>"

text \<open>An event with the flags the dispatch tests and the answers of \<open>accept\<close>, \<open>recv\<close> and \<open>writev\<close>.\<close>

record web_event =
  we_fd :: int
  we_broken :: bool
  we_in :: bool
  we_out :: bool
  we_accept :: "int option"
  we_recv :: "recv_event list"
  we_writev :: "writev_event list"

definition web_accept :: "int option \<Rightarrow> web_server \<Rightarrow> web_server option" where
  "web_accept ans w = (case ans of
      None \<Rightarrow> Some w
    | Some connfd \<Rightarrow>
        if MAX_FD \<le> ws_user_count w then Some (show_error connfd ''Internal server busy'' w)
        else on_user connfd (hc_init connfd) w)"

definition web_read :: "int \<Rightarrow> recv_event list \<Rightarrow> web_server \<Rightarrow> web_server option" where
  "web_read fd es w = (
     let (ok, _, _) = hc_read es (ws_users w fd) in
     if ok then do {
       w1 \<leftarrow> on_user fd (\<lambda>u. snd (snd (hc_read es u))) w;
       Some (w1\<lparr>ws_pool := snd (append_now (Some fd) (ws_pool w1))\<rparr>)
     }
     else on_user fd (\<lambda>u. close_conn True (snd (snd (hc_read es u)))) w)"

definition web_write :: "int \<Rightarrow> writev_event list \<Rightarrow> web_server \<Rightarrow> web_server option" where
  "web_write fd evs w = on_user fd (\<lambda>u. case hc_write evs u of (ok, u') \<Rightarrow> if \<not> ok then close_conn True u' else u') w"

definition web_event :: "web_event \<Rightarrow> web_server \<Rightarrow> web_server option" where
  "web_event e w =
     (if we_fd e = ws_listenfd w then web_accept (we_accept e) w
      else if we_broken e then on_user (we_fd e) (close_conn True) w
      else if we_in e then web_read (we_fd e) (we_recv e) w
      else if we_out e then web_write (we_fd e) (we_writev e) w
      else Some w)"

text \<open>A worker takes the front of the queue and runs \<open>process\<close> on it; \<open>None\<close> is a fault of \<open>process\<close>.\<close>

definition web_work :: "web_files \<Rightarrow> web_server \<Rightarrow> web_server option" where
  "web_work fs w = (case tp_queue (ws_pool w) of
      [] \<Rightarrow> Some w
    | r # q \<Rightarrow>
        let w1 = w\<lparr>ws_pool := (ws_pool w)\<lparr>tp_queue := q, tp_sem := tp_sem (ws_pool w) - 1, tp_taken := tp_taken (ws_pool w) @ [r]\<rparr>\<rparr> in
        (case r of
           None \<Rightarrow> Some w1
         | Some fd \<Rightarrow> do {
             u \<leftarrow> process fs ((ws_users w1 fd)\<lparr>m_user_count := ws_user_count w1\<rparr>);
             on_user fd (\<lambda>_. u) w1
           }))"

text \<open>\<open>main\<close> up to its loop. \<open>pool\<close> is the result of the pool's constructor; an exception makes \<open>main\<close> return, the
  other calls are asserted (\<open>None\<close> for both). The objects in \<open>users\<close> are not initialised.\<close>

definition web_main_init :: "nat + int pool \<Rightarrow> int \<Rightarrow> int \<Rightarrow> int \<Rightarrow> int \<Rightarrow> (int \<Rightarrow> http_conn) \<Rightarrow> web_server option" where
  "web_main_init pool listenfd bind_ret listen_ret epollfd junk = (case pool of
      Inl _ \<Rightarrow> None
    | Inr p \<Rightarrow>
        if listenfd < 0 \<or> bind_ret < 0 \<or> listen_ret < 0 \<or> epollfd = -1 then None
        else Some \<lparr>ws_listenfd = listenfd, ws_users = junk, ws_user_count = 0, ws_pool = p, ws_calls = [], ws_open = {}\<rparr>)"

text \<open>The loop of the main thread, and what \<open>main\<close> does behind it.\<close>

fun web_loop :: "web_event epoll_ans list \<Rightarrow> web_server \<Rightarrow> (bool \<times> web_server) option" where
  "web_loop [] w = Some (False, w)"
| "web_loop (Ep_fail # _) w = Some (True, w)"
| "web_loop (Ep_eintr # rest) w = web_loop rest w"
| "web_loop (Ep_events es # rest) w = Option.bind (run_events web_event es w) (web_loop rest)"

definition web_main_end :: "int \<Rightarrow> web_server \<Rightarrow> web_server" where
  "web_main_end epollfd w = w\<lparr>ws_calls := ws_calls w @ [Web_close epollfd, Web_close (ws_listenfd w)], ws_pool := threadpool_destroy (ws_pool w)\<rparr>"

section \<open>What the methods do to the counter\<close>

text \<open>\<open>s'\<close> is \<open>s\<close> after a method that either leaves the connection open or closes it once.\<close>

definition conn_kept :: "http_conn \<Rightarrow> http_conn \<Rightarrow> bool" where
  "conn_kept s s' \<longleftrightarrow> m_sockfd s' = m_sockfd s \<and> m_user_count s' = m_user_count s"

lemma conn_kept_refl [simp]: "conn_kept s s"
  by (simp add: conn_kept_def)

lemma conn_kept_trans: "conn_kept s s' \<Longrightarrow> conn_kept s' s'' \<Longrightarrow> conn_kept s s''"
  by (simp add: conn_kept_def)

lemma reset_kept: "conn_kept s (hc_reset s)"
  by (simp add: conn_kept_def hc_reset_def)

lemma unmap_kept: "conn_kept s (unmap s)"
  by (simp add: conn_kept_def unmap_def)

lemma hc_read_loop_kept: "hc_read_loop es s = (ok, es', s') \<Longrightarrow> conn_kept s s'"
  by (induction es s rule: hc_read_loop.induct) (auto simp: conn_kept_def Let_def split: if_splits recv_event.splits)

lemma hc_read_kept: "conn_kept s (snd (snd (hc_read es s)))"
  using hc_read_loop_kept [of es s] by (cases "hc_read_loop es s") (auto simp: hc_read_def)

lemma hc_write_loop_kept: "hc_write_loop evs a b s = (ok, s') \<Longrightarrow> conn_kept s s'"
  by (induction evs a b s rule: hc_write_loop.induct)
    (auto simp: conn_kept_def Let_def unmap_def hc_reset_def split: if_splits)

lemma hc_write_kept: "conn_kept s (snd (hc_write evs s))"
  using hc_write_loop_kept [of evs "int (m_write_idx s)" 0 s]
  by (cases "hc_write_loop evs (int (m_write_idx s)) 0 s") (auto simp: hc_write_def conn_kept_def hc_reset_def)

text \<open>The parser leaves the descriptor, the counter, the output and the log alone.\<close>

definition parse_kept :: "http_conn \<Rightarrow> http_conn \<Rightarrow> bool" where
  "parse_kept s s' \<longleftrightarrow> m_sockfd s' = m_sockfd s \<and> m_user_count s' = m_user_count s \<and> m_write_buf s' = m_write_buf s \<and>
     hc_log s' = hc_log s"

lemma parse_kept_trans: "parse_kept s s' \<Longrightarrow> parse_kept s' s'' \<Longrightarrow> parse_kept s s''"
  by (simp add: parse_kept_def)

lemma parse_line_kept: "parse_kept s (snd (parse_line s))"
proof (induction s rule: parse_line.induct)
  case (1 s)
  show ?case
  proof (cases "m_checked_idx s < m_read_idx s \<and> m_read_buf s ! m_checked_idx s \<noteq> CR \<and> m_read_buf s ! m_checked_idx s \<noteq> LF")
    case True
    with "1.IH" [OF _ refl refl] show ?thesis by (simp add: parse_line.simps [of s] parse_kept_def)
  next
    case False
    then show ?thesis by (auto simp: parse_line.simps [of s] Let_def parse_kept_def)
  qed
qed

lemma parse_request_line_kept: "parse_kept s (snd (parse_request_line t s))"
  by (simp add: parse_request_line_def parse_version_def parse_url_def Let_def parse_kept_def split: option.splits)

lemma pares_headers_kept: "parse_kept s (snd (pares_headers t s))"
  by (simp add: pares_headers_def Let_def parse_kept_def)

lemma pares_content_kept: "pares_content t s = Some (r, s') \<Longrightarrow> parse_kept s s'"
  by (auto simp: pares_content_def Let_def parse_kept_def split: if_splits)

lemma do_request_kept: "do_request fs s = Some (r, s') \<Longrightarrow> parse_kept s s'"
  by (auto simp: do_request_def Let_def parse_kept_def bind_eq_Some_conv split: option.splits if_splits)

definition round_kept :: "http_conn \<Rightarrow> (http_code \<times> http_conn) option + (line_status \<times> http_conn) \<Rightarrow> bool" where
  "round_kept s r \<longleftrightarrow> (case r of Inl None \<Rightarrow> True | Inl (Some (_, s')) \<Rightarrow> parse_kept s s' | Inr (_, s') \<Rightarrow> parse_kept s s')"

lemma process_read_round_kept: "round_kept s (process_read_round fs ls s)"
proof -
  obtain l s1 where l: "(if m_check_state s = CHECK_STATE_CONNECT \<and> ls = LINE_OK then (ls, s) else parse_line s) = (l, s1)"
    by fastforce
  have k1: "parse_kept s s1"
    using l parse_line_kept [of s] by (auto simp: parse_kept_def split: if_splits)
  define t where "t = m_start_line s1"
  define s2 where "s2 = s1\<lparr>m_start_line := m_checked_idx s1\<rparr>"
  have k2: "parse_kept s s2" using k1 by (simp add: s2_def parse_kept_def)
  have req: "round_kept s (Inl (do_request fs s3))" if "parse_kept s2 s3" for s3
    using do_request_kept [of fs s3] parse_kept_trans [OF parse_kept_trans [OF k2 that]]
    by (cases "do_request fs s3") (auto simp: round_kept_def)
  have go: "round_kept s (Inr (x, s3))" "round_kept s (Inl (Some (c, s3)))" if "parse_kept s2 s3" for x c s3
    using parse_kept_trans [OF k2 that] by (simp_all add: round_kept_def)
  show ?thesis
  proof (cases "l = LINE_OK")
    case False
    then show ?thesis using l k1 by (simp add: process_read_round_def round_kept_def)
  next
    case True
    have round: "process_read_round fs ls s = (case m_check_state s2 of
          CHECK_STATE_REQUESTLINE \<Rightarrow> (case parse_request_line t s2 of (ret, s3) \<Rightarrow>
               if ret = BAD_REQUEST then Inl (Some (BAD_REQUEST, s3)) else Inr (LINE_OK, s3))
        | CHECK_STATE_HEADER \<Rightarrow> (case pares_headers t s2 of (ret, s3) \<Rightarrow>
               if ret = BAD_REQUEST then Inl (Some (BAD_REQUEST, s3))
               else if ret = GET_REQUEST then Inl (do_request fs s3) else Inr (LINE_OK, s3))
        | CHECK_STATE_CONNECT \<Rightarrow> (case pares_content t s2 of None \<Rightarrow> Inl None
             | Some (ret, s3) \<Rightarrow> if ret = GET_REQUEST then Inl (do_request fs s3) else Inr (LINE_OPEN, s3)))"
      using l True by (cases "m_check_state s1") (simp_all add: process_read_round_def t_def s2_def Let_def)
    have none: "round_kept s (Inl None)" by (simp add: round_kept_def)
    show ?thesis
      unfolding round
      using parse_request_line_kept [of s2 t] pares_headers_kept [of s2 t] pares_content_kept [of t s2] req go none
      by (auto split: check_state.splits prod.splits option.splits)
  qed
qed

lemma process_read_loop_kept: "process_read_loop fs ls s = Some (r, s') \<Longrightarrow> parse_kept s s'"
proof (induction fs ls s rule: process_read_loop.induct)
  case (1 fs ls s)
  show ?case
  proof (cases "process_read_round fs ls s")
    case (Inl x)
    then show ?thesis using "1.prems" process_read_round_kept [of s fs ls]
      by (simp add: process_read_loop.simps [of fs ls s] round_kept_def)
  next
    case (Inr x)
    obtain ls1 s1 where x: "x = (ls1, s1)" by fastforce
    have "parse_kept s s1" using process_read_round_kept [of s fs ls] Inr x by (simp add: round_kept_def)
    moreover have "parse_kept s1 s'"
      using "1.IH" [OF Inr x [symmetric]] "1.prems" Inr x by (simp add: process_read_loop.simps [of fs ls s])
    ultimately show ?thesis by (rule parse_kept_trans)
  qed
qed

lemma process_read_kept: "process_read fs s = Some (r, s') \<Longrightarrow> parse_kept s s'"
  by (simp add: process_read_def process_read_loop_kept)

lemma add_response_kept: "conn_kept s (snd (add_response t s))"
  by (simp add: conn_kept_def add_response_def)

lemma add_headers_kept: "conn_kept s (snd (add_headers n s))"
proof -
  have "conn_kept s (snd (add_blank_line (snd (add_linger (snd (add_content_length n s))))))"
    unfolding add_blank_line_def add_linger_def add_content_length_def by (meson add_response_kept conn_kept_trans)
  then show ?thesis by (simp add: add_headers_def)
qed

lemma status_headers_kept: "conn_kept s (snd (add_headers n (snd (add_status_line k t s))))"
  unfolding add_status_line_def by (meson add_headers_kept add_response_kept conn_kept_trans)

lemma conn_kept_iv: "conn_kept s s' \<Longrightarrow> conn_kept s (s'\<lparr>m_iv := iv\<rparr>)"
  by (simp add: conn_kept_def)

lemma error_page_kept: "conn_kept s (snd (error_page k t f s))"
proof -
  let ?s = "snd (add_headers (length f) (snd (add_status_line k t s)))"
  have "conn_kept s (snd (add_content f ?s))"
    unfolding add_content_def by (meson status_headers_kept add_response_kept conn_kept_trans)
  then show ?thesis by (auto simp: error_page_def Let_def conn_kept_iv split: prod.split)
qed

lemma process_write_kept: "conn_kept s (snd (process_write c s))"
proof (cases "c = FILE_REQUEST")
  case True
  have "conn_kept s (snd (add_content t (snd (add_headers n (snd (add_status_line 200 ''OK'' s))))))" for t n
    unfolding add_content_def by (meson status_headers_kept add_response_kept conn_kept_trans)
  then show ?thesis using True by (simp add: process_write_def Let_def conn_kept_iv status_headers_kept)
qed (cases c, simp_all add: process_write_def error_page_kept)

text \<open>A method that may close: either nothing of this changed, or the descriptor became -1 and the
  counter went down by one.\<close>

definition conn_closed :: "http_conn \<Rightarrow> http_conn \<Rightarrow> bool" where
  "conn_closed s s' \<longleftrightarrow> m_sockfd s \<noteq> -1 \<and> m_sockfd s' = -1 \<and> m_user_count s' = m_user_count s - 1"

lemma close_conn_closes: "conn_kept s s' \<Longrightarrow> m_sockfd s \<noteq> -1 \<Longrightarrow> conn_closed s (close_conn True s')"
  by (simp add: conn_kept_def conn_closed_def close_conn_def removefd_def Let_def)

lemma process_effect:
  assumes "process fs s = Some s'"
  shows "conn_kept s s' \<or> conn_closed s s'"
proof -
  obtain r s1 where r: "process_read fs s = Some (r, s1)" using assms by (auto simp: process_def bind_eq_Some_conv)
  have k: "conn_kept s s1" using process_read_kept [OF r] by (simp add: parse_kept_def conn_kept_def)
  show ?thesis
  proof (cases "r = NO_REQUEST")
    case True
    then show ?thesis using assms r k by (auto simp: process_def conn_kept_def)
  next
    case False
    obtain ok s2 where w: "process_write r s1 = (ok, s2)" by fastforce
    have k2: "conn_kept s s2" using process_write_kept [of s1 r] w conn_kept_trans [OF k] by simp
    have s': "s' = log_call (Epoll_mod_out (m_sockfd (if \<not> ok then close_conn True s2 else s2))) (if \<not> ok then close_conn True s2 else s2)"
      using assms r w False by (simp add: process_def Let_def)
    show ?thesis
    proof (cases "ok \<or> m_sockfd s = -1")
      case True
      then show ?thesis using k2 s' by (auto simp: conn_kept_def close_conn_def)
    next
      case False
      then show ?thesis using close_conn_closes [OF k2] s' by (simp add: conn_closed_def)
    qed
  qed
qed

section \<open>The counter of open connections\<close>

text \<open>The counter is the number of open connections; every open slot knows its descriptor, and a queued
  slot is open or has been closed since.\<close>

definition web_ok :: "web_server \<Rightarrow> bool" where
  "web_ok w \<longleftrightarrow> ws_open w \<subseteq> {0..<MAX_FD} \<and> ws_listenfd w \<notin> ws_open w \<and> ws_user_count w = int (card (ws_open w)) \<and>
     (\<forall>fd \<in> ws_open w. m_sockfd (ws_users w fd) = fd) \<and>
     (\<forall>fd. Some fd \<in> set (tp_queue (ws_pool w)) \<longrightarrow>
       0 \<le> fd \<and> fd < MAX_FD \<and> (fd \<in> ws_open w \<or> m_sockfd (ws_users w fd) = -1) \<and> fd \<noteq> ws_listenfd w)"

lemma web_okD:
  assumes "web_ok w"
  shows wo_range: "fd \<in> ws_open w \<Longrightarrow> 0 \<le> fd \<and> fd < MAX_FD"
    and wo_fin: "finite (ws_open w)"
    and wo_count: "ws_user_count w = int (card (ws_open w))"
    and wo_fd: "fd \<in> ws_open w \<Longrightarrow> m_sockfd (ws_users w fd) = fd"
    and wo_listen: "ws_listenfd w \<notin> ws_open w"
  using assms finite_subset [of "ws_open w" "{0..<MAX_FD}"] by (auto simp: web_ok_def)

text \<open>A method on an open or an already closed slot.\<close>

lemma on_user_ok:
  assumes ok: "web_ok w" and fd: "0 \<le> fd" "fd < MAX_FD"
    and st: "fd \<in> ws_open w \<or> m_sockfd (ws_users w fd) = -1"
    and f: "let u = (ws_users w fd)\<lparr>m_user_count := ws_user_count w\<rparr> in conn_kept u (f u) \<or> conn_closed u (f u)"
  shows "\<exists>w'. on_user fd f w = Some w' \<and> web_ok w' \<and> ws_pool w' = ws_pool w \<and> ws_listenfd w' = ws_listenfd w \<and>
    ws_open w' \<subseteq> ws_open w \<and> (\<forall>g. g \<noteq> fd \<longrightarrow> ws_users w' g = ws_users w g) \<and> (m_sockfd (ws_users w' fd) = -1 \<or> fd \<in> ws_open w')"
proof -
  define u where "u = (ws_users w fd)\<lparr>m_user_count := ws_user_count w\<rparr>"
  define w' where "w' = w\<lparr>ws_users := (ws_users w)(fd := f u), ws_user_count := m_user_count (f u),
     ws_open := (if m_sockfd (f u) = -1 then ws_open w - {fd} else insert fd (ws_open w))\<rparr>"
  have run: "on_user fd f w = Some w'" using fd by (simp add: on_user_def u_def w'_def Let_def)
  have u: "m_sockfd u = m_sockfd (ws_users w fd)" "m_user_count u = ws_user_count w" by (simp_all add: u_def)
  have fu: "conn_kept u (f u) \<or> conn_closed u (f u)" using f by (simp add: u_def Let_def)
  have neg: "fd \<noteq> -1" using fd by simp
  have "web_ok w'"
  proof (cases "m_sockfd (f u) = -1")
    case True
    have "ws_user_count w' = int (card (ws_open w - {fd}))"
    proof (cases "fd \<in> ws_open w")
      case o: True
      then have "m_sockfd u = fd" using wo_fd [OF ok] u by simp
      then have "m_user_count (f u) = ws_user_count w - 1" using True fu u neg by (auto simp: conn_kept_def conn_closed_def)
      then show ?thesis using o wo_fin [OF ok] wo_count [OF ok] card_gt_0_iff [of "ws_open w"]
        by (auto simp: w'_def card_Diff_singleton of_nat_diff Suc_le_eq)
    next
      case o: False
      then have "m_user_count (f u) = ws_user_count w" using st True fu u by (auto simp: conn_kept_def conn_closed_def)
      then show ?thesis using o wo_count [OF ok] by (simp add: w'_def)
    qed
    then show ?thesis using ok True by (auto simp: web_ok_def w'_def)
  next
    case False
    then have k: "conn_kept u (f u)" using fu by (auto simp: conn_closed_def)
    then have o: "fd \<in> ws_open w" using st u False by (auto simp: conn_kept_def)
    then show ?thesis using ok k False u by (auto simp: web_ok_def w'_def conn_kept_def insert_absorb)
  qed
  then show ?thesis using run st fu u by (auto simp: w'_def conn_kept_def conn_closed_def)
qed

text \<open>The kernel hands out descriptors that are not in use and reports events on registered ones.\<close>

definition web_valid :: "web_event \<Rightarrow> web_server \<Rightarrow> bool" where
  "web_valid e w \<longleftrightarrow>
     (if we_fd e = ws_listenfd w
      then (\<forall>c. we_accept e = Some c \<longrightarrow> 0 \<le> c \<and> c < MAX_FD \<and> c \<notin> ws_open w \<and> c \<noteq> ws_listenfd w)
      else we_fd e \<in> ws_open w)"

lemma web_accept_ok:
  assumes ok: "web_ok w" and v: "\<forall>c. ans = Some c \<longrightarrow> 0 \<le> c \<and> c < MAX_FD \<and> c \<notin> ws_open w \<and> c \<noteq> ws_listenfd w"
  shows "\<exists>w'. web_accept ans w = Some w' \<and> web_ok w'"
proof (cases ans)
  case None
  then show ?thesis using ok by (simp add: web_accept_def)
next
  case (Some c)
  show ?thesis
  proof (cases "MAX_FD \<le> ws_user_count w")
    case True
    then show ?thesis using Some ok by (simp add: web_accept_def show_error_def web_ok_def)
  next
    case False
    define u where "u = hc_init c ((ws_users w c)\<lparr>m_user_count := ws_user_count w\<rparr>)"
    have c: "0 \<le> c" "c < MAX_FD" "c \<notin> ws_open w" "c \<noteq> ws_listenfd w" using v Some by auto
    have u: "m_sockfd u = c" "m_user_count u = ws_user_count w + 1"
      by (simp_all add: u_def hc_init_def hc_reset_def addfd_def Let_def)
    have "on_user c (hc_init c) w = Some (w\<lparr>ws_users := (ws_users w)(c := u), ws_user_count := ws_user_count w + 1,
        ws_open := insert c (ws_open w)\<rparr>)"
      using c u by (simp add: on_user_def u_def [symmetric] Let_def)
    moreover have "web_ok (w\<lparr>ws_users := (ws_users w)(c := u), ws_user_count := ws_user_count w + 1, ws_open := insert c (ws_open w)\<rparr>)"
      using ok c u wo_fin [OF ok] by (auto simp: web_ok_def)
    ultimately show ?thesis using False Some by (simp add: web_accept_def)
  qed
qed

lemma append_now_queue: "set (tp_queue (snd (append_now r p))) \<subseteq> insert r (set (tp_queue p))"
  by (auto simp: append_now_def)

lemma web_ok_pool:
  assumes "web_ok w" "\<And>fd. Some fd \<in> set (tp_queue p) \<Longrightarrow>
      0 \<le> fd \<and> fd < MAX_FD \<and> (fd \<in> ws_open w \<or> m_sockfd (ws_users w fd) = -1) \<and> fd \<noteq> ws_listenfd w"
  shows "web_ok (w\<lparr>ws_pool := p\<rparr>)"
  using assms by (auto simp: web_ok_def)

lemma web_ok_queue:
  "web_ok w \<Longrightarrow> Some fd \<in> set (tp_queue (ws_pool w)) \<Longrightarrow>
      0 \<le> fd \<and> fd < MAX_FD \<and> (fd \<in> ws_open w \<or> m_sockfd (ws_users w fd) = -1) \<and> fd \<noteq> ws_listenfd w"
  by (simp add: web_ok_def)

lemma web_read_ok:
  assumes ok: "web_ok w" and fd: "fd \<in> ws_open w"
  shows "\<exists>w'. web_read fd es w = Some w' \<and> web_ok w'"
proof -
  note r = wo_range [OF ok fd]
  have neg: "m_sockfd (ws_users w fd) \<noteq> -1" using wo_fd [OF ok fd] r by simp
  obtain b es' s' where h: "hc_read es (ws_users w fd) = (b, es', s')" by (cases "hc_read es (ws_users w fd)") auto
  show ?thesis
  proof (cases b)
    case True
    have "\<exists>w'. on_user fd (\<lambda>u. snd (snd (hc_read es u))) w = Some w' \<and> web_ok w' \<and> ws_listenfd w' = ws_listenfd w \<and>
        (m_sockfd (ws_users w' fd) = -1 \<or> fd \<in> ws_open w')"
      using on_user_ok [OF ok, of fd "\<lambda>u. snd (snd (hc_read es u))"] r fd by (auto simp: Let_def hc_read_kept)
    then obtain w1 where w1: "on_user fd (\<lambda>u. snd (snd (hc_read es u))) w = Some w1" "web_ok w1" "ws_listenfd w1 = ws_listenfd w"
        "m_sockfd (ws_users w1 fd) = -1 \<or> fd \<in> ws_open w1" by blast
    have "fd \<noteq> ws_listenfd w" using wo_listen [OF ok] fd by auto
    then have "web_ok (w1\<lparr>ws_pool := snd (append_now (Some fd) (ws_pool w1))\<rparr>)"
      using append_now_queue [of "Some fd" "ws_pool w1"] w1 r by (intro web_ok_pool) (auto dest: web_ok_queue)
    then show ?thesis using w1 True h by (simp add: web_read_def)
  next
    case False
    have "\<exists>w'. on_user fd (\<lambda>u. close_conn True (snd (snd (hc_read es u)))) w = Some w' \<and> web_ok w'"
      using on_user_ok [OF ok, of fd "\<lambda>u. close_conn True (snd (snd (hc_read es u)))"] r fd neg
        close_conn_closes [OF hc_read_kept] by (auto simp: Let_def)
    then show ?thesis using False h by (simp add: web_read_def)
  qed
qed

lemma web_event_ok:
  assumes ok: "web_ok w" and v: "web_valid e w"
  shows "\<exists>w'. web_event e w = Some w' \<and> web_ok w'"
proof (cases "we_fd e = ws_listenfd w")
  case True
  then show ?thesis using web_accept_ok [OF ok] v by (simp add: web_event_def web_valid_def)
next
  case False
  then have fd: "we_fd e \<in> ws_open w" using v by (simp add: web_valid_def)
  note r = wo_range [OF ok fd]
  have neg: "m_sockfd (ws_users w (we_fd e)) \<noteq> -1" using wo_fd [OF ok fd] r by simp
  have br: "\<exists>w'. on_user (we_fd e) (close_conn True) w = Some w' \<and> web_ok w'"
    using on_user_ok [OF ok, of "we_fd e" "close_conn True"] r fd neg close_conn_closes [OF conn_kept_refl] by (auto simp: Let_def)
  have wr: "\<exists>w'. web_write (we_fd e) (we_writev e) w = Some w' \<and> web_ok w'"
  proof -
    let ?f = "\<lambda>u. case hc_write (we_writev e) u of (ok, u') \<Rightarrow> if \<not> ok then close_conn True u' else u'"
    have "conn_kept u (?f u) \<or> conn_closed u (?f u)" if "m_sockfd u \<noteq> -1" for u
      using hc_write_kept [of u "we_writev e"] close_conn_closes [OF hc_write_kept that, of "we_writev e"]
      by (cases "hc_write (we_writev e) u") auto
    then show ?thesis using on_user_ok [OF ok, of "we_fd e" ?f] r fd neg by (auto simp: web_write_def Let_def)
  qed
  show ?thesis using False br wr web_read_ok [OF ok fd] ok by (simp add: web_event_def)
qed

lemma web_work_ok:
  assumes ok: "web_ok w" and run: "web_work fs w = Some w'"
  shows "web_ok w'"
proof (cases "tp_queue (ws_pool w)")
  case Nil
  then show ?thesis using ok run by (simp add: web_work_def)
next
  case (Cons r q)
  define p where "p = (ws_pool w)\<lparr>tp_queue := q, tp_sem := tp_sem (ws_pool w) - 1, tp_taken := tp_taken (ws_pool w) @ [r]\<rparr>"
  define w1 where "w1 = w\<lparr>ws_pool := p\<rparr>"
  have ok1: "web_ok w1" unfolding w1_def by (rule web_ok_pool [OF ok]) (use web_ok_queue [OF ok] Cons in \<open>auto simp: p_def\<close>)
  show ?thesis
  proof (cases r)
    case None
    then show ?thesis using run ok1 Cons by (simp add: web_work_def w1_def p_def Let_def)
  next
    case (Some fd)
    have q: "0 \<le> fd" "fd < MAX_FD" "fd \<in> ws_open w1 \<or> m_sockfd (ws_users w1 fd) = -1"
      using web_ok_queue [OF ok, of fd] Cons Some by (auto simp: w1_def)
    obtain u where u: "process fs ((ws_users w1 fd)\<lparr>m_user_count := ws_user_count w1\<rparr>) = Some u" "on_user fd (\<lambda>_. u) w1 = Some w'"
      using run Cons Some by (auto simp: web_work_def w1_def p_def Let_def bind_eq_Some_conv)
    show ?thesis using on_user_ok [OF ok1 q, of "\<lambda>_. u"] process_effect [OF u(1)] u(2) by (auto simp: Let_def)
  qed
qed

inductive web_step :: "web_files \<Rightarrow> web_server \<Rightarrow> web_server \<Rightarrow> bool" for fs where
  dispatch: "web_valid e w \<Longrightarrow> web_event e w = Some w' \<Longrightarrow> web_step fs w w'"
| work: "web_work fs w = Some w' \<Longrightarrow> web_step fs w w'"

definition web_start :: "web_server \<Rightarrow> bool" where
  "web_start w \<longleftrightarrow> ws_open w = {} \<and> ws_user_count w = 0 \<and> tp_queue (ws_pool w) = []"

lemma web_main_init_start:
  assumes "web_main_init (threadpool n m answers k) lfd b li ep junk = Some w"
  shows "web_start w"
  using assms by (auto simp: web_main_init_def web_start_def threadpool_def split: sum.splits if_splits)

lemma web_step_ok: "web_step fs w w' \<Longrightarrow> web_ok w \<Longrightarrow> web_ok w'"
  by (induction rule: web_step.induct) (use web_event_ok web_work_ok in fastforce)+

lemma web_start_ok: "web_start w \<Longrightarrow> web_ok w"
  by (simp add: web_start_def web_ok_def)

interpretation web: transition_system web_start "web_step fs" web_ok for fs
  by unfold_locales (rule web_start_ok, assumption, rule web_step_ok)


section \<open>A request from the socket to the answer\<close>

text \<open>What \<open>do_request\<close> leaves behind when it finds a file.\<close>

definition file_ready :: "web_files \<Rightarrow> http_conn \<Rightarrow> bool" where
  "file_ready fs s \<longleftrightarrow> wf_stat fs (m_real_file s) = Some (m_file_stat s) \<and>
     m_file_address s = (case wf_map fs (m_real_file s) of Some data \<Rightarrow> Mapped data | None \<Rightarrow> Map_failed)"

lemma do_request_ready: "do_request fs s = Some (FILE_REQUEST, s') \<Longrightarrow> file_ready fs s'"
  by (auto simp: do_request_def file_ready_def Let_def bind_eq_Some_conv split: option.splits if_splits)

lemma parse_request_line_codes: "fst (parse_request_line t s) \<in> {BAD_REQUEST, NO_REQUEST}"
  by (simp add: parse_request_line_def parse_version_def parse_url_def Let_def split: option.splits)

lemma process_read_round_ready: "process_read_round fs ls s = Inl (Some (FILE_REQUEST, s')) \<Longrightarrow> file_ready fs s'"
  by (auto simp: process_read_round_def Let_def dest: do_request_ready split: if_splits prod.splits check_state.splits option.splits)

lemma process_read_ready: "process_read fs s = Some (FILE_REQUEST, s') \<Longrightarrow> file_ready fs s'"
proof -
  have "process_read_loop fs ls s = Some (FILE_REQUEST, s') \<Longrightarrow> file_ready fs s'" for ls
  proof (induction fs ls s rule: process_read_loop.induct)
    case (1 fs ls s)
    then show ?case using process_read_round_ready [of fs ls s s']
      by (auto simp: process_read_loop.simps [of fs ls s] split: sum.splits)
  qed
  then show "process_read fs s = Some (FILE_REQUEST, s') \<Longrightarrow> file_ready fs s'" by (simp add: process_read_def)
qed

text \<open>The answer to a request for \<open>file\<close>: status, title and content.\<close>

definition web_answer :: "web_files \<Rightarrow> string \<Rightarrow> nat \<times> string \<times> string" where
  "web_answer fs file = (case wf_stat fs file of
      None \<Rightarrow> (404, ''Not Found'', error_404_form)
    | Some st \<Rightarrow> if \<not> fs_roth st then (403, ''Forbidden'', error_403_form)
        else if fs_isdir st then (400, ''Bad Request'', error_400_form)
        else (200, ''OK'', case wf_map fs file of Some data \<Rightarrow> data | None \<Rightarrow> []))"

text \<open>Files that can be served: what is mapped has the size \<open>stat\<close> reports, which is neither 0 nor huge.\<close>

definition servable :: "web_files \<Rightarrow> string \<Rightarrow> bool" where
  "servable fs file \<longleftrightarrow> (\<forall>st. wf_stat fs file = Some st \<and> fs_roth st \<and> \<not> fs_isdir st \<longrightarrow>
     (\<exists>data. wf_map fs file = Some data \<and> length data = fs_size st \<and> data \<noteq> [] \<and> length data < 10 ^ 10))"

lemma process_answers:
  assumes r: "process_read fs s = Some (request_code fs file, s1)" "m_real_file s1 = file"
    and s: "m_write_buf s = []" "servable fs file" "web_answer fs file = (status, title, content)"
  shows "\<exists>s'. process fs s = Some s' \<and> conn_kept s s' \<and> hc_log s' = hc_log s @ [Epoll_mod_out (m_sockfd s)] \<and> m_linger s' = m_linger s1 \<and>
    m_write_buf s' \<noteq> [] \<and> m_write_idx s' \<le> length (concat (m_iv s')) \<and>
    concat (m_iv s') = response_head status title (length content) (m_linger s1) @ content"
proof -
  have k: "parse_kept s s1" by (rule process_read_kept [OF r(1)])
  have "(request_code fs file, status, title, content) \<in> {(INTERNAL_ERROR, 500, ''Internal Error'', error_500_form), (BAD_REQUEST, 400, ''Bad Request'', error_400_form),
      (NO_RESOURCE, 404, ''Not Found'', error_404_form), (FORBIDDEN_REQUEST, 403, ''Forbidden'', error_403_form)} \<or>
     (request_code fs file = FILE_REQUEST \<and> status = 200 \<and> title = ''OK'' \<and> m_file_address s1 = Mapped content \<and>
       length content = fs_size (m_file_stat s1) \<and> content \<noteq> [] \<and> length content < 10 ^ 10)"
  proof (cases "request_code fs file = FILE_REQUEST")
    case True
    then have "file_ready fs s1" using process_read_ready r(1) by simp
    then show ?thesis using True s(2,3) r(2)
      by (auto simp: request_code_def web_answer_def servable_def file_ready_def split: option.splits if_splits)
  next
    case False
    then show ?thesis using s(3) by (auto simp: request_code_def web_answer_def split: option.splits if_splits)
  qed
  then obtain buf iv where w: "process_write (request_code fs file) s1 = (True, s1\<lparr>m_write_buf := buf, m_iv := iv\<rparr>)" "buf \<noteq> []"
      "length buf \<le> length (concat iv)" "concat iv = response_head status title (length content) (m_linger s1) @ content"
    using process_write_answer [of s1 "request_code fs file" status title content] k s(1) by (auto simp: parse_kept_def)
  have "request_code fs file \<noteq> NO_REQUEST" by (simp add: request_code_def split: option.split)
  then have "process fs s = Some (log_call (Epoll_mod_out (m_sockfd s1)) (s1\<lparr>m_write_buf := buf, m_iv := iv\<rparr>))"
    using r(1) w(1) by (simp add: process_def Let_def)
  then show ?thesis using k w(2-4) by (auto simp: conn_kept_def parse_kept_def)
qed

text \<open>A connection that waits for a request, and one whose answer is to be written.\<close>

definition web_idle :: "int \<Rightarrow> web_server \<Rightarrow> bool" where
  "web_idle fd w \<longleftrightarrow> web_ok w \<and> fd \<in> ws_open w \<and> (\<exists>x. ws_users w fd = hc_reset x) \<and> tp_queue (ws_pool w) = []"

definition web_waits :: "int \<Rightarrow> string \<Rightarrow> bool \<Rightarrow> web_server \<Rightarrow> bool" where
  "web_waits fd resp linger w \<longleftrightarrow> web_ok w \<and> fd \<in> ws_open w \<and> tp_queue (ws_pool w) = [] \<and>
     (let u = ws_users w fd in m_linger u = linger \<and> m_write_buf u \<noteq> [] \<and> m_write_idx u \<le> length resp \<and> concat (m_iv u) = resp)"

lemma web_slot:
  assumes "web_ok w" "fd \<in> ws_open w"
  shows "0 \<le> fd" "fd < MAX_FD" "fd \<noteq> ws_listenfd w" "m_sockfd (ws_users w fd) = fd"
  using wo_range [OF assms] wo_listen [OF assms(1)] wo_fd [OF assms] assms(2) by auto

lemma web_get:
  assumes w: "web_idle fd w"
    and e: "we_fd e = fd" "\<not> we_broken e" "we_in e" "we_recv e = [Recv_data (req @ extra), Recv_EAGAIN]"
    and req: "strcaseeq m ''GET''" "set m \<inter> {CHR '' '', TAB, NUL, CR, LF} = {}" "target_prefix pre" "target_ok u" "strcaseeq v ''HTTP/1.1''"
      "set v \<inter> {CHR '' '', TAB, NUL, CR, LF} = {}" "\<forall>h \<in> set hs. field_ok h"
      "req = m @ '' '' @ (pre @ u) @ '' '' @ v @ crlf @ concat (map (\<lambda>h. h @ crlf) hs) @ crlf" "length (req @ extra) < READ_BUFFER_SIZE"
    and ans: "servable fs (doc_root @ take 198 u)" "web_answer fs (doc_root @ take 198 u) = (status, title, content)"
  shows "\<exists>w1 w2. web_event e w = Some w1 \<and> web_work fs w1 = Some w2 \<and> hc_log (ws_users w2 fd) = hc_log (ws_users w fd) @ [Epoll_mod_out fd] \<and>
    web_waits fd (response_head status title (length content) (list_ex keep_alive hs) @ content) (list_ex keep_alive hs) w2"
proof -
  obtain x where x: "ws_users w fd = hc_reset x" and ok: "web_ok w" "fd \<in> ws_open w" "tp_queue (ws_pool w) = []"
    using w by (auto simp: web_idle_def)
  note fd = web_slot [OF ok(1,2)]
  have read: "hc_read [Recv_data (req @ extra), Recv_EAGAIN] y = (True, [], hc_feed (req @ extra) y)" if "m_read_idx y = 0" for y
    using that req(8,9) by (simp add: hc_read_def hc_feed_def Let_def)
  define y where "y = hc_feed (req @ extra) ((hc_reset x)\<lparr>m_user_count := ws_user_count w\<rparr>)"
  define p where "p = snd (append_now (Some fd) (ws_pool w))"
  define w1 where "w1 = w\<lparr>ws_users := (ws_users w)(fd := y), ws_pool := p\<rparr>"
  have ridx: "m_read_idx (hc_reset x) = 0" by (simp add: hc_reset_def)
  have sock: "m_sockfd y = fd" "m_user_count y = ws_user_count w" "m_write_buf y = []" "m_linger y = False" "hc_log y = hc_log (ws_users w fd)"
    using fd(4) x by (simp_all add: y_def hc_feed_def hc_reset_def)
  have ev: "web_event e w = Some w1"
    using e fd ok(2) x read [OF ridx] read [of "(hc_reset x)\<lparr>m_user_count := ws_user_count w\<rparr>"] ridx sock
    by (simp add: web_event_def web_read_def on_user_def Let_def y_def [symmetric] w1_def p_def insert_absorb)
  have "web_valid e w" using e fd ok(2) by (simp add: web_valid_def)
  then have ok1: "web_ok w1" using web_event_ok [OF ok(1), of e] ev by simp
  have q: "tp_queue p = [Some fd]" using ok(3) by (simp add: p_def append_now_def)
  have buf: "m_read_buf y = req @ extra @ drop (length (req @ extra)) (replicate READ_BUFFER_SIZE NUL)"
    by (simp add: y_def hc_feed_def hc_reset_def store_bytes_def)
  obtain s1 where s1: "process_read fs y = Some (request_code fs (doc_root @ take 198 u), s1)" "m_real_file s1 = doc_root @ take 198 u"
      "m_linger s1 = list_ex keep_alive hs"
    using read_request [OF req(1-7) _ _ _ _ buf [unfolded req(8)], of fs] sock(4)
    by (auto simp: y_def hc_feed_def hc_reset_def req(8))
  obtain s' where s': "process fs y = Some s'" "conn_kept y s'" "hc_log s' = hc_log (ws_users w fd) @ [Epoll_mod_out fd]"
      "m_linger s' = list_ex keep_alive hs" "m_write_buf s' \<noteq> []" "m_write_idx s' \<le> length (concat (m_iv s'))"
      "concat (m_iv s') = response_head status title (length content) (list_ex keep_alive hs) @ content"
    using process_answers [OF s1(1,2) sock(3) ans] sock s1(3) by auto
  define w0 where "w0 = w1\<lparr>ws_pool := p\<lparr>tp_queue := [], tp_sem := tp_sem p - 1, tp_taken := tp_taken p @ [Some fd]\<rparr>\<rparr>"
  have "y\<lparr>m_user_count := ws_user_count w\<rparr> = y" using sock by simp
  then have run: "web_work fs w1 = on_user fd (\<lambda>_. s') w0"
    using q s'(1) by (simp add: web_work_def w1_def w0_def Let_def)
  have fdneg: "m_sockfd s' \<noteq> -1" using s'(2) sock fd(1) by (simp add: conn_kept_def)
  define w2 where "w2 = w0\<lparr>ws_users := (ws_users w0)(fd := s'), ws_user_count := m_user_count s', ws_open := insert fd (ws_open w0)\<rparr>"
  have w2: "web_work fs w1 = Some w2" using run fd fdneg by (simp add: on_user_def Let_def w2_def)
  have ok2: "web_ok w2" by (rule web_work_ok [OF ok1 w2])
  have "ws_users w2 fd = s'" "fd \<in> ws_open w2" "tp_queue (ws_pool w2) = []" by (simp_all add: w2_def w0_def)
  then have "web_waits fd (concat (m_iv s')) (m_linger s') w2" "hc_log (ws_users w2 fd) = hc_log s'"
    using ok2 s'(5,6) by (simp_all add: web_waits_def Let_def)
  with ev w2 show ?thesis unfolding s'(3,4,7) by blast
qed


lemma hc_write_whole:
  assumes "m_write_buf s \<noteq> []" "m_write_idx s \<le> length (concat (m_iv s))" "length (concat (m_iv s)) \<le> n" "m_linger s"
  shows "\<exists>x mid. hc_write (Wv_takes n # evs) s = (True, hc_reset x) \<and> m_sockfd x = m_sockfd s \<and> m_user_count x = m_user_count s \<and>
    hc_log x = hc_log s @ [Writev (concat (m_iv s))] @ mid @ [Epoll_mod_in (m_sockfd s)] \<and> (mid = [] \<or> (\<exists>a k. mid = [Munmap a k]))"
proof -
  let ?s2 = "unmap (log_call (Writev (concat (m_iv s))) s)"
  have "m_linger ?s2" using assms(4) by (simp add: unmap_def)
  then have "hc_write (Wv_takes n # evs) s = (True, log_call (Epoll_mod_in (m_sockfd ?s2)) (hc_reset ?s2))"
    using assms by (simp add: hc_write_def Let_def)
  moreover have "log_call c (hc_reset y) = hc_reset (log_call c y)" for c y by (simp add: hc_reset_def)
  moreover have "m_sockfd ?s2 = m_sockfd s" by (simp add: unmap_def)
  ultimately have "hc_write (Wv_takes n # evs) s = (True, hc_reset (log_call (Epoll_mod_in (m_sockfd s)) ?s2))" by simp
  moreover have "\<exists>mid. hc_log ?s2 = hc_log s @ [Writev (concat (m_iv s))] @ mid \<and> (mid = [] \<or> (\<exists>a k. mid = [Munmap a k]))"
    by (simp add: unmap_def)
  ultimately show ?thesis by (intro exI [of _ "log_call (Epoll_mod_in (m_sockfd s)) ?s2"]) (auto simp: unmap_def)
qed

text \<open>The answer of a kept connection, written whole, leaves the connection idle again.\<close>

lemma web_sends:
  assumes w: "web_waits fd resp True w"
    and e: "we_fd e = fd" "\<not> we_broken e" "\<not> we_in e" "we_out e" "we_writev e = Wv_takes n # evs" "length resp \<le> n"
  shows "\<exists>w' mid. web_event e w = Some w' \<and> web_idle fd w' \<and>
    hc_log (ws_users w' fd) = hc_log (ws_users w fd) @ [Writev resp] @ mid @ [Epoll_mod_in fd] \<and> (mid = [] \<or> (\<exists>a k. mid = [Munmap a k]))"
proof -
  have ok: "web_ok w" "fd \<in> ws_open w" "tp_queue (ws_pool w) = []" using w by (auto simp: web_waits_def)
  note fd = web_slot [OF ok(1,2)]
  define u where "u = (ws_users w fd)\<lparr>m_user_count := ws_user_count w\<rparr>"
  have u: "m_write_buf u \<noteq> []" "m_write_idx u \<le> length (concat (m_iv u))" "concat (m_iv u) = resp" "m_linger u" "m_sockfd u = fd"
      "hc_log u = hc_log (ws_users w fd)"
    using w fd(4) by (auto simp: web_waits_def Let_def u_def)
  obtain x mid where x: "hc_write (Wv_takes n # evs) u = (True, hc_reset x)" "m_sockfd x = fd" "m_user_count x = m_user_count u"
      "hc_log x = hc_log (ws_users w fd) @ [Writev resp] @ mid @ [Epoll_mod_in fd]" "mid = [] \<or> (\<exists>a k. mid = [Munmap a k])"
    using hc_write_whole [of u n evs] u e(6) by auto
  define w' where "w' = w\<lparr>ws_users := (ws_users w)(fd := hc_reset x), ws_user_count := m_user_count (hc_reset x), ws_open := insert fd (ws_open w)\<rparr>"
  have s: "m_sockfd (hc_reset x) \<noteq> -1" "hc_log (hc_reset x) = hc_log x" using x(2) fd(1) by (simp_all add: hc_reset_def)
  have ev: "web_event e w = Some w'"
    using e fd x(1) s by (simp add: web_event_def web_write_def on_user_def Let_def u_def [symmetric] w'_def)
  have "web_valid e w" using e fd ok(2) by (simp add: web_valid_def)
  then have "web_ok w'" using web_event_ok [OF ok(1), of e] ev by simp
  then have "web_idle fd w'" using ok(3) by (auto simp: web_idle_def w'_def)
  moreover have "hc_log (ws_users w' fd) = hc_log x" using s by (simp add: w'_def)
  ultimately show ?thesis using ev x(4,5) by metis
qed

text \<open>A full pool leaves its client behind. The main thread ignores the result of \<open>append\<close>: when the queue is
  over its limit the bytes are read but the request is not queued, and nothing re-arms the one-shot
  event of the connection, so its client is never served.\<close>
theorem web_full_pool_drops:
  assumes "web_ok w" "fd \<in> ws_open w" "tp_max (ws_pool w) < length (tp_queue (ws_pool w))"
    "we_fd e = fd" "\<not> we_broken e" "we_in e" "hc_read (we_recv e) (ws_users w fd) = (True, es', s')"
  shows "\<exists>w'. web_event e w = Some w' \<and> ws_pool w' = ws_pool w \<and> fd \<in> ws_open w' \<and>
    hc_log (ws_users w' fd) = hc_log (ws_users w fd)"
proof -
  note fd = web_slot [OF assms(1,2)]
  let ?u = "(ws_users w fd)\<lparr>m_user_count := ws_user_count w\<rparr>"
  have log: "hc_log (snd (snd (hc_read es y))) = hc_log y" for es y
  proof -
    have "hc_read_loop es y = (b, es', s') \<Longrightarrow> hc_log s' = hc_log y" for b es' s'
      by (induction es y rule: hc_read_loop.induct) (auto simp: Let_def split: if_splits recv_event.splits)
    then show ?thesis by (cases "hc_read_loop es y") (auto simp: hc_read_def)
  qed
  have "m_sockfd (snd (snd (hc_read (we_recv e) ?u))) = fd"
    using hc_read_kept [of ?u "we_recv e"] fd(4) by (simp add: conn_kept_def)
  then show ?thesis
    using assms(3-7) fd log [of "we_recv e" ?u]
    by (auto simp: web_event_def web_read_def on_user_def Let_def append_now_def)
qed

section \<open>Witnesses\<close>

definition demo_web_pool :: "int pool" where
  "demo_web_pool = \<lparr>tp_max = 10000, tp_queue = [], tp_mutex = None, tp_sem = 0, tp_stop = False, tp_pcs = replicate 8 W_wait,
     tp_pushed = [], tp_taken = [], tp_processed = []\<rparr>"

definition demo_ws0 :: web_server where
  "demo_ws0 = \<lparr>ws_listenfd = 3, ws_users = (\<lambda>_. demo_conn), ws_user_count = 0, ws_pool = demo_web_pool, ws_calls = [], ws_open = {}\<rparr>"

definition demo_ws1 :: web_server where
  "demo_ws1 = demo_ws0\<lparr>ws_users := (\<lambda>_. demo_conn)(5 := hc_reset demo_conn), ws_user_count := 1, ws_open := {5}\<rparr>"

definition demo_req :: string where
  "demo_req = ''GET'' @ '' '' @ ''/a'' @ '' '' @ ''HTTP/1.1'' @ crlf @ concat (map (\<lambda>h. h @ crlf) [''Host: x'']) @ crlf"

definition demo_read_event :: web_event where
  "demo_read_event = \<lparr>we_fd = 5, we_broken = False, we_in = True, we_out = False, we_accept = None,
     we_recv = [Recv_data demo_req, Recv_EAGAIN], we_writev = []\<rparr>"

definition demo_accept_event :: web_event where
  "demo_accept_event = \<lparr>we_fd = 3, we_broken = False, we_in = True, we_out = False, we_accept = Some 5, we_recv = [], we_writev = []\<rparr>"

definition demo_site :: web_files where
  "demo_site = \<lparr>wf_stat = (\<lambda>f. if f = ''./a'' then Some \<lparr>fs_roth = True, fs_isdir = False, fs_size = 5\<rparr> else None),
     wf_map = (\<lambda>f. if f = ''./a'' then Some ''hello'' else None)\<rparr>"

lemma demo_ws1_ok: "web_ok demo_ws1"
  by (simp add: web_ok_def demo_ws1_def demo_ws0_def demo_web_pool_def MAX_FD_def hc_reset_def)


lemma demo_ws1_idle: "web_idle 5 demo_ws1"
  using demo_ws1_ok by (auto simp: web_idle_def demo_ws1_def demo_ws0_def demo_web_pool_def)


theorem web_full_pool_drops_witness:
  "\<exists>w'. web_event demo_read_event (demo_ws1\<lparr>ws_pool := demo_web_pool\<lparr>tp_max := 1, tp_queue := [None, None]\<rparr>\<rparr>) = Some w' \<and>
     tp_queue (ws_pool w') = [None, None] \<and> 5 \<in> ws_open w'"
proof -
  let ?w = "demo_ws1\<lparr>ws_pool := demo_web_pool\<lparr>tp_max := 1, tp_queue := [None, None]\<rparr>\<rparr>"
  have ok: "web_ok ?w" by (rule web_ok_pool [OF demo_ws1_ok]) simp
  have r: "hc_read (we_recv demo_read_event) (ws_users ?w 5) = (True, [], hc_feed demo_req (hc_reset demo_conn))"
    by (simp add: demo_read_event_def demo_ws1_def hc_read_def hc_reset_def demo_req_def hc_feed_def READ_BUFFER_SIZE_def)
  show ?thesis
    using web_full_pool_drops [OF ok _ _ _ _ _ r] by (auto simp: demo_read_event_def demo_ws1_def demo_web_pool_def)
qed

end
