(* ===== verification/Process_Pool.thy ===== *)
theory Process_Pool
  imports Event_Loop C_String
begin

text \<open>
  The half-sync/half-async process pool of \<open>socket/pool/processpool.h\<close> and the CGI connection of
  \<open>socket/pool/cgi_server.cpp\<close> it is instantiated with: a parent that spreads connections over its
  children round robin and reaps them, and children that accept the connections and serve them.
\<close>

section \<open>The pool\<close>

definition MAX_PROCESS_NUMBER :: int where "MAX_PROCESS_NUMBER = 16"
definition USER_PER_PROCESS :: int where "USER_PER_PROCESS = 65536"

record process =
  pr_pid :: int
  pr_pipe0 :: int
  pr_pipe1 :: int

datatype pp_call = Pp_notify int | Pp_close int | Pp_kill int | Pp_addfd int | Pp_removefd int

definition new_process :: process where
  "new_process = \<lparr>pr_pid = -1, pr_pipe0 = 0, pr_pipe1 = 0\<rparr>"

text \<open>The constructor's loop from child \<open>i\<close> with \<open>n\<close> children to go: the answers of \<open>socketpair\<close> and \<open>fork\<close> for
  each child in turn. \<open>fork\<close> answers 0 in the child, which leaves the loop with its number; every answer
  is asserted to be no failure. The result is \<open>m_idx\<close>, the table and the calls, as the process that runs
  the loop sees them.\<close>

fun pp_fork :: "nat \<Rightarrow> ((int \<times> int) option \<times> int) list \<Rightarrow> nat \<Rightarrow> process list \<Rightarrow> pp_call list \<Rightarrow> (int \<times> process list \<times> pp_call list) option" where
  "pp_fork 0 _ i ps cs = Some (-1, ps, cs)"
| "pp_fork (Suc n) [] i ps cs = None"
| "pp_fork (Suc n) ((None, _) # _) i ps cs = None"
| "pp_fork (Suc n) ((Some (p0, p1), pid) # rest) i ps cs =
     (if pid < 0 then None
      else if pid > 0 then pp_fork n rest (Suc i) (ps[i := \<lparr>pr_pid = pid, pr_pipe0 = p0, pr_pipe1 = p1\<rparr>]) (cs @ [Pp_close p1])
      else Some (int i, ps[i := \<lparr>pr_pid = 0, pr_pipe0 = p0, pr_pipe1 = p1\<rparr>], cs @ [Pp_close p0]))"

text \<open>The members the parent uses, with the locals of \<open>run_parent\<close>.\<close>

record pp_parent =
  pp_listenfd :: int
  pp_sigfd :: int
  pp_epollfd :: int
  pp_procs :: "process list"
  pp_counter :: nat
  pp_stop :: bool
  pp_calls :: "pp_call list"

definition processpool :: "int \<Rightarrow> int \<Rightarrow> ((int \<times> int) option \<times> int) list \<Rightarrow> (int \<times> pp_parent) option" where
  "processpool listenfd process_number answers =
     (if process_number \<le> 0 \<or> MAX_PROCESS_NUMBER < process_number then None
      else do {
        (m_idx, ps, cs) \<leftarrow> pp_fork (nat process_number) answers 0 (replicate (nat process_number) new_process) [];
        Some (m_idx, \<lparr>pp_listenfd = listenfd, pp_sigfd = -1, pp_epollfd = -1, pp_procs = ps, pp_counter = 0, pp_stop = False, pp_calls = cs\<rparr>)
      })"

text \<open>\<open>create\<close>: one pool per process, \<open>m_instance\<close> is the argument.\<close>

definition pp_create :: "(int \<times> pp_parent) option \<Rightarrow> int \<Rightarrow> int \<Rightarrow> ((int \<times> int) option \<times> int) list \<Rightarrow> (int \<times> pp_parent) option" where
  "pp_create m_instance listenfd process_number answers = (case m_instance of
      Some p \<Rightarrow> Some p
    | None \<Rightarrow> processpool listenfd process_number answers)"

definition setup_sig_pipe :: "int \<Rightarrow> (int \<times> int) option \<Rightarrow> pp_parent \<Rightarrow> pp_parent option" where
  "setup_sig_pipe epollfd pair s = (if epollfd = -1 then None else do {
     (s0, s1) \<leftarrow> pair;
     Some (s\<lparr>pp_epollfd := epollfd, pp_sigfd := s0, pp_calls := pp_calls s @ [Pp_addfd s0]\<rparr>)
   })"

subsection \<open>The parent\<close>

text \<open>The search of lines 283 to 287 for a child that has not exited, from \<open>start\<close> around the table.\<close>

function rr_search :: "process list \<Rightarrow> nat \<Rightarrow> nat \<Rightarrow> nat option" where
  "rr_search ps start i =
     (if length ps \<le> start \<or> length ps \<le> i then None
      else if pr_pid (ps ! i) \<noteq> -1 then Some i
      else let i' = (i + 1) mod length ps in if i' = start then Some i' else rr_search ps start i')"
  by auto

text \<open>How far the search still is from \<open>start\<close>.\<close>

definition rr_left :: "nat \<Rightarrow> nat \<Rightarrow> nat \<Rightarrow> nat" where
  "rr_left n start i = (if start < i then start + n - i else if start = i then n else start - i)"

lemma rr_left_step:
  assumes "start < n" "i < n" "(i + 1) mod n \<noteq> start"
  shows "rr_left n start i = Suc (rr_left n start ((i + 1) mod n))"
  using assms by (cases "i + 1 = n") (auto simp: rr_left_def)

termination rr_search
proof (relation "measure (\<lambda>(ps, start, i). rr_left (length ps) start i)", goal_cases)
  case (2 ps start i x)
  then show ?case using rr_left_step [of start "length ps" i] by auto
qed simp

declare rr_search.simps [simp del]

text \<open>A new connection: the flag is the \<open>break\<close> out of the loop over the events.\<close>

definition pp_dispatch :: "pp_parent \<Rightarrow> (bool \<times> pp_parent) option" where
  "pp_dispatch s = do {
     i \<leftarrow> rr_search (pp_procs s) (pp_counter s) (pp_counter s);
     if pr_pid (pp_procs s ! i) = -1 then Some (True, s\<lparr>pp_stop := True\<rparr>)
     else Some (False, s\<lparr>pp_counter := (i + 1) mod length (pp_procs s),
       pp_calls := pp_calls s @ [Pp_notify (pr_pipe0 (pp_procs s ! i))]\<rparr>)
   }"

text \<open>The inner loop over the table for one reaped \<open>pid\<close>.\<close>

definition pp_reap :: "int \<Rightarrow> pp_parent \<Rightarrow> pp_parent" where
  "pp_reap pid s = s\<lparr>pp_procs := map (\<lambda>p. if pr_pid p = pid then p\<lparr>pr_pid := -1\<rparr> else p) (pp_procs s),
     pp_calls := pp_calls s @ map (\<lambda>p. Pp_close (pr_pipe0 p)) (filter (\<lambda>p. pr_pid p = pid) (pp_procs s))\<rparr>"

datatype pp_signal = Pp_CHLD "int list" | Pp_TERM | Pp_INT | Pp_other

definition pp_kill_all :: "pp_parent \<Rightarrow> pp_parent" where
  "pp_kill_all s = s\<lparr>pp_calls := pp_calls s @ map (\<lambda>p. Pp_kill (pr_pid p)) (filter (\<lambda>p. pr_pid p \<noteq> -1) (pp_procs s))\<rparr>"

definition pp_signal :: "pp_signal \<Rightarrow> pp_parent \<Rightarrow> pp_parent option" where
  "pp_signal sig s = Some (case sig of
      Pp_CHLD pids \<Rightarrow> (let s1 = fold pp_reap pids s in s1\<lparr>pp_stop := (\<forall>p \<in> set (pp_procs s1). pr_pid p = -1)\<rparr>)
    | Pp_other \<Rightarrow> s
    | _ \<Rightarrow> pp_kill_all s)"

record pp_event =
  pe_fd :: int
  pe_in :: bool
  pe_signals :: "pp_signal list recv_ans"

definition pp_event :: "pp_event \<Rightarrow> pp_parent \<Rightarrow> (bool \<times> pp_parent) option" where
  "pp_event e s =
     (if pe_fd e = pp_listenfd s then pp_dispatch s
      else if pe_fd e = pp_sigfd s \<and> pe_in e
        then (case pe_signals e of Rv_data sigs \<Rightarrow> map_option (Pair False) (run_events pp_signal sigs s) | _ \<Rightarrow> Some (False, s))
      else Some (False, s))"

fun pp_batch :: "pp_event list \<Rightarrow> pp_parent \<Rightarrow> pp_parent option" where
  "pp_batch [] s = Some s"
| "pp_batch (e # es) s = Option.bind (pp_event e s) (\<lambda>(brk, s'). if brk then Some s' else pp_batch es s')"

fun run_parent_loop :: "pp_event epoll_ans list \<Rightarrow> pp_parent \<Rightarrow> (bool \<times> pp_parent) option" where
  "run_parent_loop answers s =
     (if pp_stop s then Some (True, s)
      else (case answers of
          [] \<Rightarrow> Some (False, s)
        | Ep_fail # _ \<Rightarrow> Some (True, s)
        | Ep_eintr # rest \<Rightarrow> run_parent_loop rest s
        | Ep_events es # rest \<Rightarrow> Option.bind (pp_batch es s) (run_parent_loop rest)))"

definition run_parent :: "int \<Rightarrow> (int \<times> int) option \<Rightarrow> pp_event epoll_ans list \<Rightarrow> pp_parent \<Rightarrow> (bool \<times> pp_parent) option" where
  "run_parent epollfd pair answers s = do {
     s1 \<leftarrow> setup_sig_pipe epollfd pair s;
     (ended, s2) \<leftarrow> run_parent_loop answers (s1\<lparr>pp_calls := pp_calls s1 @ [Pp_addfd (pp_listenfd s1)]\<rparr>);
     Some (ended, if ended then s2\<lparr>pp_calls := pp_calls s2 @ [Pp_close (pp_epollfd s2)]\<rparr> else s2)
   }"

section \<open>The CGI connection\<close>

definition CGI_BUFFER_SIZE :: nat where "CGI_BUFFER_SIZE = 1024"

record cgi_conn =
  cg_sockfd :: int
  cg_buf :: string
  cg_read_idx :: nat

definition cgi_init :: "int \<Rightarrow> cgi_conn \<Rightarrow> cgi_conn" where
  "cgi_init sockfd c = c\<lparr>cg_sockfd := sockfd, cg_buf := replicate CGI_BUFFER_SIZE NUL, cg_read_idx := 0\<rparr>"

text \<open>How \<open>process\<close> ends: the connection waits for more data, it is closed, or it is closed in the
  server after a child has been forked that runs the named program on it.\<close>

datatype cgi_out = Cgi_wait | Cgi_close | Cgi_run string

fun crlf_search :: "string \<Rightarrow> nat \<Rightarrow> nat \<Rightarrow> nat" where
  "crlf_search buf 0 idx = idx"
| "crlf_search buf (Suc n) idx =
     (if idx \<ge> 1 \<and> buf ! (idx - 1) = CR \<and> buf ! idx = LF then idx else crlf_search buf n (Suc idx))"

definition recv_weight :: "string recv_ans \<Rightarrow> nat" where
  "recv_weight r = (case r of Rv_data bs \<Rightarrow> Suc (length bs) | _ \<Rightarrow> 1)"

text \<open>\<open>access\<close> and \<open>fork_ok\<close> answer the calls of these names. A finished list of answers is \<open>EAGAIN\<close>; a full
  buffer asks \<open>recv\<close> for 0 bytes, which answers 0.\<close>

function cgi_process :: "(string \<Rightarrow> bool) \<Rightarrow> bool \<Rightarrow> string recv_ans list \<Rightarrow> cgi_conn \<Rightarrow> cgi_out \<times> string recv_ans list \<times> cgi_conn" where
  "cgi_process access fork_ok rs c =
     (case rs of
        [] \<Rightarrow> (Cgi_wait, [], c)
      | r # rest \<Rightarrow>
          if cg_read_idx c \<ge> CGI_BUFFER_SIZE - 1 then (Cgi_close, rs, c)
          else case r of
              Rv_eagain \<Rightarrow> (Cgi_wait, rest, c)
            | Rv_error \<Rightarrow> (Cgi_close, rest, c)
            | Rv_eof \<Rightarrow> (Cgi_close, rest, c)
            | Rv_data bs \<Rightarrow>
                if bs = [] then (Cgi_close, rest, c)
                else
                  let room = CGI_BUFFER_SIZE - 1 - cg_read_idx c; got = take room bs;
                    left = (if length bs \<le> room then rest else Rv_data (drop room bs) # rest);
                    c1 = c\<lparr>cg_buf := take (cg_read_idx c) (cg_buf c) @ got @ drop (cg_read_idx c + length got) (cg_buf c),
                           cg_read_idx := cg_read_idx c + length got\<rparr>;
                    idx = crlf_search (cg_buf c1) (length got) (cg_read_idx c) in
                  if idx = cg_read_idx c1 then cgi_process access fork_ok left c1
                  else
                    let c2 = c1\<lparr>cg_buf := (cg_buf c1)[idx - 1 := NUL]\<rparr>; file_name = cstr (cg_buf c2) in
                    if \<not> access file_name then (Cgi_close, left, c2)
                    else if fork_ok then (Cgi_run file_name, left, c2)
                    else (Cgi_close, left, c2))"
  by pat_completeness auto

termination
proof (relation "measure (\<lambda>(access, fork_ok, rs, c). sum_list (map recv_weight rs))", goal_cases)
  case (2 access fork_ok rs c r rest bs room got left c1 idx)
  then show ?case by (auto simp: recv_weight_def)
qed simp

declare cgi_process.simps [simp del]

subsection \<open>The child\<close>

text \<open>The child of a pool over \<open>cgi_conn\<close>: the locals of \<open>run_child\<close>.\<close>

record pp_child =
  pc_pipefd :: int
  pc_sigfd :: int
  pc_epollfd :: int
  pc_stop :: bool
  pc_users :: "int \<Rightarrow> cgi_conn"
  pc_calls :: "pp_call list"
  pc_programs :: "string list"

record pc_event =
  ce_sockfd :: int
  ce_readable :: bool
  ce_notice :: "int recv_ans"
  ce_accept :: "int option"
  ce_signals :: "pp_signal list recv_ans"
  ce_client :: "string recv_ans list"

text \<open>The start of \<open>run_child\<close> in the child number \<open>m_idx\<close>; the members are its copies of the parent's.\<close>

definition run_child_start :: "int \<Rightarrow> (int \<times> int) option \<Rightarrow> nat \<Rightarrow> pp_parent \<Rightarrow> (int \<Rightarrow> cgi_conn) \<Rightarrow> pp_child option" where
  "run_child_start epollfd pair m_idx s junk = do {
     s1 \<leftarrow> setup_sig_pipe epollfd pair s;
     if length (pp_procs s1) \<le> m_idx then None
     else (let pipefd = pr_pipe1 (pp_procs s1 ! m_idx) in
       Some \<lparr>pc_pipefd = pipefd, pc_sigfd = pp_sigfd s1, pc_epollfd = pp_epollfd s1, pc_stop = pp_stop s1, pc_users = junk,
         pc_calls = pp_calls s1 @ [Pp_addfd pipefd], pc_programs = []\<rparr>)
   }"

text \<open>A notice of the parent: only a failed or finished pipe is skipped, an \<open>EAGAIN\<close> is not.\<close>

definition child_notice :: "int recv_ans \<Rightarrow> int option \<Rightarrow> pp_child \<Rightarrow> pp_child option" where
  "child_notice r acc s = (case r of
      Rv_error \<Rightarrow> Some s
    | Rv_eof \<Rightarrow> Some s
    | _ \<Rightarrow> (case acc of
        None \<Rightarrow> Some s
      | Some connfd \<Rightarrow>
          if 0 \<le> connfd \<and> connfd < USER_PER_PROCESS
          then Some (s\<lparr>pc_calls := pc_calls s @ [Pp_addfd connfd], pc_users := (pc_users s)(connfd := cgi_init connfd (pc_users s connfd))\<rparr>)
          else None))"

definition child_signal :: "pp_signal \<Rightarrow> pp_child \<Rightarrow> pp_child" where
  "child_signal sig s = (case sig of Pp_TERM \<Rightarrow> s\<lparr>pc_stop := True\<rparr> | Pp_INT \<Rightarrow> s\<lparr>pc_stop := True\<rparr> | _ \<Rightarrow> s)"

definition child_serve :: "(string \<Rightarrow> bool) \<Rightarrow> bool \<Rightarrow> int \<Rightarrow> string recv_ans list \<Rightarrow> pp_child \<Rightarrow> pp_child option" where
  "child_serve access fork_ok fd rs s = (if \<not> (0 \<le> fd \<and> fd < USER_PER_PROCESS) then None
     else (case cgi_process access fork_ok rs (pc_users s fd) of (out, _, c) \<Rightarrow>
       let s1 = s\<lparr>pc_users := (pc_users s)(fd := c)\<rparr> in
       Some (case out of
           Cgi_wait \<Rightarrow> s1
         | Cgi_close \<Rightarrow> s1\<lparr>pc_calls := pc_calls s1 @ [Pp_removefd (cg_sockfd c)]\<rparr>
         | Cgi_run file \<Rightarrow> s1\<lparr>pc_calls := pc_calls s1 @ [Pp_removefd (cg_sockfd c)], pc_programs := pc_programs s1 @ [file]\<rparr>)))"

definition pc_handle :: "(string \<Rightarrow> bool) \<Rightarrow> bool \<Rightarrow> pc_event \<Rightarrow> pp_child \<Rightarrow> pp_child option" where
  "pc_handle access fork_ok e s =
     (if ce_sockfd e = pc_pipefd s \<and> ce_readable e then child_notice (ce_notice e) (ce_accept e) s
      else if ce_sockfd e = pc_sigfd s \<and> ce_readable e
        then (case ce_signals e of Rv_data sigs \<Rightarrow> Some (fold child_signal sigs s) | _ \<Rightarrow> Some s)
      else if ce_readable e then child_serve access fork_ok (ce_sockfd e) (ce_client e) s
      else Some s)"

fun pc_loop :: "(string \<Rightarrow> bool) \<Rightarrow> bool \<Rightarrow> pc_event epoll_ans list \<Rightarrow> pp_child \<Rightarrow> (bool \<times> pp_child) option" where
  "pc_loop access fork_ok answers s =
     (if pc_stop s then Some (True, s\<lparr>pc_calls := pc_calls s @ [Pp_close (pc_pipefd s), Pp_close (pc_epollfd s)]\<rparr>)
      else (case answers of
          [] \<Rightarrow> Some (False, s)
        | Ep_fail # _ \<Rightarrow> Some (True, s\<lparr>pc_calls := pc_calls s @ [Pp_close (pc_pipefd s), Pp_close (pc_epollfd s)]\<rparr>)
        | Ep_eintr # rest \<Rightarrow> pc_loop access fork_ok rest s
        | Ep_events es # rest \<Rightarrow> Option.bind (run_events (pc_handle access fork_ok) es s) (pc_loop access fork_ok rest)))"

text \<open>\<open>run\<close>: the parent and the children part here. The answers of the process that does not run are not
  asked for.\<close>

definition pool_run :: "int \<Rightarrow> (int \<times> int) option \<Rightarrow> pp_event epoll_ans list \<Rightarrow> (string \<Rightarrow> bool) \<Rightarrow> bool \<Rightarrow> pc_event epoll_ans list \<Rightarrow>
    (int \<Rightarrow> cgi_conn) \<Rightarrow> int \<times> pp_parent \<Rightarrow> ((bool \<times> pp_parent) + (bool \<times> pp_child)) option" where
  "pool_run epollfd pair panswers access fork_ok canswers junk p = (case p of (m_idx, s) \<Rightarrow>
     if m_idx \<noteq> -1 then do {
       c \<leftarrow> run_child_start epollfd pair (nat m_idx) s junk;
       map_option Inr (pc_loop access fork_ok canswers c)
     } else map_option Inl (run_parent epollfd pair panswers s))"

section \<open>The spreading of connections\<close>

lemma rr_search_from:
  assumes "start < length ps" "k < length ps" "\<forall>j < k. pr_pid (ps ! ((start + j) mod length ps)) = -1"
  shows "(\<exists>m < length ps. pr_pid (ps ! ((start + m) mod length ps)) \<noteq> -1 \<and> (\<forall>j < m. pr_pid (ps ! ((start + j) mod length ps)) = -1) \<and>
      rr_search ps start ((start + k) mod length ps) = Some ((start + m) mod length ps)) \<or>
    ((\<forall>j < length ps. pr_pid (ps ! ((start + j) mod length ps)) = -1) \<and> rr_search ps start ((start + k) mod length ps) = Some start)"
  using assms(2,3)
proof (induction "length ps - k" arbitrary: k)
  case (Suc d)
  let ?n = "length ps" and ?i = "(start + k) mod length ps"
  have i: "?i < ?n" using assms(1) by (intro mod_less_divisor) auto
  show ?case
  proof (cases "pr_pid (ps ! ?i) = -1")
    case False
    then have "rr_search ps start ?i = Some ?i" using i assms(1) by (subst rr_search.simps) simp
    then show ?thesis using Suc.prems False by blast
  next
    case True
    have upto: "\<forall>j < Suc k. pr_pid (ps ! ((start + j) mod ?n)) = -1" using Suc.prems(2) True by (auto simp: less_Suc_eq)
    have i': "(?i + 1) mod ?n = (start + Suc k) mod ?n" by (simp add: mod_Suc_eq)
    show ?thesis
    proof (cases "Suc k = ?n")
      case k: True
      then have "(?i + 1) mod ?n = start" using i' assms(1) by (simp add: k)
      then have "rr_search ps start ?i = Some start" using i assms(1) True by (subst rr_search.simps) (simp add: Let_def)
      then show ?thesis using upto k by simp
    next
      case k: False
      then have k: "Suc k < ?n" using Suc.prems(1) by simp
      have "(start + Suc k) mod ?n \<noteq> start"
      proof (cases "start + Suc k < ?n")
        case False
        then have "(start + Suc k) mod ?n = start + Suc k - ?n" using k assms(1) by (simp add: le_mod_geq)
        then show ?thesis using k False by arith
      qed simp
      then have "rr_search ps start ?i = rr_search ps start ((start + Suc k) mod ?n)"
        using i assms(1) True i' by (subst rr_search.simps) (simp add: Let_def)
      then show ?thesis using Suc.hyps(1) [of "Suc k"] Suc.hyps(2) Suc.prems(1) k upto by simp
    qed
  qed
qed simp

text \<open>The pool the constructor leaves in the parent: all children are there, and each keeps its end of
  the pipe.\<close>

lemma pp_fork_parent:
  assumes "length answers = n" "length ps = i + n" "\<forall>(pair, pid) \<in> set answers. pair \<noteq> None \<and> 0 < pid"
  shows "pp_fork n answers i ps cs =
    Some (-1, take i ps @ map (\<lambda>(pair, pid). \<lparr>pr_pid = pid, pr_pipe0 = fst (the pair), pr_pipe1 = snd (the pair)\<rparr>) answers,
      cs @ map (\<lambda>(pair, pid). Pp_close (snd (the pair))) answers)"
  using assms
proof (induction n arbitrary: answers i ps cs)
  case (Suc n)
  then obtain p0 p1 pid rest where a: "answers = (Some (p0, p1), pid) # rest" by (cases answers) auto
  then show ?case
    using Suc.IH [of rest "ps[i := \<lparr>pr_pid = pid, pr_pipe0 = p0, pr_pipe1 = p1\<rparr>]" "Suc i"] Suc.prems
    by (simp add: take_Suc_conv_app_nth)
qed simp

text \<open>The child number \<open>i\<close> leaves the constructor with its own entry of the table as the one it will use.\<close>

lemma pp_fork_child:
  assumes "length answers = k" "k < n" "length ps = i + n" "\<forall>(pair, pid) \<in> set answers. pair \<noteq> None \<and> 0 < pid"
  shows "\<exists>ps' cs'. pp_fork n (answers @ (Some (p0, p1), 0) # rest) i ps cs = Some (int (i + k), ps', cs') \<and>
    length ps' = length ps \<and> ps' ! (i + k) = \<lparr>pr_pid = 0, pr_pipe0 = p0, pr_pipe1 = p1\<rparr>"
  using assms
proof (induction n arbitrary: answers i ps cs k)
  case (Suc n)
  show ?case
  proof (cases answers)
    case Nil
    then show ?thesis using Suc.prems by simp
  next
    case (Cons x xs)
    then obtain q0 q1 pid where a: "x = (Some (q0, q1), pid)" using Suc.prems(4) by (cases x) auto
    show ?thesis
      using Suc.IH [of xs "k - 1" "ps[i := \<lparr>pr_pid = pid, pr_pipe0 = q0, pr_pipe1 = q1\<rparr>]" "Suc i"] Suc.prems Cons a by fastforce
  qed
qed simp

text \<open>Each process leaves the constructor as what it is: the parent with \<open>m_idx\<close> -1 and a table of all its
  children, child number \<open>length before\<close> with its number and the end of the pipe that its parent writes to.\<close>
theorem processpool_roles:
  assumes "0 < n" "n \<le> 16" "\<forall>(pair, pid) \<in> set answers. pair \<noteq> None \<and> 0 < pid"
  shows "(length answers = n \<longrightarrow> (\<exists>s. processpool fd (int n) answers = Some (-1, s) \<and> map pr_pid (pp_procs s) = map snd answers \<and>
      map pr_pipe0 (pp_procs s) = map (fst \<circ> the \<circ> fst) answers)) \<and>
    (length answers < n \<longrightarrow> (\<exists>s. processpool fd (int n) (answers @ (Some (p0, p1), 0) # rest) = Some (int (length answers), s) \<and>
      length (pp_procs s) = n \<and> pr_pipe1 (pp_procs s ! length answers) = p1))"
proof (intro conjI impI, goal_cases)
  case 1
  then show ?case
    using assms pp_fork_parent [of answers n _ 0 "[]"] by (auto simp: processpool_def MAX_PROCESS_NUMBER_def case_prod_beta comp_def)
next
  case 2
  then show ?case
    using assms pp_fork_child [of answers _ n "replicate n new_process" 0 p0 p1 rest "[]"]
    by (fastforce simp: processpool_def MAX_PROCESS_NUMBER_def)
qed

definition alive :: "pp_parent \<Rightarrow> int set" where
  "alive s = {pid. pid \<noteq> -1 \<and> (\<exists>p \<in> set (pp_procs s). pr_pid p = pid)}"

lemma all_slots:
  assumes "start < length ps" "\<forall>j < length ps. P (ps ! ((start + j) mod length ps))" "p \<in> set ps"
  shows "P p"
proof -
  let ?n = "length ps"
  obtain i where i: "i < ?n" "p = ps ! i" using assms(3) by (auto simp: in_set_conv_nth)
  define j where "j = (if start \<le> i then i - start else i + ?n - start)"
  have "j < ?n" "(start + j) mod ?n = i" using i(1) assms(1) by (auto simp: j_def)
  then show ?thesis using assms(2) i(2) by auto
qed

text \<open>A new connection goes to the next living child. The parent notifies the first child at or after its
  counter, around the table, that has not exited, and the counter moves behind it; when every child
  has exited it stops instead.\<close>
theorem pool_dispatches_to_next_alive:
  assumes "pp_counter s < length (pp_procs s)"
  defines "at \<equiv> \<lambda>j. pp_procs s ! ((pp_counter s + j) mod length (pp_procs s))"
  shows "(\<exists>m < length (pp_procs s). pr_pid (at m) \<noteq> -1 \<and> (\<forall>j < m. pr_pid (at j) = -1) \<and>
      pp_dispatch s = Some (False, s\<lparr>pp_counter := (pp_counter s + m + 1) mod length (pp_procs s),
        pp_calls := pp_calls s @ [Pp_notify (pr_pipe0 (at m))]\<rparr>)) \<or>
    (alive s = {} \<and> pp_dispatch s = Some (True, s\<lparr>pp_stop := True\<rparr>))"
proof -
  let ?ps = "pp_procs s" and ?c = "pp_counter s"
  have ne: "?ps \<noteq> []" using assms(1) by auto
  consider (live) m where "m < length ?ps" "pr_pid (at m) \<noteq> -1" "\<forall>j < m. pr_pid (at j) = -1"
        "rr_search ?ps ?c ?c = Some ((?c + m) mod length ?ps)"
    | (dead) "\<forall>j < length ?ps. pr_pid (at j) = -1" "rr_search ?ps ?c ?c = Some ?c"
    using rr_search_from [of ?c ?ps 0] assms(1) ne by (auto simp: at_def)
  then show ?thesis
  proof cases
    case live
    then have "pp_dispatch s = Some (False, s\<lparr>pp_counter := (?c + m + 1) mod length ?ps, pp_calls := pp_calls s @ [Pp_notify (pr_pipe0 (at m))]\<rparr>)"
      by (simp add: pp_dispatch_def at_def mod_Suc_eq)
    with live show ?thesis by blast
  next
    case dead
    have all: "\<forall>p \<in> set ?ps. pr_pid p = -1"
      using all_slots [of ?c ?ps "\<lambda>p. pr_pid p = -1"] assms(1) dead(1) by (auto simp: at_def)
    then have "pr_pid (?ps ! ?c) = -1" using assms(1) by simp
    then have "pp_dispatch s = Some (True, s\<lparr>pp_stop := True\<rparr>)" using dead(2) by (simp add: pp_dispatch_def)
    with all show ?thesis by (auto simp: alive_def)
  qed
qed

lemma dispatch_all_alive:
  assumes "pp_counter s < length (pp_procs s)" "\<forall>p \<in> set (pp_procs s). pr_pid p \<noteq> -1"
  shows "pp_dispatch s = Some (False, s\<lparr>pp_counter := (pp_counter s + 1) mod length (pp_procs s),
     pp_calls := pp_calls s @ [Pp_notify (pr_pipe0 (pp_procs s ! pp_counter s))]\<rparr>)"
proof -
  have "pr_pid (pp_procs s ! pp_counter s) \<noteq> -1" using assms by simp
  moreover from this have "rr_search (pp_procs s) (pp_counter s) (pp_counter s) = Some (pp_counter s)"
    using assms(1) by (subst rr_search.simps) simp
  ultimately show ?thesis by (simp add: pp_dispatch_def)
qed


section \<open>The end of the children\<close>

type_synonym pool_spec = "int set \<times> bool"

definition pool_abs :: "pp_parent \<Rightarrow> pool_spec" where
  "pool_abs s = (alive s, pp_stop s)"

definition spec_pool_signal :: "pp_signal \<Rightarrow> pool_spec \<Rightarrow> pool_spec" where
  "spec_pool_signal sig = (\<lambda>(live, stop). case sig of Pp_CHLD pids \<Rightarrow> (live - set pids, live - set pids = {}) | _ \<Rightarrow> (live, stop))"

lemma alive_reap: "alive (pp_reap pid s) = alive s - {pid}"
  by (auto simp: alive_def pp_reap_def)

lemma alive_reaps: "alive (fold pp_reap pids s) = alive s - set pids"
  by (induction pids arbitrary: s) (auto simp: alive_reap)

lemma alive_empty: "(\<forall>p \<in> set (pp_procs s). pr_pid p = -1) \<longleftrightarrow> alive s = {}"
  by (auto simp: alive_def)

interpretation pool: handler pp_signal spec_pool_signal "\<lambda>_ _. True" "\<lambda>_. True" pool_abs
proof (unfold_locales, goal_cases)
  case (1 s e)
  have a: "alive (s\<lparr>pp_calls := cs, pp_stop := b\<rparr>) = alive s" "alive (s\<lparr>pp_stop := b\<rparr>) = alive s" "alive (s\<lparr>pp_calls := cs\<rparr>) = alive s" for cs b s
    by (simp_all add: alive_def)
  show ?case
    by (cases e) (simp_all add: pp_signal_def pool_abs_def spec_pool_signal_def pp_kill_all_def a alive_reaps alive_empty Let_def)
qed

text \<open>The parent ends when its last child has been reaped and not before: after any signals followed by a
  \<open>SIGCHLD\<close>, the children it holds for living are those it has not reaped, and \<open>m_stop\<close> is set exactly
  when there are none.\<close>
theorem pool_stops_with_last_child:
  "\<exists>s'. run_events pp_signal (sigs @ [Pp_CHLD pids]) s = Some s' \<and>
    alive s' = alive s - \<Union> (set ` {ps. Pp_CHLD ps \<in> set (sigs @ [Pp_CHLD pids])}) \<and> (pp_stop s' \<longleftrightarrow> alive s' = {})"
proof -
  have v: "valid_events (\<lambda>_ _. True) spec_pool_signal es a" for es a by (induction es arbitrary: a) simp_all
  obtain s' where s': "run_events pp_signal (sigs @ [Pp_CHLD pids]) s = Some s'"
      "pool_abs s' = fold spec_pool_signal (sigs @ [Pp_CHLD pids]) (pool_abs s)"
    using pool.run_refines [where s = s and es = "sigs @ [Pp_CHLD pids]"] v by blast
  have f: "fst (fold spec_pool_signal es a) = fst a - \<Union> (set ` {ps. Pp_CHLD ps \<in> set es})" for es a
  proof (induction es arbitrary: a)
    case (Cons e es)
    then show ?case by (cases a; cases e) (auto simp: spec_pool_signal_def)
  qed simp
  have "alive s' = alive s - \<Union> (set ` {ps. Pp_CHLD ps \<in> set (sigs @ [Pp_CHLD pids])})"
    using f [of "sigs @ [Pp_CHLD pids]" "pool_abs s"] unfolding s'(2) [symmetric] by (simp add: pool_abs_def)
  moreover have "pp_stop s' \<longleftrightarrow> alive s' = {}"
    using s'(2) by (cases "fold spec_pool_signal sigs (pool_abs s)") (simp add: pool_abs_def spec_pool_signal_def)
  ultimately show ?thesis using s'(1) by blast
qed

section \<open>The first line of a CGI request\<close>

definition line_end :: "string \<Rightarrow> nat \<Rightarrow> bool" where
  "line_end buf j \<longleftrightarrow> j \<ge> 1 \<and> buf ! (j - 1) = CR \<and> buf ! j = LF"

lemma crlf_search_none: "\<forall>j. i \<le> j \<and> j < i + n \<longrightarrow> \<not> line_end buf j \<Longrightarrow> crlf_search buf n i = i + n"
proof (induction n arbitrary: i)
  case (Suc n)
  have "\<not> line_end buf i" using Suc.prems by auto
  then have "crlf_search buf (Suc n) i = crlf_search buf n (Suc i)" by (auto simp: line_end_def)
  then show ?case using Suc.IH [of "Suc i"] Suc.prems by simp
qed simp

lemma crlf_search_first:
  "i \<le> k \<Longrightarrow> k < i + n \<Longrightarrow> line_end buf k \<Longrightarrow> \<forall>j. i \<le> j \<and> j < k \<longrightarrow> \<not> line_end buf j \<Longrightarrow> crlf_search buf n i = k"
proof (induction n arbitrary: i)
  case (Suc n)
  show ?case
  proof (cases "i = k")
    case True
    then show ?thesis using Suc.prems(3) by (simp add: line_end_def)
  next
    case False
    then have "\<not> line_end buf i" using Suc.prems by auto
    then have "crlf_search buf (Suc n) i = crlf_search buf n (Suc i)" by (auto simp: line_end_def)
    then show ?thesis using Suc.IH [of "Suc i"] Suc.prems False by simp
  qed
qed simp

definition no_line_end :: "string \<Rightarrow> bool" where
  "no_line_end l \<longleftrightarrow> (\<forall>j < length l. \<not> line_end l j)"

text \<open>\<open>data\<close> is what the buffer holds after a chunk, \<open>whole\<close> the whole stream.\<close>

lemma line_end_before:
  assumes "no_line_end name" "data @ unread = name @ [CR, LF] @ rest" "j \<le> length name" "j < length data"
  shows "\<not> line_end (data @ junk) j"
proof -
  have nth: "(data @ junk) ! i = (name @ [CR, LF] @ rest) ! i" if "i \<le> j" for i
    using that assms(4) by (metis assms(2) le_less_trans nth_append)
  show ?thesis
  proof (cases "j < length name")
    case True
    then have "(data @ junk) ! j = name ! j" "(data @ junk) ! (j - 1) = name ! (j - 1)" using nth by (simp_all add: nth_append)
    then show ?thesis using assms(1) True by (auto simp: no_line_end_def line_end_def)
  next
    case False
    then have "j = length name" using assms(3) by simp
    then have "(data @ junk) ! j = CR" using nth [of j] by (simp add: nth_append)
    then show ?thesis by (simp add: line_end_def)
  qed
qed

lemma cgi_first_line:
  assumes "no_line_end name" "length (cg_buf c) = CGI_BUFFER_SIZE" "cg_read_idx c \<le> length name + 1"
    "take (cg_read_idx c) (cg_buf c) @ concat chunks = name @ [CR, LF] @ rest" "length (name @ [CR, LF] @ rest) \<le> 1023"
    "\<forall>bs \<in> set chunks. bs \<noteq> []"
  shows "fst (cgi_process access fork_ok (map Rv_data chunks @ tail) c) =
    (if access (cstr name) \<and> fork_ok then Cgi_run (cstr name) else Cgi_close)"
  using assms(2-6)
proof (induction chunks arbitrary: c)
  case Nil
  then have "length (take (cg_read_idx c) (cg_buf c)) = length name + 2 + length rest" by simp
  then show ?case using Nil.prems(2) by simp
next
  case (Cons bs chunks)
  define k where "k = cg_read_idx c"
  define pre where "pre = take k (cg_buf c)"
  have len: "length (pre @ bs @ concat chunks) \<le> 1023" "pre @ bs @ concat chunks = name @ [CR, LF] @ rest"
    using Cons.prems(3,4) by (simp_all add: pre_def k_def)
  have kpre: "length pre = k" using len Cons.prems(1) by (simp add: pre_def CGI_BUFFER_SIZE_def)
  have "length pre + length bs + length (concat chunks) \<le> 1023" using len(1) by simp
  moreover have "0 < length bs" using Cons.prems(5) by simp
  ultimately have room: "length bs \<le> 1023 - k" "k < 1023" using kpre by linarith+
  define c1 where "c1 = c\<lparr>cg_buf := (pre @ bs) @ drop (k + length bs) (cg_buf c), cg_read_idx := k + length bs\<rparr>"
  define idx where "idx = crlf_search (cg_buf c1) (length bs) k"
  have proc: "cgi_process access fork_ok (map Rv_data (bs # chunks) @ tail) c =
      (if idx = k + length bs then cgi_process access fork_ok (map Rv_data chunks @ tail) c1
       else let c2 = c1\<lparr>cg_buf := (cg_buf c1)[idx - 1 := NUL]\<rparr>; f = cstr (cg_buf c2); left = map Rv_data chunks @ tail in
         if \<not> access f then (Cgi_close, left, c2) else if fork_ok then (Cgi_run f, left, c2) else (Cgi_close, left, c2))"
    using room Cons.prems(5)
    by (subst cgi_process.simps) (simp add: CGI_BUFFER_SIZE_def k_def [symmetric] pre_def [symmetric] c1_def idx_def Let_def)
  note before = line_end_before [OF assms(1), of "pre @ bs" "concat chunks" rest _ "drop (k + length bs) (cg_buf c)"]
  show ?case
  proof (cases "k + length bs \<le> length name + 1")
    case True
    have "\<not> line_end (cg_buf c1) j" if "k \<le> j" "j < k + length bs" for j
      using before [of j] that True len(2) kpre by (simp add: c1_def)
    then have "idx = k + length bs" unfolding idx_def by (intro crlf_search_none) simp
    moreover have "length (cg_buf c1) = CGI_BUFFER_SIZE" "take (cg_read_idx c1) (cg_buf c1) = pre @ bs"
      using room Cons.prems(1) kpre by (simp_all add: c1_def CGI_BUFFER_SIZE_def)
    ultimately show ?thesis
      using proc Cons.IH [of c1] True len(2) Cons.prems(4,5) by (simp add: c1_def)
  next
    case False
    have nb: "\<not> line_end (cg_buf c1) j" if "k \<le> j" "j < length name + 1" for j
      using before [of j] that False len(2) kpre by (simp add: c1_def)
    have buf: "\<exists>xs. pre @ bs = name @ [CR, LF] @ xs"
    proof -
      have "take (length name + 2) (pre @ bs) = name @ [CR, LF]"
        using arg_cong [OF len(2), of "take (length name + 2)"] False kpre by simp
      then show ?thesis by (metis append_assoc append_take_drop_id)
    qed
    then obtain xs where xs: "pre @ bs = name @ [CR, LF] @ xs" by blast
    have "line_end (cg_buf c1) (length name + 1)" by (simp add: c1_def xs line_end_def nth_append)
    then have idx: "idx = length name + 1"
      unfolding idx_def using False Cons.prems(2) nb by (intro crlf_search_first) (auto simp: k_def)
    have "(cg_buf c1)[idx - 1 := NUL] = name @ NUL # (LF # xs @ drop (k + length bs) (cg_buf c))"
      by (simp add: c1_def xs idx)
    then show ?thesis using proc idx False by (simp add: Let_def cstr_cut)
  qed
qed


section \<open>Witnesses\<close>

definition demo_parent :: pp_parent where
  "demo_parent = \<lparr>pp_listenfd = 3, pp_sigfd = 4, pp_epollfd = 5,
     pp_procs = [\<lparr>pr_pid = 10, pr_pipe0 = 20, pr_pipe1 = 30\<rparr>, \<lparr>pr_pid = 11, pr_pipe0 = 21, pr_pipe1 = 31\<rparr>],
     pp_counter = 1, pp_stop = False, pp_calls = []\<rparr>"

theorem processpool_roles_witness:
  "(\<exists>s. processpool 3 2 [(Some (20, 30), 10), (Some (21, 31), 11)] = Some (-1, s) \<and> map pr_pid (pp_procs s) = [10, 11] \<and> map pr_pipe0 (pp_procs s) = [20, 21]) \<and>
   (\<exists>s. processpool 3 2 [(Some (20, 30), 10), (Some (21, 31), 0)] = Some (1, s) \<and> length (pp_procs s) = 2 \<and> pr_pipe1 (pp_procs s ! 1) = 31)"
  using processpool_roles [of 2 "[(Some (20, 30), 10), (Some (21, 31), 11)]" 3]
    processpool_roles [of 2 "[(Some (20, 30), 10)]" 3 21 31 "[]"] by simp

theorem pool_dispatches_to_next_alive_witness:
  "\<exists>s'. pp_dispatch demo_parent = Some (False, s') \<and> pp_calls s' \<noteq> []"
proof -
  have "10 \<in> alive demo_parent" by (auto simp: alive_def demo_parent_def)
  then have "alive demo_parent \<noteq> {}" by blast
  then show ?thesis using pool_dispatches_to_next_alive [of demo_parent] by (fastforce simp: demo_parent_def)
qed



end
