(* ===== verification/Shm_Chat.thy ===== *)
theory Shm_Chat
  imports Event_Loop C_String
begin

text \<open>
  The chat server of \<open>socket/ipc/shm.c\<close>: a parent that accepts clients and forks one child for each,
  a shared memory with one read buffer per client, and a pipe between the parent and each child over
  which the number of the buffer that holds new data travels.
\<close>

section \<open>Data\<close>

definition USER_LIMIT :: int where "USER_LIMIT = 5"
definition BUFFER_SIZE :: int where "BUFFER_SIZE = 1024"
definition PROCESS_LIMIT :: int where "PROCESS_LIMIT = 65536"

record client_data =
  cd_address :: nat
  cd_connfd :: int
  cd_pid :: int
  cd_pipe0 :: int
  cd_pipe1 :: int

text \<open>The calls that leave the processes.\<close>

datatype sh_call =
    Send_bytes int string | Send_index int int | Close int | Epoll_add int | Epoll_del int | Kill_term int |
    Shm_unlink | Munmap | Free_tables

text \<open>The locals of \<open>run_child\<close>; \<open>ch_stop\<close> is the child's copy of \<open>stop_child\<close>.\<close>

record chat_child =
  ch_idx :: int
  ch_connfd :: int
  ch_pipefd :: int
  ch_stop :: bool

text \<open>The parent: its globals and the locals of \<open>main\<close>. \<open>sh_procs\<close> are the child processes of the
  parent as the kernel keeps them, with the state they started from: \<open>fork\<close> adds one and \<open>waitpid\<close>
  takes one away.\<close>

record shm_server =
  sh_listenfd :: int
  sh_epollfd :: int
  sh_sigfd :: int
  sh_sigfd1 :: int
  sh_users :: "client_data list"
  sh_sub_process :: "int \<Rightarrow> int"
  sh_user_count :: int
  sh_stop_server :: bool
  sh_terminate :: bool
  sh_procs :: "int \<rightharpoonup> chat_child"
  sh_calls :: "sh_call list"

text \<open>The shared memory of \<open>USER_LIMIT * BUFFER_SIZE\<close> bytes.\<close>

type_synonym share_mem = "int \<Rightarrow> char"

section \<open>The child\<close>

text \<open>\<open>memset\<close> of a buffer and the copy of \<open>recv\<close>; leaving the mapping is a fault.\<close>

definition clear_seg :: "int \<Rightarrow> share_mem \<Rightarrow> share_mem option" where
  "clear_seg k m = (if 0 \<le> k \<and> k < USER_LIMIT
     then Some (\<lambda>a. if k * BUFFER_SIZE \<le> a \<and> a < k * BUFFER_SIZE + BUFFER_SIZE then NUL else m a) else None)"

definition recv_seg :: "int \<Rightarrow> string \<Rightarrow> share_mem \<Rightarrow> share_mem" where
  "recv_seg k bs m = (\<lambda>a. if k * BUFFER_SIZE \<le> a \<and> a < k * BUFFER_SIZE + int (length bs)
     then bs ! nat (a - k * BUFFER_SIZE) else m a)"

definition read_seg :: "int \<Rightarrow> share_mem \<Rightarrow> string option" where
  "read_seg k m = (if 0 \<le> k \<and> k < USER_LIMIT
     then Some (map m [k * BUFFER_SIZE..k * BUFFER_SIZE + BUFFER_SIZE - 1]) else None)"

text \<open>An event of the child's \<open>epoll_wait\<close>: its descriptor, whether it is readable, and what \<open>recv\<close>
  answers on the client socket and on the pipe.\<close>

record ch_event =
  ce_fd :: int
  ce_in :: bool
  ce_data :: "string recv_ans"
  ce_client :: "int recv_ans"

type_synonym ch_state = "chat_child \<times> share_mem \<times> sh_call list"

definition child_conn :: "string recv_ans \<Rightarrow> ch_state \<Rightarrow> ch_state option" where
  "child_conn r = (\<lambda>(c, m, cs). do {
     m' \<leftarrow> clear_seg (ch_idx c) m;
     Some (case r of
        Rv_error \<Rightarrow> (c\<lparr>ch_stop := True\<rparr>, m', cs)
      | Rv_eagain \<Rightarrow> (c, m', cs)
      | Rv_eof \<Rightarrow> (c\<lparr>ch_stop := True\<rparr>, m', cs)
      | Rv_data bs \<Rightarrow> (c, recv_seg (ch_idx c) (take (nat BUFFER_SIZE - 1) bs) m',
                      cs @ [Send_index (ch_pipefd c) (ch_idx c)]))
   })"

definition child_pipe :: "int recv_ans \<Rightarrow> ch_state \<Rightarrow> ch_state option" where
  "child_pipe r = (\<lambda>(c, m, cs). case r of
        Rv_error \<Rightarrow> Some (c\<lparr>ch_stop := True\<rparr>, m, cs)
      | Rv_eagain \<Rightarrow> Some (c, m, cs)
      | Rv_eof \<Rightarrow> Some (c\<lparr>ch_stop := True\<rparr>, m, cs)
      | Rv_data client \<Rightarrow> do {
          bs \<leftarrow> read_seg client m;
          Some (c, m, cs @ [Send_bytes (ch_connfd c) bs])
        })"

definition child_handle :: "ch_event \<Rightarrow> ch_state \<Rightarrow> ch_state option" where
  "child_handle e st =
     (if ce_fd e = ch_connfd (fst st) \<and> ce_in e then child_conn (ce_data e) st
      else if ce_fd e = ch_pipefd (fst st) \<and> ce_in e then child_pipe (ce_client e) st
      else Some st)"

text \<open>The loop over the answers of \<open>epoll_wait\<close>; when the answers end, the child waits in
  \<open>epoll_wait\<close> and the flag of the result is false.\<close>

fun child_loop :: "ch_event epoll_ans list \<Rightarrow> ch_state \<Rightarrow> (bool \<times> ch_state) option" where
  "child_loop answers st =
     (if ch_stop (fst st) then Some (True, st)
      else (case answers of
          [] \<Rightarrow> Some (False, st)
        | Ep_fail # _ \<Rightarrow> Some (True, st)
        | Ep_eintr # rest \<Rightarrow> child_loop rest st
        | Ep_events es # rest \<Rightarrow> Option.bind (run_events child_handle es st) (child_loop rest)))"

definition run_child :: "int \<Rightarrow> ch_event epoll_ans list \<Rightarrow> ch_state \<Rightarrow> (bool \<times> ch_state) option" where
  "run_child child_epollfd answers = (\<lambda>(c, m, cs).
     if child_epollfd = -1 then None
     else do {
       (ended, c', m', cs') \<leftarrow> child_loop answers (c, m, cs @ [Epoll_add (ch_connfd c), Epoll_add (ch_pipefd c)]);
       Some (ended, c', m',
         if ended then cs' @ [Close (ch_connfd c'), Close (ch_pipefd c'), Close child_epollfd] else cs')
     })"

text \<open>The child \<open>fork\<close> starts: \<open>run_child(user_count, users, share_mem)\<close> takes its descriptors from its
  copy of \<open>users\<close>.\<close>

definition new_child :: "int \<Rightarrow> client_data \<Rightarrow> chat_child" where
  "new_child idx u = \<lparr>ch_idx = idx, ch_connfd = cd_connfd u, ch_pipefd = cd_pipe1 u, ch_stop = False\<rparr>"

section \<open>The parent\<close>

definition get_user :: "int \<Rightarrow> shm_server \<Rightarrow> client_data option" where
  "get_user i s = (if 0 \<le> i \<and> nat i < length (sh_users s) then Some (sh_users s ! nat i) else None)"

definition set_user :: "int \<Rightarrow> client_data \<Rightarrow> shm_server \<Rightarrow> shm_server option" where
  "set_user i u s = (if 0 \<le> i \<and> nat i < length (sh_users s) then Some (s\<lparr>sh_users := (sh_users s)[nat i := u]\<rparr>) else None)"

definition get_sub :: "int \<Rightarrow> shm_server \<Rightarrow> int option" where
  "get_sub p s = (if 0 \<le> p \<and> p < PROCESS_LIMIT then Some (sh_sub_process s p) else None)"

definition set_sub :: "int \<Rightarrow> int \<Rightarrow> shm_server \<Rightarrow> shm_server option" where
  "set_sub p i s = (if 0 \<le> p \<and> p < PROCESS_LIMIT then Some (s\<lparr>sh_sub_process := (sh_sub_process s)(p := i)\<rparr>) else None)"

abbreviation sh_call :: "sh_call \<Rightarrow> shm_server \<Rightarrow> shm_server" where
  "sh_call c s \<equiv> s\<lparr>sh_calls := sh_calls s @ [c]\<rparr>"

text \<open>What the child does between \<open>fork\<close> and \<open>exit\<close>, with its copy \<open>s\<close> of the parent's variables.\<close>

definition child_process :: "shm_server \<Rightarrow> client_data \<Rightarrow> int \<Rightarrow> ch_event epoll_ans list \<Rightarrow> share_mem \<Rightarrow> (bool \<times> ch_state) option" where
  "child_process s u child_epollfd answers m = do {
     (ended, c, m', cs) \<leftarrow> run_child child_epollfd answers (new_child (sh_user_count s) u, m,
        map Close [sh_epollfd s, sh_listenfd s, cd_pipe0 u, sh_sigfd s, sh_sigfd1 s]);
     Some (ended, c, m', if ended then cs @ [Munmap] else cs)
   }"

text \<open>The start of \<open>main\<close>, with the answers of \<open>socket\<close>, \<open>bind\<close> and \<open>listen\<close>, \<open>epoll_create\<close>,
  \<open>socketpair\<close>, and the three calls that make the shared memory; each is asserted. \<open>malloc\<close> leaves
  \<open>users\<close> as it finds it.\<close>

definition shm_main_init :: "int \<Rightarrow> int \<Rightarrow> int \<Rightarrow> int \<Rightarrow> (int \<times> int) option \<Rightarrow> bool \<Rightarrow> client_data list \<Rightarrow> shm_server option" where
  "shm_main_init lfd bind_ret listen_ret efd sig_pair mapped junk = (
     if lfd < 0 \<or> bind_ret = -1 \<or> listen_ret = -1 \<or> efd = -1 \<or> \<not> mapped then None
     else do {
       (sfd, sfd1) \<leftarrow> sig_pair;
       Some \<lparr>sh_listenfd = lfd, sh_epollfd = efd, sh_sigfd = sfd, sh_sigfd1 = sfd1,
         sh_users = take (nat USER_LIMIT + 1) junk, sh_sub_process = (\<lambda>_. -1), sh_user_count = 0,
         sh_stop_server = False, sh_terminate = False, sh_procs = Map.empty,
         sh_calls = [Epoll_add lfd, Epoll_add sfd]\<rparr>
     })"

text \<open>The answers to \<open>accept\<close>, \<open>socketpair\<close> and \<open>fork\<close> for one connection: \<open>None\<close> is -1.\<close>

record accept_ans =
  an_conn :: "(nat \<times> int) option"
  an_pipe :: "(int \<times> int) option"
  an_pid :: "int option"

definition shm_accept :: "accept_ans \<Rightarrow> shm_server \<Rightarrow> shm_server option" where
  "shm_accept r s = (case an_conn r of
      None \<Rightarrow> Some s
    | Some (client_address, connfd) \<Rightarrow>
        if USER_LIMIT \<le> sh_user_count s
        then Some (sh_call (Close connfd) (sh_call (Send_bytes connfd (''too many users'' @ [LF])) s))
        else do {
          u \<leftarrow> get_user (sh_user_count s) s;
          (p0, p1) \<leftarrow> an_pipe r;
          let u1 = u\<lparr>cd_address := client_address, cd_connfd := connfd, cd_pipe0 := p0, cd_pipe1 := p1\<rparr>;
          s1 \<leftarrow> set_user (sh_user_count s) u1 s;
          (case an_pid r of
             None \<Rightarrow> Some (sh_call (Close connfd) s1)
           | Some pid \<Rightarrow> do {
               s2 \<leftarrow> set_user (sh_user_count s1) (u1\<lparr>cd_pid := pid\<rparr>)
                       (sh_call (Epoll_add p0) (sh_call (Close p1) (sh_call (Close connfd)
                         (s1\<lparr>sh_procs := (sh_procs s1)(pid \<mapsto> new_child (sh_user_count s1) u1)\<rparr>))));
               s3 \<leftarrow> set_sub pid (sh_user_count s2) s2;
               Some (s3\<lparr>sh_user_count := sh_user_count s3 + 1\<rparr>)
             })
        })"

text \<open>One turn of the \<open>waitpid\<close> loop, for the child \<open>pid\<close> it reports.\<close>

definition shm_reap :: "int \<Rightarrow> shm_server \<Rightarrow> shm_server option" where
  "shm_reap pid s0 = (let s = s0\<lparr>sh_procs := (sh_procs s0)(pid := None)\<rparr> in do {
     del_user \<leftarrow> get_sub pid s;
     s1 \<leftarrow> set_sub pid (-1) s;
     if del_user < 0 \<or> USER_LIMIT < del_user then Some s1
     else do {
       u \<leftarrow> get_user del_user s1;
       let s2 = sh_call (Close (cd_pipe0 u)) (sh_call (Epoll_del (cd_pipe0 u)) s1);
       let s3 = s2\<lparr>sh_user_count := sh_user_count s2 - 1\<rparr>;
       v \<leftarrow> get_user (sh_user_count s3) s3;
       s4 \<leftarrow> set_user del_user v s3;
       set_sub (cd_pid v) del_user s4
     }
   })"

text \<open>A byte of the signal pipe; with \<open>SIGCHLD\<close> come the children \<open>waitpid\<close> reports in turn.\<close>

datatype sh_signal = Sig_CHLD "int list" | Sig_TERM | Sig_INT | Sig_other

fun kill_loop :: "client_data list \<Rightarrow> shm_server \<Rightarrow> shm_server" where
  "kill_loop [] s = s"
| "kill_loop (u # us) s = kill_loop us (sh_call (Kill_term (cd_pid u)) s)"

definition shm_term :: "shm_server \<Rightarrow> shm_server" where
  "shm_term s = (if sh_user_count s = 0 then s\<lparr>sh_stop_server := True\<rparr>
     else (kill_loop (take (nat (sh_user_count s)) (sh_users s)) s)\<lparr>sh_terminate := True\<rparr>)"

definition shm_signal :: "sh_signal \<Rightarrow> shm_server \<Rightarrow> shm_server option" where
  "shm_signal sig s = (case sig of
      Sig_CHLD pids \<Rightarrow> do {
        s1 \<leftarrow> run_events shm_reap pids s;
        Some (if sh_terminate s1 \<and> sh_user_count s1 = 0 then s1\<lparr>sh_stop_server := True\<rparr> else s1)
      }
    | Sig_TERM \<Rightarrow> Some (shm_term s)
    | Sig_INT \<Rightarrow> Some (shm_term s)
    | Sig_other \<Rightarrow> Some s)"

fun send_loop :: "int \<Rightarrow> int \<Rightarrow> client_data list \<Rightarrow> shm_server \<Rightarrow> shm_server" where
  "send_loop sockfd child [] s = s"
| "send_loop sockfd child (u # us) s = send_loop sockfd child us
     (if cd_pipe0 u \<noteq> sockfd then sh_call (Send_index (cd_pipe0 u) child) s else s)"

definition shm_child_msg :: "int \<Rightarrow> int recv_ans \<Rightarrow> shm_server \<Rightarrow> shm_server" where
  "shm_child_msg sockfd r s = (case r of
      Rv_data child \<Rightarrow> send_loop sockfd child (take (nat (sh_user_count s)) (sh_users s)) s
    | _ \<Rightarrow> s)"

record sh_event =
  se_fd :: int
  se_in :: bool
  se_accept :: accept_ans
  se_signals :: "sh_signal list recv_ans"
  se_child :: "int recv_ans"

definition shm_event :: "sh_event \<Rightarrow> shm_server \<Rightarrow> shm_server option" where
  "shm_event e s =
     (if se_fd e = sh_listenfd s then shm_accept (se_accept e) s
      else if se_fd e = sh_sigfd s \<and> se_in e
        then (case se_signals e of Rv_data sigs \<Rightarrow> run_events shm_signal sigs s | _ \<Rightarrow> Some s)
      else if se_in e then Some (shm_child_msg (se_fd e) (se_child e) s)
      else Some s)"

text \<open>The main loop and \<open>del_resource\<close> after it; the flag says whether the loop has ended.\<close>

definition del_resource :: "shm_server \<Rightarrow> shm_server" where
  "del_resource s = s\<lparr>sh_calls := sh_calls s @ [Close (sh_sigfd s), Close (sh_sigfd1 s), Close (sh_listenfd s),
     Close (sh_epollfd s), Shm_unlink, Free_tables]\<rparr>"

fun shm_main_loop :: "sh_event epoll_ans list \<Rightarrow> shm_server \<Rightarrow> (bool \<times> shm_server) option" where
  "shm_main_loop answers s =
     (if sh_stop_server s then Some (True, del_resource s)
      else (case answers of
          [] \<Rightarrow> Some (False, s)
        | Ep_fail # _ \<Rightarrow> Some (True, del_resource s)
        | Ep_eintr # rest \<Rightarrow> shm_main_loop rest s
        | Ep_events es # rest \<Rightarrow> Option.bind (run_events shm_event es s) (shm_main_loop rest)))"

section \<open>The table of clients\<close>

text \<open>What the parent's two arrays stand for: the pipe of every live child, by its pid.\<close>

definition sh_table :: "shm_server \<Rightarrow> (int \<rightharpoonup> int)" where
  "sh_table s = (\<lambda>p. let i = sh_sub_process s p in
     if 0 \<le> p \<and> p < PROCESS_LIMIT \<and> 0 \<le> i \<and> i < sh_user_count s \<and> cd_pid (sh_users s ! nat i) = p
     then Some (cd_pipe0 (sh_users s ! nat i)) else None)"

definition sh_ok :: "shm_server \<Rightarrow> bool" where
  "sh_ok s \<longleftrightarrow> length (sh_users s) = nat USER_LIMIT + 1 \<and> 0 \<le> sh_user_count s \<and> sh_user_count s \<le> USER_LIMIT \<and>
     (\<forall>i. 0 \<le> i \<and> i < sh_user_count s \<longrightarrow> (let p = cd_pid (sh_users s ! nat i) in
        0 \<le> p \<and> p < PROCESS_LIMIT \<and> sh_sub_process s p = i)) \<and>
     dom (sh_procs s) = dom (sh_table s)"

lemma sh_okD:
  assumes "sh_ok s"
  shows sh_len: "length (sh_users s) = 6"
    and sh_count: "0 \<le> sh_user_count s" "sh_user_count s \<le> 5"
    and sh_user: "0 \<le> i \<Longrightarrow> i < sh_user_count s \<Longrightarrow> 0 \<le> cd_pid (sh_users s ! nat i) \<and>
       cd_pid (sh_users s ! nat i) < PROCESS_LIMIT \<and> sh_sub_process s (cd_pid (sh_users s ! nat i)) = i"
    and sh_dom: "dom (sh_procs s) = dom (sh_table s)"
  using assms by (auto simp: sh_ok_def USER_LIMIT_def Let_def)

lemma sh_table_dom:
  assumes "sh_ok s"
  shows "dom (sh_table s) = (\<lambda>i. cd_pid (sh_users s ! nat i)) ` {0..<sh_user_count s}"
proof -
  have "p \<in> dom (sh_table s) \<longleftrightarrow> (\<exists>i \<in> {0..<sh_user_count s}. p = cd_pid (sh_users s ! nat i))" for p
    using sh_user [OF assms] by (auto simp: sh_table_def dom_def Let_def split: if_splits intro!: bexI [of _ "sh_sub_process s p"])
  then show ?thesis by blast
qed

lemma sh_table_card: "sh_ok s \<Longrightarrow> int (card (dom (sh_table s))) = sh_user_count s"
  using sh_count(1) [of s] inj_on_inverseI [of "{0..<sh_user_count s}" "sh_sub_process s" "\<lambda>i. cd_pid (sh_users s ! nat i)"]
  by (simp add: sh_table_dom sh_user card_image)

lemma sh_table_full: "sh_ok s \<Longrightarrow> USER_LIMIT \<le> sh_user_count s \<longleftrightarrow> 5 \<le> card (dom (sh_table s))"
  using sh_table_card [of s] by (auto simp: USER_LIMIT_def)

text \<open>The machine the parent implements.\<close>

type_synonym chat_spec = "(int \<rightharpoonup> int) \<times> bool \<times> bool"

definition chat_abs :: "shm_server \<Rightarrow> chat_spec" where
  "chat_abs s = (sh_table s, sh_terminate s, sh_stop_server s)"

definition spec_accept :: "accept_ans \<Rightarrow> chat_spec \<Rightarrow> chat_spec" where
  "spec_accept r = (\<lambda>(t, term, stop). (case (an_conn r, an_pipe r, an_pid r) of
      (Some _, Some (p0, _), Some pid) \<Rightarrow> if card (dom t) < 5 then t(pid \<mapsto> p0) else t
    | _ \<Rightarrow> t, term, stop))"

definition spec_reap :: "int \<Rightarrow> chat_spec \<Rightarrow> chat_spec" where
  "spec_reap pid = (\<lambda>(t, term, stop). (t(pid := None), term, stop))"

definition spec_signal :: "sh_signal \<Rightarrow> chat_spec \<Rightarrow> chat_spec" where
  "spec_signal sig a = (case sig of
      Sig_CHLD pids \<Rightarrow> (case fold spec_reap pids a of (t, term, stop) \<Rightarrow> (t, term, stop \<or> term \<and> t = Map.empty))
    | Sig_other \<Rightarrow> a
    | _ \<Rightarrow> (case a of (t, term, stop) \<Rightarrow> (t, term \<or> t \<noteq> Map.empty, stop \<or> t = Map.empty)))"

definition valid_accept :: "accept_ans \<Rightarrow> chat_spec \<Rightarrow> bool" where
  "valid_accept r a \<longleftrightarrow> an_conn r \<noteq> None \<longrightarrow> an_pipe r \<noteq> None \<and>
     (\<forall>pid. an_pid r = Some pid \<longrightarrow> 0 \<le> pid \<and> pid < PROCESS_LIMIT \<and> pid \<notin> dom (fst a))"

definition valid_reap :: "int \<Rightarrow> chat_spec \<Rightarrow> bool" where
  "valid_reap pid a \<longleftrightarrow> pid \<in> dom (fst a)"

definition valid_signal :: "sh_signal \<Rightarrow> chat_spec \<Rightarrow> bool" where
  "valid_signal sig a \<longleftrightarrow> (\<forall>pids. sig = Sig_CHLD pids \<longrightarrow> valid_events valid_reap spec_reap pids a)"

section \<open>The parent implements the machine\<close>

text \<open>The two changes of the arrays: a new last entry, and the last entry moved over a removed one.\<close>

lemma sh_okI:
  assumes "length (sh_users s) = 6" "0 \<le> sh_user_count s" "sh_user_count s \<le> 5"
    "\<And>i. 0 \<le> i \<Longrightarrow> i < sh_user_count s \<Longrightarrow> 0 \<le> cd_pid (sh_users s ! nat i) \<and>
       cd_pid (sh_users s ! nat i) < PROCESS_LIMIT \<and> sh_sub_process s (cd_pid (sh_users s ! nat i)) = i"
    "dom (sh_procs s) = dom (sh_table s)"
  shows "sh_ok s"
  using assms by (auto simp: sh_ok_def USER_LIMIT_def Let_def)

lemma sh_table_add:
  assumes ok: "sh_ok s" and room: "sh_user_count s < 5" and pid: "0 \<le> pid" "pid < PROCESS_LIMIT" "pid \<notin> dom (sh_table s)"
    and u: "cd_pid u = pid"
    and s': "sh_users s' = (sh_users s)[nat (sh_user_count s) := u]" "sh_sub_process s' = (sh_sub_process s)(pid := sh_user_count s)"
      "sh_user_count s' = sh_user_count s + 1" "sh_procs s' = (sh_procs s)(pid \<mapsto> c)"
  shows "sh_table s' = (sh_table s)(pid \<mapsto> cd_pipe0 u)" "sh_ok s'"
proof -
  have other: "cd_pid (sh_users s ! nat i) \<noteq> pid" if "0 \<le> i" "i < sh_user_count s" for i
    using that pid(3) by (auto simp: sh_table_dom [OF ok])
  have old: "sh_users s' ! nat i = sh_users s ! nat i" if "0 \<le> i" "i < sh_user_count s" for i
    using that by (simp add: s' nat_eq_iff)
  have new: "sh_users s' ! nat (sh_user_count s) = u"
    using room sh_len [OF ok] sh_count [OF ok] by (simp add: s')
  show t: "sh_table s' = (sh_table s)(pid \<mapsto> cd_pipe0 u)"
  proof (rule ext)
    fix p
    show "sh_table s' p = ((sh_table s)(pid \<mapsto> cd_pipe0 u)) p"
      using pid u new old [of "sh_sub_process s p"] sh_count [OF ok]
      by (cases "sh_sub_process s p = sh_user_count s") (auto simp: sh_table_def Let_def s'(2,3))
  qed
  show "sh_ok s'"
  proof (rule sh_okI)
    fix i assume i: "0 \<le> i" "i < sh_user_count s'"
    show "0 \<le> cd_pid (sh_users s' ! nat i) \<and> cd_pid (sh_users s' ! nat i) < PROCESS_LIMIT \<and>
        sh_sub_process s' (cd_pid (sh_users s' ! nat i)) = i"
    proof (cases "i = sh_user_count s")
      case True then show ?thesis using new u pid by (simp add: s'(2))
    next
      case False
      with i have "i < sh_user_count s" by (simp add: s')
      then show ?thesis using i(1) old [of i] other [of i] sh_user [OF ok, of i] by (simp add: s'(2))
    qed
  qed (use ok room sh_len [OF ok] sh_count [OF ok] sh_dom [OF ok] in \<open>auto simp: s' t\<close>)
qed

lemma sh_table_scratch:
  assumes ok: "sh_ok s"
    and s': "sh_users s' = (sh_users s)[nat (sh_user_count s) := u]" "sh_sub_process s' = sh_sub_process s"
      "sh_user_count s' = sh_user_count s" "sh_procs s' = sh_procs s"
  shows "sh_table s' = sh_table s" "sh_ok s'"
proof -
  have old: "sh_users s' ! nat i = sh_users s ! nat i" if "0 \<le> i" "i < sh_user_count s" for i
    using that by (simp add: s' nat_eq_iff)
  show t: "sh_table s' = sh_table s"
    using old by (auto simp: sh_table_def Let_def s'(2,3) fun_eq_iff)
  show "sh_ok s'"
    by (rule sh_okI) (use ok old sh_len [OF ok] sh_count [OF ok] sh_dom [OF ok] sh_user [OF ok] in \<open>auto simp: s' t\<close>)
qed

lemma sh_table_remove:
  assumes ok: "sh_ok s" and pid: "pid \<in> dom (sh_table s)" and v: "v = sh_users s ! nat (sh_user_count s - 1)"
    and s': "sh_users s' = (sh_users s)[nat (sh_sub_process s pid) := v]"
      "sh_sub_process s' = (sh_sub_process s)(pid := -1, cd_pid v := sh_sub_process s pid)"
      "sh_user_count s' = sh_user_count s - 1" "sh_procs s' = (sh_procs s)(pid := None)"
  shows "sh_table s' = (sh_table s)(pid := None)" "sh_ok s'"
proof -
  define d where "d = sh_sub_process s pid"
  define n where "n = sh_user_count s"
  have d: "0 \<le> d" "d < n" "cd_pid (sh_users s ! nat d) = pid" "0 \<le> pid" "pid < PROCESS_LIMIT"
    using pid by (auto simp: sh_table_def dom_def Let_def d_def n_def split: if_splits)
  have n: "n \<le> 5" using sh_count [OF ok] by (simp add: n_def)
  have user: "0 \<le> cd_pid (sh_users s ! nat i) \<and> cd_pid (sh_users s ! nat i) < PROCESS_LIMIT \<and>
      sh_sub_process s (cd_pid (sh_users s ! nat i)) = i" if "0 \<le> i" "i < n" for i
    using sh_user [OF ok] that by (simp add: n_def)
  have vp: "0 \<le> cd_pid v" "cd_pid v < PROCESS_LIMIT" "sh_sub_process s (cd_pid v) = n - 1"
    using user [of "n - 1"] d by (auto simp: v n_def)
  have at: "sh_users s' ! nat i = (if i = d then v else sh_users s ! nat i)" if "0 \<le> i" "i < n" for i
    using that d n sh_len [OF ok] by (auto simp: s' d_def [symmetric] nth_list_update nat_eq_iff eq_nat_nat_iff)
  have sub: "sh_sub_process s' p = (if p = cd_pid v then d else if p = pid then -1 else sh_sub_process s p)" for p
    by (simp add: s' d_def)
  have pidv: "cd_pid v = pid \<longleftrightarrow> d = n - 1"
    using vp(3) d user [of d] by (auto simp: d_def v n_def)
  show t: "sh_table s' = (sh_table s)(pid := None)"
  proof (rule ext)
    fix p
    consider "p = cd_pid v" | "p \<noteq> cd_pid v" "p = pid" | "p \<noteq> cd_pid v" "p \<noteq> pid" by blast
    then show "sh_table s' p = ((sh_table s)(pid := None)) p"
    proof cases
      case 1
      then show ?thesis using vp d pidv at [of d] v by (auto simp: sh_table_def Let_def sub s'(3) n_def [symmetric])
    next
      case 2
      then show ?thesis by (simp add: sh_table_def Let_def sub)
    next
      case 3
      define i where "i = sh_sub_process s p"
      have t': "sh_table s' p = (if 0 \<le> p \<and> p < PROCESS_LIMIT \<and> 0 \<le> i \<and> i < n - 1 \<and> cd_pid (sh_users s' ! nat i) = p
          then Some (cd_pipe0 (sh_users s' ! nat i)) else None)"
        using 3 by (simp add: sh_table_def Let_def sub s'(3) n_def [symmetric] i_def [symmetric])
      have t: "sh_table s p = (if 0 \<le> p \<and> p < PROCESS_LIMIT \<and> 0 \<le> i \<and> i < n \<and> cd_pid (sh_users s ! nat i) = p
          then Some (cd_pipe0 (sh_users s ! nat i)) else None)"
        by (simp add: sh_table_def Let_def n_def [symmetric] i_def [symmetric])
      have "sh_table s' p = sh_table s p"
      proof (cases "0 \<le> i \<and> i < n \<and> i \<noteq> d")
        case True
        then have "sh_users s' ! nat i = sh_users s ! nat i" using at [of i] by simp
        moreover have "cd_pid (sh_users s ! nat i) = p \<longrightarrow> i < n - 1" using True 3 v
          by (cases "i = n - 1") (auto simp: n_def)
        ultimately show ?thesis unfolding t t' using True by (intro if_cong refl) auto
      next
        case False
        have "\<not> (0 \<le> i \<and> i < n - 1 \<and> cd_pid (sh_users s' ! nat i) = p)" using False 3 at [of d] d by auto
        moreover have "\<not> (0 \<le> i \<and> i < n \<and> cd_pid (sh_users s ! nat i) = p)" using False 3 d by auto
        ultimately show ?thesis unfolding t t' by argo
      qed
      then show ?thesis using 3 by simp
    qed
  qed
  show "sh_ok s'"
  proof (rule sh_okI)
    fix i assume "0 \<le> i" "i < sh_user_count s'"
    then have i: "0 \<le> i" "i < n - 1" by (auto simp: s' n_def)
    show "0 \<le> cd_pid (sh_users s' ! nat i) \<and> cd_pid (sh_users s' ! nat i) < PROCESS_LIMIT \<and>
        sh_sub_process s' (cd_pid (sh_users s' ! nat i)) = i"
    proof (cases "i = d")
      case True then show ?thesis using vp at [of i] i by (simp add: sub)
    next
      case False
      then have "cd_pid (sh_users s ! nat i) \<noteq> pid" "cd_pid (sh_users s ! nat i) \<noteq> cd_pid v"
        using user [of i] i vp(3) by (auto simp: d_def)
      then show ?thesis using False i at [of i] user [of i] by (simp add: sub)
    qed
  qed (use ok d n sh_len [OF ok] sh_count [OF ok] sh_dom [OF ok] in \<open>auto simp: s' t n_def\<close>)
qed

text \<open>The invariant with the two descriptors the dispatch compares with.\<close>

definition sh_at :: "int \<Rightarrow> int \<Rightarrow> shm_server \<Rightarrow> bool" where
  "sh_at l g s \<longleftrightarrow> sh_ok s \<and> sh_listenfd s = l \<and> sh_sigfd s = g"

lemma sh_at_same:
  assumes "sh_at l g s" "sh_users s' = sh_users s" "sh_sub_process s' = sh_sub_process s" "sh_user_count s' = sh_user_count s"
    "sh_procs s' = sh_procs s" "sh_listenfd s' = sh_listenfd s" "sh_sigfd s' = sh_sigfd s"
  shows "sh_at l g s'" "sh_table s' = sh_table s"
proof -
  show t: "sh_table s' = sh_table s" by (simp add: sh_table_def assms cong: if_cong)
  show "sh_at l g s'" using assms(1) by (simp add: sh_at_def sh_ok_def t assms)
qed

lemma get_user_ok: "sh_ok s \<Longrightarrow> 0 \<le> i \<Longrightarrow> i \<le> 5 \<Longrightarrow> get_user i s = Some (sh_users s ! nat i)"
  by (simp add: get_user_def sh_len)

lemma set_user_ok: "length (sh_users s) = 6 \<Longrightarrow> 0 \<le> i \<Longrightarrow> i \<le> 5 \<Longrightarrow>
    set_user i u s = Some (s\<lparr>sh_users := (sh_users s)[nat i := u]\<rparr>)"
  by (simp add: set_user_def)

lemma set_sub_ok: "0 \<le> p \<Longrightarrow> p < PROCESS_LIMIT \<Longrightarrow>
    set_sub p i s = Some (s\<lparr>sh_sub_process := (sh_sub_process s)(p := i)\<rparr>)"
  by (simp add: set_sub_def)

lemma shm_accept_refines:
  assumes at: "sh_at l g s" and valid: "valid_accept r (chat_abs s)"
  shows "\<exists>s'. shm_accept r s = Some s' \<and> sh_at l g s' \<and> chat_abs s' = spec_accept r (chat_abs s)"
proof (cases "an_conn r")
  case None
  then show ?thesis using at by (simp add: shm_accept_def spec_accept_def chat_abs_def)
next
  case (Some a)
  obtain ad fd where a: "a = (ad, fd)" by (cases a)
  obtain p0 p1 where p: "an_pipe r = Some (p0, p1)" using valid Some by (auto simp: valid_accept_def)
  have ok: "sh_ok s" using at by (simp add: sh_at_def)
  show ?thesis
  proof (cases "USER_LIMIT \<le> sh_user_count s")
    case True
    let ?s = "sh_call (Close fd) (sh_call (Send_bytes fd (''too many users'' @ [LF])) s)"
    have "sh_at l g ?s" "sh_table ?s = sh_table s" using sh_at_same [OF at, of ?s] by simp_all
    moreover have "\<not> card (dom (sh_table s)) < 5" using True sh_table_full [OF ok] by simp
    ultimately show ?thesis using True Some a p
      by (simp add: shm_accept_def spec_accept_def chat_abs_def split: option.split)
  next
    case False
    then have n: "sh_user_count s < 5" "0 \<le> sh_user_count s" using sh_count [OF ok] by (auto simp: USER_LIMIT_def)
    have card: "card (dom (sh_table s)) < 5" using False sh_table_full [OF ok] by simp
    show ?thesis
    proof (cases "an_pid r")
      case None
      with Some a p n False show ?thesis
        using at sh_table_scratch [OF ok, of "sh_call c (s\<lparr>sh_users := (sh_users s)[nat (sh_user_count s) := u]\<rparr>)" u for c u]
        by (simp add: shm_accept_def get_user_ok ok set_user_ok sh_len spec_accept_def chat_abs_def sh_at_def)
    next
      case pid: (Some pid)
      have v: "0 \<le> pid" "pid < PROCESS_LIMIT" "pid \<notin> dom (sh_table s)"
        using valid Some pid by (auto simp: valid_accept_def chat_abs_def)
      define u where "u = (sh_users s ! nat (sh_user_count s))\<lparr>cd_address := ad, cd_connfd := fd, cd_pipe0 := p0, cd_pipe1 := p1\<rparr>"
      define s' where "s' = s\<lparr>sh_users := (sh_users s)[nat (sh_user_count s) := u\<lparr>cd_pid := pid\<rparr>],
        sh_sub_process := (sh_sub_process s)(pid := sh_user_count s), sh_user_count := sh_user_count s + 1,
        sh_procs := (sh_procs s)(pid \<mapsto> new_child (sh_user_count s) u),
        sh_calls := sh_calls s @ [Close fd, Close p1, Epoll_add p0]\<rparr>"
      have "shm_accept r s = Some s'"
        using Some a p n False pid v
        by (simp add: shm_accept_def get_user_ok ok set_user_ok sh_len set_sub_ok s'_def u_def [symmetric])
      moreover have "sh_table s' = (sh_table s)(pid \<mapsto> p0)" "sh_ok s'"
        using sh_table_add [OF ok n(1) v, of "u\<lparr>cd_pid := pid\<rparr>" s'] by (simp_all add: s'_def u_def)
      ultimately show ?thesis using Some a p pid card at
        by (simp add: spec_accept_def chat_abs_def sh_at_def s'_def)
    qed
  qed
qed

lemma shm_reap_refines:
  assumes at: "sh_at l g s" and valid: "valid_reap pid (chat_abs s)"
  shows "\<exists>s'. shm_reap pid s = Some s' \<and> sh_at l g s' \<and> chat_abs s' = spec_reap pid (chat_abs s)"
proof -
  have ok: "sh_ok s" and dom: "pid \<in> dom (sh_table s)" using at valid by (auto simp: sh_at_def valid_reap_def chat_abs_def)
  define d where "d = sh_sub_process s pid"
  have d: "0 \<le> d" "d < sh_user_count s" "cd_pid (sh_users s ! nat d) = pid" "0 \<le> pid" "pid < PROCESS_LIMIT"
    using dom by (auto simp: sh_table_def dom_def Let_def d_def split: if_splits)
  define v where "v = sh_users s ! nat (sh_user_count s - 1)"
  have v: "0 \<le> cd_pid v" "cd_pid v < PROCESS_LIMIT"
    using sh_user [OF ok, of "sh_user_count s - 1"] d by (auto simp: v_def)
  define q where "q = cd_pipe0 (sh_users s ! nat d)"
  define s' where "s' = s\<lparr>sh_users := (sh_users s)[nat d := v], sh_sub_process := (sh_sub_process s)(pid := -1, cd_pid v := d),
    sh_user_count := sh_user_count s - 1, sh_procs := (sh_procs s)(pid := None),
    sh_calls := sh_calls s @ [Epoll_del q, Close q]\<rparr>"
  have "nat d < 6" "nat (sh_user_count s - 1) < 6" using d sh_count [OF ok] by auto
  then have "shm_reap pid s = Some s'"
    using d v sh_count [OF ok] sh_len [OF ok]
    by (simp add: shm_reap_def get_sub_def set_sub_ok get_user_def set_user_def Let_def USER_LIMIT_def d_def [symmetric] q_def v_def [symmetric] s'_def)
  moreover have "sh_table s' = (sh_table s)(pid := None)" "sh_ok s'"
    using sh_table_remove [OF ok dom v_def, of s'] by (simp_all add: s'_def d_def)
  ultimately show ?thesis using at by (simp add: spec_reap_def chat_abs_def sh_at_def s'_def)
qed

interpretation reap: handler shm_reap spec_reap valid_reap "sh_at l g" chat_abs for l g
  by unfold_locales (rule shm_reap_refines)

lemma kill_loop_calls: "kill_loop us s = s\<lparr>sh_calls := sh_calls s @ map (\<lambda>u. Kill_term (cd_pid u)) us\<rparr>"
  by (induction us arbitrary: s) simp_all

lemma send_loop_calls: "send_loop fd k us s = s\<lparr>sh_calls := sh_calls s @
    map (\<lambda>u. Send_index (cd_pipe0 u) k) (filter (\<lambda>u. cd_pipe0 u \<noteq> fd) us)\<rparr>"
  by (induction us arbitrary: s) simp_all

lemma sh_table_empty: "sh_ok s \<Longrightarrow> sh_user_count s = 0 \<longleftrightarrow> sh_table s = Map.empty"
  using sh_table_dom [of s] sh_count [of s] by auto

lemma shm_term_refines:
  assumes "sh_at l g s"
  shows "sh_at l g (shm_term s) \<and> chat_abs (shm_term s) = spec_signal Sig_TERM (chat_abs s)"
  using assms sh_at_same [OF assms, of "shm_term s"] sh_table_empty [of s]
  by (auto simp: shm_term_def kill_loop_calls chat_abs_def spec_signal_def sh_at_def)

lemma shm_signal_refines:
  assumes at: "sh_at l g s" and valid: "valid_signal sig (chat_abs s)"
  shows "\<exists>s'. shm_signal sig s = Some s' \<and> sh_at l g s' \<and> chat_abs s' = spec_signal sig (chat_abs s)"
proof (cases sig)
  case (Sig_CHLD pids)
  then obtain s1 where s1: "run_events shm_reap pids s = Some s1" "sh_at l g s1" "chat_abs s1 = fold spec_reap pids (chat_abs s)"
    using reap.run_refines [OF at, of pids] valid by (auto simp: valid_signal_def)
  then have "sh_user_count s1 = 0 \<longleftrightarrow> sh_table s1 = Map.empty" using sh_table_empty [of s1] by (simp add: sh_at_def)
  moreover have "spec_signal sig (chat_abs s) =
      (sh_table s1, sh_terminate s1, sh_stop_server s1 \<or> sh_terminate s1 \<and> sh_table s1 = Map.empty)"
    unfolding spec_signal_def Sig_CHLD by (simp add: s1(3) [symmetric]) (simp add: chat_abs_def)
  ultimately show ?thesis
    using sh_at_same [OF s1(2), of "s1\<lparr>sh_stop_server := True\<rparr>"] s1(1,2)
    by (auto simp: shm_signal_def Sig_CHLD chat_abs_def)
qed (use shm_term_refines [OF at] at in \<open>auto simp: shm_signal_def spec_signal_def\<close>)

interpretation signals: handler shm_signal spec_signal valid_signal "sh_at l g" chat_abs for l g
  by unfold_locales (rule shm_signal_refines)

definition spec_event :: "int \<Rightarrow> int \<Rightarrow> sh_event \<Rightarrow> chat_spec \<Rightarrow> chat_spec" where
  "spec_event l g e a =
     (if se_fd e = l then spec_accept (se_accept e) a
      else if se_fd e = g \<and> se_in e then (case se_signals e of Rv_data sigs \<Rightarrow> fold spec_signal sigs a | _ \<Rightarrow> a)
      else a)"

definition valid_event :: "int \<Rightarrow> int \<Rightarrow> sh_event \<Rightarrow> chat_spec \<Rightarrow> bool" where
  "valid_event l g e a \<longleftrightarrow>
     (if se_fd e = l then valid_accept (se_accept e) a
      else if se_fd e = g \<and> se_in e
        then (\<forall>sigs. se_signals e = Rv_data sigs \<longrightarrow> valid_events valid_signal spec_signal sigs a)
      else True)"

lemma shm_event_refines:
  assumes at: "sh_at l g s" and valid: "valid_event l g e (chat_abs s)"
  shows "\<exists>s'. shm_event e s = Some s' \<and> sh_at l g s' \<and> chat_abs s' = spec_event l g e (chat_abs s)"
proof -
  have lg: "sh_listenfd s = l" "sh_sigfd s = g" using at by (simp_all add: sh_at_def)
  consider "se_fd e = l" | "se_fd e \<noteq> l" "se_fd e = g" "se_in e" | "se_fd e \<noteq> l" "\<not> (se_fd e = g \<and> se_in e)" by blast
  then show ?thesis
  proof cases
    case 1
    then show ?thesis using shm_accept_refines [OF at] valid lg by (auto simp: shm_event_def spec_event_def valid_event_def)
  next
    case 2
    then show ?thesis using signals.run_refines [OF at] valid lg at
      by (auto simp: shm_event_def spec_event_def valid_event_def split: recv_ans.split)
  next
    case 3
    define s' where "s' = (if se_in e then shm_child_msg (se_fd e) (se_child e) s else s)"
    have "sh_at l g s' \<and> chat_abs s' = chat_abs s"
      using sh_at_same [OF at, of s'] at
      by (auto simp: s'_def chat_abs_def shm_child_msg_def send_loop_calls split: recv_ans.split)
    with 3 lg show ?thesis by (auto simp: shm_event_def spec_event_def s'_def)
  qed
qed

interpretation chat: handler shm_event "spec_event l g" "valid_event l g" "sh_at l g" chat_abs for l g
  by unfold_locales (rule shm_event_refines)

section \<open>Properties\<close>

lemma shm_init_at:
  assumes "shm_main_init lfd b li efd pr mp junk = Some s" "6 \<le> length junk"
  shows "sh_at (sh_listenfd s) (sh_sigfd s) s" "chat_abs s = (Map.empty, False, False)"
  using assms by (auto simp: shm_main_init_def bind_eq_Some_conv sh_at_def sh_ok_def sh_table_def chat_abs_def
      USER_LIMIT_def split: if_splits)

text \<open>C19: The parent implements its table of clients. From the start of \<open>main\<close>, for every sequence of events in
  which \<open>fork\<close> answers with unused pids below \<open>PROCESS_LIMIT\<close> and \<open>waitpid\<close> reports living children, no
  access leaves an array, the two arrays stand for exactly the children forked and not yet reaped with
  their pipes, the flags are those of the specification, and there are never more than \<open>USER_LIMIT\<close>
  clients.\<close>
theorem shm_parent_refines:
  assumes "shm_main_init lfd b li efd pr mp junk = Some s0" "6 \<le> length junk"
    "l = sh_listenfd s0" "g = sh_sigfd s0"
    "valid_events (valid_event l g) (spec_event l g) es (Map.empty, False, False)"
  shows "\<exists>s. run_events shm_event es s0 = Some s \<and>
    (sh_table s, sh_terminate s, sh_stop_server s) = fold (spec_event l g) es (Map.empty, False, False) \<and>
    dom (sh_procs s) = dom (sh_table s) \<and> int (card (dom (sh_table s))) = sh_user_count s \<and> sh_user_count s \<le> USER_LIMIT"
proof -
  have init: "sh_at l g s0" "chat_abs s0 = (Map.empty, False, False)" using shm_init_at [OF assms(1,2)] assms(3,4) by simp_all
  then obtain s where s: "run_events shm_event es s0 = Some s" "sh_at l g s"
      "chat_abs s = fold (spec_event l g) es (Map.empty, False, False)"
    using chat.run_refines [OF init(1), of es] assms(5) by auto
  then show ?thesis
    using sh_table_card [of s] sh_dom [of s] sh_count [of s] by (auto simp: sh_at_def chat_abs_def USER_LIMIT_def)
qed

lemma read_after_recv:
  assumes "0 \<le> k" "k < USER_LIMIT" "length bs \<le> 1023" "clear_seg k m = Some m1"
  shows "read_seg k (recv_seg k bs m1) = Some (bs @ replicate (1024 - length bs) NUL)"
proof -
  define b where "b = k * BUFFER_SIZE"
  have m1: "m1 a = NUL" if "b \<le> a" "a < b + 1024" for a
    using assms(1,2,4) that by (auto simp: clear_seg_def b_def BUFFER_SIZE_def split: if_splits)
  have "map (recv_seg k bs m1) [b..b + 1023] = bs @ replicate (1024 - length bs) NUL"
    using assms(3) m1
    by (intro nth_equalityI) (auto simp: recv_seg_def b_def [symmetric] nth_upto nth_append)
  then show ?thesis using assms(1,2) by (simp add: read_seg_def b_def BUFFER_SIZE_def add.commute)
qed

text \<open>C20: A message of one client reaches every other client. When the child of slot \<open>k\<close> receives \<open>bs\<close> it
  stores it and sends \<open>k\<close> to the parent; the parent passes \<open>k\<close> on to the pipe of each other client, and not
  back to the sender; and the child that receives \<open>k\<close> sends its client exactly \<open>bs\<close>, padded with NUL bytes to
  the size of the buffer.\<close>
theorem chat_message_relayed:
  assumes "sh_ok s" "0 \<le> ch_idx c" "ch_idx c < USER_LIMIT" "length bs \<le> 1023"
    "ce_fd e = ch_connfd c" "ce_in e" "ce_data e = Rv_data bs"
    "se_fd ev = from" "from \<noteq> sh_listenfd s" "from \<noteq> sh_sigfd s" "se_in ev" "se_child ev = Rv_data (ch_idx c)"
    "ce_fd e2 = ch_pipefd c2" "ce_in e2" "ce_client e2 = Rv_data (ch_idx c)" "ch_pipefd c2 \<noteq> ch_connfd c2"
  shows "\<exists>m' new. child_handle e (c, m, []) = Some (c, m', [Send_index (ch_pipefd c) (ch_idx c)]) \<and>
    shm_event ev s = Some (s\<lparr>sh_calls := sh_calls s @ new\<rparr>) \<and>
    set new = {Send_index q (ch_idx c) | q. q \<in> ran (sh_table s) - {from}} \<and>
    child_handle e2 (c2, m', []) =
      Some (c2, m', [Send_bytes (ch_connfd c2) (bs @ replicate (1024 - length bs) NUL)])"
proof -
  obtain m1 where m1: "clear_seg (ch_idx c) m = Some m1" using assms(2,3) by (simp add: clear_seg_def)
  define m' where "m' = recv_seg (ch_idx c) bs m1"
  let ?us = "take (nat (sh_user_count s)) (sh_users s)"
  let ?new = "map (\<lambda>u. Send_index (cd_pipe0 u) (ch_idx c)) (filter (\<lambda>u. cd_pipe0 u \<noteq> from) ?us)"
  have 1: "child_handle e (c, m, []) = Some (c, m', [Send_index (ch_pipefd c) (ch_idx c)])"
    using assms(4-7) m1 by (simp add: child_handle_def child_conn_def m'_def BUFFER_SIZE_def)
  have 2: "shm_event ev s = Some (s\<lparr>sh_calls := sh_calls s @ ?new\<rparr>)"
    using assms(8-12) by (simp add: shm_event_def shm_child_msg_def send_loop_calls)
  have ran: "ran (sh_table s) = cd_pipe0 ` set ?us"
  proof -
    have "q \<in> ran (sh_table s) \<longleftrightarrow> (\<exists>i. 0 \<le> i \<and> i < sh_user_count s \<and> q = cd_pipe0 (sh_users s ! nat i))" for q
      using sh_user [OF assms(1)] by (auto simp: ran_def sh_table_def Let_def split: if_splits) metis
    moreover have "q \<in> cd_pipe0 ` set ?us \<longleftrightarrow> (\<exists>i. 0 \<le> i \<and> i < sh_user_count s \<and> q = cd_pipe0 (sh_users s ! nat i))" for q
    proof -
      have "q \<in> cd_pipe0 ` set ?us \<longleftrightarrow> (\<exists>j < nat (sh_user_count s). q = cd_pipe0 (sh_users s ! j))"
        using sh_len [OF assms(1)] sh_count [OF assms(1)] by (auto simp: nth_image [symmetric])
      also have "\<dots> \<longleftrightarrow> (\<exists>i. 0 \<le> i \<and> i < sh_user_count s \<and> q = cd_pipe0 (sh_users s ! nat i))"
        by (metis nat_0_le nat_less_iff of_nat_0_le_iff zless_nat_conj zless_nat_eq_int_zless nat_int)
      finally show ?thesis .
    qed
    ultimately show ?thesis by blast
  qed
  have 3: "set ?new = {Send_index q (ch_idx c) | q. q \<in> ran (sh_table s) - {from}}"
    unfolding ran by auto
  have 4: "child_handle e2 (c2, m', []) = Some (c2, m', [Send_bytes (ch_connfd c2) (bs @ replicate (1024 - length bs) NUL)])"
    using assms(13-16) read_after_recv [OF assms(2-4) m1] by (simp add: child_handle_def child_pipe_def m'_def)
  show ?thesis using 1 2 3 4 by blast
qed

text \<open>Two children can share a buffer. A child keeps the slot number it started with, but when a client
  other than the last leaves, the parent moves the last client to the free slot and gives the last
  slot to the next client: that client's child and the moved one then both read into the same part
  of the shared memory.\<close>
theorem shm_segment_shared:
  assumes ok: "sh_ok s"
    and own: "\<forall>i. 0 \<le> i \<and> i < sh_user_count s \<longrightarrow> map_option ch_idx (sh_procs s (cd_pid (sh_users s ! nat i))) = Some i"
    and gone: "0 \<le> d" "d + 1 < sh_user_count s" "pid = cd_pid (sh_users s ! nat d)"
    and acc: "an_conn r = Some ac" "an_pipe r = Some pp" "an_pid r = Some pid'" "0 \<le> pid'" "pid' < PROCESS_LIMIT" "pid' \<notin> dom (sh_procs s)"
  shows "\<exists>s1 s2 p c1 c2. shm_reap pid s = Some s1 \<and> shm_accept r s1 = Some s2 \<and> p \<noteq> pid' \<and>
    sh_procs s2 p = Some c1 \<and> sh_procs s2 pid' = Some c2 \<and> ch_idx c1 = ch_idx c2"
proof -
  define n where "n = sh_user_count s"
  define p where "p = cd_pid (sh_users s ! nat (n - 1))"
  have u: "sh_sub_process s pid = d" "0 \<le> pid" "pid < PROCESS_LIMIT" using sh_user [OF ok, of d] gone by auto
  have lst: "sh_sub_process s p = n - 1" "0 \<le> p" "p < PROCESS_LIMIT"
    using sh_user [OF ok, of "n - 1"] gone by (auto simp: p_def n_def)
  have ne: "p \<noteq> pid" using u lst gone by (auto simp: n_def)
  obtain c1 where c1: "sh_procs s p = Some c1" "ch_idx c1 = n - 1"
    using own [rule_format, of "n - 1"] gone by (auto simp: p_def n_def)
  have nn: "nat d < 6" "nat (n - 1) < 6" "n \<le> 5" "nat (n - 1) < length (sh_users s)"
    using gone sh_count [OF ok] sh_len [OF ok] by (auto simp: n_def)
  obtain s1 where s1: "shm_reap pid s = Some s1" "sh_procs s1 = (sh_procs s)(pid := None)" "sh_user_count s1 = n - 1"
      "length (sh_users s1) = 6"
    using u lst gone nn sh_len [OF ok]
    by (auto simp: shm_reap_def get_sub_def set_sub_ok get_user_def set_user_def Let_def USER_LIMIT_def p_def n_def)
  moreover have "\<exists>s2. shm_accept r s1 = Some s2 \<and> map_option ch_idx (sh_procs s2 pid') = Some (n - 1) \<and>
      (\<forall>q. q \<noteq> pid' \<longrightarrow> sh_procs s2 q = sh_procs s1 q)"
    using acc(1-5) s1(3,4) nn gone
    by (cases ac; cases pp) (simp add: shm_accept_def get_user_def set_user_def set_sub_def USER_LIMIT_def new_child_def n_def)
  moreover have "p \<noteq> pid'" using c1(1) acc(6) by auto
  ultimately show ?thesis using c1 ne by fastforce
qed

section \<open>Witnesses\<close>

definition demo_user :: client_data where
  "demo_user = \<lparr>cd_address = 0, cd_connfd = 0, cd_pid = 0, cd_pipe0 = 0, cd_pipe1 = 0\<rparr>"

definition demo_accept :: "int \<Rightarrow> accept_ans" where
  "demo_accept pid = \<lparr>an_conn = Some (1, pid + 100), an_pipe = Some (pid + 200, pid + 300), an_pid = Some pid\<rparr>"

definition demo_event :: "int \<Rightarrow> int \<Rightarrow> sh_signal list \<Rightarrow> int recv_ans \<Rightarrow> sh_event" where
  "demo_event fd pid sigs r = \<lparr>se_fd = fd, se_in = True, se_accept = demo_accept pid, se_signals = Rv_data sigs, se_child = r\<rparr>"

definition demo_events :: "sh_event list" where
  "demo_events = [demo_event 3 10 [] Rv_eof, demo_event 3 11 [] Rv_eof, demo_event 5 0 [Sig_CHLD [10], Sig_TERM] Rv_eof]"

definition demo_server :: shm_server where
  "demo_server = \<lparr>sh_listenfd = 3, sh_epollfd = 4, sh_sigfd = 5, sh_sigfd1 = 6,
     sh_users = demo_user\<lparr>cd_pid := 10, cd_connfd := 110, cd_pipe0 := 210, cd_pipe1 := 310\<rparr> #
       demo_user\<lparr>cd_pid := 11, cd_connfd := 111, cd_pipe0 := 211, cd_pipe1 := 311\<rparr> # replicate 4 demo_user,
     sh_sub_process = (\<lambda>_. -1)(10 := 0, 11 := 1), sh_user_count = 2, sh_stop_server = False, sh_terminate = False,
     sh_procs = [10 \<mapsto> \<lparr>ch_idx = 0, ch_connfd = 110, ch_pipefd = 310, ch_stop = False\<rparr>,
                 11 \<mapsto> \<lparr>ch_idx = 1, ch_connfd = 111, ch_pipefd = 311, ch_stop = False\<rparr>],
     sh_calls = []\<rparr>"

lemma demo_index: "0 \<le> (i::int) \<and> i < 2 \<longleftrightarrow> i = 0 \<or> i = 1"
  by auto

lemma demo_table: "sh_table demo_server = [10 \<mapsto> 210, 11 \<mapsto> 211]"
  by (auto simp: sh_table_def demo_server_def Let_def PROCESS_LIMIT_def fun_eq_iff)

lemma demo_server_ok: "sh_ok demo_server"
proof (rule sh_okI)
  fix i assume "0 \<le> i" "i < sh_user_count demo_server"
  then have "i = 0 \<or> i = 1" by (auto simp: demo_server_def)
  then show "0 \<le> cd_pid (sh_users demo_server ! nat i) \<and> cd_pid (sh_users demo_server ! nat i) < PROCESS_LIMIT \<and>
      sh_sub_process demo_server (cd_pid (sh_users demo_server ! nat i)) = i"
    by (elim disjE) (simp_all add: demo_server_def PROCESS_LIMIT_def)
qed (simp add: demo_server_def, simp add: demo_server_def, simp add: demo_server_def, simp add: demo_table, auto simp: demo_server_def)

theorem shm_parent_refines_witness:
  "\<exists>s0 s. shm_main_init 3 0 0 4 (Some (5, 6)) True (replicate 6 demo_user) = Some s0 \<and>
     run_events shm_event demo_events s0 = Some s \<and> sh_table s = [11 \<mapsto> 211] \<and> sh_terminate s \<and> \<not> sh_stop_server s"
proof -
  obtain s0 where s0: "shm_main_init 3 0 0 4 (Some (5, 6)) True (replicate 6 demo_user) = Some s0"
      "sh_listenfd s0 = 3" "sh_sigfd s0 = 5"
    by (simp add: shm_main_init_def)
  have f: "fold (spec_event 3 5) demo_events (Map.empty, False, False) = ([11 \<mapsto> 211], True, False)"
    by (auto simp: demo_events_def demo_event_def demo_accept_def spec_event_def spec_accept_def spec_signal_def
        spec_reap_def fun_eq_iff)
  have v: "valid_events (valid_event 3 5) (spec_event 3 5) demo_events (Map.empty, False, False)"
    by (simp add: demo_events_def demo_event_def demo_accept_def spec_event_def spec_accept_def
        valid_event_def valid_accept_def valid_signal_def valid_reap_def PROCESS_LIMIT_def)
  show ?thesis
    using shm_parent_refines [OF s0(1) _ s0(2) [symmetric] s0(3) [symmetric] v] s0(1) unfolding f by auto
qed

definition demo_msg :: ch_event where
  "demo_msg = \<lparr>ce_fd = 110, ce_in = True, ce_data = Rv_data ''hi'', ce_client = Rv_eof\<rparr>"

definition demo_note :: ch_event where
  "demo_note = \<lparr>ce_fd = 311, ce_in = True, ce_data = Rv_eof, ce_client = Rv_data 0\<rparr>"

theorem chat_message_relayed_witness:
  "\<exists>m' new. child_handle demo_msg (\<lparr>ch_idx = 0, ch_connfd = 110, ch_pipefd = 310, ch_stop = False\<rparr>, \<lambda>_. CHR ''x'', [])
       = Some (\<lparr>ch_idx = 0, ch_connfd = 110, ch_pipefd = 310, ch_stop = False\<rparr>, m', [Send_index 310 0]) \<and>
     shm_event (demo_event 210 0 [] (Rv_data 0)) demo_server = Some (demo_server\<lparr>sh_calls := new\<rparr>) \<and>
     set new = {Send_index 211 0} \<and>
     child_handle demo_note (\<lparr>ch_idx = 1, ch_connfd = 111, ch_pipefd = 311, ch_stop = False\<rparr>, m', [])
       = Some (\<lparr>ch_idx = 1, ch_connfd = 111, ch_pipefd = 311, ch_stop = False\<rparr>, m', [Send_bytes 111 (''hi'' @ replicate 1022 NUL)])"
proof -
  have "{Send_index q 0 | q. q \<in> ran [10 :: int \<mapsto> 210, 11 \<mapsto> 211] - {210}} = {Send_index 211 0}"
    by (auto simp: ran_def split: if_splits) (rule exI [of _ 11], simp)
  then show ?thesis
    using chat_message_relayed [OF demo_server_ok,
        of "\<lparr>ch_idx = 0, ch_connfd = 110, ch_pipefd = 310, ch_stop = False\<rparr>" "''hi''" demo_msg
          "demo_event 210 0 [] (Rv_data 0)" 210 demo_note "\<lparr>ch_idx = 1, ch_connfd = 111, ch_pipefd = 311, ch_stop = False\<rparr>"
          "\<lambda>_. CHR ''x''"]
    by (simp add: demo_table) (simp add: demo_msg_def demo_note_def demo_event_def demo_server_def USER_LIMIT_def)
qed

theorem shm_segment_shared_witness:
  "\<exists>s1 s2 p c1 c2. shm_reap 10 demo_server = Some s1 \<and> shm_accept (demo_accept 12) s1 = Some s2 \<and> p \<noteq> 12 \<and>
    sh_procs s2 p = Some c1 \<and> sh_procs s2 12 = Some c2 \<and> ch_idx c1 = ch_idx c2"
proof -
  have own: "\<forall>i. 0 \<le> i \<and> i < sh_user_count demo_server \<longrightarrow>
      map_option ch_idx (sh_procs demo_server (cd_pid (sh_users demo_server ! nat i))) = Some i"
    by (auto simp: demo_server_def demo_index)
  show ?thesis
    by (rule shm_segment_shared [OF demo_server_ok own, of 0 10 "demo_accept 12"])
      (simp_all add: demo_server_def demo_accept_def PROCESS_LIMIT_def)
qed

end
