(* ===== verification/Poll_Chat.thy ===== *)
theory Poll_Chat
  imports Event_Loop C_String "HOL-Library.Word"
begin

unbundle bit_operations_syntax

text \<open>
  The chat room of \<open>socket/io_multiplexing\<close>: the \<open>poll\<close> based server \<open>io_chatroom_server.c\<close> with its
  two arrays \<open>fds\<close> and \<open>users\<close>, and the client \<open>io_chatroom_client.c\<close> that splices its input to the server.
\<close>

section \<open>Data\<close>

text \<open>The flags of \<open>poll.h\<close> and the limits of the server; \<open>events\<close> and \<open>revents\<close> are \<open>short\<close>s.\<close>

definition POLLIN :: "16 word" where "POLLIN = 0x0001"
definition POLLOUT :: "16 word" where "POLLOUT = 0x0004"
definition POLLERR :: "16 word" where "POLLERR = 0x0008"
definition POLLHUP :: "16 word" where "POLLHUP = 0x0010"
definition POLLNVAL :: "16 word" where "POLLNVAL = 0x0020"
definition POLLRDHUP :: "16 word" where "POLLRDHUP = 0x2000"

lemmas poll_flags = POLLIN_def POLLOUT_def POLLERR_def POLLHUP_def POLLNVAL_def POLLRDHUP_def

definition POLL_USER_LIMIT :: nat where "POLL_USER_LIMIT = 5"
definition POLL_BUFFER_SIZE :: nat where "POLL_BUFFER_SIZE = 64"
definition FD_LIMIT :: int where "FD_LIMIT = 65535"

record pollfd =
  pf_fd :: int
  pf_events :: "16 word"
  pf_revents :: "16 word"

abbreviation reports :: "pollfd \<Rightarrow> 16 word \<Rightarrow> bool" where
  "reports p flag \<equiv> pf_revents p AND flag \<noteq> 0"

text \<open>\<open>write_buf\<close> only ever points at the \<open>buf\<close> of an entry of \<open>users\<close>: the index of that entry.\<close>

record poll_client =
  pc_address :: nat
  pc_write_buf :: "int option"
  pc_buf :: string

datatype poll_call = Pc_send int string | Pc_close int | Pc_setnonblocking int

record poll_server =
  ps_fds :: "pollfd list"
  ps_user_counter :: nat
  ps_users :: "int \<Rightarrow> poll_client"
  ps_calls :: "poll_call list"

definition user_slot :: "int \<Rightarrow> bool" where
  "user_slot fd \<longleftrightarrow> 0 \<le> fd \<and> fd < FD_LIMIT"

section \<open>Operations\<close>

definition poll_init :: "int \<Rightarrow> (int \<Rightarrow> poll_client) \<Rightarrow> poll_server" where
  "poll_init listenfd junk = \<lparr>
     ps_fds = \<lparr>pf_fd = listenfd, pf_events = POLLIN OR POLLERR, pf_revents = 0\<rparr> #
       replicate POLL_USER_LIMIT \<lparr>pf_fd = -1, pf_events = 0, pf_revents = 0\<rparr>,
     ps_user_counter = 0, ps_users = junk, ps_calls = []\<rparr>"

text \<open>The answer of \<open>poll\<close>: an entry reports the flags it asks for, and the three it need not ask for.\<close>

definition poll_report :: "16 word \<Rightarrow> pollfd \<Rightarrow> pollfd" where
  "poll_report w p = p\<lparr>pf_revents := w AND (pf_events p OR POLLERR OR POLLHUP OR POLLNVAL)\<rparr>"

fun poll_fill :: "16 word list \<Rightarrow> pollfd list \<Rightarrow> pollfd list" where
  "poll_fill (w # ws) (p # ps) = poll_report w p # poll_fill ws ps"
| "poll_fill _ ps = ps"

definition poll_accept :: "(nat \<times> int) option \<Rightarrow> poll_server \<Rightarrow> poll_server option" where
  "poll_accept ans s = (case ans of
      None \<Rightarrow> Some s
    | Some (client_address, connfd) \<Rightarrow>
        if POLL_USER_LIMIT \<le> ps_user_counter s
        then Some (s\<lparr>ps_calls := ps_calls s @ [Pc_send connfd (''too many user'' @ [LF])]\<rparr>)
        else if \<not> user_slot connfd \<or> length (ps_fds s) \<le> Suc (ps_user_counter s) then None
        else Some (s\<lparr>ps_user_counter := Suc (ps_user_counter s),
          ps_users := (ps_users s)(connfd := (ps_users s connfd)\<lparr>pc_address := client_address\<rparr>),
          ps_calls := ps_calls s @ [Pc_setnonblocking connfd],
          ps_fds := (ps_fds s)[Suc (ps_user_counter s) :=
            \<lparr>pf_fd = connfd, pf_events = POLLIN OR POLLRDHUP OR POLLERR, pf_revents = 0\<rparr>]\<rparr>))"

text \<open>Removal of entry \<open>i\<close>: the last entry takes its place in both arrays. An entry 0 of an empty table
  is the listening socket, which does not ask for \<open>POLLRDHUP\<close>; its removal is \<open>None\<close>.\<close>

definition poll_remove :: "nat \<Rightarrow> poll_server \<Rightarrow> poll_server option" where
  "poll_remove i s = (
     let n = ps_user_counter s; fd = pf_fd (ps_fds s ! i); lst = pf_fd (ps_fds s ! n) in
     if n = 0 \<or> length (ps_fds s) \<le> i \<or> length (ps_fds s) \<le> n \<or> \<not> user_slot fd \<or> \<not> user_slot lst then None
     else Some (s\<lparr>ps_users := (ps_users s)(fd := ps_users s lst), ps_calls := ps_calls s @ [Pc_close fd],
       ps_fds := (ps_fds s)[i := ps_fds s ! n], ps_user_counter := n - 1\<rparr>))"

definition want_write :: "pollfd \<Rightarrow> pollfd" where
  "want_write p = p\<lparr>pf_events := (pf_events p OR NOT POLLIN) OR POLLOUT\<rparr>"

definition want_read :: "pollfd \<Rightarrow> pollfd" where
  "want_read p = p\<lparr>pf_events := (pf_events p OR NOT POLLOUT) OR POLLIN\<rparr>"

text \<open>The loop of lines 135 to 140 over the entries \<open>js\<close>.\<close>

fun poll_notify :: "int \<Rightarrow> nat list \<Rightarrow> poll_server \<Rightarrow> poll_server option" where
  "poll_notify connfd [] s = Some s"
| "poll_notify connfd (j # js) s =
     (if length (ps_fds s) \<le> j then None
      else if pf_fd (ps_fds s ! j) = connfd then poll_notify connfd js s
      else if \<not> user_slot (pf_fd (ps_fds s ! j)) then None
      else poll_notify connfd js (s\<lparr>ps_fds := (ps_fds s)[j := want_write (ps_fds s ! j)],
        ps_users := (ps_users s)(pf_fd (ps_fds s ! j) := (ps_users s (pf_fd (ps_fds s ! j)))\<lparr>pc_write_buf := Some connfd\<rparr>)\<rparr>))"

definition recv_buf :: "string \<Rightarrow> string" where
  "recv_buf bs = (let d = take (POLL_BUFFER_SIZE - 1) bs in d @ replicate (POLL_BUFFER_SIZE - length d) NUL)"

text \<open>The \<open>POLLIN\<close> branch: what the loop index advances by, and the state.\<close>

definition poll_recv :: "string recv_ans \<Rightarrow> nat \<Rightarrow> poll_server \<Rightarrow> (nat \<times> poll_server) option" where
  "poll_recv r i s = (
     let connfd = pf_fd (ps_fds s ! i);
         store = (\<lambda>b. s\<lparr>ps_users := (ps_users s)(connfd := (ps_users s connfd)\<lparr>pc_buf := b\<rparr>)\<rparr>) in
     if \<not> user_slot connfd then None
     else (case r of
         Rv_error \<Rightarrow> map_option (Pair 0) (poll_remove i (store (recv_buf [])))
       | Rv_eagain \<Rightarrow> Some (1, store (recv_buf []))
       | Rv_eof \<Rightarrow> Some (1, store (recv_buf []))
       | Rv_data bs \<Rightarrow> map_option (Pair 1) (poll_notify connfd [1..<Suc (ps_user_counter s)] (store (recv_buf bs)))))"

definition poll_send :: "nat \<Rightarrow> poll_server \<Rightarrow> poll_server option" where
  "poll_send i s = (let connfd = pf_fd (ps_fds s ! i) in
     if \<not> user_slot connfd then None
     else (case pc_write_buf (ps_users s connfd) of
         None \<Rightarrow> Some s
       | Some w \<Rightarrow> Some (s\<lparr>ps_calls := ps_calls s @ [Pc_send connfd (cstr (pc_buf (ps_users s w)))],
           ps_users := (ps_users s)(connfd := (ps_users s connfd)\<lparr>pc_write_buf := None\<rparr>),
           ps_fds := (ps_fds s)[i := want_read (ps_fds s ! i)]\<rparr>)))"

text \<open>The body of the loop over the entries. \<open>accs\<close> are the answers \<open>accept\<close> will give, \<open>rs fd\<close> is the
  answer of \<open>recv\<close> on \<open>fd\<close> in this pass.\<close>

type_synonym accepts = "(nat \<times> int) option list"

definition poll_entry :: "int \<Rightarrow> (int \<Rightarrow> string recv_ans) \<Rightarrow> accepts \<Rightarrow> nat \<Rightarrow> poll_server \<Rightarrow> (accepts \<times> nat \<times> poll_server) option" where
  "poll_entry listenfd rs accs i s = (let p = ps_fds s ! i in
     if length (ps_fds s) \<le> i then None
     else if pf_fd p = listenfd \<and> reports p POLLIN
       then map_option (\<lambda>s'. (tl accs, 1, s')) (poll_accept (if accs = [] then None else hd accs) s)
     else if reports p POLLERR then Some (accs, 1, s)
     else if reports p POLLRDHUP then map_option (\<lambda>s'. (accs, 0, s')) (poll_remove i s)
     else if reports p POLLIN then map_option (Pair accs) (poll_recv (rs (pf_fd p)) i s)
     else if reports p POLLOUT then map_option (\<lambda>s'. (accs, 1, s')) (poll_send i s)
     else Some (accs, 1, s))"

lemma poll_notify_counter: "poll_notify connfd js s = Some s' \<Longrightarrow> ps_user_counter s' = ps_user_counter s"
  by (induction connfd js s rule: poll_notify.induct) (auto split: if_splits)

lemma poll_remove_counter: "poll_remove i s = Some s' \<Longrightarrow> 0 < ps_user_counter s \<and> ps_user_counter s' = ps_user_counter s - 1"
  by (auto simp: poll_remove_def Let_def split: if_splits)

lemma poll_entry_measure:
  assumes "poll_entry l rs accs i s = Some (accs', d, s')" "i < Suc (ps_user_counter s)"
  shows "length accs' < length accs \<or> accs' = accs \<and> Suc (ps_user_counter s') - (i + d) < Suc (ps_user_counter s) - i"
  using assms
  by (auto simp: poll_entry_def poll_recv_def poll_send_def poll_accept_def Let_def split: if_splits recv_ans.splits option.splits
      dest!: poll_notify_counter poll_remove_counter)

text \<open>The loop over the entries, which the removals shorten while it runs.\<close>

function poll_pass :: "int \<Rightarrow> (int \<Rightarrow> string recv_ans) \<Rightarrow> accepts \<Rightarrow> nat \<Rightarrow> poll_server \<Rightarrow> poll_server option" where
  "poll_pass listenfd rs accs i s =
     (if i < Suc (ps_user_counter s)
      then Option.bind (poll_entry listenfd rs accs i s) (\<lambda>(accs', d, s'). poll_pass listenfd rs accs' (i + d) s')
      else Some s)"
  by auto

termination
proof (relation "measures [\<lambda>(l, rs, accs, i, s). length accs, \<lambda>(l, rs, accs, i, s). Suc (ps_user_counter s) - i]", goal_cases)
  case (2 l rs accs i s x accs' y d s')
  then show ?case using poll_entry_measure [of l rs accs i s accs' d s'] by auto
qed simp

declare poll_pass.simps [simp del]

text \<open>One round of the server: the answer of \<open>poll\<close> is the flags of the entries in use.\<close>

definition poll_round :: "int \<Rightarrow> 16 word list \<Rightarrow> (int \<Rightarrow> string recv_ans) \<Rightarrow> accepts \<Rightarrow> poll_server \<Rightarrow> poll_server option" where
  "poll_round listenfd ws rs accs s = poll_pass listenfd rs accs 0
     (s\<lparr>ps_fds := poll_fill (take (Suc (ps_user_counter s)) ws) (ps_fds s)\<rparr>)"

section \<open>The table of clients\<close>

definition poll_ok :: "int \<Rightarrow> poll_server \<Rightarrow> bool" where
  "poll_ok l s \<longleftrightarrow> length (ps_fds s) = Suc POLL_USER_LIMIT \<and> ps_user_counter s \<le> POLL_USER_LIMIT \<and>
     pf_fd (ps_fds s ! 0) = l \<and> pf_events (ps_fds s ! 0) = POLLIN OR POLLERR \<and>
     (\<forall>k \<in> {1..ps_user_counter s}. user_slot (pf_fd (ps_fds s ! k)) \<and> pf_fd (ps_fds s ! k) \<noteq> l) \<and>
     inj_on (\<lambda>k. pf_fd (ps_fds s ! k)) {1..ps_user_counter s}"

definition clients :: "poll_server \<Rightarrow> int set" where
  "clients s = (\<lambda>k. pf_fd (ps_fds s ! k)) ` {1..ps_user_counter s}"

definition closed :: "poll_server \<Rightarrow> int set" where
  "closed s = {fd. Pc_close fd \<in> set (ps_calls s)}"

text \<open>The entries a pass removes.\<close>

definition gone :: "(int \<Rightarrow> string recv_ans) \<Rightarrow> pollfd \<Rightarrow> bool" where
  "gone rs p \<longleftrightarrow> \<not> reports p POLLERR \<and> (reports p POLLRDHUP \<or> reports p POLLIN \<and> rs (pf_fd p) = Rv_error)"

text \<open>What the branches that keep an entry leave alone.\<close>

definition same_table :: "poll_server \<Rightarrow> poll_server \<Rightarrow> bool" where
  "same_table s s' \<longleftrightarrow> ps_user_counter s' = ps_user_counter s \<and> length (ps_fds s') = length (ps_fds s) \<and>
     pf_events (ps_fds s' ! 0) = pf_events (ps_fds s ! 0) \<and> closed s' = closed s \<and>
     (\<forall>k. pf_fd (ps_fds s' ! k) = pf_fd (ps_fds s ! k) \<and> pf_revents (ps_fds s' ! k) = pf_revents (ps_fds s ! k))"

lemma same_table_trans: "same_table s s' \<Longrightarrow> same_table s' s'' \<Longrightarrow> same_table s s''"
  by (simp add: same_table_def)

lemma poll_okD:
  assumes "poll_ok l s"
  shows pl_len: "length (ps_fds s) = 6" and pl_count: "ps_user_counter s \<le> 5"
    and pl_slot: "1 \<le> k \<Longrightarrow> k \<le> ps_user_counter s \<Longrightarrow> user_slot (pf_fd (ps_fds s ! k))"
    and pl_other: "1 \<le> k \<Longrightarrow> k \<le> ps_user_counter s \<Longrightarrow> pf_fd (ps_fds s ! k) \<noteq> l"
    and pl_inj: "inj_on (\<lambda>k. pf_fd (ps_fds s ! k)) {1..ps_user_counter s}"
  using assms by (auto simp: poll_ok_def POLL_USER_LIMIT_def)

lemma same_table_ok: "same_table s s' \<Longrightarrow> poll_ok l s \<Longrightarrow> poll_ok l s'"
  by (simp add: poll_ok_def same_table_def)

lemma same_table_clients: "same_table s s' \<Longrightarrow> clients s' = clients s"
  by (simp add: clients_def same_table_def)

lemma same_table_gone: "same_table s s' \<Longrightarrow> gone rs (ps_fds s' ! k) = gone rs (ps_fds s ! k)"
  by (simp add: gone_def same_table_def)

lemma want_simps [simp]:
  "pf_fd (want_write p) = pf_fd p" "pf_revents (want_write p) = pf_revents p"
  "pf_fd (want_read p) = pf_fd p" "pf_revents (want_read p) = pf_revents p"
  by (simp_all add: want_write_def want_read_def)

lemma poll_notify_effect:
  assumes "\<forall>j \<in> set js. j < length (ps_fds s) \<and> user_slot (pf_fd (ps_fds s ! j))" "distinct js"
  shows "\<exists>s'. poll_notify connfd js s = Some s' \<and> ps_calls s' = ps_calls s \<and> ps_user_counter s' = ps_user_counter s \<and>
    length (ps_fds s') = length (ps_fds s) \<and>
    (\<forall>k. ps_fds s' ! k = (if k \<in> set js \<and> pf_fd (ps_fds s ! k) \<noteq> connfd then want_write (ps_fds s ! k) else ps_fds s ! k)) \<and>
    (\<forall>u. ps_users s' u = (if u \<noteq> connfd \<and> u \<in> (\<lambda>j. pf_fd (ps_fds s ! j)) ` set js
       then (ps_users s u)\<lparr>pc_write_buf := Some connfd\<rparr> else ps_users s u))"
  using assms
proof (induction js arbitrary: s)
  case (Cons j js)
  show ?case
  proof (cases "pf_fd (ps_fds s ! j) = connfd")
    case True
    have nt: "poll_notify connfd (j # js) s = poll_notify connfd js s" using Cons.prems True by simp
    show ?thesis unfolding nt using Cons.IH [of s] Cons.prems True by (fastforce simp: image_iff)
  next
    case False
    define s1 where "s1 = s\<lparr>ps_fds := (ps_fds s)[j := want_write (ps_fds s ! j)],
        ps_users := (ps_users s)(pf_fd (ps_fds s ! j) := (ps_users s (pf_fd (ps_fds s ! j)))\<lparr>pc_write_buf := Some connfd\<rparr>)\<rparr>"
    have j: "j < length (ps_fds s)" "j \<notin> set js" using Cons.prems by auto
    have nt: "poll_notify connfd (j # js) s = poll_notify connfd js s1" using Cons.prems False by (simp add: s1_def)
    have nth: "ps_fds s1 ! k = (if k = j then want_write (ps_fds s ! j) else ps_fds s ! k)" for k
      using j by (simp add: s1_def nth_list_update)
    have fd: "pf_fd (ps_fds s1 ! k) = pf_fd (ps_fds s ! k)" for k by (simp add: nth)
    obtain s' where s': "poll_notify connfd js s1 = Some s'" "ps_calls s' = ps_calls s" "ps_user_counter s' = ps_user_counter s"
      "length (ps_fds s') = length (ps_fds s)"
      "\<And>k. ps_fds s' ! k = (if k \<in> set js \<and> pf_fd (ps_fds s ! k) \<noteq> connfd then want_write (ps_fds s1 ! k) else ps_fds s1 ! k)"
      "\<And>u. ps_users s' u = (if u \<noteq> connfd \<and> u \<in> (\<lambda>j. pf_fd (ps_fds s ! j)) ` set js
         then (ps_users s1 u)\<lparr>pc_write_buf := Some connfd\<rparr> else ps_users s1 u)"
      using Cons.IH [of s1] Cons.prems unfolding fd by (auto simp: s1_def)
    have "ps_fds s' ! k = (if k \<in> set (j # js) \<and> pf_fd (ps_fds s ! k) \<noteq> connfd then want_write (ps_fds s ! k) else ps_fds s ! k)" for k
      using s'(5) [of k] j(2) False by (auto simp: nth)
    moreover have "ps_users s' u = (if u \<noteq> connfd \<and> u \<in> (\<lambda>j. pf_fd (ps_fds s ! j)) ` set (j # js)
       then (ps_users s u)\<lparr>pc_write_buf := Some connfd\<rparr> else ps_users s u)" for u
      using s'(6) [of u] False by (auto simp: s1_def)
    ultimately show ?thesis unfolding nt using s'(1-4) by blast
  qed
qed simp

lemma poll_notify_ok:
  assumes "\<forall>j \<in> set js. 1 \<le> j \<and> j < length (ps_fds s) \<and> user_slot (pf_fd (ps_fds s ! j))" "distinct js"
  shows "\<exists>s'. poll_notify connfd js s = Some s' \<and> same_table s s'"
proof -
  have "0 \<notin> set js" using assms(1) by auto
  then show ?thesis
    using poll_notify_effect [of js s connfd] assms by (fastforce simp: same_table_def closed_def)
qed

lemma poll_entry_kept:
  assumes ok: "poll_ok l s" and i: "1 \<le> i" "i \<le> ps_user_counter s" and kept: "\<not> gone rs (ps_fds s ! i)"
  shows "\<exists>s'. poll_entry l rs accs i s = Some (accs, 1, s') \<and> same_table s s'"
proof -
  let ?p = "ps_fds s ! i"
  have b: "i < length (ps_fds s)" "user_slot (pf_fd ?p)" "pf_fd ?p \<noteq> l" "0 < i"
    using pl_len [OF ok] pl_count [OF ok] pl_slot [OF ok i] pl_other [OF ok i] i by auto
  consider "reports ?p POLLERR" | "\<not> reports ?p POLLERR" "\<not> reports ?p POLLRDHUP" "reports ?p POLLIN" "rs (pf_fd ?p) \<noteq> Rv_error"
    | "\<not> reports ?p POLLERR" "\<not> reports ?p POLLRDHUP" "\<not> reports ?p POLLIN"
    using kept by (auto simp: gone_def)
  then show ?thesis
  proof cases
    case 1 then show ?thesis using b by (simp add: poll_entry_def Let_def same_table_def)
  next
    case 2
    have js: "\<forall>j \<in> set [1..<Suc (ps_user_counter s)]. 1 \<le> j \<and> j < length (ps_fds s) \<and> user_slot (pf_fd (ps_fds s ! j))"
      using pl_len [OF ok] pl_count [OF ok] pl_slot [OF ok] by auto
    define st where "st b = s\<lparr>ps_users := (ps_users s)(pf_fd ?p := (ps_users s (pf_fd ?p))\<lparr>pc_buf := b\<rparr>)\<rparr>" for b
    have st: "same_table s (st b)" for b by (simp add: same_table_def closed_def st_def)
    have n: "\<exists>s'. poll_notify (pf_fd ?p) [1..<Suc (ps_user_counter s)] (st b) = Some s' \<and> same_table s s'" for b
      using poll_notify_ok [of "[1..<Suc (ps_user_counter s)]" "st b" "pf_fd ?p"] js same_table_trans [OF st]
      by (auto simp: st_def simp del: upt_Suc)
    have "\<exists>s'. poll_recv (rs (pf_fd ?p)) i s = Some (1, s') \<and> same_table s s'"
      using 2(4) b(2) st n
      by (cases "rs (pf_fd ?p)") (simp_all add: poll_recv_def Let_def st_def [symmetric] del: upt_Suc)
    with 2 b show ?thesis by (auto simp: poll_entry_def Let_def)
  next
    case 3
    have "\<exists>s'. poll_send i s = Some s' \<and> same_table s s'"
      using b by (cases "pc_write_buf (ps_users s (pf_fd ?p))")
        (auto simp: poll_send_def Let_def same_table_def closed_def nth_list_update)
    moreover have "same_table s s" by (simp add: same_table_def)
    ultimately show ?thesis using 3 b by (auto simp: poll_entry_def Let_def)
  qed
qed

text \<open>The state after the removal of entry \<open>i\<close>.\<close>

definition removed :: "nat \<Rightarrow> poll_server \<Rightarrow> poll_server \<Rightarrow> bool" where
  "removed i s s' \<longleftrightarrow> ps_fds s' = (ps_fds s)[i := ps_fds s ! ps_user_counter s] \<and>
     ps_user_counter s' = ps_user_counter s - 1 \<and> closed s' = insert (pf_fd (ps_fds s ! i)) (closed s)"

lemma poll_remove_ok:
  assumes "poll_ok l s" "1 \<le> i" "i \<le> ps_user_counter s"
  shows "\<exists>s'. poll_remove i s = Some s' \<and> removed i s s'"
  using assms pl_len [OF assms(1)] pl_count [OF assms(1)] pl_slot [OF assms(1)]
  by (auto simp: poll_remove_def Let_def removed_def closed_def)

lemma poll_entry_gone:
  assumes ok: "poll_ok l s" and i: "1 \<le> i" "i \<le> ps_user_counter s" and g: "gone rs (ps_fds s ! i)"
  shows "\<exists>s'. poll_entry l rs accs i s = Some (accs, 0, s') \<and> removed i s s'"
proof -
  let ?p = "ps_fds s ! i"
  have b: "i < length (ps_fds s)" "user_slot (pf_fd ?p)" "pf_fd ?p \<noteq> l"
    using pl_len [OF ok] pl_count [OF ok] pl_slot [OF ok i] pl_other [OF ok i] i by auto
  let ?s = "s\<lparr>ps_users := (ps_users s)(pf_fd ?p := (ps_users s (pf_fd ?p))\<lparr>pc_buf := recv_buf []\<rparr>)\<rparr>"
  have "\<exists>s'. poll_remove i ?s = Some s' \<and> removed i s s'"
    using poll_remove_ok [of l ?s i] ok i by (simp add: poll_ok_def removed_def closed_def)
  moreover have "\<exists>s'. poll_remove i s = Some s' \<and> removed i s s'" by (rule poll_remove_ok [OF ok i])
  ultimately show ?thesis using g b by (auto simp: gone_def poll_entry_def poll_recv_def Let_def)
qed

lemma removed_nth:
  assumes "poll_ok l s" "1 \<le> i" "i \<le> ps_user_counter s" "removed i s s'"
  shows "ps_fds s' ! k = (if k = i then ps_fds s ! ps_user_counter s else ps_fds s ! k)"
  using assms pl_len [OF assms(1)] pl_count [OF assms(1)] by (auto simp: removed_def nth_list_update)

lemma removed_image:
  assumes "poll_ok l s" "1 \<le> i" "i \<le> ps_user_counter s" "removed i s s'"
  shows "(!) (ps_fds s') ` {i..ps_user_counter s'} = (!) (ps_fds s) ` {Suc i..ps_user_counter s}"
proof (cases "i = ps_user_counter s")
  case False
  let ?n = "ps_user_counter s"
  have "{i..?n - 1} = insert i {Suc i..?n - 1}" "{Suc i..?n} = insert ?n {Suc i..?n - 1}" using False assms(2,3) by auto
  then show ?thesis using assms(4) removed_nth [OF assms] by (auto simp: removed_def)
qed (use assms in \<open>auto simp: removed_def\<close>)

lemma removed_ok:
  assumes ok: "poll_ok l s" and i: "1 \<le> i" "i \<le> ps_user_counter s" and r: "removed i s s'"
  shows "poll_ok l s'"
proof -
  let ?n = "ps_user_counter s" and ?f = "\<lambda>k. pf_fd (ps_fds s ! k)"
  have n': "ps_user_counter s' = ?n - 1" "length (ps_fds s') = 6" using r pl_len [OF ok] by (auto simp: removed_def)
  have nth: "pf_fd (ps_fds s' ! k) = (if k = i then ?f ?n else ?f k)" for k using removed_nth [OF ok i r] by simp
  have 0: "ps_fds s' ! 0 = ps_fds s ! 0" using removed_nth [OF ok i r, of 0] i by simp
  have "inj_on (\<lambda>k. pf_fd (ps_fds s' ! k)) {1..?n - 1}"
  proof (rule inj_onI)
    fix j k assume jk: "j \<in> {1..?n - 1}" "k \<in> {1..?n - 1}" "pf_fd (ps_fds s' ! j) = pf_fd (ps_fds s' ! k)"
    define h where "h k = (if k = i then ?n else k)" for k
    have "?f (h j) = ?f (h k)" using jk(3) by (simp add: nth h_def split: if_splits)
    moreover have "h j \<in> {1..?n}" "h k \<in> {1..?n}" using jk i by (auto simp: h_def)
    ultimately have "h j = h k" using pl_inj [OF ok] by (auto dest: inj_onD)
    then show "j = k" using jk i by (auto simp: h_def split: if_splits)
  qed
  moreover have "user_slot (pf_fd (ps_fds s' ! k)) \<and> pf_fd (ps_fds s' ! k) \<noteq> l" if "k \<in> {1..?n - 1}" for k
  proof -
    have "k \<le> ?n" "1 \<le> k" using that by auto
    then show ?thesis using i pl_slot [OF ok, of k] pl_other [OF ok, of k] pl_slot [OF ok, of ?n] pl_other [OF ok, of ?n]
      by (auto simp: nth)
  qed
  ultimately show ?thesis using ok n' 0 pl_count [OF ok] by (auto simp: poll_ok_def POLL_USER_LIMIT_def)
qed

text \<open>A pass from entry \<open>i\<close> on: the entries before it stay, of the others those that are not gone.\<close>

definition keeps :: "(int \<Rightarrow> string recv_ans) \<Rightarrow> nat \<Rightarrow> poll_server \<Rightarrow> int set" where
  "keeps rs i s = pf_fd ` {p \<in> (!) (ps_fds s) ` {i..ps_user_counter s}. \<not> gone rs p}"

definition drops :: "(int \<Rightarrow> string recv_ans) \<Rightarrow> nat \<Rightarrow> poll_server \<Rightarrow> int set" where
  "drops rs i s = pf_fd ` {p \<in> (!) (ps_fds s) ` {i..ps_user_counter s}. gone rs p}"

definition settled :: "nat \<Rightarrow> poll_server \<Rightarrow> int set" where
  "settled i s = (\<lambda>k. pf_fd (ps_fds s ! k)) ` {1..<i}"

lemma keeps_alt:
  "keeps rs i s = (\<lambda>k. pf_fd (ps_fds s ! k)) ` {k \<in> {i..ps_user_counter s}. \<not> gone rs (ps_fds s ! k)}"
  "drops rs i s = (\<lambda>k. pf_fd (ps_fds s ! k)) ` {k \<in> {i..ps_user_counter s}. gone rs (ps_fds s ! k)}"
  by (auto simp: keeps_def drops_def)

lemma keeps_step:
  assumes "i \<le> ps_user_counter s"
  shows "keeps rs i s = (if gone rs (ps_fds s ! i) then {} else {pf_fd (ps_fds s ! i)}) \<union> keeps rs (Suc i) s"
    "drops rs i s = (if gone rs (ps_fds s ! i) then {pf_fd (ps_fds s ! i)} else {}) \<union> drops rs (Suc i) s"
proof -
  have "{i..ps_user_counter s} = insert i {Suc i..ps_user_counter s}" using assms by auto
  then show "keeps rs i s = (if gone rs (ps_fds s ! i) then {} else {pf_fd (ps_fds s ! i)}) \<union> keeps rs (Suc i) s"
    "drops rs i s = (if gone rs (ps_fds s ! i) then {pf_fd (ps_fds s ! i)} else {}) \<union> drops rs (Suc i) s"
    by (auto simp: keeps_def drops_def)
qed

lemma same_table_sets:
  assumes "same_table s s'"
  shows "keeps rs i s' = keeps rs i s" "drops rs i s' = drops rs i s" "settled i s' = settled i s"
proof -
  have n: "ps_user_counter s' = ps_user_counter s" and f: "pf_fd (ps_fds s' ! k) = pf_fd (ps_fds s ! k)" for k
    using assms by (simp_all add: same_table_def)
  note g = same_table_gone [OF assms]
  show "keeps rs i s' = keeps rs i s" "drops rs i s' = drops rs i s"
    by (simp_all add: keeps_alt n f g)
  show "settled i s' = settled i s" by (simp add: settled_def f)
qed

lemma removed_sets:
  assumes "poll_ok l s" "1 \<le> i" "i \<le> ps_user_counter s" "removed i s s'"
  shows "keeps rs i s' = keeps rs (Suc i) s" "drops rs i s' = drops rs (Suc i) s" "settled i s' = settled i s"
  using removed_image [OF assms] removed_nth [OF assms] by (simp_all add: keeps_def drops_def settled_def)

lemma poll_pass_clients:
  assumes "poll_ok l s" "1 \<le> i" "i \<le> Suc (ps_user_counter s)"
  shows "\<exists>s'. poll_pass l rs accs i s = Some s' \<and> poll_ok l s' \<and> clients s' = settled i s \<union> keeps rs i s \<and>
    closed s' = closed s \<union> drops rs i s"
  using assms
proof (induction l rs accs i s rule: poll_pass.induct)
  case (1 l rs accs i s)
  show ?case
  proof (cases "i \<le> ps_user_counter s")
    case False
    then have i: "i = Suc (ps_user_counter s)" using "1.prems" by simp
    have "clients s = settled i s" unfolding clients_def settled_def i by (simp add: atLeastLessThanSuc_atLeastAtMost)
    moreover have "poll_pass l rs accs i s = Some s" using False by (subst poll_pass.simps) simp
    ultimately show ?thesis using "1.prems"(1) by (simp add: keeps_def drops_def i)
  next
    case True
    show ?thesis
    proof (cases "gone rs (ps_fds s ! i)")
      case g: True
      obtain s1 where s1: "poll_entry l rs accs i s = Some (accs, 0, s1)" "removed i s s1"
        using poll_entry_gone [OF "1.prems"(1,2) True g] by blast
      have "i \<le> Suc (ps_user_counter s1)" using s1(2) True by (simp add: removed_def)
      then obtain s' where "poll_pass l rs accs i s1 = Some s'" "poll_ok l s'" "clients s' = settled i s1 \<union> keeps rs i s1"
          "closed s' = closed s1 \<union> drops rs i s1"
        using "1.IH" [OF _ s1(1) refl refl] removed_ok [OF "1.prems"(1,2) True s1(2)] "1.prems"(2) True by auto
      moreover have "closed s1 = insert (pf_fd (ps_fds s ! i)) (closed s)" using s1(2) by (simp add: removed_def)
      ultimately show ?thesis using True s1(1) g
        by (simp add: poll_pass.simps [of l rs accs i s] removed_sets [OF "1.prems"(1,2) True s1(2)] keeps_step [OF True])
    next
      case k: False
      obtain s1 where s1: "poll_entry l rs accs i s = Some (accs, 1, s1)" "same_table s s1"
        using poll_entry_kept [OF "1.prems"(1,2) True k] by blast
      have "Suc i \<le> Suc (ps_user_counter s1)" using s1(2) True by (simp add: same_table_def)
      then obtain s' where "poll_pass l rs accs (Suc i) s1 = Some s'" "poll_ok l s'" "clients s' = settled (Suc i) s1 \<union> keeps rs (Suc i) s1"
          "closed s' = closed s1 \<union> drops rs (Suc i) s1"
        using "1.IH" [OF _ s1(1) refl refl] same_table_ok [OF s1(2) "1.prems"(1)] True by auto
      moreover have "settled (Suc i) s = insert (pf_fd (ps_fds s ! i)) (settled i s)"
        using "1.prems"(2) by (auto simp: settled_def atLeastLessThanSuc)
      moreover have "closed s1 = closed s" using s1(2) by (simp add: same_table_def)
      ultimately show ?thesis using True s1(1) k
        by (simp add: poll_pass.simps [of l rs accs i s] same_table_sets [OF s1(2)] keeps_step [OF True])
    qed
  qed
qed

lemma poll_fill_nth:
  "length (poll_fill ws ps) = length ps"
  "k < length ps \<Longrightarrow> poll_fill ws ps ! k = (if k < length ws then poll_report (ws ! k) (ps ! k) else ps ! k)"
proof -
  show "length (poll_fill ws ps) = length ps" by (induction ws ps rule: poll_fill.induct) simp_all
  show "k < length ps \<Longrightarrow> poll_fill ws ps ! k = (if k < length ws then poll_report (ws ! k) (ps ! k) else ps ! k)"
    by (induction ws ps arbitrary: k rule: poll_fill.induct) (auto simp: nth_Cons split: nat.split)
qed

lemma poll_fill_keeps: "pf_fd (poll_fill ws ps ! k) = pf_fd (ps ! k) \<and> pf_events (poll_fill ws ps ! k) = pf_events (ps ! k)"
proof (cases "k < length ps")
  case False
  then show ?thesis
  proof (induction ws ps arbitrary: k rule: poll_fill.induct)
    case (1 w ws p ps)
    then show ?case by (cases k) simp_all
  qed simp_all
qed (simp add: poll_fill_nth poll_report_def)

text \<open>The state a pass starts from.\<close>

definition polled :: "16 word list \<Rightarrow> poll_server \<Rightarrow> poll_server" where
  "polled ws s = s\<lparr>ps_fds := poll_fill (take (Suc (ps_user_counter s)) ws) (ps_fds s)\<rparr>"

lemma polled_ok: "poll_ok l s \<Longrightarrow> poll_ok l (polled ws s) \<and> clients (polled ws s) = clients s \<and> closed (polled ws s) = closed s"
  by (simp add: poll_ok_def clients_def closed_def polled_def poll_fill_nth(1) poll_fill_keeps)

text \<open>The descriptor of a client the round admits.\<close>

definition admitted :: "16 word list \<Rightarrow> accepts \<Rightarrow> poll_server \<Rightarrow> int set" where
  "admitted ws accs s = (if ws \<noteq> [] \<and> hd ws AND POLLIN \<noteq> 0 \<and> ps_user_counter s < POLL_USER_LIMIT
     then (case accs of Some (_, fd) # _ \<Rightarrow> {fd} | _ \<Rightarrow> {}) else {})"

lemma poll_accept_ok:
  assumes ok: "poll_ok l s"
    and valid: "\<forall>a fd. ans = Some (a, fd) \<longrightarrow> user_slot fd \<and> fd \<notin> clients s \<and> fd \<noteq> l"
  shows "\<exists>s'. poll_accept ans s = Some s' \<and> poll_ok l s' \<and> closed s' = closed s \<and> drops rs 1 s' = drops rs 1 s \<and>
    keeps rs 1 s' = keeps rs 1 s \<union> (if ps_user_counter s < POLL_USER_LIMIT then (case ans of Some (_, fd) \<Rightarrow> {fd} | _ \<Rightarrow> {}) else {})"
proof (cases ans)
  case None
  then show ?thesis using ok by (simp add: poll_accept_def)
next
  case (Some a)
  obtain ad fd where a: "a = (ad, fd)" by (cases a)
  show ?thesis
  proof (cases "ps_user_counter s < POLL_USER_LIMIT")
    case False
    then show ?thesis using ok Some a by (auto simp: poll_accept_def poll_ok_def closed_def drops_def keeps_def)
  next
    case True
    define e where "e = \<lparr>pf_fd = fd, pf_events = POLLIN OR POLLRDHUP OR POLLERR, pf_revents = 0\<rparr>"
    define n where "n = ps_user_counter s"
    define s' where "s' = s\<lparr>ps_user_counter := Suc n, ps_users := (ps_users s)(fd := (ps_users s fd)\<lparr>pc_address := ad\<rparr>),
       ps_calls := ps_calls s @ [Pc_setnonblocking fd], ps_fds := (ps_fds s)[Suc n := e]\<rparr>"
    have v: "user_slot fd" "fd \<notin> clients s" "fd \<noteq> l" using valid Some a by auto
    have n: "Suc n < length (ps_fds s)" using True pl_len [OF ok] by (simp add: n_def POLL_USER_LIMIT_def)
    have acc: "poll_accept ans s = Some s'"
      using Some a v n True by (simp add: poll_accept_def s'_def e_def n_def)
    have nth: "ps_fds s' ! k = (if k = Suc n then e else ps_fds s ! k)" for k using n by (simp add: s'_def nth_list_update)
    have set: "{1..Suc n} = insert (Suc n) {1..n}" by auto
    have inj: "inj_on (\<lambda>k. pf_fd (ps_fds s' ! k)) {1..Suc n}"
    proof -
      have "inj_on (\<lambda>k. pf_fd (ps_fds s' ! k)) {1..n}"
        using pl_inj [OF ok] unfolding n_def [symmetric] by (rule inj_on_cong [THEN iffD1, rotated]) (simp add: nth)
      moreover have "pf_fd (ps_fds s' ! Suc n) \<notin> (\<lambda>k. pf_fd (ps_fds s' ! k)) ` ({1..n} - {Suc n})"
        using v(2) by (auto simp: nth e_def clients_def n_def)
      ultimately show ?thesis unfolding set inj_on_insert by blast
    qed
    have ok': "poll_ok l s'"
      using ok v n True inj pl_slot [OF ok] pl_other [OF ok]
      by (auto simp: poll_ok_def nth e_def n_def [symmetric]) (auto simp: s'_def POLL_USER_LIMIT_def n_def)
    have cnt: "ps_user_counter s' = Suc n" by (simp add: s'_def)
    have ng: "\<not> gone rs e" by (simp add: gone_def e_def)
    have "{k \<in> {1..Suc n}. \<not> gone rs (ps_fds s' ! k)} = insert (Suc n) {k \<in> {1..n}. \<not> gone rs (ps_fds s ! k)}"
      "{k \<in> {1..Suc n}. gone rs (ps_fds s' ! k)} = {k \<in> {1..n}. gone rs (ps_fds s ! k)}"
      unfolding set using ng by (auto simp: nth)
    then have "keeps rs 1 s' = keeps rs 1 s \<union> {fd}" "drops rs 1 s' = drops rs 1 s"
      unfolding keeps_alt cnt n_def [symmetric] by (auto simp: nth e_def image_iff)
    moreover have "closed s' = closed s" by (simp add: s'_def closed_def)
    ultimately show ?thesis using acc ok' True Some a by simp
  qed
qed

text \<open>C22: One round of the server keeps its table: it never leaves an array, the entries stay distinct, and
  the clients after it are those that neither hung up nor failed, together with the client that was
  admitted; exactly the descriptors of the others are closed.\<close>
theorem poll_round_clients:
  assumes ok: "poll_ok l s" and ws: "length ws = Suc (ps_user_counter s)"
    and valid: "\<forall>a fd. Some (a, fd) \<in> set accs \<longrightarrow> user_slot fd \<and> fd \<notin> clients s \<and> fd \<noteq> l"
  shows "\<exists>s'. poll_round l ws rs accs s = Some s' \<and> poll_ok l s' \<and>
    clients s' = keeps rs 1 (polled ws s) \<union> admitted ws accs s \<and> closed s' = closed s \<union> drops rs 1 (polled ws s)"
proof -
  define s1 where "s1 = polled ws s"
  have ok1: "poll_ok l s1" and c1: "clients s1 = clients s" "closed s1 = closed s" using polled_ok [OF ok] by (simp_all add: s1_def)
  have n1: "ps_user_counter s1 = ps_user_counter s" by (simp add: s1_def polled_def)
  obtain w ws' where w: "ws = w # ws'" using ws by (cases ws) auto
  have p0: "ps_fds s1 ! 0 = poll_report w (ps_fds s ! 0)" using pl_len [OF ok] by (simp add: s1_def polled_def poll_fill_nth w)
  have fd0: "pf_fd (ps_fds s1 ! 0) = l" and len0: "length (ps_fds s1) = 6" using ok1 pl_len [OF ok1] by (auto simp: poll_ok_def)
  have ev: "pf_events (ps_fds s ! 0) = POLLIN OR POLLERR" using ok by (simp add: poll_ok_def)
  have flags: "\<not> reports (ps_fds s1 ! 0) POLLRDHUP" "\<not> reports (ps_fds s1 ! 0) POLLOUT"
    by (simp_all add: p0 poll_report_def ev and.assoc) (simp_all add: poll_flags)
  have in0: "reports (ps_fds s1 ! 0) POLLIN \<longleftrightarrow> w AND POLLIN \<noteq> 0"
    by (simp add: p0 poll_report_def ev and.assoc) (simp add: poll_flags)
  have settled: "settled 1 t = {}" for t by (simp add: settled_def)
  have fin: "\<exists>s'. poll_pass l rs accs' 1 t = Some s' \<and> poll_ok l s' \<and> clients s' = keeps rs 1 t \<and> closed s' = closed t \<union> drops rs 1 t"
    if "poll_ok l t" for accs' t using poll_pass_clients [OF that, of 1 rs accs'] settled by simp
  have step: "poll_round l ws rs accs s = Option.bind (poll_entry l rs accs 0 s1) (\<lambda>(accs', d, t). poll_pass l rs accs' (0 + d) t)"
    unfolding poll_round_def s1_def polled_def by (subst poll_pass.simps) simp
  show ?thesis
  proof (cases "w AND POLLIN \<noteq> 0")
    case False
    have "poll_entry l rs accs 0 s1 = Some (accs, 1, s1)" using False in0 flags len0 by (simp add: poll_entry_def Let_def)
    then show ?thesis using fin [OF ok1, of accs] False c1 w unfolding step s1_def [symmetric] by (simp add: admitted_def)
  next
    case True
    define ans where "ans = (if accs = [] then None else hd accs)"
    have "\<forall>a fd. ans = Some (a, fd) \<longrightarrow> user_slot fd \<and> fd \<notin> clients s1 \<and> fd \<noteq> l"
      using valid c1(1) by (cases accs) (auto simp: ans_def)
    then obtain t where t: "poll_accept ans s1 = Some t" "poll_ok l t" "closed t = closed s1" "drops rs 1 t = drops rs 1 s1"
        "keeps rs 1 t = keeps rs 1 s1 \<union> (if ps_user_counter s1 < POLL_USER_LIMIT then (case ans of Some (_, fd) \<Rightarrow> {fd} | _ \<Rightarrow> {}) else {})"
      using poll_accept_ok [OF ok1] by blast
    have "poll_entry l rs accs 0 s1 = Some (tl accs, 1, t)"
      using True in0 fd0 len0 t(1) by (simp add: poll_entry_def Let_def ans_def)
    moreover have "admitted ws accs s = (if ps_user_counter s < POLL_USER_LIMIT then (case ans of Some (_, fd) \<Rightarrow> {fd} | _ \<Rightarrow> {}) else {})"
      using True w by (cases accs) (auto simp: admitted_def ans_def split: option.split)
    ultimately show ?thesis using fin [OF t(2), of "tl accs"] t(3-5) c1(2) n1 unfolding step s1_def [symmetric] by simp
  qed
qed

section \<open>Messages\<close>

section \<open>Messages\<close>

lemma cstr_recv_buf: "cstr (recv_buf bs) = cstr (take (POLL_BUFFER_SIZE - 1) bs)"
proof -
  have "takeWhile (\<lambda>c. c \<noteq> NUL) (d @ replicate m NUL) = takeWhile (\<lambda>c. c \<noteq> NUL) d" for d m
    by (induction d) (auto simp: takeWhile_replicate)
  then show ?thesis by (simp add: recv_buf_def cstr_def Let_def)
qed

lemma poll_recv_effect:
  assumes ok: "poll_ok l s" and i: "1 \<le> i" "i \<le> ps_user_counter s"
  defines "c \<equiv> pf_fd (ps_fds s ! i)"
  shows "\<exists>s'. poll_recv (Rv_data bs) i s = Some (1, s') \<and> ps_calls s' = ps_calls s \<and> ps_user_counter s' = ps_user_counter s \<and>
    pc_buf (ps_users s' c) = recv_buf bs \<and> ps_fds s' ! i = ps_fds s ! i \<and>
    (\<forall>j. 1 \<le> j \<and> j \<le> ps_user_counter s \<and> j \<noteq> i \<longrightarrow>
       ps_fds s' ! j = want_write (ps_fds s ! j) \<and> pc_write_buf (ps_users s' (pf_fd (ps_fds s ! j))) = Some c) \<and>
    length (ps_fds s') = length (ps_fds s)"
proof -
  define t where "t = s\<lparr>ps_users := (ps_users s)(c := (ps_users s c)\<lparr>pc_buf := recv_buf bs\<rparr>)\<rparr>"
  let ?js = "[1..<Suc (ps_user_counter s)]"
  have t: "ps_fds t = ps_fds s" "ps_calls t = ps_calls s" "ps_user_counter t = ps_user_counter s" by (simp_all add: t_def)
  have js: "\<forall>j \<in> set ?js. j < length (ps_fds t) \<and> user_slot (pf_fd (ps_fds t ! j))"
    using pl_len [OF ok] pl_count [OF ok] pl_slot [OF ok] by (auto simp: t)
  obtain s' where s': "poll_notify c ?js t = Some s'" "ps_calls s' = ps_calls s" "ps_user_counter s' = ps_user_counter s"
      "length (ps_fds s') = length (ps_fds s)"
      "\<And>k. ps_fds s' ! k = (if k \<in> set ?js \<and> pf_fd (ps_fds s ! k) \<noteq> c then want_write (ps_fds s ! k) else ps_fds s ! k)"
      "\<And>u. ps_users s' u = (if u \<noteq> c \<and> u \<in> (\<lambda>j. pf_fd (ps_fds s ! j)) ` set ?js
         then (ps_users t u)\<lparr>pc_write_buf := Some c\<rparr> else ps_users t u)"
    using poll_notify_effect [OF js distinct_upt, of c] unfolding t by blast
  have ne: "pf_fd (ps_fds s ! j) \<noteq> c" if "1 \<le> j" "j \<le> ps_user_counter s" "j \<noteq> i" for j
    using that i inj_onD [OF pl_inj [OF ok], of j i] by (auto simp: c_def)
  have "poll_recv (Rv_data bs) i s = Some (1, s')"
    using s'(1) pl_slot [OF ok i] by (simp add: poll_recv_def Let_def t_def c_def del: upt_Suc)
  moreover have "pc_buf (ps_users s' c) = recv_buf bs" by (simp add: s'(6) t_def)
  moreover have "ps_fds s' ! i = ps_fds s ! i" by (simp add: s'(5) c_def)
  moreover have "ps_fds s' ! j = want_write (ps_fds s ! j) \<and> pc_write_buf (ps_users s' (pf_fd (ps_fds s ! j))) = Some c"
    if "1 \<le> j" "j \<le> ps_user_counter s" "j \<noteq> i" for j
    using ne [OF that] that by (auto simp: s'(5,6) simp del: upt_Suc)
  ultimately show ?thesis using s'(2-4) by blast
qed

text \<open>A message reaches every other client: after the server has received \<open>bs\<close> from the client of entry
  \<open>i\<close>, every other entry asks for \<open>POLLOUT\<close>, and its turn to write sends it the received text (what
  fits the buffer, up to its first NUL) and clears its pending pointer.\<close>
theorem poll_message_delivered:
  assumes "poll_ok l s" "1 \<le> i" "i \<le> ps_user_counter s" "1 \<le> j" "j \<le> ps_user_counter s" "j \<noteq> i"
  shows "\<exists>s1 s2. poll_recv (Rv_data bs) i s = Some (1, s1) \<and> pf_events (ps_fds s1 ! j) AND POLLOUT \<noteq> 0 \<and>
    poll_send j s1 = Some s2 \<and> pc_write_buf (ps_users s2 (pf_fd (ps_fds s ! j))) = None \<and>
    ps_calls s2 = ps_calls s @ [Pc_send (pf_fd (ps_fds s ! j)) (cstr (take 63 bs))]"
proof -
  obtain s1 where s1: "poll_recv (Rv_data bs) i s = Some (1, s1)" "ps_calls s1 = ps_calls s"
      "pc_buf (ps_users s1 (pf_fd (ps_fds s ! i))) = recv_buf bs"
      "ps_fds s1 ! j = want_write (ps_fds s ! j)" "pc_write_buf (ps_users s1 (pf_fd (ps_fds s ! j))) = Some (pf_fd (ps_fds s ! i))"
    using poll_recv_effect [OF assms(1-3), of bs] assms(4-6) by blast
  have "poll_send j s1 = Some (s1\<lparr>ps_calls := ps_calls s @ [Pc_send (pf_fd (ps_fds s ! j)) (cstr (take 63 bs))],
      ps_users := (ps_users s1)(pf_fd (ps_fds s ! j) := (ps_users s1 (pf_fd (ps_fds s ! j)))\<lparr>pc_write_buf := None\<rparr>),
      ps_fds := (ps_fds s1)[j := want_read (ps_fds s1 ! j)]\<rparr>)"
    using s1 pl_slot [OF assms(1,4,5)] by (simp add: poll_send_def Let_def cstr_recv_buf POLL_BUFFER_SIZE_def)
  moreover have "pf_events (ps_fds s1 ! j) AND POLLOUT \<noteq> 0"
    by (simp add: s1(4) want_write_def bit.conj_disj_distrib2) (simp add: poll_flags)
  ultimately show ?thesis using s1(1) by auto
qed

text \<open>Reading and writing are not kept apart, as the comment of the \<open>POLLOUT\<close> branch says they are: the
  masks are joined with \<open>|= ~POLLIN\<close> and \<open>|= ~POLLOUT\<close>, which clears nothing. An entry that has once been
  asked to write asks for every flag from then on, also after it has written.\<close>
theorem poll_mask_never_cleared:
  "pf_events (want_write p) AND POLLIN = pf_events p AND POLLIN \<and>
   pf_events (want_read p) AND POLLOUT = pf_events p AND POLLOUT \<and>
   pf_events (want_read (want_write p)) = NOT 0"
proof (intro conjI)
  show "pf_events (want_write p) AND POLLIN = pf_events p AND POLLIN"
    by (simp add: want_write_def bit.conj_disj_distrib2) (simp add: poll_flags)
  show "pf_events (want_read p) AND POLLOUT = pf_events p AND POLLOUT"
    by (simp add: want_read_def bit.conj_disj_distrib2) (simp add: poll_flags)
  show "pf_events (want_read (want_write p)) = NOT 0"
    by (rule bit_eqI) (auto simp: want_read_def want_write_def bit_or_iff bit_not_iff)
qed

text \<open>A pending message can be replaced by another one. When the sender of a message hangs up before
  client \<open>j\<close> has been written to, the removal copies the entry of the last client over the sender's,
  buffer included, and \<open>j\<close> is sent the last text of the last client instead.\<close>
theorem poll_pending_replaced:
  assumes "poll_ok l s" "1 \<le> i" "i \<le> ps_user_counter s" "1 \<le> j" "j < ps_user_counter s" "j \<noteq> i"
    "pc_write_buf (ps_users s (pf_fd (ps_fds s ! j))) = Some (pf_fd (ps_fds s ! i))"
  shows "\<exists>s1 s2. poll_remove i s = Some s1 \<and> poll_send j s1 = Some s2 \<and>
    last (ps_calls s2) = Pc_send (pf_fd (ps_fds s ! j)) (cstr (pc_buf (ps_users s (pf_fd (ps_fds s ! ps_user_counter s)))))"
proof -
  let ?n = "ps_user_counter s"
  have b: "i < length (ps_fds s)" "?n < length (ps_fds s)" "0 < ?n" "user_slot (pf_fd (ps_fds s ! i))" "user_slot (pf_fd (ps_fds s ! ?n))"
      "user_slot (pf_fd (ps_fds s ! j))"
    using assms pl_len [OF assms(1)] pl_count [OF assms(1)] pl_slot [OF assms(1)] by auto
  have "pf_fd (ps_fds s ! j) \<noteq> pf_fd (ps_fds s ! i)"
    using inj_onD [OF pl_inj [OF assms(1)], of j i] assms by auto
  then show ?thesis using b assms(6,7) by (simp add: poll_remove_def poll_send_def Let_def)
qed

section \<open>The client\<close>

text \<open>The client splices its input through a pipe: \<open>pl_in\<close> is what has not yet been read from the
  terminal, \<open>pl_pipe\<close> what the pipe holds, \<open>pl_out\<close> what has gone to the server.\<close>

record chat_client =
  pl_in :: string
  pl_pipe :: string
  pl_out :: string
  pl_screen :: string

text \<open>The answer of one \<open>poll\<close>: the flags of the two entries, the answer of \<open>recv\<close>, and how many bytes
  the two \<open>splice\<close> calls move (\<open>None\<close> is -1, which the client asserts against).\<close>

record client_ans =
  ca_revents0 :: "16 word"
  ca_revents1 :: "16 word"
  ca_recv :: "string recv_ans"
  ca_splice_in :: "nat option"
  ca_splice_out :: "nat option"

definition client_show :: "string recv_ans \<Rightarrow> chat_client \<Rightarrow> chat_client" where
  "client_show r c = c\<lparr>pl_screen := pl_screen c @
     cstr (case r of Rv_data bs \<Rightarrow> take (POLL_BUFFER_SIZE - 1) bs | _ \<Rightarrow> []) @ [LF]\<rparr>"

definition client_splice :: "nat option \<Rightarrow> nat option \<Rightarrow> chat_client \<Rightarrow> chat_client option" where
  "client_splice n_in n_out c = do {
     a \<leftarrow> n_in;
     let k = min a 32768;
     let c1 = c\<lparr>pl_pipe := pl_pipe c @ take k (pl_in c), pl_in := drop k (pl_in c)\<rparr>;
     b \<leftarrow> n_out;
     let j = min b 32768;
     Some (c1\<lparr>pl_out := pl_out c1 @ take j (pl_pipe c1), pl_pipe := drop j (pl_pipe c1)\<rparr>)
   }"

text \<open>The loop: \<open>None\<close> for an answer is a failed \<open>poll\<close>; the flag says whether the loop has ended.\<close>

fun client_loop :: "client_ans option list \<Rightarrow> chat_client \<Rightarrow> (bool \<times> chat_client) option" where
  "client_loop [] c = Some (False, c)"
| "client_loop (None # _) c = Some (True, c)"
| "client_loop (Some a # as) c =
     (if ca_revents1 a AND POLLRDHUP \<noteq> 0 then Some (True, c)
      else (let c1 = (if ca_revents1 a AND POLLIN \<noteq> 0 then client_show (ca_recv a) c else c) in
        if ca_revents0 a AND POLLIN \<noteq> 0
        then Option.bind (client_splice (ca_splice_in a) (ca_splice_out a) c1) (client_loop as)
        else client_loop as c1))"

definition client_stream :: "chat_client \<Rightarrow> string" where
  "client_stream c = pl_out c @ pl_pipe c @ pl_in c"

lemma take_drop_append: "take n xs @ drop n xs @ ys = xs @ ys"
  by (simp flip: append_assoc)

lemma client_splice_conserves: "client_splice m n c = Some c' \<Longrightarrow> client_stream c' = client_stream c"
  by (auto simp: client_splice_def client_stream_def Let_def bind_eq_Some_conv take_drop_append simp del: take_append drop_append)

lemma client_show_conserves: "client_stream (client_show r c) = client_stream c"
  by (simp add: client_stream_def client_show_def)

lemma client_turn_conserves: "client_splice m n (client_show r c) = Some c' \<Longrightarrow> client_stream c' = client_stream c"
  by (auto simp: client_show_conserves dest: client_splice_conserves)

text \<open>What the user types goes to the server in order and nothing is lost or made up on the way,
  however little the two \<open>splice\<close> calls move at a time.\<close>
theorem client_splices_in_order:
  assumes "client_loop as c = Some (ended, c')"
  shows "pl_out c' @ pl_pipe c' @ pl_in c' = pl_out c @ pl_pipe c @ pl_in c"
proof -
  have "client_stream c' = client_stream c"
    using assms
    by (induction as c rule: client_loop.induct)
      (auto simp: Let_def client_show_conserves bind_eq_Some_conv split: if_splits
        dest: client_splice_conserves client_turn_conserves)
  then show ?thesis by (simp add: client_stream_def)
qed

section \<open>Witnesses\<close>

definition demo_poll :: poll_server where
  "demo_poll = \<lparr>ps_fds = [\<lparr>pf_fd = 3, pf_events = POLLIN OR POLLERR, pf_revents = 0\<rparr>,
       \<lparr>pf_fd = 7, pf_events = POLLIN OR POLLRDHUP OR POLLERR, pf_revents = 0\<rparr>,
       \<lparr>pf_fd = 8, pf_events = POLLIN OR POLLRDHUP OR POLLERR, pf_revents = 0\<rparr>,
       \<lparr>pf_fd = 9, pf_events = POLLIN OR POLLRDHUP OR POLLERR, pf_revents = 0\<rparr>,
       \<lparr>pf_fd = -1, pf_events = 0, pf_revents = 0\<rparr>, \<lparr>pf_fd = -1, pf_events = 0, pf_revents = 0\<rparr>],
     ps_user_counter = 3,
     ps_users = (\<lambda>fd. \<lparr>pc_address = 0, pc_write_buf = if fd = 8 then Some 7 else None, pc_buf = if fd = 7 then ''hello'' else ''bye''\<rparr>),
     ps_calls = []\<rparr>"

lemma one_to_three: "{Suc 0..3} = {1, 2, 3}"
  by auto

lemma demo_poll_ok: "poll_ok 3 demo_poll"
proof -
  have "inj_on (\<lambda>k. pf_fd (ps_fds demo_poll ! k)) {1, 2, 3}" by (simp add: demo_poll_def)
  then show ?thesis
    by (simp add: poll_ok_def POLL_USER_LIMIT_def demo_poll_def one_to_three user_slot_def FD_LIMIT_def)
qed

lemma demo_poll_clients: "clients demo_poll = {7, 8, 9}"
  by (simp add: clients_def demo_poll_def one_to_three)

theorem poll_round_clients_witness:
  "\<exists>s'. poll_round 3 [POLLIN, POLLRDHUP, 0, 0] (\<lambda>_. Rv_eof) [Some (0, 12)] demo_poll = Some s' \<and> clients s' = {8, 9, 12} \<and> closed s' = {7}"
proof -
  have k: "keeps (\<lambda>_. Rv_eof) 1 (polled [POLLIN, POLLRDHUP, 0, 0] demo_poll) = {8, 9}"
    "drops (\<lambda>_. Rv_eof) 1 (polled [POLLIN, POLLRDHUP, 0, 0] demo_poll) = {7}"
    by (simp_all add: keeps_def drops_def polled_def demo_poll_def one_to_three gone_def poll_report_def poll_flags)
      (auto simp: image_iff conj_disj_distribR ex_disj_distrib)
  have a: "admitted [POLLIN, POLLRDHUP, 0, 0] [Some (0, 12)] demo_poll = {12}"
    by (simp add: admitted_def demo_poll_def POLL_USER_LIMIT_def poll_flags)
  have c: "closed demo_poll = {}" "ps_user_counter demo_poll = 3" by (simp_all add: closed_def demo_poll_def)
  show ?thesis
    using poll_round_clients [OF demo_poll_ok, of "[POLLIN, POLLRDHUP, 0, 0]" "[Some (0, 12)]" "\<lambda>_. Rv_eof"]
    by (auto simp: k [unfolded One_nat_def] a c demo_poll_clients user_slot_def FD_LIMIT_def)
qed

theorem poll_message_delivered_witness:
  "\<exists>s1 s2. poll_recv (Rv_data ''hi'') 1 demo_poll = Some (1, s1) \<and> pf_events (ps_fds s1 ! 3) AND POLLOUT \<noteq> 0 \<and>
    poll_send 3 s1 = Some s2 \<and> ps_calls s2 = [Pc_send 9 ''hi'']"
proof -
  have d: "ps_user_counter demo_poll = 3" "pf_fd (ps_fds demo_poll ! 3) = 9" "ps_calls demo_poll = []" by (simp_all add: demo_poll_def)
  show ?thesis
    using poll_message_delivered [OF demo_poll_ok, of 1 3 "''hi''"] by (auto simp: d cstr_def)
qed

theorem poll_pending_replaced_witness:
  "\<exists>s1 s2. poll_remove 1 demo_poll = Some s1 \<and> poll_send 2 s1 = Some s2 \<and> last (ps_calls s2) = Pc_send 8 ''bye''"
proof -
  have d: "ps_user_counter demo_poll = 3" "pf_fd (ps_fds demo_poll ! 3) = 9" "pf_fd (ps_fds demo_poll ! 2) = 8" "pf_fd (ps_fds demo_poll ! 1) = 7"
      "pc_write_buf (ps_users demo_poll 8) = Some 7" "pc_buf (ps_users demo_poll 9) = ''bye''"
    by (simp_all add: demo_poll_def)
  show ?thesis using poll_pending_replaced [OF demo_poll_ok, of 1 2] d by (auto simp: cstr_def)
qed

theorem client_splices_in_order_witness:
  "\<exists>c'. client_loop [Some \<lparr>ca_revents0 = POLLIN, ca_revents1 = 0, ca_recv = Rv_eagain, ca_splice_in = Some 5, ca_splice_out = Some 3\<rparr>]
       \<lparr>pl_in = ''hello world'', pl_pipe = [], pl_out = [], pl_screen = []\<rparr> = Some (False, c') \<and>
     pl_out c' @ pl_pipe c' @ pl_in c' = ''hello world'' \<and> pl_out c' = ''hel''"
proof -
  let ?as = "[Some \<lparr>ca_revents0 = POLLIN, ca_revents1 = 0, ca_recv = Rv_eagain, ca_splice_in = Some 5, ca_splice_out = Some 3\<rparr>]"
  obtain c' where c': "client_loop ?as \<lparr>pl_in = ''hello world'', pl_pipe = [], pl_out = [], pl_screen = []\<rparr> = Some (False, c')"
      "pl_out c' = ''hel''"
    by (simp add: client_splice_def poll_flags)
  from client_splices_in_order [OF c'(1)] c' show ?thesis by simp
qed

end
