(* ===== verification/Epoll_Servers.thy ===== *)
theory Epoll_Servers
  imports Event_Loop C_String
begin

text \<open>
  The epoll demonstrations of \<open>socket/io_multiplexing\<close>: the level and edge triggered readers of \<open>io_epoll.c\<close>
  and the TCP and UDP echo server of \<open>io_tcp_udp.c\<close>. What the kernel keeps is part of the state: the received bytes of each connected socket, whether its peer has
  finished, and whether the descriptor is open.
\<close>

section \<open>Sockets\<close>

text \<open>\<open>ep_shown\<close> is what the program prints of the received data, \<open>ep_sent\<close> what it sends.\<close>

record epoll_sys =
  ep_data :: "int \<Rightarrow> string"
  ep_fin :: "int \<Rightarrow> bool"
  ep_open :: "int \<Rightarrow> bool"
  ep_reg :: "(int \<times> bool) list"
  ep_shown :: "(int \<times> string) list"
  ep_sent :: "(int \<times> string) list"
  ep_closes :: "int list"

text \<open>\<open>recv\<close> of at most \<open>n\<close> bytes on a non-blocking socket: a closed descriptor is an error (\<open>EBADF\<close>), no data
  is \<open>EAGAIN\<close> while the peer can still send and the end of the stream after that.\<close>

definition sys_recv :: "nat \<Rightarrow> int \<Rightarrow> epoll_sys \<Rightarrow> string recv_ans \<times> epoll_sys" where
  "sys_recv n fd s =
     (if \<not> ep_open s fd then (Rv_error, s)
      else if ep_data s fd \<noteq> [] then (Rv_data (take n (ep_data s fd)), s\<lparr>ep_data := (ep_data s)(fd := drop n (ep_data s fd))\<rparr>)
      else (if ep_fin s fd then Rv_eof else Rv_eagain, s))"

definition sys_close :: "int \<Rightarrow> epoll_sys \<Rightarrow> epoll_sys" where
  "sys_close fd s = s\<lparr>ep_open := (ep_open s)(fd := False), ep_closes := ep_closes s @ [fd]\<rparr>"

section \<open>Level and edge triggered reading\<close>

definition EPOLL_BUFFER_SIZE :: nat where "EPOLL_BUFFER_SIZE = 10"

definition epoll_addfd :: "int \<Rightarrow> bool \<Rightarrow> epoll_sys \<Rightarrow> epoll_sys" where
  "epoll_addfd fd enable_et s = s\<lparr>ep_reg := ep_reg s @ [(fd, enable_et)]\<rparr>"

text \<open>What is printed of a buffer with \<open>bs\<close> in it: \<open>%s\<close> stops at the first NUL.\<close>

definition epoll_show :: "int \<Rightarrow> string \<Rightarrow> epoll_sys \<Rightarrow> epoll_sys" where
  "epoll_show fd bs s = s\<lparr>ep_shown := ep_shown s @ [(fd, cstr bs)]\<rparr>"

record epoll_evt =
  ev_fd :: int
  ev_in :: bool
  ev_accept :: int

definition lt_read :: "int \<Rightarrow> epoll_sys \<Rightarrow> epoll_sys" where
  "lt_read fd s = (case sys_recv (EPOLL_BUFFER_SIZE - 1) fd s of (ans, s1) \<Rightarrow>
     (case ans of Rv_data bs \<Rightarrow> epoll_show fd bs s1 | _ \<Rightarrow> sys_close fd s1))"

definition lt_event :: "int \<Rightarrow> epoll_evt \<Rightarrow> epoll_sys \<Rightarrow> epoll_sys" where
  "lt_event listenfd e s =
     (if ev_fd e = listenfd then epoll_addfd (ev_accept e) False s
      else if ev_in e then lt_read (ev_fd e) s else s)"

definition lt :: "int \<Rightarrow> epoll_evt list \<Rightarrow> epoll_sys \<Rightarrow> epoll_sys" where
  "lt listenfd = fold (lt_event listenfd)"

text \<open>The \<open>while (1)\<close> of \<open>et\<close>: the end of the stream closes the socket and goes on, and the next \<open>recv\<close>, now
  on a closed descriptor, is what ends the loop.\<close>

function et_read :: "int \<Rightarrow> epoll_sys \<Rightarrow> epoll_sys" where
  "et_read fd s = (case sys_recv (EPOLL_BUFFER_SIZE - 1) fd s of (ans, s1) \<Rightarrow>
     (case ans of
        Rv_eagain \<Rightarrow> s1
      | Rv_error \<Rightarrow> sys_close fd s1
      | Rv_eof \<Rightarrow> et_read fd (sys_close fd s1)
      | Rv_data bs \<Rightarrow> et_read fd (epoll_show fd bs s1)))"
  by pat_completeness auto

definition recv_rank :: "int \<times> epoll_sys \<Rightarrow> nat" where
  "recv_rank = (\<lambda>(fd, s). length (ep_data s fd) + (if ep_open s fd then 1 else 0))"

lemma sys_recv_rank:
  assumes "sys_recv n fd s = (ans, s1)" "0 < n"
  shows "ans = Rv_data bs \<Longrightarrow> recv_rank (fd, s1) < recv_rank (fd, s)" "ans = Rv_eof \<Longrightarrow> recv_rank (fd, sys_close fd s1) < recv_rank (fd, s)"
  using assms by (auto simp: sys_recv_def recv_rank_def sys_close_def split: if_splits)

lemma recv_rank_simps [simp]:
  "recv_rank (fd, epoll_show fd' bs s) = recv_rank (fd, s)" "recv_rank (fd, s\<lparr>ep_sent := x\<rparr>) = recv_rank (fd, s)"
  by (simp_all add: recv_rank_def epoll_show_def)

termination et_read
proof (relation "measure recv_rank", goal_cases)
  case (3 fd s ans s1)
  then show ?case using sys_recv_rank(2) [of 9 fd s ans s1] by (simp add: EPOLL_BUFFER_SIZE_def)
next
  case (2 fd s ans s1 bs)
  then show ?case using sys_recv_rank(1) [of 9 fd s ans s1 bs] by (simp add: EPOLL_BUFFER_SIZE_def)
qed simp

declare et_read.simps [simp del]

definition et_event :: "int \<Rightarrow> epoll_evt \<Rightarrow> epoll_sys \<Rightarrow> epoll_sys" where
  "et_event listenfd e s =
     (if ev_fd e = listenfd then epoll_addfd (ev_accept e) True s
      else if ev_in e then et_read (ev_fd e) s else s)"

definition et :: "int \<Rightarrow> epoll_evt list \<Rightarrow> epoll_sys \<Rightarrow> epoll_sys" where
  "et listenfd = fold (et_event listenfd)"

text \<open>\<open>main\<close>: the answers of \<open>epoll_wait\<close>, \<open>None\<close> for a failure, which ends the loop.\<close>

fun epoll_main_loop :: "int \<Rightarrow> epoll_evt list option list \<Rightarrow> epoll_sys \<Rightarrow> bool \<times> epoll_sys" where
  "epoll_main_loop listenfd [] s = (False, s)"
| "epoll_main_loop listenfd (None # _) s = (True, sys_close listenfd s)"
| "epoll_main_loop listenfd (Some es # rest) s = epoll_main_loop listenfd rest (et listenfd es s)"

definition epoll_main :: "int \<Rightarrow> int \<Rightarrow> int \<Rightarrow> int \<Rightarrow> epoll_evt list option list \<Rightarrow> epoll_sys \<Rightarrow> (bool \<times> epoll_sys) option" where
  "epoll_main listenfd bind_ret listen_ret epollfd answers s =
     (if listenfd < 0 \<or> bind_ret < 0 \<or> listen_ret = -1 \<or> epollfd = -1 then None
      else Some (epoll_main_loop listenfd answers (epoll_addfd listenfd True s)))"

text \<open>A level triggered epoll reports a socket as long as there is something to read.\<close>

definition lt_ready :: "int \<Rightarrow> epoll_sys \<Rightarrow> bool" where
  "lt_ready fd s \<longleftrightarrow> ep_open s fd \<and> (ep_data s fd \<noteq> [] \<or> ep_fin s fd)"

function lt_until_quiet :: "int \<Rightarrow> epoll_sys \<Rightarrow> epoll_sys" where
  "lt_until_quiet fd s = (if lt_ready fd s then lt_until_quiet fd (lt_read fd s) else s)"
  by pat_completeness auto

termination
proof (relation "measure recv_rank", goal_cases)
  case (2 fd s)
  then show ?case
    by (auto simp: lt_ready_def lt_read_def sys_recv_def recv_rank_def sys_close_def epoll_show_def EPOLL_BUFFER_SIZE_def)
qed simp

declare lt_until_quiet.simps [simp del]

text \<open>The pieces of at most \<open>n\<close> bytes that a stream is read in.\<close>

function pieces :: "nat \<Rightarrow> 'a list \<Rightarrow> 'a list list" where
  "pieces n xs = (if xs = [] \<or> n = 0 then [] else take n xs # pieces n (drop n xs))"
  by pat_completeness auto

termination by (relation "measure (length \<circ> snd)") auto

declare pieces.simps [simp del]

lemma pieces_Nil [simp]: "pieces n [] = []"
  by (simp add: pieces.simps)

lemma pieces_step: "xs \<noteq> [] \<Longrightarrow> 0 < n \<Longrightarrow> pieces n xs = take n xs # pieces n (drop n xs)"
  by (simp add: pieces.simps)

lemma concat_pieces [simp]: "0 < n \<Longrightarrow> concat (pieces n xs) = xs"
  by (induction n xs rule: pieces.induct) (auto simp: pieces.simps)

lemma pieces_bound: "p \<in> set (pieces n xs) \<Longrightarrow> 0 < length p \<and> length p \<le> n"
  by (induction n xs rule: pieces.induct) (subst (asm) (2) pieces.simps, auto split: if_splits)

text \<open>What reading a socket to its end leaves.\<close>

definition drained :: "int \<Rightarrow> epoll_sys \<Rightarrow> epoll_sys" where
  "drained fd s = s\<lparr>ep_data := (ep_data s)(fd := []), ep_open := (ep_open s)(fd := \<not> ep_fin s fd),
     ep_shown := ep_shown s @ map (\<lambda>bs. (fd, cstr bs)) (pieces 9 (ep_data s fd))\<rparr>"

lemma et_read_drains:
  "ep_open s fd \<Longrightarrow> et_read fd s = (drained fd s)\<lparr>ep_closes := ep_closes s @ (if ep_fin s fd then [fd, fd] else [])\<rparr>"
proof (induction fd s rule: et_read.induct)
  case (1 fd s)
  show ?case
  proof (cases "ep_data s fd = []")
    case True
    show ?thesis
    proof (cases "ep_fin s fd")
      case fin: True
      have closed: "et_read fd (sys_close fd s) = sys_close fd (sys_close fd s)"
        by (subst et_read.simps) (simp add: sys_recv_def sys_close_def)
      have "et_read fd s = et_read fd (sys_close fd s)"
        using True fin 1(3) by (subst et_read.simps) (simp add: sys_recv_def)
      then show ?thesis using closed True fin 1(3) by (simp add: drained_def sys_close_def fun_upd_idem)
    next
      case False
      then show ?thesis using True 1(3) by (subst et_read.simps) (simp add: sys_recv_def drained_def fun_upd_idem)
    qed
  next
    case False
    define s1 where "s1 = s\<lparr>ep_data := (ep_data s)(fd := drop 9 (ep_data s fd))\<rparr>"
    have r: "sys_recv (EPOLL_BUFFER_SIZE - 1) fd s = (Rv_data (take 9 (ep_data s fd)), s1)"
      using False 1(3) by (simp add: sys_recv_def EPOLL_BUFFER_SIZE_def s1_def)
    have "et_read fd s = et_read fd (epoll_show fd (take 9 (ep_data s fd)) s1)" by (subst et_read.simps) (simp add: r [simplified])
    also have "\<dots> = (drained fd (epoll_show fd (take 9 (ep_data s fd)) s1))\<lparr>ep_closes := ep_closes s @ (if ep_fin s fd then [fd, fd] else [])\<rparr>"
      using 1(1) [OF r [symmetric] refl] 1(3) by (simp add: epoll_show_def s1_def)
    finally show ?thesis using False by (simp add: drained_def epoll_show_def s1_def pieces_step)
  qed
qed


lemma lt_until_quiet_drains:
  "ep_open s fd \<Longrightarrow> lt_until_quiet fd s = (drained fd s)\<lparr>ep_closes := ep_closes s @ (if ep_fin s fd then [fd] else [])\<rparr>"
proof (induction fd s rule: lt_until_quiet.induct)
  case (1 fd s)
  show ?case
  proof (cases "ep_data s fd = []")
    case True
    show ?thesis
    proof (cases "ep_fin s fd")
      case fin: True
      have "lt_until_quiet fd (sys_close fd s) = sys_close fd s"
        by (subst lt_until_quiet.simps) (simp add: lt_ready_def sys_close_def)
      then have "lt_until_quiet fd s = sys_close fd s"
        using True fin 1(2) by (subst lt_until_quiet.simps) (simp add: lt_ready_def lt_read_def sys_recv_def)
      then show ?thesis using True fin 1(2) by (simp add: drained_def sys_close_def fun_upd_idem)
    next
      case False
      then show ?thesis using True 1(2) by (subst lt_until_quiet.simps) (simp add: lt_ready_def drained_def fun_upd_idem)
    qed
  next
    case False
    have ready: "lt_ready fd s" using False 1(2) by (simp add: lt_ready_def)
    have r: "lt_read fd s = epoll_show fd (take 9 (ep_data s fd)) (s\<lparr>ep_data := (ep_data s)(fd := drop 9 (ep_data s fd))\<rparr>)"
      using False 1(2) by (simp add: lt_read_def sys_recv_def EPOLL_BUFFER_SIZE_def)
    have "lt_until_quiet fd s = lt_until_quiet fd (lt_read fd s)" using ready by (subst lt_until_quiet.simps) simp
    also have "\<dots> = (drained fd (lt_read fd s))\<lparr>ep_closes := ep_closes s @ (if ep_fin s fd then [fd] else [])\<rparr>"
      using 1(1) [OF ready] 1(2) by (simp add: r epoll_show_def)
    finally show ?thesis using False by (simp add: drained_def epoll_show_def r pieces_step)
  qed
qed


section \<open>TCP and UDP echo\<close>

definition TCP_BUFFER_SIZE :: nat where "TCP_BUFFER_SIZE = 512"
definition UDP_BUFFER_SIZE :: nat where "UDP_BUFFER_SIZE = 1024"

function tcp_echo :: "int \<Rightarrow> epoll_sys \<Rightarrow> epoll_sys" where
  "tcp_echo fd s = (case sys_recv (TCP_BUFFER_SIZE - 1) fd s of (ans, s1) \<Rightarrow>
     (case ans of
        Rv_eagain \<Rightarrow> s1
      | Rv_error \<Rightarrow> sys_close fd s1
      | Rv_eof \<Rightarrow> tcp_echo fd (sys_close fd s1)
      | Rv_data bs \<Rightarrow> tcp_echo fd (s1\<lparr>ep_sent := ep_sent s1 @ [(fd, bs)]\<rparr>)))"
  by pat_completeness auto

termination
proof (relation "measure recv_rank", goal_cases)
  case (3 fd s ans s1)
  then show ?case using sys_recv_rank(2) [of 511 fd s ans s1] by (simp add: TCP_BUFFER_SIZE_def)
next
  case (2 fd s ans s1 bs)
  then show ?case using sys_recv_rank(1) [of 511 fd s ans s1 bs] by (simp add: TCP_BUFFER_SIZE_def)
qed simp

declare tcp_echo.simps [simp del]

text \<open>A datagram is answered to the address it came from; the queue of the UDP socket is an argument and
  a result. Only one datagram is taken per event.\<close>

definition udp_echo :: "(int \<times> string) list \<Rightarrow> (int \<times> string) option \<times> (int \<times> string) list" where
  "udp_echo q = (case q of
      [] \<Rightarrow> (None, [])
    | (from, d) # rest \<Rightarrow>
        (let buf = take (UDP_BUFFER_SIZE - 1) d @ replicate (UDP_BUFFER_SIZE - length (take (UDP_BUFFER_SIZE - 1) d)) NUL in
         (if d = [] then None else Some (from, take (UDP_BUFFER_SIZE - 1) buf), rest)))"

record tcp_udp =
  tu_sys :: epoll_sys
  tu_queue :: "(int \<times> string) list"
  tu_replies :: "(int \<times> string) list"

definition tcp_udp_event :: "int \<Rightarrow> int \<Rightarrow> epoll_evt \<Rightarrow> tcp_udp \<Rightarrow> tcp_udp option" where
  "tcp_udp_event listenfd udpfd e s =
     (if ev_fd e = listenfd then (if ev_accept e < 0 then None else Some (s\<lparr>tu_sys := epoll_addfd (ev_accept e) True (tu_sys s)\<rparr>))
      else if ev_fd e = udpfd then (case udp_echo (tu_queue s) of (r, q) \<Rightarrow>
        Some (s\<lparr>tu_queue := q, tu_replies := tu_replies s @ (case r of None \<Rightarrow> [] | Some x \<Rightarrow> [x])\<rparr>))
      else if ev_in e then Some (s\<lparr>tu_sys := tcp_echo (ev_fd e) (tu_sys s)\<rparr>)
      else Some s)"

fun tcp_udp_loop :: "int \<Rightarrow> int \<Rightarrow> epoll_evt list option list \<Rightarrow> tcp_udp \<Rightarrow> (bool \<times> tcp_udp) option" where
  "tcp_udp_loop listenfd udpfd [] s = Some (False, s)"
| "tcp_udp_loop listenfd udpfd (None # _) s = Some (True, s\<lparr>tu_sys := sys_close udpfd (sys_close listenfd (tu_sys s))\<rparr>)"
| "tcp_udp_loop listenfd udpfd (Some es # rest) s =
     Option.bind (run_events (tcp_udp_event listenfd udpfd) es s) (tcp_udp_loop listenfd udpfd rest)"

definition tcp_udp_main :: "int \<Rightarrow> int \<Rightarrow> int \<Rightarrow> int \<Rightarrow> int \<Rightarrow> int \<Rightarrow> epoll_evt list option list \<Rightarrow> tcp_udp \<Rightarrow> (bool \<times> tcp_udp) option" where
  "tcp_udp_main listenfd bind_ret listen_ret udpfd bind_ret2 epollfd answers s =
     (if listenfd < 0 \<or> bind_ret = -1 \<or> listen_ret = -1 \<or> udpfd < 0 \<or> bind_ret2 = -1 \<or> epollfd = -1 then None
      else tcp_udp_loop listenfd udpfd answers (s\<lparr>tu_sys := epoll_addfd udpfd True (epoll_addfd listenfd True (tu_sys s))\<rparr>))"

definition echoed :: "int \<Rightarrow> epoll_sys \<Rightarrow> epoll_sys" where
  "echoed fd s = s\<lparr>ep_data := (ep_data s)(fd := []), ep_open := (ep_open s)(fd := \<not> ep_fin s fd),
     ep_sent := ep_sent s @ map (Pair fd) (pieces 511 (ep_data s fd))\<rparr>"

lemma tcp_echo_drains:
  "ep_open s fd \<Longrightarrow> tcp_echo fd s = (echoed fd s)\<lparr>ep_closes := ep_closes s @ (if ep_fin s fd then [fd, fd] else [])\<rparr>"
proof (induction fd s rule: tcp_echo.induct)
  case (1 fd s)
  show ?case
  proof (cases "ep_data s fd = []")
    case True
    show ?thesis
    proof (cases "ep_fin s fd")
      case fin: True
      have closed: "tcp_echo fd (sys_close fd s) = sys_close fd (sys_close fd s)"
        by (subst tcp_echo.simps) (simp add: sys_recv_def sys_close_def)
      have "tcp_echo fd s = tcp_echo fd (sys_close fd s)"
        using True fin 1(3) by (subst tcp_echo.simps) (simp add: sys_recv_def)
      then show ?thesis using closed True fin 1(3) by (simp add: echoed_def sys_close_def fun_upd_idem)
    next
      case False
      then show ?thesis using True 1(3) by (subst tcp_echo.simps) (simp add: sys_recv_def echoed_def fun_upd_idem)
    qed
  next
    case False
    define s1 where "s1 = s\<lparr>ep_data := (ep_data s)(fd := drop 511 (ep_data s fd))\<rparr>"
    have r: "sys_recv (TCP_BUFFER_SIZE - 1) fd s = (Rv_data (take 511 (ep_data s fd)), s1)"
      using False 1(3) by (simp add: sys_recv_def TCP_BUFFER_SIZE_def s1_def)
    have "tcp_echo fd s = tcp_echo fd (s1\<lparr>ep_sent := ep_sent s1 @ [(fd, take 511 (ep_data s fd))]\<rparr>)"
      by (subst tcp_echo.simps) (simp add: r [simplified])
    then show ?thesis
      using 1(1) [OF r [symmetric] refl] 1(3) False by (simp add: echoed_def s1_def pieces_step)
  qed
qed

text \<open>The TCP side echoes: one event sends back exactly the bytes that have arrived, in order.\<close>
theorem tcp_echo_echoes:
  assumes "ep_open (tu_sys s) fd" "fd \<noteq> listenfd" "fd \<noteq> udpfd" "ev_fd e = fd" "ev_in e"
  shows "\<exists>s' out. tcp_udp_event listenfd udpfd e s = Some s' \<and> ep_sent (tu_sys s') = ep_sent (tu_sys s) @ map (Pair fd) out \<and>
    concat out = ep_data (tu_sys s) fd \<and> ep_data (tu_sys s') fd = [] \<and> (ep_open (tu_sys s') fd \<longleftrightarrow> \<not> ep_fin (tu_sys s) fd)"
  using assms tcp_echo_drains [OF assms(1)]
  by (intro exI [of _ "s\<lparr>tu_sys := tcp_echo fd (tu_sys s)\<rparr>"] exI [of _ "pieces 511 (ep_data (tu_sys s) fd)"]) (simp add: tcp_udp_event_def echoed_def)

text \<open>The UDP side does not: a datagram of up to 1023 bytes comes back padded with NUL bytes to 1023 bytes, and
  a second datagram that had arrived before the event stays unread.\<close>
theorem udp_reply_padded:
  assumes "0 < length d" "length d \<le> 1023"
  shows "udp_echo ((from, d) # rest) = (Some (from, d @ replicate (1023 - length d) NUL), rest)"
  using assms by (simp add: udp_echo_def UDP_BUFFER_SIZE_def Let_def take_replicate)

section \<open>Witnesses\<close>

definition demo_sys :: epoll_sys where
  "demo_sys = \<lparr>ep_data = (\<lambda>_. ''0123456789''), ep_fin = (\<lambda>_. True), ep_open = (\<lambda>_. True), ep_reg = [], ep_shown = [], ep_sent = [], ep_closes = []\<rparr>"


theorem tcp_echo_echoes_witness:
  "\<exists>s' out. tcp_udp_event 3 4 \<lparr>ev_fd = 5, ev_in = True, ev_accept = 0\<rparr> \<lparr>tu_sys = demo_sys, tu_queue = [], tu_replies = []\<rparr> = Some s' \<and>
     ep_sent (tu_sys s') = map (Pair 5) out \<and> concat out = ''0123456789''"
  using tcp_echo_echoes [of "\<lparr>tu_sys = demo_sys, tu_queue = [], tu_replies = []\<rparr>" 5 3 4 "\<lparr>ev_fd = 5, ev_in = True, ev_accept = 0\<rparr>"]
  by (fastforce simp: demo_sys_def)

theorem udp_reply_padded_witness:
  "udp_echo [(1, ''hi''), (2, ''x'')] = (Some (1, ''hi'' @ replicate 1021 NUL), [(2, ''x'')])"
  using udp_reply_padded [of "''hi''" 1 "[(2, ''x'')]"] by simp

end
