(* ===== verification/Oneshot.thy ===== *)
theory Oneshot
  imports Epoll_Servers "HOL-Library.Multiset"
begin

text \<open>
  The server of \<open>socket/io_multiplexing/io_epoll2.c\<close>, which starts a thread for every event and registers its
  connections with \<open>EPOLLONESHOT\<close>, so that no two threads serve one connection. The main thread and the
  workers interleave; the kernel disarms a connection when it reports it.
\<close>

definition OS_BUFFER_SIZE :: nat where "OS_BUFFER_SIZE = 1024"

text \<open>A worker that has not yet read its argument, one that serves a socket, one that has returned.\<close>

datatype os_worker = Ow_start | Ow_run int | Ow_end

text \<open>\<open>os_slot\<close> is the \<open>sockfd\<close> of \<open>fds_for_new_worker\<close>, the variable of the loop body whose address every worker
  is given; \<open>os_queue\<close> are the events of the current \<open>epoll_wait\<close> that are still to be handled.\<close>

record oneshot =
  os_listenfd :: int
  os_sys :: epoll_sys
  os_armed :: "int \<Rightarrow> bool"
  os_slot :: int
  os_queue :: "int list"
  os_workers :: "os_worker list"

definition os_addfd :: "int \<Rightarrow> oneshot \<Rightarrow> oneshot" where
  "os_addfd fd s = (if fd < 0 then s else s\<lparr>os_armed := (os_armed s)(fd := True), os_sys := (os_sys s)\<lparr>ep_open := (ep_open (os_sys s))(fd := True)\<rparr>\<rparr>)"

definition reset_oneshot :: "int \<Rightarrow> oneshot \<Rightarrow> oneshot" where
  "reset_oneshot fd s = s\<lparr>os_armed := (os_armed s)(fd := True)\<rparr>"

text \<open>The handling of one event by the main thread; \<open>connfd\<close> is the answer of \<open>accept\<close>.\<close>

definition os_event :: "int \<Rightarrow> int \<Rightarrow> oneshot \<Rightarrow> oneshot" where
  "os_event fd connfd s = (if fd = os_listenfd s then os_addfd connfd s else s\<lparr>os_slot := fd, os_workers := os_workers s @ [Ow_start]\<rparr>)"

text \<open>One turn of \<open>worker\<close>: reading the argument, or one pass of its loop. Only \<open>EAGAIN\<close> and the end of the
  stream leave the loop.\<close>

definition worker_act :: "nat \<Rightarrow> oneshot \<Rightarrow> oneshot option" where
  "worker_act t s = (if length (os_workers s) \<le> t then None
     else (case os_workers s ! t of
         Ow_start \<Rightarrow> Some (s\<lparr>os_workers := (os_workers s)[t := Ow_run (os_slot s)]\<rparr>)
       | Ow_end \<Rightarrow> None
       | Ow_run fd \<Rightarrow> (case sys_recv (OS_BUFFER_SIZE - 1) fd (os_sys s) of (ans, k) \<Rightarrow>
           (case ans of
              Rv_eof \<Rightarrow> Some (s\<lparr>os_sys := sys_close fd k, os_workers := (os_workers s)[t := Ow_end]\<rparr>)
            | Rv_eagain \<Rightarrow> Some ((reset_oneshot fd s)\<lparr>os_workers := (os_workers s)[t := Ow_end]\<rparr>)
            | Rv_error \<Rightarrow> Some s
            | Rv_data bs \<Rightarrow> Some (s\<lparr>os_sys := epoll_show fd bs k\<rparr>)))))"

text \<open>What \<open>epoll_wait\<close> may report: connections that are armed and have something to read; it disarms them. The
  listening socket is not registered as one-shot.\<close>

definition os_reportable :: "int \<Rightarrow> oneshot \<Rightarrow> bool" where
  "os_reportable fd s \<longleftrightarrow> fd = os_listenfd s \<or> os_armed s fd \<and> lt_ready fd (os_sys s)"

text \<open>The interleavings. With \<open>polite\<close> the main thread goes on to its next event only after the last worker has
  read its argument; the code has nothing that makes it wait.\<close>

inductive os_step :: "bool \<Rightarrow> oneshot \<Rightarrow> oneshot \<Rightarrow> bool" for polite where
  wait: "os_queue s = [] \<Longrightarrow> distinct fds \<Longrightarrow> \<forall>fd \<in> set fds. os_reportable fd s \<Longrightarrow>
    os_step polite s (s\<lparr>os_queue := fds, os_armed := (\<lambda>fd. os_armed s fd \<and> fd \<notin> set fds)\<rparr>)"
| handle: "os_queue s = fd # q \<Longrightarrow> connfd < 0 \<or> \<not> ep_open (os_sys s) connfd \<Longrightarrow> (polite \<Longrightarrow> Ow_start \<notin> set (os_workers s)) \<Longrightarrow>
    os_step polite s (os_event fd connfd (s\<lparr>os_queue := q\<rparr>))"
| work: "worker_act t s = Some s' \<Longrightarrow> os_step polite s s'"
| arrive: "os_step polite s (s\<lparr>os_sys := (os_sys s)\<lparr>ep_data := (ep_data (os_sys s))(fd := ep_data (os_sys s) fd @ bs)\<rparr>\<rparr>)"
| finish: "os_step polite s (s\<lparr>os_sys := (os_sys s)\<lparr>ep_fin := (ep_fin (os_sys s))(fd := True)\<rparr>\<rparr>)"

text \<open>The set-up of \<open>main\<close>: the answers of \<open>socket\<close>, \<open>bind\<close>, \<open>listen\<close> and \<open>epoll_create\<close>, which it asserts. The listening socket is
  open and registered, but not as one-shot; nothing else is. At the end only the listening socket is closed.\<close>

definition os_main_init :: "int \<Rightarrow> int \<Rightarrow> int \<Rightarrow> int \<Rightarrow> oneshot option" where
  "os_main_init listenfd bind_ret listen_ret epollfd =
     (if listenfd \<ge> 0 \<and> bind_ret \<noteq> - 1 \<and> listen_ret \<noteq> - 1 \<and> epollfd \<noteq> - 1
      then Some \<lparr>os_listenfd = listenfd,
        os_sys = \<lparr>ep_data = (\<lambda>_. []), ep_fin = (\<lambda>_. False), ep_open = (\<lambda>_. False)(listenfd := True), ep_reg = [(listenfd, True)],
          ep_shown = [], ep_sent = [], ep_closes = []\<rparr>,
        os_armed = (\<lambda>_. False), os_slot = 0, os_queue = [], os_workers = []\<rparr>
      else None)"

definition os_main_end :: "oneshot \<Rightarrow> oneshot" where
  "os_main_end s = s\<lparr>os_sys := sys_close (os_listenfd s) (os_sys s)\<rparr>"

section \<open>One worker per connection\<close>

text \<open>How many parts of the system may touch a connection: the kernel when it is armed, the main thread for
  each pending event, the workers.\<close>

definition os_claims :: "oneshot \<Rightarrow> int \<Rightarrow> nat" where
  "os_claims s fd = (if os_armed s fd then 1 else 0) + count (mset (os_queue s)) fd + count (mset (os_workers s)) (Ow_run fd) +
     (if os_slot s = fd then count (mset (os_workers s)) Ow_start else 0)"

definition os_inv :: "oneshot \<Rightarrow> bool" where
  "os_inv s \<longleftrightarrow> count (mset (os_workers s)) Ow_start \<le> 1 \<and> ep_open (os_sys s) (os_listenfd s) \<and>
     Ow_run (os_listenfd s) \<notin> set (os_workers s) \<and> (Ow_start \<in> set (os_workers s) \<longrightarrow> os_slot s \<noteq> os_listenfd s) \<and>
     (\<forall>fd. fd \<noteq> os_listenfd s \<longrightarrow> os_claims s fd \<le> (if ep_open (os_sys s) fd then 1 else 0))"

definition os_start :: "oneshot \<Rightarrow> bool" where
  "os_start s \<longleftrightarrow> os_queue s = [] \<and> os_workers s = [] \<and> ep_open (os_sys s) (os_listenfd s) \<and>
     (\<forall>fd. os_armed s fd \<longrightarrow> ep_open (os_sys s) fd)"

lemma count_update:
  "t < length xs \<Longrightarrow> count (mset (xs[t := y])) z = (if z = y then Suc else id) (count (mset xs) z - (if z = xs ! t then 1 else 0))"
  by (auto simp: mset_update)

lemma count_nth: "t < length xs \<Longrightarrow> 0 < count (mset xs) (xs ! t)"
  by (metis count_greater_zero_iff nth_mem_mset)

lemma os_inv_claims: "os_inv s \<Longrightarrow> fd \<noteq> os_listenfd s \<Longrightarrow> os_claims s fd \<le> (if ep_open (os_sys s) fd then 1 else 0)"
  by (simp add: os_inv_def)

lemma os_inv_sys: "ep_open k = ep_open (os_sys s) \<Longrightarrow> os_inv (s\<lparr>os_sys := k\<rparr>) = os_inv s"
proof -
  have "os_claims (s\<lparr>os_sys := k\<rparr>) = os_claims s" by (simp add: os_claims_def fun_eq_iff)
  then show "ep_open k = ep_open (os_sys s) \<Longrightarrow> ?thesis" by (simp add: os_inv_def)
qed

lemma os_inv_wait:
  assumes "os_inv s" "os_queue s = []" "distinct fds" "\<forall>fd \<in> set fds. os_reportable fd s"
  shows "os_inv (s\<lparr>os_queue := fds, os_armed := (\<lambda>fd. os_armed s fd \<and> fd \<notin> set fds)\<rparr>)"
proof -
  have "os_claims (s\<lparr>os_queue := fds, os_armed := (\<lambda>fd. os_armed s fd \<and> fd \<notin> set fds)\<rparr>) fd = os_claims s fd" if "fd \<noteq> os_listenfd s" for fd
    using assms(2-4) that by (auto simp: os_claims_def os_reportable_def distinct_count_atmost_1)
  then show ?thesis using assms(1) by (simp add: os_inv_def)
qed

lemma os_inv_event:
  assumes "os_inv s" "os_queue s = fd # q" "connfd < 0 \<or> \<not> ep_open (os_sys s) connfd" "Ow_start \<notin> set (os_workers s)"
  shows "os_inv (os_event fd connfd (s\<lparr>os_queue := q\<rparr>))"
proof (cases "fd = os_listenfd s")
  case False
  have none: "count (mset (os_workers s)) Ow_start = 0" using assms(4) by (simp add: count_eq_zero_iff)
  have "os_claims (s\<lparr>os_queue := q, os_slot := fd, os_workers := os_workers s @ [Ow_start]\<rparr>) fd' = os_claims s fd'" for fd'
    using assms(2) none by (simp add: os_claims_def)
  then show ?thesis using False assms(1) none by (simp add: os_event_def os_inv_def)
next
  case True
  have c: "os_claims (s\<lparr>os_queue := q\<rparr>) fd' = os_claims s fd'" if "fd' \<noteq> os_listenfd s" for fd'
    using assms(2) that True by (simp add: os_claims_def)
  show ?thesis
  proof (cases "connfd < 0")
    case neg: True
    then show ?thesis using True assms(1) c by (simp add: os_event_def os_addfd_def os_inv_def)
  next
    case new: False
    define s1 where "s1 = os_event fd connfd (s\<lparr>os_queue := q\<rparr>)"
    have closed: "\<not> ep_open (os_sys s) connfd" using assms(3) new by blast
    then have conn: "connfd \<noteq> os_listenfd s" using assms(1) by (auto simp: os_inv_def)
    have "os_claims s connfd = 0" using os_inv_claims [OF assms(1) conn] closed by simp
    then have new1: "os_claims s1 connfd = 1" using assms(2) True new conn by (auto simp: s1_def os_claims_def os_event_def os_addfd_def split: if_splits)
    have old: "os_claims s1 fd' = os_claims s fd'" if "fd' \<noteq> connfd" "fd' \<noteq> os_listenfd s" for fd'
      using assms(2) that True new by (simp add: s1_def os_claims_def os_event_def os_addfd_def)
    have s1: "os_listenfd s1 = os_listenfd s" "os_workers s1 = os_workers s" "os_slot s1 = os_slot s"
        "ep_open (os_sys s1) = (ep_open (os_sys s))(connfd := True)"
      using True new by (simp_all add: s1_def os_event_def os_addfd_def)
    have "os_claims s1 fd' \<le> (if ep_open (os_sys s1) fd' then 1 else 0)" if "fd' \<noteq> os_listenfd s" for fd'
      using new1 old [of fd'] os_inv_claims [OF assms(1) that] s1(4) that by (cases "fd' = connfd") simp_all
    then show ?thesis using conn assms(1) s1 by (simp add: os_inv_def s1_def [symmetric])
  qed
qed


text \<open>A worker's turn: it takes over its argument, it gives the connection back, it closes it, or it goes on.\<close>

lemma os_inv_work:
  assumes "os_inv s" "worker_act t s = Some s'"
  shows "os_inv s'"
proof -
  have t: "t < length (os_workers s)" using assms(2) by (simp add: worker_act_def split: if_splits)
  have pos: "0 < count (mset (os_workers s)) (os_workers s ! t)" by (rule count_nth [OF t])
  show ?thesis
  proof (cases "os_workers s ! t")
    case Ow_start
    define s1 where "s1 = s\<lparr>os_workers := (os_workers s)[t := Ow_run (os_slot s)]\<rparr>"
    have "count (mset (os_workers s)) Ow_start \<le> 1" "0 < count (mset (os_workers s)) Ow_start"
      using assms(1) pos Ow_start by (simp_all only: os_inv_def)
    then have one: "count (mset (os_workers s)) Ow_start = 1" by linarith
    have "os_claims s1 fd = os_claims s fd" for fd
      using one Ow_start by (simp add: s1_def os_claims_def count_update [OF t])
    moreover have "Ow_start \<in> set (os_workers s)" using Ow_start t by (metis nth_mem)
    moreover have "Ow_start \<notin> set ((os_workers s)[t := Ow_run (os_slot s)])"
      using one Ow_start count_update [OF t, of "Ow_run (os_slot s)" Ow_start] by (simp add: count_eq_zero_iff)
    ultimately have "os_inv s1"
      using assms(1) one Ow_start set_update_subset_insert [of "os_workers s" t "Ow_run (os_slot s)"]
      by (auto simp: os_inv_def s1_def count_update [OF t])
    then show ?thesis using assms(2) t Ow_start by (simp add: worker_act_def s1_def)
  next
    case Ow_end
    then show ?thesis using assms(2) t by (simp add: worker_act_def)
  next
    case (Ow_run fd)
    obtain ans k where r: "sys_recv (OS_BUFFER_SIZE - 1) fd (os_sys s) = (ans, k)" by (metis prod.exhaust)
    have k: "ep_open k = ep_open (os_sys s)" using r by (auto simp: sys_recv_def split: if_splits)
    have start: "count (mset ((os_workers s)[t := Ow_end])) Ow_start = count (mset (os_workers s)) Ow_start"
      using Ow_run by (simp add: count_update [OF t])
    have run: "count (mset ((os_workers s)[t := Ow_end])) (Ow_run fd') = count (mset (os_workers s)) (Ow_run fd') - (if fd' = fd then 1 else 0)" for fd'
      using Ow_run by (simp add: count_update [OF t])
    have lfd: "fd \<noteq> os_listenfd s" "Ow_run (os_listenfd s) \<notin> set ((os_workers s)[t := Ow_end])"
        "Ow_start \<in> set ((os_workers s)[t := Ow_end]) \<Longrightarrow> Ow_start \<in> set (os_workers s)"
      using assms(1) t Ow_run set_update_subset_insert [of "os_workers s" t Ow_end] nth_mem [OF t] by (auto simp: os_inv_def)
    show ?thesis
    proof (cases ans)
      case Rv_error
      then show ?thesis using assms t Ow_run r by (simp add: worker_act_def)
    next
      case (Rv_data bs)
      then have "s' = s\<lparr>os_sys := epoll_show fd bs k\<rparr>" using assms(2) t Ow_run r by (simp add: worker_act_def)
      then show ?thesis using assms(1) k os_inv_sys [of "epoll_show fd bs k" s] by (simp add: epoll_show_def)
    next
      case Rv_eagain
      then have s': "s' = (reset_oneshot fd s)\<lparr>os_workers := (os_workers s)[t := Ow_end]\<rparr>" using assms(2) t Ow_run r by (simp add: worker_act_def)
      have "os_claims s' fd' \<le> os_claims s fd'" if "fd' \<noteq> os_listenfd s" for fd'
        using pos Ow_run os_inv_claims [OF assms(1) that]
        by (auto simp: s' os_claims_def reset_oneshot_def run start split: if_splits)
      moreover have "os_listenfd s' = os_listenfd s" "os_sys s' = os_sys s" "os_slot s' = os_slot s" "os_workers s' = (os_workers s)[t := Ow_end]"
        by (simp_all add: s' reset_oneshot_def)
      moreover from calculation(1) have "os_claims s' fd' \<le> (if ep_open (os_sys s) fd' then 1 else 0)" if "fd' \<noteq> os_listenfd s" for fd'
        using os_inv_claims [OF assms(1) that] that order_trans by blast
      ultimately show ?thesis using assms(1) lfd start by (simp add: os_inv_def)
    next
      case Rv_eof
      then have s': "s' = s\<lparr>os_sys := sys_close fd k, os_workers := (os_workers s)[t := Ow_end]\<rparr>" using assms(2) t Ow_run r by (simp add: worker_act_def)
      have less: "os_claims s' fd' \<le> os_claims s fd' - (if fd' = fd then 1 else 0)" for fd'
      proof (cases "fd' = fd")
        case True
        obtain n where "count (mset (os_workers s)) (Ow_run fd) = Suc n" using pos Ow_run by (metis gr0_implies_Suc)
        then show ?thesis using True by (simp add: s' os_claims_def run start)
      qed (simp add: s' os_claims_def run start)
      have "ep_open (os_sys s') = (ep_open (os_sys s))(fd := False)" by (simp add: s' sys_close_def k)
      then have "os_claims s' fd' \<le> (if ep_open (os_sys s') fd' then 1 else 0)" if "fd' \<noteq> os_listenfd s" for fd'
        using os_inv_claims [OF assms(1) that] less [of fd'] by (cases "fd' = fd") (auto split: if_splits)
      moreover have "os_listenfd s' = os_listenfd s" "ep_open (os_sys s') (os_listenfd s)" "os_slot s' = os_slot s" "os_workers s' = (os_workers s)[t := Ow_end]"
        using lfd(1) assms(1) by (simp_all add: s' sys_close_def k os_inv_def)
      ultimately show ?thesis using assms(1) lfd start by (simp add: os_inv_def)
    qed
  qed
qed

lemma os_main_init_start: "os_main_init listenfd bind_ret listen_ret epollfd = Some s \<Longrightarrow> os_start s"
  by (auto simp: os_main_init_def os_start_def split: if_splits)

lemma os_inv_start: "os_start s \<Longrightarrow> os_inv s"
  by (auto simp: os_start_def os_inv_def os_claims_def)

lemma os_inv_step: "os_step True s s' \<Longrightarrow> os_inv s \<Longrightarrow> os_inv s'"
proof (induction rule: os_step.induct)
  case (arrive s fd bs)
  then show ?case by (subst os_inv_sys) simp_all
next
  case (finish s fd)
  then show ?case by (subst os_inv_sys) simp_all
qed (auto intro: os_inv_wait os_inv_event os_inv_work)

interpretation os: transition_system os_start "os_step True" os_inv
  by unfold_locales (rule os_inv_start, assumption, rule os_inv_step)

section \<open>Properties\<close>

text \<open>The one-shot registration does its work when each worker reads its argument before the main thread
  goes on: in every such interleaving no two workers serve the same connection.\<close>
theorem oneshot_one_worker:
  assumes "os_start s0" "(os_step True)\<^sup>*\<^sup>* s0 s" "t < length (os_workers s)" "t' < length (os_workers s)"
    "os_workers s ! t = Ow_run fd" "os_workers s ! t' = Ow_run fd"
  shows "t = t'"
proof (rule ccontr)
  assume ne: "t \<noteq> t'"
  have inv: "os_inv s" by (rule os.reachable_inv [OF assms(1,2)])
  have "{#Ow_run fd, Ow_run fd#} = image_mset ((!) (os_workers s)) (mset_set {t, t'})" using ne assms(5,6) by simp
  also have "\<dots> \<subseteq># image_mset ((!) (os_workers s)) (mset_set {0..<length (os_workers s)})"
    using assms(3,4) by (intro image_mset_subseteq_mono subset_imp_msubset_mset_set) auto
  also have "\<dots> = mset (os_workers s)" by (metis map_nth mset_map mset_upt)
  finally have "count {#Ow_run fd, Ow_run fd#} (Ow_run fd) \<le> count (mset (os_workers s)) (Ow_run fd)" by (rule mset_subset_eq_count)
  moreover have own: "count (mset (os_workers s)) (Ow_run fd) \<le> os_claims s fd" by (simp add: os_claims_def)
  have "fd \<noteq> os_listenfd s" using inv assms(3,5) by (auto simp: os_inv_def in_set_conv_nth)
  then have "count (mset (os_workers s)) (Ow_run fd) \<le> 1"
    using os_inv_claims [OF inv, of fd] le_trans [OF own, of 1] by (auto split: if_splits)
  ultimately show False by simp
qed

text \<open>Nothing makes the main thread wait, though, and all workers are given the address of the same variable:
  of two connections reported together the second can end up with both workers, and the first,
  disarmed, with none.\<close>
theorem oneshot_race:
  assumes "os_queue s = [fd1, fd2]" "fd1 \<noteq> os_listenfd s" "fd2 \<noteq> os_listenfd s" "\<not> os_armed s fd1" "os_workers s = []"
  shows "\<exists>s'. (os_step False)\<^sup>*\<^sup>* s s' \<and> os_workers s' = [Ow_run fd2, Ow_run fd2] \<and> os_queue s' = [] \<and> \<not> os_armed s' fd1"
proof -
  define s1 where "s1 = os_event fd1 (-1) (s\<lparr>os_queue := [fd2]\<rparr>)"
  define s2 where "s2 = os_event fd2 (-1) (s1\<lparr>os_queue := []\<rparr>)"
  define s3 where "s3 = s2\<lparr>os_workers := [Ow_run fd2, Ow_start]\<rparr>"
  define s4 where "s4 = s3\<lparr>os_workers := [Ow_run fd2, Ow_run fd2]\<rparr>"
  have "os_step False s s1" unfolding s1_def by (rule os_step.handle) (use assms in auto)
  moreover have "os_step False s1 s2" unfolding s2_def by (rule os_step.handle) (use assms in \<open>auto simp: s1_def os_event_def\<close>)
  moreover have w2: "os_workers s2 = [Ow_start, Ow_start]" "os_slot s2 = fd2" "os_armed s2 = os_armed s" "os_queue s2 = []"
    using assms by (simp_all add: s2_def s1_def os_event_def)
  then have "worker_act 0 s2 = Some s3" by (simp add: worker_act_def s3_def)
  then have "os_step False s2 s3" by (rule os_step.work)
  moreover have "worker_act 1 s3 = Some s4" using w2 by (simp add: worker_act_def s3_def s4_def)
  then have "os_step False s3 s4" by (rule os_step.work)
  ultimately have "(os_step False)\<^sup>*\<^sup>* s s4" by (meson converse_rtranclp_into_rtranclp rtranclp.rtrancl_refl)
  then show ?thesis using w2 assms(4) by (intro exI [of _ s4]) (simp add: s4_def s3_def)
qed

section \<open>Witnesses\<close>

definition os_demo :: oneshot where
  "os_demo = \<lparr>os_listenfd = 3, os_sys = demo_sys, os_armed = (\<lambda>fd. fd = 7 \<or> fd = 8), os_slot = 0, os_queue = [], os_workers = []\<rparr>"

definition os_demo1 :: oneshot where
  "os_demo1 = os_demo\<lparr>os_queue := [7, 8], os_armed := (\<lambda>fd. os_armed os_demo fd \<and> fd \<notin> {7, 8})\<rparr>"

definition os_demo2 :: oneshot where
  "os_demo2 = os_event 7 (-1) (os_demo1\<lparr>os_queue := [8]\<rparr>)"

definition os_demo3 :: oneshot where
  "os_demo3 = os_demo2\<lparr>os_workers := [Ow_run 7]\<rparr>"

lemma os_demo_reach: "(os_step True)\<^sup>*\<^sup>* os_demo os_demo3"
proof -
  have "os_step True os_demo (os_demo\<lparr>os_queue := [7, 8], os_armed := (\<lambda>fd. os_armed os_demo fd \<and> fd \<notin> set [7, 8])\<rparr>)"
    by (rule os_step.wait) (auto simp: os_demo_def os_reportable_def lt_ready_def demo_sys_def)
  then have "os_step True os_demo os_demo1" by (simp add: os_demo1_def)
  moreover have "os_step True os_demo1 os_demo2"
    unfolding os_demo2_def by (rule os_step.handle) (simp_all add: os_demo1_def os_demo_def)
  moreover have "worker_act 0 os_demo2 = Some os_demo3"
    by (simp add: worker_act_def os_demo3_def os_demo2_def os_demo1_def os_demo_def os_event_def)
  then have "os_step True os_demo2 os_demo3" by (rule os_step.work)
  ultimately show ?thesis by (meson converse_rtranclp_into_rtranclp rtranclp.rtrancl_refl)
qed

theorem oneshot_one_worker_witness: "{t. t < length (os_workers os_demo3) \<and> os_workers os_demo3 ! t = Ow_run 7} = {0}"
proof -
  have "os_start os_demo" by (simp add: os_start_def os_demo_def demo_sys_def)
  moreover have "length (os_workers os_demo3) = 1" "os_workers os_demo3 ! 0 = Ow_run 7" by (simp_all add: os_demo3_def)
  ultimately show ?thesis using oneshot_one_worker [OF _ os_demo_reach, of _ 0 7] by auto
qed

theorem oneshot_race_witness:
  "\<exists>s'. (os_step False)\<^sup>*\<^sup>* os_demo1 s' \<and> os_workers s' = [Ow_run 8, Ow_run 8] \<and> os_queue s' = [] \<and> \<not> os_armed s' 7"
  using oneshot_race [of os_demo1 7 8] by (simp add: os_demo1_def os_demo_def)

end
