(* ===== verification/Stress_Client.thy ===== *)
theory Stress_Client
  imports Event_Loop
begin

text \<open>
  The load generator of \<open>socket/test/stress_test.c\<close>: a number of connections, each of which sends the request,
  waits for an answer and sends the request again. The kernel's answers to \<open>send\<close> are the number of
  bytes it takes, 0 for a failure.
\<close>

definition stress_request :: string where
  "stress_request = ''GET http://localhost/index.html HTTP/1.1'' @ [CHR 0x0D, CHR 0x0A] @ ''Connection: keep-alive'' @
     [CHR 0x0D, CHR 0x0A, CHR 0x0D, CHR 0x0A] @ ''xxxxxxxxxxxx''"

text \<open>\<open>write_nbytes\<close>: the result and the bytes sent. A finished list of answers stands for \<open>EAGAIN\<close>, which the
  code does not tell from a failure.\<close>

fun write_nbytes :: "nat list \<Rightarrow> string \<Rightarrow> bool \<times> string" where
  "write_nbytes [] buffer = (False, [])"
| "write_nbytes (n # ans) buffer =
     (if n = 0 then (False, [])
      else if length buffer \<le> n then (True, buffer)
      else (case write_nbytes ans (drop n buffer) of (ok, sent) \<Rightarrow> (ok, take n buffer @ sent)))"

definition read_once :: "string recv_ans \<Rightarrow> bool" where
  "read_once r = (case r of Rv_data bs \<Rightarrow> bs \<noteq> [] | _ \<Rightarrow> False)"

text \<open>Which event a registered connection waits for; the bytes sent and the number of answers read are kept
  per connection, from its registration on.\<close>

datatype interest = Want_out | Want_in

record stress =
  st_reg :: "int \<rightharpoonup> interest"
  st_sent :: "int \<Rightarrow> string"
  st_reads :: "int \<Rightarrow> nat"
  st_closed :: "int list"

definition stress_addfd :: "int \<Rightarrow> stress \<Rightarrow> stress" where
  "stress_addfd fd s = s\<lparr>st_reg := (st_reg s)(fd \<mapsto> Want_out), st_sent := (st_sent s)(fd := []), st_reads := (st_reads s)(fd := 0)\<rparr>"

text \<open>\<open>start_conn\<close>: for each connection the answer of \<open>socket\<close> and whether \<open>connect\<close> returns 0.\<close>

fun start_conn :: "(int \<times> bool) list \<Rightarrow> stress \<Rightarrow> stress" where
  "start_conn [] s = s"
| "start_conn ((sockfd, connected) # rest) s =
     (if sockfd < 0 then start_conn rest s
      else start_conn rest (if connected then stress_addfd sockfd s else s))"

definition stress_close :: "int \<Rightarrow> stress \<Rightarrow> stress" where
  "stress_close fd s = s\<lparr>st_reg := (st_reg s)(fd := None), st_closed := st_closed s @ [fd]\<rparr>"

text \<open>\<open>EPOLL_CTL_MOD\<close>: it fails on a descriptor that is no longer registered.\<close>

definition stress_mod :: "int \<Rightarrow> interest \<Rightarrow> stress \<Rightarrow> stress" where
  "stress_mod fd w s = (if st_reg s fd = None then s else s\<lparr>st_reg := (st_reg s)(fd \<mapsto> w)\<rparr>)"

record st_event =
  se_fd :: int
  se_in :: bool
  se_out :: bool
  se_err :: bool
  se_recv :: "string recv_ans"
  se_send :: "nat list"

definition stress_event :: "st_event \<Rightarrow> stress \<Rightarrow> stress" where
  "stress_event e s = (let fd = se_fd e in
     if se_in e then
       stress_mod fd Want_out
         (if read_once (se_recv e) then s\<lparr>st_reads := (st_reads s)(fd := Suc (st_reads s fd))\<rparr> else stress_close fd s)
     else if se_out e then
       (case write_nbytes (se_send e) stress_request of (ok, sent) \<Rightarrow>
         let s1 = s\<lparr>st_sent := (st_sent s)(fd := st_sent s fd @ sent)\<rparr> in
         stress_mod fd Want_in (if ok then s1 else stress_close fd s1))
     else if se_err e then stress_close fd s
     else s)"

definition stress_main :: "(int \<times> bool) list \<Rightarrow> st_event list list \<Rightarrow> stress \<Rightarrow> stress" where
  "stress_main conns batches s = fold (fold stress_event) batches (start_conn conns s)"

section \<open>Requests and answers alternate\<close>

lemma write_nbytes_prefix: "write_nbytes ans buf = (ok, sent) \<Longrightarrow> (\<exists>rest. buf = sent @ rest) \<and> (ok \<longrightarrow> sent = buf)"
proof (induction ans buf arbitrary: ok sent rule: write_nbytes.induct)
  case (2 n ans buffer)
  show ?case
  proof (cases "n = 0 \<or> length buffer \<le> n")
    case True
    then show ?thesis using "2.prems" by (auto split: if_splits)
  next
    case False
    obtain ok' sent' where w: "write_nbytes ans (drop n buffer) = (ok', sent')" by (metis prod.exhaust)
    then have "ok = ok'" "sent = take n buffer @ sent'" using "2.prems" False by auto
    moreover obtain rest where "drop n buffer = sent' @ rest" "ok' \<longrightarrow> sent' = drop n buffer" using "2.IH" [OF _ _ w] False by auto
    moreover have "buffer = take n buffer @ drop n buffer" by simp
    ultimately show ?thesis by (metis append_assoc)
  qed
qed auto

text \<open>What the kernel reports: a registered connection, for the event it waits for or for an error.\<close>

definition stress_valid :: "st_event \<Rightarrow> (int \<rightharpoonup> interest) \<Rightarrow> bool" where
  "stress_valid e reg \<longleftrightarrow> (se_in e \<longrightarrow> reg (se_fd e) = Some Want_in) \<and> (\<not> se_in e \<and> se_out e \<longrightarrow> reg (se_fd e) = Some Want_out)"

definition requests_sent :: "stress \<Rightarrow> bool" where
  "requests_sent s \<longleftrightarrow> (\<forall>fd w. st_reg s fd = Some w \<longrightarrow>
     st_sent s fd = concat (replicate (st_reads s fd + (if w = Want_in then 1 else 0)) stress_request))"

lemma requests_start: "requests_sent s \<Longrightarrow> requests_sent (start_conn conns s)"
proof (induction conns s rule: start_conn.induct)
  case (2 fd ok rest s)
  then show ?case by (simp add: stress_addfd_def requests_sent_def)
qed simp

lemma requests_event:
  assumes "requests_sent s" "stress_valid e (st_reg s)"
  shows "requests_sent (stress_event e s)"
proof -
  have close: "requests_sent (stress_close fd s1)" if "requests_sent s1" for fd s1
    using that by (auto simp: requests_sent_def stress_close_def)
  obtain ok sent where w: "write_nbytes (se_send e) stress_request = (ok, sent)" by (metis prod.exhaust)
  consider "se_in e" | "\<not> se_in e" "se_out e" | "\<not> se_in e" "\<not> se_out e" by blast
  then show ?thesis
  proof cases
    case 1
    then have reg: "st_reg s (se_fd e) = Some Want_in" using assms(2) by (simp add: stress_valid_def)
    show ?thesis
    proof (cases "read_once (se_recv e)")
      case True
      then show ?thesis using 1 assms(1) reg by (auto simp: stress_event_def Let_def stress_mod_def requests_sent_def)
    next
      case False
      then show ?thesis using 1 close [OF assms(1), of "se_fd e"] by (simp add: stress_event_def Let_def stress_mod_def stress_close_def)
    qed
  next
    case 2
    then have reg: "st_reg s (se_fd e) = Some Want_out" using assms(2) by (simp add: stress_valid_def)
    then have old: "st_sent s (se_fd e) = concat (replicate (st_reads s (se_fd e)) stress_request)" using assms(1) by (fastforce simp: requests_sent_def)
    show ?thesis
    proof (cases ok)
      case True
      then have "sent = stress_request" using write_nbytes_prefix [OF w] by simp
      then show ?thesis using 2 assms(1) reg old w True
        by (auto simp: stress_event_def Let_def stress_mod_def requests_sent_def replicate_append_same [symmetric] simp del: replicate_append_same)
    next
      case False
      then show ?thesis using 2 assms(1) w
        by (auto simp: stress_event_def Let_def stress_mod_def stress_close_def requests_sent_def)
    qed
  next
    case 3
    then show ?thesis using close [OF assms(1)] assms(1) by (simp add: stress_event_def)
  qed
qed

interpretation stress: transition_system requests_sent "\<lambda>s s'. \<exists>e. stress_valid e (st_reg s) \<and> s' = stress_event e s" requests_sent
  by unfold_locales (auto intro: requests_event)

text \<open>Every open connection of the load generator has sent the request once per answer it has read, and once more
  while it waits for the next answer; no request is sent in part on a connection that stays open.\<close>
theorem stress_alternates:
  assumes "(\<lambda>s s'. \<exists>e. stress_valid e (st_reg s) \<and> s' = stress_event e s)\<^sup>*\<^sup>* (start_conn conns s0) s" "st_reg s0 = Map.empty" "st_reg s fd = Some w"
  shows "st_sent s fd = concat (replicate (st_reads s fd + (if w = Want_in then 1 else 0)) stress_request)"
proof -
  have "requests_sent (start_conn conns s0)" using assms(2) by (intro requests_start) (simp add: requests_sent_def)
  then show ?thesis using stress.reachable_inv [OF _ assms(1)] assms(3) by (simp add: requests_sent_def)
qed

definition stress_demo :: stress where
  "stress_demo = \<lparr>st_reg = Map.empty, st_sent = (\<lambda>_. []), st_reads = (\<lambda>_. 0), st_closed = []\<rparr>"

theorem stress_alternates_witness:
  "st_sent (stress_event \<lparr>se_fd = 4, se_in = False, se_out = True, se_err = False, se_recv = Rv_eof, se_send = [50, 50]\<rparr>
      (start_conn [(4, True), (5, False)] stress_demo)) 4 = stress_request"
proof -
  define s where "s = start_conn [(4, True), (5, False)] stress_demo"
  define e where "e = \<lparr>se_fd = 4, se_in = False, se_out = True, se_err = False, se_recv = Rv_eof, se_send = [50, 50 :: nat]\<rparr>"
  have reg: "st_reg s 4 = Some Want_out" "st_reads s 4 = 0" by (simp_all add: s_def stress_demo_def stress_addfd_def)
  have "length stress_request = 80" by (simp add: stress_request_def)
  then obtain sent where w: "write_nbytes [50, 50] stress_request = (True, sent)" by simp
  have "(\<lambda>s s'. \<exists>e. stress_valid e (st_reg s) \<and> s' = stress_event e s)\<^sup>*\<^sup>* s (stress_event e s)"
    using reg by (intro r_into_rtranclp exI [of _ e]) (simp add: stress_valid_def e_def)
  moreover have "st_reg (stress_event e s) 4 = Some Want_in" "st_reads (stress_event e s) 4 = 0"
    using w reg by (simp_all add: stress_event_def Let_def stress_mod_def e_def del: write_nbytes.simps)
  moreover have "st_reg stress_demo = Map.empty" by (simp add: stress_demo_def)
  ultimately have "st_sent (stress_event e s) 4 = stress_request"
    unfolding s_def by (subst stress_alternates) (assumption+, simp)
  then show ?thesis unfolding s_def e_def .
qed

end
