(* ===== verification/Dead_Lock.thy ===== *)
theory Dead_Lock
  imports Event_Loop
begin

text \<open>
  The two threads of \<open>socket/thread/dead_lock.c\<close>, which take two mutexes in opposite orders. A thread is a
  program counter: how many of its statements that matter to the other thread it has executed. The
  values are small enough that no width matters.
\<close>

text \<open>The holder of a mutex is \<open>True\<close> for the main thread and \<open>False\<close> for the other one.\<close>

record dl_state =
  dl_a :: int
  dl_b :: int
  dl_mutex_a :: "bool option"
  dl_mutex_b :: "bool option"
  dl_main :: nat
  dl_another :: nat

definition dl_init :: dl_state where
  "dl_init = \<lparr>dl_a = 0, dl_b = 0, dl_mutex_a = None, dl_mutex_b = None, dl_main = 0, dl_another = 0\<rparr>"

text \<open>\<open>main\<close> from line 29: lock \<open>mutex_a\<close>, \<open>++a\<close>, lock \<open>mutex_b\<close>, \<open>a += b++\<close>, unlock \<open>mutex_b\<close>, unlock \<open>mutex_a\<close>.\<close>

definition main_act :: "dl_state \<Rightarrow> dl_state option" where
  "main_act s = (let s' = s\<lparr>dl_main := Suc (dl_main s)\<rparr> in
     if dl_main s = 0 then (if dl_mutex_a s = None then Some (s'\<lparr>dl_mutex_a := Some True\<rparr>) else None)
     else if dl_main s = 1 then Some (s'\<lparr>dl_a := dl_a s + 1\<rparr>)
     else if dl_main s = 2 then (if dl_mutex_b s = None then Some (s'\<lparr>dl_mutex_b := Some True\<rparr>) else None)
     else if dl_main s = 3 then Some (s'\<lparr>dl_a := dl_a s + dl_b s, dl_b := dl_b s + 1\<rparr>)
     else if dl_main s = 4 then Some (s'\<lparr>dl_mutex_b := None\<rparr>)
     else if dl_main s = 5 then Some (s'\<lparr>dl_mutex_a := None\<rparr>)
     else None)"

text \<open>\<open>another\<close>: the same with the two mutexes and the two variables exchanged.\<close>

definition another_act :: "dl_state \<Rightarrow> dl_state option" where
  "another_act s = (let s' = s\<lparr>dl_another := Suc (dl_another s)\<rparr> in
     if dl_another s = 0 then (if dl_mutex_b s = None then Some (s'\<lparr>dl_mutex_b := Some False\<rparr>) else None)
     else if dl_another s = 1 then Some (s'\<lparr>dl_b := dl_b s + 1\<rparr>)
     else if dl_another s = 2 then (if dl_mutex_a s = None then Some (s'\<lparr>dl_mutex_a := Some False\<rparr>) else None)
     else if dl_another s = 3 then Some (s'\<lparr>dl_b := dl_b s + dl_a s, dl_a := dl_a s + 1\<rparr>)
     else if dl_another s = 4 then Some (s'\<lparr>dl_mutex_a := None\<rparr>)
     else if dl_another s = 5 then Some (s'\<lparr>dl_mutex_b := None\<rparr>)
     else None)"

inductive dl_step :: "dl_state \<Rightarrow> dl_state \<Rightarrow> bool" where
  main: "main_act s = Some s' \<Longrightarrow> dl_step s s'"
| another: "another_act s = Some s' \<Longrightarrow> dl_step s s'"

definition dl_finished :: "dl_state \<Rightarrow> bool" where
  "dl_finished s \<longleftrightarrow> dl_main s = 6 \<and> dl_another s = 6"

definition dl_stuck :: "dl_state \<Rightarrow> bool" where
  "dl_stuck s \<longleftrightarrow> main_act s = None \<and> another_act s = None \<and> \<not> dl_finished s"

section \<open>All interleavings\<close>

definition dl_next :: "dl_state \<Rightarrow> dl_state list" where
  "dl_next s = (case main_act s of None \<Rightarrow> [] | Some s' \<Rightarrow> [s']) @ (case another_act s of None \<Rightarrow> [] | Some s' \<Rightarrow> [s'])"

lemma dl_step_next: "dl_step s s' \<longleftrightarrow> s' \<in> set (dl_next s)"
  by (auto simp: dl_next_def dl_step.simps split: option.splits)

text \<open>The states at most \<open>n\<close> steps away; each of the two threads has six steps.\<close>

fun dl_states :: "nat \<Rightarrow> dl_state list" where
  "dl_states 0 = [dl_init]"
| "dl_states (Suc n) = (let ss = dl_states n in remdups (ss @ concat (map dl_next ss)))"

lemma dl_states_closed: "list_all (\<lambda>s. list_all (\<lambda>s'. s' \<in> set (dl_states 12)) (dl_next s)) (dl_states 12)"
  by code_simp

lemma dl_states_outcome: "list_all (\<lambda>s. dl_finished s \<longrightarrow> dl_a s = 2 \<and> dl_b s = 3 \<or> dl_a s = 3 \<and> dl_b s = 2) (dl_states 12)"
  by code_simp

interpretation dl: transition_system "\<lambda>s. s = dl_init" dl_step "\<lambda>s. s \<in> set (dl_states 12)"
proof (unfold_locales, goal_cases)
  case (1 s)
  moreover have "list_all (\<lambda>s. s \<in> set (dl_states 12)) [dl_init]" by code_simp
  ultimately show ?case by simp
next
  case (2 s s')
  then show ?case using dl_states_closed by (auto simp: dl_step_next list_all_iff)
qed

lemma dl_run: "run_events (\<lambda>t. if t then main_act else another_act) ts s1 = Some s2 \<Longrightarrow> dl_step\<^sup>*\<^sup>* s1 s2"
  by (induction ts arbitrary: s1) (auto simp: bind_eq_Some_conv split: if_splits intro: dl_step.intros converse_rtranclp_into_rtranclp)

text \<open>The program can deadlock: when each thread has taken its first mutex, neither can ever go on.\<close>
theorem dead_lock_reachable: "\<exists>s. dl_step\<^sup>*\<^sup>* dl_init s \<and> dl_stuck s"
proof -
  define s where "s = dl_init\<lparr>dl_a := 1, dl_b := 1, dl_mutex_a := Some True, dl_mutex_b := Some False, dl_main := 2, dl_another := 2\<rparr>"
  have "run_events (\<lambda>t. if t then main_act else another_act) [True, False, True, False] dl_init = Some s"
    by (simp add: dl_init_def s_def main_act_def another_act_def Let_def)
  then have "dl_step\<^sup>*\<^sup>* dl_init s" by (rule dl_run)
  moreover have "dl_stuck s" by (simp add: s_def dl_init_def dl_stuck_def dl_finished_def main_act_def another_act_def Let_def)
  ultimately show ?thesis by blast
qed

text \<open>When it does not deadlock, the threads have run one after the other, and the variables show which was first.\<close>
theorem dead_lock_outcomes:
  assumes "dl_step\<^sup>*\<^sup>* dl_init s" "dl_finished s"
  shows "(dl_a s, dl_b s) \<in> {(2, 3), (3, 2)}"
  using dl.reachable_inv [OF refl assms(1)] dl_states_outcome assms(2) by (auto simp: list_all_iff)

definition dl_demo :: dl_state where
  "dl_demo = \<lparr>dl_a = 2, dl_b = 3, dl_mutex_a = None, dl_mutex_b = None, dl_main = 6, dl_another = 6\<rparr>"

theorem dead_lock_outcomes_witness: "(dl_a dl_demo, dl_b dl_demo) \<in> {(2, 3), (3, 2)}"
proof (rule dead_lock_outcomes)
  have "run_events (\<lambda>t. if t then main_act else another_act) (replicate 6 True @ replicate 6 False) dl_init = Some dl_demo" by code_simp
  then show "dl_step\<^sup>*\<^sup>* dl_init dl_demo" by (rule dl_run)
qed (simp add: dl_demo_def dl_finished_def)

end
