(* ===== verification/Signal_Server.thy ===== *)
theory Signal_Server
  imports Event_Loop
begin

text \<open>
  The unified event source of \<open>socket/signal/unified_event_handle.c\<close> (signals become bytes of a pipe that the
  event loop reads like any other descriptor) and the connect with timeout of
  \<open>socket/io_multiplexing/io_nonblock_connect.c\<close>.
\<close>

section \<open>Signals as events\<close>

definition SIGHUP :: nat where "SIGHUP = 1"
definition SIGINT :: nat where "SIGINT = 2"
definition SIGTERM :: nat where "SIGTERM = 15"
definition SIGCHLD :: nat where "SIGCHLD = 17"

datatype ss_call = Ss_add int | Ss_close int

record sig_server =
  ss_listenfd :: int
  ss_pipe0 :: int
  ss_pipe1 :: int
  ss_bytes :: "nat list"
  ss_stop :: bool
  ss_calls :: "ss_call list"

text \<open>The handler writes one byte into the pipe, whose writing end does not block: when its \<open>cap\<close> bytes are used
  up the byte is lost.\<close>

definition sig_handler :: "nat \<Rightarrow> nat \<Rightarrow> sig_server \<Rightarrow> sig_server" where
  "sig_handler cap sig s = (if length (ss_bytes s) < cap then s\<lparr>ss_bytes := ss_bytes s @ [sig]\<rparr> else s)"

definition ss_init :: "int \<Rightarrow> int \<Rightarrow> int \<Rightarrow> int \<Rightarrow> (int \<times> int) option \<Rightarrow> sig_server option" where
  "ss_init listenfd bind_ret listen_ret epollfd pair =
     (if listenfd < 0 \<or> bind_ret = -1 \<or> listen_ret = -1 \<or> epollfd = -1 then None
      else do {
        (p0, p1) \<leftarrow> pair;
        Some \<lparr>ss_listenfd = listenfd, ss_pipe0 = p0, ss_pipe1 = p1, ss_bytes = [], ss_stop = False, ss_calls = [Ss_add listenfd, Ss_add p0]\<rparr>
      })"

text \<open>One byte of the pipe: \<open>SIGCHLD\<close> and \<open>SIGHUP\<close> go on with the next one.\<close>

definition ss_signal :: "nat \<Rightarrow> sig_server \<Rightarrow> sig_server" where
  "ss_signal sig s = (if sig = SIGCHLD \<or> sig = SIGHUP then s else if sig = SIGTERM \<or> sig = SIGINT then s\<lparr>ss_stop := True\<rparr> else s)"

record ss_event =
  sv_fd :: int
  sv_in :: bool
  sv_accept :: int

definition ss_event :: "ss_event \<Rightarrow> sig_server \<Rightarrow> sig_server option" where
  "ss_event e s =
     (if sv_fd e = ss_listenfd s then (if sv_accept e < 0 then None else Some (s\<lparr>ss_calls := ss_calls s @ [Ss_add (sv_accept e)]\<rparr>))
      else if sv_fd e = ss_pipe0 s \<and> sv_in e then
        Some (fold ss_signal (take 1024 (ss_bytes s)) (s\<lparr>ss_bytes := drop 1024 (ss_bytes s)\<rparr>))
      else Some s)"

text \<open>The loop of \<open>main\<close> and what follows it. Signals arrive while the loop waits: each answer of \<open>epoll_wait\<close>
  comes with those that have arrived before it.\<close>

fun ss_loop :: "nat \<Rightarrow> (nat list \<times> ss_event epoll_ans) list \<Rightarrow> sig_server \<Rightarrow> (bool \<times> sig_server) option" where
  "ss_loop cap answers s =
     (if ss_stop s then Some (True, s\<lparr>ss_calls := ss_calls s @ [Ss_close (ss_listenfd s), Ss_close (ss_pipe1 s), Ss_close (ss_pipe0 s)]\<rparr>)
      else (case answers of
          [] \<Rightarrow> Some (False, s)
        | (sigs, ans) # rest \<Rightarrow>
            let s1 = fold (sig_handler cap) sigs s in
            (case ans of
               Ep_fail \<Rightarrow> Some (True, s1\<lparr>ss_calls := ss_calls s1 @ [Ss_close (ss_listenfd s1), Ss_close (ss_pipe1 s1), Ss_close (ss_pipe0 s1)]\<rparr>)
             | Ep_eintr \<Rightarrow> ss_loop cap rest s1
             | Ep_events es \<Rightarrow> Option.bind (run_events ss_event es s1) (ss_loop cap rest))))"

declare ss_loop.simps [simp del]

lemma sig_handlers: "fold (sig_handler cap) sigs s = s\<lparr>ss_bytes := ss_bytes s @ take (cap - length (ss_bytes s)) sigs\<rparr>"
proof (induction sigs arbitrary: s)
  case (Cons x sigs)
  show ?case
  proof (cases "cap - length (ss_bytes s)")
    case (Suc n)
    then have "cap - Suc (length (ss_bytes s)) = n" by simp
    moreover have "sig_handler cap x s = s\<lparr>ss_bytes := ss_bytes s @ [x]\<rparr>" using Suc by (simp add: sig_handler_def)
    ultimately show ?thesis using Suc Cons by simp
  next
    case 0
    then have "sig_handler cap x s = s" by (simp add: sig_handler_def)
    then show ?thesis using 0 Cons by simp
  qed
qed simp

lemma ss_signals: "fold ss_signal sigs s = s\<lparr>ss_stop := ss_stop s \<or> SIGTERM \<in> set sigs \<or> SIGINT \<in> set sigs\<rparr>"
proof (induction sigs arbitrary: s)
  case (Cons x sigs)
  then show ?case by (auto simp: ss_signal_def SIGHUP_def SIGINT_def SIGTERM_def SIGCHLD_def)
qed simp

text \<open>No signal is missed: as long as they fit the pipe and one read, the signals that arrived before an event
  on the pipe are all taken out by it, and the server goes on to stop exactly if one of them, in any
  position and among any others, is \<open>SIGTERM\<close> or \<open>SIGINT\<close>.\<close>
theorem unified_signals_handled:
  assumes "ss_bytes s = []" "\<not> ss_stop s" "length sigs \<le> cap" "length sigs \<le> 1024" "ss_listenfd s \<noteq> ss_pipe0 s"
  shows "ss_loop cap [(sigs, Ep_events [\<lparr>sv_fd = ss_pipe0 s, sv_in = True, sv_accept = c\<rparr>])] s =
    (if SIGTERM \<in> set sigs \<or> SIGINT \<in> set sigs
     then Some (True, s\<lparr>ss_stop := True, ss_calls := ss_calls s @ [Ss_close (ss_listenfd s), Ss_close (ss_pipe1 s), Ss_close (ss_pipe0 s)]\<rparr>)
     else Some (False, s))"
  using assms by (simp add: ss_loop.simps [of cap] sig_handlers ss_event_def ss_signals Let_def)

section \<open>Connecting with a timeout\<close>

datatype uc_call = Uc_nonblock int | Uc_restore int | Uc_close int

datatype connect_ans = Cn_done | Cn_inprogress | Cn_failed

text \<open>The answers: \<open>socket\<close>, \<open>connect\<close>, \<open>select\<close> with whether the socket is then in \<open>writefds\<close>, and \<open>getsockopt\<close>
  with the value of \<open>SO_ERROR\<close> (\<open>None\<close> for a failure).\<close>

definition unblock_connect :: "int \<Rightarrow> connect_ans \<Rightarrow> int \<Rightarrow> bool \<Rightarrow> int option \<Rightarrow> (int \<times> uc_call list) option" where
  "unblock_connect sockfd conn sel isset so_error =
     (if sockfd < 0 then None
      else Some (case conn of
          Cn_done \<Rightarrow> (sockfd, [Uc_nonblock sockfd, Uc_restore sockfd])
        | Cn_failed \<Rightarrow> (-1, [Uc_nonblock sockfd])
        | Cn_inprogress \<Rightarrow>
            if sel \<le> 0 then (-1, [Uc_nonblock sockfd, Uc_close sockfd])
            else if \<not> isset then (-1, [Uc_nonblock sockfd, Uc_close sockfd])
            else (case so_error of
                None \<Rightarrow> (-1, [Uc_nonblock sockfd, Uc_close sockfd])
              | Some err \<Rightarrow> if err \<noteq> 0 then (-1, [Uc_nonblock sockfd, Uc_close sockfd])
                            else (sockfd, [Uc_nonblock sockfd, Uc_restore sockfd]))))"

text \<open>What the function's comment promises: it returns the socket exactly if the connection is established, in
  blocking mode again, and otherwise -1; in the second case the socket is closed, but for a \<open>connect\<close>
  that fails at once, where it is left open and lost.\<close>
theorem unblock_connect_result:
  assumes "0 \<le> fd"
  shows "\<exists>ret calls. unblock_connect fd conn sel isset err = Some (ret, calls) \<and>
    (ret = fd \<longleftrightarrow> conn = Cn_done \<or> conn = Cn_inprogress \<and> 0 < sel \<and> isset \<and> err = Some 0) \<and>
    (ret = fd \<longleftrightarrow> last calls = Uc_restore fd) \<and> (ret = -1 \<longleftrightarrow> ret \<noteq> fd) \<and>
    (ret = -1 \<longrightarrow> (Uc_close fd \<in> set calls \<longleftrightarrow> conn \<noteq> Cn_failed))"
  using assms by (cases conn; cases err) (auto simp: unblock_connect_def)

section \<open>Witnesses\<close>

definition ss_demo :: sig_server where
  "ss_demo = \<lparr>ss_listenfd = 3, ss_pipe0 = 4, ss_pipe1 = 5, ss_bytes = [], ss_stop = False, ss_calls = []\<rparr>"

theorem unified_signals_handled_witness:
  "ss_loop 100 [([17, 15, 1], Ep_events [\<lparr>sv_fd = 4, sv_in = True, sv_accept = 0\<rparr>])] ss_demo =
     Some (True, ss_demo\<lparr>ss_stop := True, ss_calls := [Ss_close 3, Ss_close 5, Ss_close 4]\<rparr>)"
  using unified_signals_handled [of ss_demo "[17, 15, 1]" 100 0] by (simp add: ss_demo_def SIGTERM_def SIGINT_def)

theorem unblock_connect_result_witness:
  "\<exists>ret calls. unblock_connect 7 Cn_inprogress 1 True (Some 0) = Some (ret, calls) \<and> ret = 7 \<and> last calls = Uc_restore 7"
  using unblock_connect_result [of 7 Cn_inprogress 1 True "Some 0"] by auto

end
