(* ===== verification/Sync_Demos.thy ===== *)
theory Sync_Demos
  imports Thread_Pool
begin

text \<open>
  Programs around one means of synchronisation each: the constructors and destructors of
  \<open>socket/thread/locker.h\<close> and its condition variable, the condition variable of \<open>apue/pthread_sig.c\<close>, the
  semaphores of \<open>socket/ipc/sem.c\<close>, \<open>apue/ipc/test_sem.c\<close>, \<open>test_sem2.c\<close> and \<open>test_sem3.c\<close>, and the fork of a process with
  two threads in \<open>socket/thread/fork_thread.c\<close>. Parties are program counters, as in the thread pool, and a
  run interleaves their actions.
\<close>

section \<open>The classes of locker.h\<close>

text \<open>The kernel objects that are initialised. A constructor gets the results of its init calls;
  \<open>Inl\<close> is the exception it throws.\<close>

datatype sync_obj = Sem_obj | Mutex_obj | Cond_obj

datatype sync_error = Std_exception

definition sem_ctor :: "bool \<Rightarrow> sync_obj set \<Rightarrow> (sync_error + nat) \<times> sync_obj set" where
  "sem_ctor init_ok objs = (if \<not> init_ok then (Inl Std_exception, objs) else (Inr sem_init_value, insert Sem_obj objs))"

definition sem_dtor :: "sync_obj set \<Rightarrow> sync_obj set" where
  "sem_dtor objs = objs - {Sem_obj}"

definition locker_ctor :: "bool \<Rightarrow> sync_obj set \<Rightarrow> (sync_error + nat option) \<times> sync_obj set" where
  "locker_ctor init_ok objs = (if \<not> init_ok then (Inl Std_exception, objs) else (Inr None, insert Mutex_obj objs))"

definition locker_dtor :: "sync_obj set \<Rightarrow> sync_obj set" where
  "locker_dtor objs = objs - {Mutex_obj}"

definition cond_ctor :: "bool \<Rightarrow> bool \<Rightarrow> sync_obj set \<Rightarrow> (sync_error + unit) \<times> sync_obj set" where
  "cond_ctor mutex_ok cond_ok objs = (if \<not> mutex_ok then (Inl Std_exception, objs)
     else let objs1 = insert Mutex_obj objs in
       if \<not> cond_ok then (Inl Std_exception, objs1 - {Mutex_obj})
       else (Inr (), insert Cond_obj objs1))"

definition cond_dtor :: "sync_obj set \<Rightarrow> sync_obj set" where
  "cond_dtor objs = (objs - {Mutex_obj}) - {Cond_obj}"

text \<open>No constructor that throws leaves anything behind, and every destructor undoes its constructor.\<close>
theorem locker_objects_balanced:
  "(fst (sem_ctor a {}) = Inl e \<longrightarrow> snd (sem_ctor a {}) = {}) \<and> (fst (locker_ctor a {}) = Inl e \<longrightarrow> snd (locker_ctor a {}) = {}) \<and>
   (fst (cond_ctor a b {}) = Inl e \<longrightarrow> snd (cond_ctor a b {}) = {}) \<and>
   sem_dtor (snd (sem_ctor a {})) = {} \<and> locker_dtor (snd (locker_ctor a {})) = {} \<and> cond_dtor (snd (cond_ctor a b {})) = {}"
  by (auto simp: sem_ctor_def sem_dtor_def locker_ctor_def locker_dtor_def cond_ctor_def cond_dtor_def Let_def)

text \<open>Where a thread is in \<open>cond::wait\<close>, or that it is outside.\<close>

datatype cond_pc = C_out | C_lock | C_wait | C_sleep | C_relock | C_unlock | C_ret

record cond_state =
  cd_mutex :: "nat option"
  cd_pcs :: "cond_pc list"

abbreviation cd_goto :: "nat \<Rightarrow> cond_pc \<Rightarrow> cond_state \<Rightarrow> cond_state" where
  "cd_goto t p s \<equiv> s\<lparr>cd_pcs := (cd_pcs s)[t := p]\<rparr>"

text \<open>\<open>pthread_cond_wait\<close> releases the mutex and goes to sleep in one step, and takes the mutex again when woken.\<close>

fun cond_wait_act :: "nat \<Rightarrow> cond_pc \<Rightarrow> cond_state \<Rightarrow> cond_state option" where
  "cond_wait_act t C_lock s = map_option (\<lambda>m. cd_goto t C_wait (s\<lparr>cd_mutex := m\<rparr>)) (locker_lock t (cd_mutex s))"
| "cond_wait_act t C_wait s = Some (cd_goto t C_sleep (s\<lparr>cd_mutex := locker_unlock (cd_mutex s)\<rparr>))"
| "cond_wait_act t C_relock s = map_option (\<lambda>m. cd_goto t C_unlock (s\<lparr>cd_mutex := m\<rparr>)) (locker_lock t (cd_mutex s))"
| "cond_wait_act t C_unlock s = Some (cd_goto t C_ret (s\<lparr>cd_mutex := locker_unlock (cd_mutex s)\<rparr>))"
| "cond_wait_act t _ s = None"

text \<open>\<open>cond::signal\<close> does not take the mutex; it wakes one of the threads that sleep, \<open>w\<close>, if there is one.\<close>

definition cond_signal :: "nat \<Rightarrow> cond_state \<Rightarrow> cond_state" where
  "cond_signal w s = (if w < length (cd_pcs s) \<and> cd_pcs s ! w = C_sleep then cd_goto w C_relock s else s)"

text \<open>The calls: \<open>Cd_call t\<close> enters \<open>wait\<close>; \<open>Cd_spurious\<close> is a wake-up without a signal, which POSIX allows.\<close>

datatype cond_event = Cd_call nat | Cd_act nat | Cd_signal nat | Cd_spurious nat

fun cond_step :: "cond_event \<Rightarrow> cond_state \<Rightarrow> cond_state option" where
  "cond_step (Cd_call t) s = (if t < length (cd_pcs s) \<and> cd_pcs s ! t = C_out then Some (cd_goto t C_lock s) else None)"
| "cond_step (Cd_act t) s = (if t < length (cd_pcs s) then cond_wait_act t (cd_pcs s ! t) s else None)"
| "cond_step (Cd_signal w) s =
     (if C_sleep \<in> set (cd_pcs s) \<longrightarrow> w < length (cd_pcs s) \<and> cd_pcs s ! w = C_sleep
      then Some (cond_signal w s) else None)"
| "cond_step (Cd_spurious t) s = (if t < length (cd_pcs s) \<and> cd_pcs s ! t = C_sleep then Some (cd_goto t C_relock s) else None)"

definition cond_init :: "nat \<Rightarrow> cond_state" where
  "cond_init n = \<lparr>cd_mutex = None, cd_pcs = replicate n C_out\<rparr>"

text \<open>The threads that have returned, or will without a further signal; and the signals and spurious
  wake-ups that woke a thread.\<close>

definition awake :: "cond_pc \<Rightarrow> bool" where
  "awake p \<longleftrightarrow> p \<in> {C_relock, C_unlock, C_ret}"

fun wakes :: "cond_event \<Rightarrow> bool" where
  "wakes (Cd_signal w) = True"
| "wakes (Cd_spurious t) = True"
| "wakes _ = False"

lemma cond_step_awake:
  assumes "cond_step e s = Some s'"
  shows "length (filter awake (cd_pcs s')) \<le> length (filter awake (cd_pcs s)) + (if wakes e then 1 else 0)"
proof (cases e)
  case (Cd_act t)
  then have "t < length (cd_pcs s)" using assms by (simp split: if_splits)
  note upd = length_filter_update [OF this, of awake]
  show ?thesis using assms Cd_act upd [of C_wait] upd [of C_sleep] upd [of C_unlock] upd [of C_ret]
    by (cases "cd_pcs s ! t") (auto simp: awake_def split: if_splits)
next
  case (Cd_signal w)
  then show ?thesis using assms length_filter_update [of w "cd_pcs s" awake C_relock] by (auto simp: cond_signal_def awake_def split: if_splits)
next
  case (Cd_call t)
  then show ?thesis using assms length_filter_update [of t "cd_pcs s" awake C_lock] by (auto simp: awake_def split: if_splits)
next
  case (Cd_spurious t)
  then show ?thesis using assms length_filter_update [of t "cd_pcs s" awake C_relock] by (auto simp: awake_def split: if_splits)
qed

lemma cond_run_awake:
  "run_events cond_step es s = Some s' \<Longrightarrow> \<forall>e\<in>set es. \<not> wakes e \<Longrightarrow>
    length (filter awake (cd_pcs s')) \<le> length (filter awake (cd_pcs s))"
proof (induction es arbitrary: s)
  case (Cons e es)
  then obtain s1 where s1: "cond_step e s = Some s1" "run_events cond_step es s1 = Some s'" by (auto simp: bind_eq_Some_conv)
  then show ?case using Cons.IH [OF s1(2)] cond_step_awake [OF s1(1)] Cons.prems(2) by simp
qed simp

text \<open>The class keeps no record of a signal: one that comes while no thread sleeps in \<open>wait\<close> is lost, and after it no
  call of \<open>wait\<close> returns unless something else wakes it, in any interleaving.\<close>
theorem cond_signal_lost:
  assumes "\<forall>p\<in>set (cd_pcs s). p \<in> {C_out, C_lock, C_wait}"
    and "cond_step (Cd_signal w) s = Some s1" "run_events cond_step es s1 = Some s2" "\<forall>e\<in>set es. \<not> wakes e"
  shows "C_ret \<notin> set (cd_pcs s2)"
proof -
  have "w < length (cd_pcs s) \<Longrightarrow> cd_pcs s ! w \<noteq> C_sleep" using assms(1) nth_mem [of w "cd_pcs s"] by force
  then have "s1 = s" using assms(2) by (auto simp: cond_signal_def split: if_splits)
  moreover have "filter awake (cd_pcs s) = []" using assms(1) by (auto simp: filter_empty_conv awake_def)
  ultimately have "filter awake (cd_pcs s2) = []" using cond_run_awake [OF assms(3,4)] by simp
  then show ?thesis by (auto simp: filter_empty_conv awake_def)
qed

definition cond_demo_run :: "cond_event list" where
  "cond_demo_run = [Cd_call 0, Cd_act 0, Cd_act 0]"

theorem cond_signal_lost_witness:
  "run_events cond_step (Cd_signal 1 # cond_demo_run) (cond_init 2) = Some \<lparr>cd_mutex = None, cd_pcs = [C_sleep, C_out]\<rparr> \<and>
   C_ret \<notin> set (cd_pcs \<lparr>cd_mutex = None, cd_pcs = [C_sleep, C_out]\<rparr>)"
proof -
  have s: "cond_step (Cd_signal 1) (cond_init 2) = Some (cond_init 2)" by (simp add: cond_init_def cond_signal_def numeral_2_eq_2)
  have r: "run_events cond_step cond_demo_run (cond_init 2) = Some \<lparr>cd_mutex = None, cd_pcs = [C_sleep, C_out]\<rparr>"
    by (simp add: cond_demo_run_def cond_init_def locker_lock_def locker_unlock_def numeral_2_eq_2)
  from cond_signal_lost [OF _ s r] r s show ?thesis by (simp add: cond_demo_run_def cond_init_def)
qed

text \<open>And \<open>wait\<close> can return with success though nobody has signalled, because it does not test anything.\<close>
theorem cond_wait_spurious:
  "run_events cond_step (cond_demo_run @ [Cd_spurious 0, Cd_act 0, Cd_act 0]) (cond_init 1) = Some \<lparr>cd_mutex = None, cd_pcs = [C_ret]\<rparr>"
  by (simp add: cond_demo_run_def cond_init_def locker_lock_def locker_unlock_def)

section \<open>The quit flag of pthread_sig.c\<close>

text \<open>Main thread: lock, test of \<open>quitflag\<close>, \<open>pthread_cond_wait\<close>, unlock, reset of \<open>quitflag\<close> and of the mask. Signal
  thread: \<open>sigwait\<close>, and for SIGQUIT lock, set, unlock, signal. Only SIGINT and SIGQUIT are in the mask,
  so that \<open>sigwait\<close> returns no other; a blocked signal is pending at most once.\<close>

datatype pq_signal = SIGINT | SIGQUIT

datatype pq_main = P_lock | P_test | P_wait | P_sleep | P_relock | P_unlock | P_reset | P_end

datatype pq_thread = Q_wait | Q_lock | Q_set | Q_unlock | Q_signal | Q_end

record pq_state =
  pq_lock :: "nat option"
  pq_quitflag :: bool
  pq_pending :: "pq_signal set"
  pq_main :: pq_main
  pq_thread :: pq_thread
  pq_printed :: nat

definition pq_init :: pq_state where
  "pq_init = \<lparr>pq_lock = None, pq_quitflag = False, pq_pending = {}, pq_main = P_lock, pq_thread = Q_wait, pq_printed = 0\<rparr>"

definition pq_main_act :: "pq_state \<Rightarrow> pq_state option" where
  "pq_main_act s = (case pq_main s of
       P_lock \<Rightarrow> map_option (\<lambda>m. s\<lparr>pq_lock := m, pq_main := P_test\<rparr>) (locker_lock 0 (pq_lock s))
     | P_test \<Rightarrow> Some (s\<lparr>pq_main := if pq_quitflag s then P_unlock else P_wait\<rparr>)
     | P_wait \<Rightarrow> Some (s\<lparr>pq_lock := locker_unlock (pq_lock s), pq_main := P_sleep\<rparr>)
     | P_sleep \<Rightarrow> None
     | P_relock \<Rightarrow> map_option (\<lambda>m. s\<lparr>pq_lock := m, pq_main := P_test\<rparr>) (locker_lock 0 (pq_lock s))
     | P_unlock \<Rightarrow> Some (s\<lparr>pq_lock := locker_unlock (pq_lock s), pq_main := P_reset\<rparr>)
     | P_reset \<Rightarrow> Some (s\<lparr>pq_quitflag := False, pq_main := P_end\<rparr>)
     | P_end \<Rightarrow> None)"

text \<open>\<open>sig\<close> is the pending signal \<open>sigwait\<close> takes.\<close>

definition pq_thread_act :: "pq_signal \<Rightarrow> pq_state \<Rightarrow> pq_state option" where
  "pq_thread_act sig s = (case pq_thread s of
       Q_wait \<Rightarrow> if sig \<notin> pq_pending s then None
         else let s1 = s\<lparr>pq_pending := pq_pending s - {sig}\<rparr> in
           (case sig of SIGINT \<Rightarrow> Some (s1\<lparr>pq_printed := Suc (pq_printed s1)\<rparr>) | SIGQUIT \<Rightarrow> Some (s1\<lparr>pq_thread := Q_lock\<rparr>))
     | Q_lock \<Rightarrow> map_option (\<lambda>m. s\<lparr>pq_lock := m, pq_thread := Q_set\<rparr>) (locker_lock 1 (pq_lock s))
     | Q_set \<Rightarrow> Some (s\<lparr>pq_quitflag := True, pq_thread := Q_unlock\<rparr>)
     | Q_unlock \<Rightarrow> Some (s\<lparr>pq_lock := locker_unlock (pq_lock s), pq_thread := Q_signal\<rparr>)
     | Q_signal \<Rightarrow> Some (s\<lparr>pq_thread := Q_end, pq_main := if pq_main s = P_sleep then P_relock else pq_main s\<rparr>)
     | Q_end \<Rightarrow> None)"

inductive pq_step :: "pq_state \<Rightarrow> pq_state \<Rightarrow> bool" where
  main: "pq_main_act s = Some s' \<Longrightarrow> pq_step s s'"
| thread: "pq_thread_act sig s = Some s' \<Longrightarrow> pq_step s s'"
| spurious: "pq_main s = P_sleep \<Longrightarrow> pq_step s (s\<lparr>pq_main := P_relock\<rparr>)"
| arrival: "pq_step s (s\<lparr>pq_pending := insert sig (pq_pending s)\<rparr>)"

text \<open>The mutex is held by the thread whose program counter is inside; the flag is set by the signal
  thread only, and as long as the main thread may still sleep, the signal thread has not signalled yet.\<close>

definition pq_inv :: "pq_state \<Rightarrow> bool" where
  "pq_inv s \<longleftrightarrow>
     (pq_lock s = Some 0 \<longleftrightarrow> pq_main s \<in> {P_test, P_wait, P_unlock}) \<and>
     (pq_lock s = Some 1 \<longleftrightarrow> pq_thread s \<in> {Q_set, Q_unlock}) \<and>
     (pq_lock s \<in> {None, Some 0, Some 1}) \<and>
     (pq_main s \<notin> {P_reset, P_end} \<longrightarrow> (pq_quitflag s \<longleftrightarrow> pq_thread s \<in> {Q_unlock, Q_signal, Q_end})) \<and>
     (pq_main s = P_wait \<longrightarrow> \<not> pq_quitflag s) \<and>
     (pq_main s = P_sleep \<longrightarrow> pq_thread s \<noteq> Q_end) \<and>
     (pq_main s \<in> {P_unlock, P_reset, P_end} \<longrightarrow> pq_thread s \<in> {Q_signal, Q_end})"

lemma pq_main_inv: "pq_main_act s = Some s' \<Longrightarrow> pq_inv s \<Longrightarrow> pq_inv s'"
  by (cases "pq_main s"; cases "pq_thread s"; clarsimp simp: pq_main_act_def pq_inv_def locker_lock_def locker_unlock_def split: if_splits)

lemma pq_thread_inv: "pq_thread_act sig s = Some s' \<Longrightarrow> pq_inv s \<Longrightarrow> pq_inv s'"
  by (cases "pq_main s"; cases "pq_thread s"; cases sig; clarsimp simp: pq_thread_act_def pq_inv_def locker_lock_def locker_unlock_def split: if_splits)

lemma pq_spurious_inv: "pq_inv s \<Longrightarrow> pq_main s = P_sleep \<Longrightarrow> pq_inv (s\<lparr>pq_main := P_relock\<rparr>)"
  by (cases "pq_thread s"; clarsimp simp: pq_inv_def)

lemma pq_arrival_inv: "pq_inv s \<Longrightarrow> pq_inv (s\<lparr>pq_pending := A\<rparr>)"
  by (cases "pq_main s"; cases "pq_thread s"; clarsimp simp: pq_inv_def)

interpretation pq: transition_system "\<lambda>s. s = pq_init" pq_step pq_inv
proof (unfold_locales, goal_cases)
  case (2 s s')
  then show ?case by cases (simp_all add: pq_main_inv pq_thread_inv pq_spurious_inv pq_arrival_inv)
qed (simp add: pq_inv_def pq_init_def)

text \<open>The main thread alone, from a state in which the signal thread has returned.\<close>

definition pq_main_step :: "pq_state \<Rightarrow> pq_state \<Rightarrow> bool" where
  "pq_main_step s s' \<longleftrightarrow> pq_main_act s = Some s'"

primrec pq_main_left :: "pq_main \<Rightarrow> nat" where
  "pq_main_left P_lock = 4"
| "pq_main_left P_test = 3"
| "pq_main_left P_wait = 6"
| "pq_main_left P_sleep = 5"
| "pq_main_left P_relock = 4"
| "pq_main_left P_unlock = 2"
| "pq_main_left P_reset = 1"
| "pq_main_left P_end = 0"

lemma pq_main_goes_on:
  assumes "pq_inv s" "pq_thread s = Q_end" "pq_main s \<noteq> P_end"
  shows "\<exists>s'. pq_main_step s s' \<and> pq_inv s' \<and> pq_thread s' = Q_end \<and> pq_main_left (pq_main s') < pq_main_left (pq_main s)"
proof -
  have "\<exists>s'. pq_main_act s = Some s' \<and> pq_thread s' = Q_end \<and> pq_main_left (pq_main s') < pq_main_left (pq_main s)"
    using assms by (cases "pq_main s"; clarsimp simp: pq_main_act_def pq_inv_def locker_lock_def)
  then show ?thesis using pq_main_inv [OF _ assms(1)] by (auto simp: pq_main_step_def)
qed

text \<open>C37: No wake-up is lost: in every interleaving of the two threads, signals and spurious wake-ups, once the
  thread that handles SIGQUIT has returned, the main thread by itself runs to its end.\<close>
theorem quit_signal_ends_main:
  assumes "pq_step\<^sup>*\<^sup>* pq_init s" "pq_thread s = Q_end"
  shows "\<exists>s'. pq_main_step\<^sup>*\<^sup>* s s' \<and> pq_main s' = P_end"
proof -
  have "pq_inv s" using pq.reachable_inv [OF refl assms(1)] .
  then show ?thesis using assms(2)
  proof (induction "pq_main_left (pq_main s)" arbitrary: s rule: less_induct)
    case less
    show ?case
    proof (cases "pq_main s = P_end")
      case False
      then obtain s1 where s1: "pq_main_step s s1" "pq_inv s1" "pq_thread s1 = Q_end" "pq_main_left (pq_main s1) < pq_main_left (pq_main s)"
        using pq_main_goes_on [OF less.prems] by blast
      then show ?thesis using less.hyps [OF s1(4,2,3)] by (blast intro: converse_rtranclp_into_rtranclp)
    qed blast
  qed
qed

definition pq_demo :: pq_state where
  "pq_demo = pq_init\<lparr>pq_quitflag := True, pq_thread := Q_end\<rparr>"

theorem quit_signal_ends_main_witness: "pq_step\<^sup>*\<^sup>* pq_init pq_demo \<and> (\<exists>s'. pq_main_step\<^sup>*\<^sup>* pq_demo s' \<and> pq_main s' = P_end)"
proof -
  define s1 where "s1 = pq_init\<lparr>pq_pending := {SIGQUIT}\<rparr>"
  define f where "f = (\<lambda>(_ :: unit) s. pq_thread_act SIGQUIT s)"
  have run: "run_events f us s = Some s' \<Longrightarrow> pq_step\<^sup>*\<^sup>* s s'" for us s s'
    by (induction us arbitrary: s) (auto simp: bind_eq_Some_conv f_def intro: pq_step.thread converse_rtranclp_into_rtranclp)
  have "run_events f [(), (), (), (), ()] s1 = Some pq_demo"
    by (simp add: f_def s1_def pq_thread_act_def pq_init_def pq_demo_def locker_lock_def locker_unlock_def)
  then have "pq_step\<^sup>*\<^sup>* s1 pq_demo" by (rule run)
  moreover have "pq_step pq_init s1" using pq_step.arrival [of pq_init SIGQUIT] by (simp add: s1_def pq_init_def)
  ultimately have r: "pq_step\<^sup>*\<^sup>* pq_init pq_demo" by (rule converse_rtranclp_into_rtranclp [rotated])
  from quit_signal_ends_main [OF r] r show ?thesis by (simp add: pq_demo_def)
qed

section \<open>The semaphore programs\<close>

text \<open>Parent and child (or two threads) each take the semaphore, print, sleep, and give it back. \<open>sp_undo\<close>
  is whether the operations carry \<open>SEM_UNDO\<close>: the kernel then keeps an adjustment per process and applies it
  when the process ends. The parent waits for the child and removes the semaphore.\<close>

datatype sp_pc = S_p | S_print | S_v | S_exit | S_dead

record sp_state =
  sp_undo :: bool
  sp_value :: nat
  sp_adj :: "nat list"
  sp_pcs :: "sp_pc list"
  sp_removed :: bool

text \<open>\<open>semget\<close> with \<open>IPC_PRIVATE\<close> and \<open>SETVAL\<close> (\<open>sem.c\<close>, \<open>test_sem.c\<close>) or \<open>sem_init\<close> (\<open>test_sem3.c\<close>) give a new semaphore
  with the value 1; \<open>sem_open\<close> with \<open>O_CREAT\<close> (\<open>test_sem2.c\<close>) uses one of that name that already exists, with the value it has.\<close>

definition sp_init :: "bool \<Rightarrow> nat \<Rightarrow> sp_state" where
  "sp_init undo v = \<lparr>sp_undo = undo, sp_value = v, sp_adj = [0, 0], sp_pcs = [S_p, S_p], sp_removed = False\<rparr>"

definition private_sem :: sp_state where
  "private_sem = sp_init True 1"

definition named_sem :: "nat option \<Rightarrow> sp_state" where
  "named_sem existing = sp_init False (case existing of None \<Rightarrow> 1 | Some v \<Rightarrow> v)"

definition unnamed_sem :: sp_state where
  "unnamed_sem = sp_init False 1"

text \<open>\<open>pv(sem_id, -1)\<close> or \<open>sem_wait\<close>, and \<open>pv(sem_id, 1)\<close> or \<open>sem_post\<close>, by process \<open>k\<close>.\<close>

definition pv_down :: "nat \<Rightarrow> sp_state \<Rightarrow> sp_state option" where
  "pv_down k s = map_option (\<lambda>v. s\<lparr>sp_value := v, sp_adj := if sp_undo s then (sp_adj s)[k := Suc (sp_adj s ! k)] else sp_adj s\<rparr>)
     (sem_wait (sp_value s))"

definition pv_up :: "nat \<Rightarrow> sp_state \<Rightarrow> sp_state" where
  "pv_up k s = s\<lparr>sp_value := sem_post (sp_value s), sp_adj := if sp_undo s then (sp_adj s)[k := sp_adj s ! k - 1] else sp_adj s\<rparr>"

text \<open>The end of a process: the kernel applies its adjustment.\<close>

definition sp_exit :: "nat \<Rightarrow> sp_pc \<Rightarrow> sp_state \<Rightarrow> sp_state" where
  "sp_exit k p s = s\<lparr>sp_value := sp_value s + sp_adj s ! k, sp_adj := (sp_adj s)[k := 0], sp_pcs := (sp_pcs s)[k := p]\<rparr>"

abbreviation sp_goto :: "nat \<Rightarrow> sp_pc \<Rightarrow> sp_state \<Rightarrow> sp_state" where
  "sp_goto k p s \<equiv> s\<lparr>sp_pcs := (sp_pcs s)[k := p]\<rparr>"

text \<open>Process 0 is the parent, 1 the child. The child exits at \<open>S_exit\<close>; the parent waits there until the child
  has ended.\<close>

definition sp_act :: "nat \<Rightarrow> sp_state \<Rightarrow> sp_state option" where
  "sp_act k s = (if 1 < k then None else case sp_pcs s ! k of
       S_p \<Rightarrow> map_option (sp_goto k S_print) (pv_down k s)
     | S_print \<Rightarrow> Some (sp_goto k S_v s)
     | S_v \<Rightarrow> Some (sp_goto k S_exit (pv_up k s))
     | S_exit \<Rightarrow> if k = 1 then Some (sp_exit k S_dead s)
         else if sp_pcs s ! 1 = S_dead then Some (sp_exit k S_dead (s\<lparr>sp_removed := True\<rparr>)) else None
     | S_dead \<Rightarrow> None)"

text \<open>A process may also be killed.\<close>

inductive sp_step :: "sp_state \<Rightarrow> sp_state \<Rightarrow> bool" where
  act: "sp_act k s = Some s' \<Longrightarrow> sp_step s s'"
| killed: "k \<le> 1 \<Longrightarrow> sp_pcs s ! k \<noteq> S_dead \<Longrightarrow> sp_step s (sp_exit k S_dead s)"

definition sp_critical :: "sp_pc \<Rightarrow> bool" where
  "sp_critical p \<longleftrightarrow> p \<in> {S_print, S_v}"

definition sp_holders :: "sp_state \<Rightarrow> nat" where
  "sp_holders s = length (filter sp_critical (sp_pcs s))"

definition sp_inv :: "bool \<Rightarrow> sp_state \<Rightarrow> bool" where
  "sp_inv undo s \<longleftrightarrow> sp_undo s = undo \<and> length (sp_pcs s) = 2 \<and> length (sp_adj s) = 2 \<and>
     (if undo then sp_value s + sp_holders s = 1 else sp_value s + sp_holders s \<le> 1) \<and>
     (\<forall>k<2. sp_adj s ! k = (if undo \<and> sp_critical (sp_pcs s ! k) then 1 else 0))"

lemma sp_two: "length xs = 2 \<Longrightarrow> \<exists>a b. xs = [a, b]"
  by (auto simp: length_Suc_conv numeral_2_eq_2)

lemma less_two: "(k :: nat) \<le> 1 \<Longrightarrow> k = 0 \<or> k = 1"
  by auto

text \<open>A step of process \<open>k\<close> to \<open>p\<close> that moves the semaphore's unit along with the process.\<close>

lemma sp_move_inv:
  assumes "sp_inv undo s" "k \<le> 1"
    and "v + (if sp_critical p then 1 else 0) = sp_value s + (if sp_critical (sp_pcs s ! k) then 1 else 0)
      \<or> \<not> undo \<and> v = sp_value s \<and> \<not> sp_critical p"
    and "a = (if undo \<and> sp_critical p then 1 else 0)"
  shows "sp_inv undo (s\<lparr>sp_value := v, sp_adj := (sp_adj s)[k := a], sp_pcs := (sp_pcs s)[k := p], sp_removed := r\<rparr>)"
proof -
  have k: "k < length (sp_pcs s)" "k < length (sp_adj s)" using assms(1,2) by (auto simp: sp_inv_def)
  define n where "n = length (filter sp_critical ((sp_pcs s)[k := p]))"
  have "n + (if sp_critical (sp_pcs s ! k) then 1 else 0) = sp_holders s + (if sp_critical p then 1 else 0)"
    using length_filter_update [OF k(1)] by (simp add: sp_holders_def n_def)
  moreover have "if undo then sp_value s + sp_holders s = 1 else sp_value s + sp_holders s \<le> 1" using assms(1) unfolding sp_inv_def by blast
  ultimately have "if undo then v + n = 1 else v + n \<le> 1" using assms(3) by (auto split: if_splits)
  moreover have "(sp_adj s)[k := a] ! j = (if undo \<and> sp_critical ((sp_pcs s)[k := p] ! j) then 1 else 0)" if "j < 2" for j
    using assms(1,4) that k by (cases "j = k") (auto simp: sp_inv_def)
  ultimately show ?thesis using assms(1) by (cases undo) (simp_all add: sp_inv_def sp_holders_def n_def)
qed

lemma sp_exit_inv:
  assumes "sp_inv undo s" "k \<le> 1"
  shows "sp_inv undo (sp_exit k S_dead s)"
proof -
  have "sp_adj s ! k = (if undo \<and> sp_critical (sp_pcs s ! k) then 1 else 0)" using assms by (simp add: sp_inv_def)
  then show ?thesis
    using sp_move_inv [OF assms, of "sp_value s + sp_adj s ! k" S_dead 0 "sp_removed s"]
    by (cases undo) (simp_all add: sp_exit_def sp_critical_def)
qed

lemma sp_act_inv:
  assumes "sp_act k s = Some s'" "sp_inv undo s"
  shows "sp_inv undo s'"
proof -
  have k: "k \<le> 1" using assms(1) by (auto simp: sp_act_def split: if_splits)
  have adj: "sp_adj s ! k = (if undo \<and> sp_critical (sp_pcs s ! k) then 1 else 0)" "sp_undo s = undo"
    using assms(2) k by (simp_all add: sp_inv_def)
  note move = sp_move_inv [OF assms(2) k]
  show ?thesis
  proof (cases "sp_pcs s ! k")
    case S_p
    then have "0 < sp_value s"
        "s' = s\<lparr>sp_value := sp_value s - 1, sp_adj := (sp_adj s)[k := if undo then 1 else 0], sp_pcs := (sp_pcs s)[k := S_print], sp_removed := sp_removed s\<rparr>"
      using assms(1) k adj list_update_id [of "sp_adj s" k] by (auto simp: sp_act_def pv_down_def sem_wait_def sp_critical_def split: if_splits)
    then show ?thesis using move [of "sp_value s - 1" S_print "if undo then 1 else 0" "sp_removed s"] S_p by (simp add: sp_critical_def)
  next
    case S_print
    then have "s' = s\<lparr>sp_value := sp_value s, sp_adj := (sp_adj s)[k := if undo then 1 else 0], sp_pcs := (sp_pcs s)[k := S_v], sp_removed := sp_removed s\<rparr>"
      using assms(1) k adj list_update_id [of "sp_adj s" k] by (auto simp: sp_act_def sp_critical_def)
    then show ?thesis using move [of "sp_value s" S_v "if undo then 1 else 0" "sp_removed s"] S_print by (simp add: sp_critical_def)
  next
    case S_v
    then have "s' = s\<lparr>sp_value := sp_value s + 1, sp_adj := (sp_adj s)[k := 0], sp_pcs := (sp_pcs s)[k := S_exit], sp_removed := sp_removed s\<rparr>"
      using assms(1) k adj list_update_id [of "sp_adj s" k] by (auto simp: sp_act_def pv_up_def sem_post_def sp_critical_def split: if_splits)
    then show ?thesis using move [of "sp_value s + 1" S_exit 0 "sp_removed s"] S_v by (simp add: sp_critical_def)
  next
    case S_exit
    then have "s' = sp_exit k S_dead s \<or> s' = sp_exit k S_dead (s\<lparr>sp_removed := True\<rparr>)"
      using assms(1) by (auto simp: sp_act_def split: if_splits)
    moreover have "sp_inv undo (s\<lparr>sp_removed := True\<rparr>)" using assms(2) by (cases undo) (simp_all add: sp_inv_def sp_holders_def)
    ultimately show ?thesis using sp_exit_inv assms(2) k by blast
  qed (use assms(1) k in \<open>simp add: sp_act_def\<close>)
qed

interpretation sp: transition_system "\<lambda>s. s = sp_init undo v \<and> (undo \<longrightarrow> v = 1) \<and> v \<le> 1" sp_step "sp_inv undo" for undo v
proof (unfold_locales, goal_cases)
  case (2 s s')
  then show ?case by cases (simp_all add: sp_act_inv sp_exit_inv)
qed (auto simp: sp_inv_def sp_init_def sp_holders_def sp_critical_def less_Suc_eq numeral_2_eq_2)

text \<open>Mutual exclusion, with and without \<open>SEM_UNDO\<close>, in every interleaving and also when processes are killed.\<close>
theorem semaphores_exclude:
  assumes "sp_step\<^sup>*\<^sup>* (sp_init undo v) s" "v \<le> 1" "undo \<longrightarrow> v = 1"
  shows "\<not> (sp_critical (sp_pcs s ! 0) \<and> sp_critical (sp_pcs s ! 1))"
proof -
  have inv: "sp_inv undo s" using sp.reachable_inv [of "sp_init undo v" undo v s] assms by simp
  then obtain a b where ab: "sp_pcs s = [a, b]" using sp_two by (metis sp_inv_def)
  then have "sp_holders s \<le> 1" using inv by (auto simp: sp_inv_def split: if_splits)
  then show ?thesis using ab by (auto simp: sp_holders_def)
qed

text \<open>With \<open>SEM_UNDO\<close> nobody is blocked for ever: as long as one of the two processes lives, one of them can go on,
  even after the other was killed with the semaphore in its hands.\<close>
theorem sem_undo_never_blocks:
  assumes "sp_step\<^sup>*\<^sup>* private_sem s" "sp_pcs s \<noteq> [S_dead, S_dead]"
  shows "\<exists>k s'. sp_act k s = Some s'"
proof -
  have inv: "sp_inv True s" using sp.reachable_inv [of "sp_init True 1" True 1 s] assms(1) by (simp add: private_sem_def)
  then obtain a b where ab: "sp_pcs s = [a, b]" using sp_two by (metis sp_inv_def)
  have "sp_act 0 s \<noteq> None \<or> sp_act 1 s \<noteq> None"
    using inv ab assms(2) by (cases a; cases b) (simp_all add: sp_inv_def sp_act_def sp_holders_def sp_critical_def pv_down_def sem_wait_def)
  then show ?thesis by blast
qed

lemma sp_run: "run_events (\<lambda>k. sp_act k) ks s1 = Some s2 \<Longrightarrow> sp_step\<^sup>*\<^sup>* s1 s2"
  by (induction ks arbitrary: s1) (auto simp: bind_eq_Some_conv intro: sp_step.act converse_rtranclp_into_rtranclp)

definition sp_demo :: sp_state where
  "sp_demo = \<lparr>sp_undo = True, sp_value = 1, sp_adj = [0, 0], sp_pcs = [S_p, S_dead], sp_removed = False\<rparr>"

lemma sp_demo_reached: "sp_step\<^sup>*\<^sup>* private_sem sp_demo"
proof -
  define s1 where "s1 = \<lparr>sp_undo = True, sp_value = 0, sp_adj = [0, 1], sp_pcs = [S_p, S_print], sp_removed = False\<rparr>"
  have "run_events (\<lambda>k. sp_act k) [1] private_sem = Some s1"
    by (simp add: private_sem_def sp_init_def sp_act_def pv_down_def sem_wait_def s1_def)
  then have "sp_step\<^sup>*\<^sup>* private_sem s1" by (rule sp_run)
  moreover have "sp_step s1 sp_demo" using sp_step.killed [of 1 s1] by (simp add: s1_def sp_exit_def sp_demo_def)
  ultimately show ?thesis by (rule rtranclp.rtrancl_into_rtrancl)
qed

theorem semaphores_exclude_witness: "\<not> (sp_critical (sp_pcs sp_demo ! 0) \<and> sp_critical (sp_pcs sp_demo ! 1))"
  by (rule semaphores_exclude [of True 1]) (use sp_demo_reached in \<open>simp_all add: private_sem_def\<close>)

theorem sem_undo_never_blocks_witness: "sp_step\<^sup>*\<^sup>* private_sem sp_demo \<and> (\<exists>k s'. sp_act k sp_demo = Some s')"
  using sem_undo_never_blocks [OF sp_demo_reached] sp_demo_reached by (simp add: sp_demo_def)

text \<open>Without it, a child that is killed between \<open>sem_wait\<close> and \<open>sem_post\<close> leaves the parent blocked for ever; and the
  named semaphore, which nobody removes then, blocks both processes of the next run from the start.\<close>
theorem named_sem_blocks:
  "(\<exists>s. sp_step\<^sup>*\<^sup>* (named_sem None) s \<and> sp_pcs s = [S_p, S_dead] \<and> (\<forall>k. sp_act k s = None) \<and> \<not> sp_removed s \<and>
     (\<forall>k. sp_act k (named_sem (Some (sp_value s))) = None))"
proof -
  define s1 where "s1 = \<lparr>sp_undo = False, sp_value = 0, sp_adj = [0, 0], sp_pcs = [S_p, S_print], sp_removed = False\<rparr>"
  define s2 where "s2 = \<lparr>sp_undo = False, sp_value = 0, sp_adj = [0, 0], sp_pcs = [S_p, S_dead], sp_removed = False\<rparr>"
  have "run_events (\<lambda>k. sp_act k) [1] (named_sem None) = Some s1"
    by (simp add: named_sem_def sp_init_def sp_act_def pv_down_def sem_wait_def s1_def)
  then have "sp_step\<^sup>*\<^sup>* (named_sem None) s1" by (rule sp_run)
  moreover have "sp_step s1 s2" using sp_step.killed [of 1 s1] by (simp add: s1_def sp_exit_def s2_def)
  ultimately have "sp_step\<^sup>*\<^sup>* (named_sem None) s2" by (rule rtranclp.rtrancl_into_rtrancl)
  moreover have "sp_act k s2 = None \<and> sp_act k (named_sem (Some 0)) = None" for k
    using less_two [of k] by (cases "k \<le> 1") (auto simp: sp_act_def s2_def named_sem_def sp_init_def pv_down_def sem_wait_def)
  ultimately show ?thesis by (intro exI [of _ s2]) (simp add: s2_def)
qed

section \<open>A fork with a mutex in the hands of another thread\<close>

text \<open>The process of \<open>fork_thread.c\<close>: the mutex and how far the second thread is (before, inside, after its
  section). The sleeps only make one order likely, so that the fork may find each of the three.\<close>

datatype ft_pc = F_before | F_inside | F_after

record ft_state =
  ft_mutex :: "nat option"
  ft_another :: ft_pc

definition ft_init :: ft_state where
  "ft_init = \<lparr>ft_mutex = None, ft_another = F_before\<rparr>"

definition ft_another_act :: "ft_state \<Rightarrow> ft_state option" where
  "ft_another_act s = (case ft_another s of
       F_before \<Rightarrow> map_option (\<lambda>m. s\<lparr>ft_mutex := m, ft_another := F_inside\<rparr>) (locker_lock 1 (ft_mutex s))
     | F_inside \<Rightarrow> Some (s\<lparr>ft_mutex := locker_unlock (ft_mutex s), ft_another := F_after\<rparr>)
     | F_after \<Rightarrow> None)"

text \<open>The child is a copy of the memory, mutex included, with the forking thread only; its first action is to
  take the mutex. \<open>None\<close>: it blocks, and no other thread exists that could wake it.\<close>

definition ft_child :: "ft_state \<Rightarrow> nat option option" where
  "ft_child s = locker_lock 0 (ft_mutex s)"

text \<open>The child deadlocks exactly if the other thread of the parent is inside of its section at the fork,
  even though that thread will release the parent's mutex.\<close>
theorem fork_copies_locked_mutex:
  assumes "(\<lambda>s s'. ft_another_act s = Some s')\<^sup>*\<^sup>* ft_init s"
  shows "ft_child s = None \<longleftrightarrow> ft_another s = F_inside"
proof -
  have "ft_mutex s = (if ft_another s = F_inside then Some 1 else None)"
    using assms
  proof (induction rule: rtranclp_induct)
    case (step s s')
    then show ?case by (cases "ft_another s") (auto simp: ft_another_act_def locker_lock_def locker_unlock_def)
  qed (simp add: ft_init_def)
  then show ?thesis by (simp add: ft_child_def locker_lock_def)
qed

theorem fork_copies_locked_mutex_witness: "ft_child \<lparr>ft_mutex = Some 1, ft_another = F_inside\<rparr> = None"
proof -
  have "ft_another_act ft_init = Some \<lparr>ft_mutex = Some 1, ft_another = F_inside\<rparr>"
    by (simp add: ft_another_act_def ft_init_def locker_lock_def)
  then show ?thesis using fork_copies_locked_mutex [of "\<lparr>ft_mutex = Some 1, ft_another = F_inside\<rparr>"] by (simp add: r_into_rtranclp)
qed

end
