(* ===== verification/Barrier_Sort.thy ===== *)
theory Barrier_Sort
  imports Event_Loop
begin

text \<open>
  The parallel sort of \<open>apue/pthread_barrier.c\<close>: eight threads sort one part of the array each, a barrier
  holds the main thread back until all parts are sorted, and \<open>merge\<close> merges them. The number of threads
  and the length of a part are arguments of the definitions (the program has 8 and 1000000). Elements
  are the values of \<open>long\<close> variables as integers; indices are natural numbers. \<open>None\<close> is the read of an
  uninitialised variable or outside of an array.
\<close>

definition NTHR :: nat where "NTHR = 8"

definition NUMNUM :: nat where "NUMNUM = 8000000"

definition TNUM :: nat where "TNUM = NUMNUM div NTHR"

definition LONG_MAX :: int where "LONG_MAX = 2 ^ 63 - 1"

definition RAND_MAX :: int where "RAND_MAX = 2 ^ 31 - 1"

section \<open>Sorting one part\<close>

definition complong :: "int \<Rightarrow> int \<Rightarrow> int" where
  "complong l1 l2 = (if l1 = l2 then 0 else if l1 < l2 then - 1 else 1)"

text \<open>\<open>qsort\<close> of the C library orders an array by a comparison function; an insertion sort stands for it.
  Any other algorithm gives the same array here, because \<open>complong\<close> only calls equal numbers equal
  (\<open>qsort_unique\<close>).\<close>

fun insert_by :: "('a \<Rightarrow> 'a \<Rightarrow> int) \<Rightarrow> 'a \<Rightarrow> 'a list \<Rightarrow> 'a list" where
  "insert_by cmp x [] = [x]"
| "insert_by cmp x (y # ys) = (if cmp x y \<le> 0 then x # y # ys else y # insert_by cmp x ys)"

definition qsort :: "('a \<Rightarrow> 'a \<Rightarrow> int) \<Rightarrow> 'a list \<Rightarrow> 'a list" where
  "qsort cmp xs = foldr (insert_by cmp) xs []"

text \<open>\<open>qsort(&nums[idx], n, sizeof(long), complong)\<close>.\<close>
definition sort_part :: "nat \<Rightarrow> nat \<Rightarrow> int list \<Rightarrow> int list" where
  "sort_part n idx nums = take idx nums @ qsort complong (take n (drop idx nums)) @ drop (idx + n) nums"

section \<open>The merge\<close>

definition part_starts :: "nat \<Rightarrow> nat \<Rightarrow> nat list" where
  "part_starts nthr tnum = map (\<lambda>i. i * tnum) [0..<nthr]"

text \<open>The inner loop from thread \<open>i\<close> on: \<open>minidx\<close> keeps the value it had when no candidate is found.\<close>

fun scan_parts :: "int list \<Rightarrow> nat \<Rightarrow> nat \<Rightarrow> nat list \<Rightarrow> int \<Rightarrow> nat option \<Rightarrow> nat option" where
  "scan_parts nums tnum i [] num minidx = minidx"
| "scan_parts nums tnum i (k # ks) num minidx =
     (if k < (i + 1) * tnum \<and> nums ! k < num
      then scan_parts nums tnum (Suc i) ks (nums ! k) (Some i)
      else scan_parts nums tnum (Suc i) ks num minidx)"

record merge_state =
  mg_idx :: "nat list"
  mg_minidx :: "nat option"
  mg_snums :: "int list"

text \<open>One turn of the outer loop.\<close>

definition merge_turn :: "int list \<Rightarrow> nat \<Rightarrow> nat \<Rightarrow> merge_state \<Rightarrow> merge_state option" where
  "merge_turn nums tnum sidx g = do {
     let m = scan_parts nums tnum 0 (mg_idx g) LONG_MAX (mg_minidx g);
     minidx \<leftarrow> m;
     let k = mg_idx g ! minidx;
     if k < length nums \<and> sidx < length (mg_snums g)
     then Some (g\<lparr>mg_minidx := m, mg_snums := (mg_snums g)[sidx := nums ! k], mg_idx := (mg_idx g)[minidx := k + 1]\<rparr>)
     else None }"

fun merge_loop :: "int list \<Rightarrow> nat \<Rightarrow> nat list \<Rightarrow> merge_state \<Rightarrow> merge_state option" where
  "merge_loop nums tnum [] g = Some g"
| "merge_loop nums tnum (sidx # ss) g = Option.bind (merge_turn nums tnum sidx g) (merge_loop nums tnum ss)"

definition merge :: "nat \<Rightarrow> nat \<Rightarrow> int list \<Rightarrow> int list \<Rightarrow> int list option" where
  "merge nthr tnum nums snums =
     map_option mg_snums (merge_loop nums tnum [0..<nthr * tnum]
       \<lparr>mg_idx = part_starts nthr tnum, mg_minidx = None, mg_snums = snums\<rparr>)"

section \<open>The sorted parts\<close>

lemma mset_insert_by [simp]: "mset (insert_by cmp x xs) = add_mset x (mset xs)"
  by (induction xs) auto

lemma mset_qsort [simp]: "mset (qsort cmp xs) = mset xs"
  by (induction xs) (auto simp: qsort_def)

lemma length_qsort [simp]: "length (qsort cmp xs) = length xs"
  using mset_qsort [of cmp xs] mset_eq_length by blast

lemma complong_le [simp]: "complong x y \<le> 0 \<longleftrightarrow> x \<le> y"
  by (auto simp: complong_def)

lemma insert_by_complong: "insert_by complong x xs = insort x xs"
  by (induction xs) auto

lemma qsort_complong: "qsort complong xs = sort xs"
proof -
  have "insert_by complong = insort" by (intro ext) (rule insert_by_complong)
  then show ?thesis by (simp add: qsort_def sort_key_def)
qed

lemma qsort_unique:
  assumes "mset ys = mset xs" "sorted_wrt (\<lambda>x y. complong x y \<le> 0) ys"
  shows "ys = qsort complong xs"
  using assms properties_for_sort [of ys xs] by (simp add: qsort_complong)

definition part_of :: "nat \<Rightarrow> nat \<Rightarrow> int list \<Rightarrow> int list" where
  "part_of tnum i nums = take tnum (drop (i * tnum) nums)"

lemma length_sort_part [simp]: "length (sort_part n idx nums) = length nums"
  by (auto simp: sort_part_def)

lemma mset_sort_part [simp]: "mset (sort_part n idx nums) = mset nums"
proof -
  have "mset (take idx nums) + (mset (take n (drop idx nums)) + mset (drop n (drop idx nums))) = mset nums"
    by (metis append_take_drop_id mset_append)
  then show ?thesis by (simp add: sort_part_def add.commute)
qed

lemma nth_sort_part_outside:
  assumes "k < length nums" "k < idx \<or> idx + n \<le> k"
  shows "sort_part n idx nums ! k = nums ! k"
  using assms by (auto simp: sort_part_def nth_append min_def)

lemma slice_sort_part: "idx + n \<le> length nums \<Longrightarrow> take n (drop idx (sort_part n idx nums)) = sort (take n (drop idx nums))"
  by (simp add: sort_part_def qsort_complong)

lemma part_end_le: "i < nthr \<Longrightarrow> i * tnum + tnum \<le> nthr * (tnum :: nat)"
  using mult_le_mono1 [of "Suc i" nthr tnum] by simp

lemma part_sort_part_same:
  assumes "length nums = nthr * tnum" "i < nthr"
  shows "part_of tnum i (sort_part tnum (i * tnum) nums) = sort (part_of tnum i nums)"
  using assms part_end_le [OF assms(2)] by (simp add: part_of_def slice_sort_part)

lemma part_sort_part_other:
  assumes "length nums = nthr * tnum" "i < nthr" "j < nthr" "i \<noteq> j"
  shows "part_of tnum j (sort_part tnum (i * tnum) nums) = part_of tnum j nums"
proof (rule nth_equalityI)
  fix k assume k: "k < length (part_of tnum j (sort_part tnum (i * tnum) nums))"
  then have k': "k < tnum" "j * tnum + k < length nums" by (auto simp: part_of_def)
  have "j * tnum + k < i * tnum \<or> i * tnum + tnum \<le> j * tnum + k"
  proof (cases "j < i")
    case True
    then have "(j + 1) * tnum \<le> i * tnum" by (intro mult_le_mono1) auto
    then show ?thesis using k' by simp
  next
    case False
    then have "(i + 1) * tnum \<le> j * tnum" using assms(4) by (intro mult_le_mono1) auto
    then show ?thesis by simp
  qed
  then show "part_of tnum j (sort_part tnum (i * tnum) nums) ! k = part_of tnum j nums ! k"
    using k' by (simp add: part_of_def nth_sort_part_outside)
qed (simp add: part_of_def)

section \<open>Correctness of the merge\<close>

lemma scan_parts_min:
  "(\<exists>m<length ks. scan_parts nums tnum i ks num minidx = Some (i + m) \<and> ks ! m < (i + m + 1) * tnum \<and> nums ! (ks ! m) < num \<and>
      (\<forall>j<length ks. ks ! j < (i + j + 1) * tnum \<longrightarrow> nums ! (ks ! m) \<le> nums ! (ks ! j)))
   \<or> scan_parts nums tnum i ks num minidx = minidx \<and> (\<forall>j<length ks. ks ! j < (i + j + 1) * tnum \<longrightarrow> num \<le> nums ! (ks ! j))"
proof (induction ks arbitrary: i num minidx)
  case (Cons k ks)
  show ?case
  proof (cases "k < (i + 1) * tnum \<and> nums ! k < num")
    case True
    with Cons.IH [of "Suc i" "nums ! k" "Some i"] show ?thesis
    proof (elim disjE exE conjE, goal_cases)
      case (1 m)
      then show ?case using True by (intro disjI1 exI [of _ "Suc m"]) (auto simp: All_less_Suc2)
    next
      case 2
      then show ?case using True by (intro disjI1 exI [of _ 0]) (auto simp: All_less_Suc2)
    qed
  next
    case False
    with Cons.IH [of "Suc i" num minidx] show ?thesis
    proof (elim disjE exE conjE, goal_cases)
      case (1 m)
      then show ?case by (intro disjI1 exI [of _ "Suc m"]) (auto simp: All_less_Suc2)
    next
      case 2
      then show ?case by (intro disjI2) (auto simp: All_less_Suc2)
    qed
  qed
qed simp

text \<open>What is left of part \<open>i\<close>.\<close>
definition rest :: "nat \<Rightarrow> int list \<Rightarrow> nat list \<Rightarrow> nat \<Rightarrow> int list" where
  "rest tnum nums idx i = take ((i + 1) * tnum - idx ! i) (drop (idx ! i) nums)"

definition merge_inv :: "nat \<Rightarrow> nat \<Rightarrow> int list \<Rightarrow> nat \<Rightarrow> merge_state \<Rightarrow> bool" where
  "merge_inv nthr tnum nums sidx g \<longleftrightarrow>
     length (mg_idx g) = nthr \<and> length (mg_snums g) = nthr * tnum \<and> sorted (take sidx (mg_snums g)) \<and>
     mset (take sidx (mg_snums g)) + (\<Sum>i<nthr. mset (rest tnum nums (mg_idx g) i)) = mset nums \<and>
     (\<forall>i<nthr. sorted (rest tnum nums (mg_idx g) i) \<and>
        (\<forall>x\<in>set (take sidx (mg_snums g)). \<forall>y\<in>set (rest tnum nums (mg_idx g) i). x \<le> y))"

lemma rest_Cons:
  assumes "idx ! i < (i + 1) * tnum" "(i + 1) * tnum \<le> length nums" "i < length idx"
  shows "rest tnum nums idx i = nums ! (idx ! i) # rest tnum nums (idx[i := idx ! i + 1]) i"
proof -
  have "drop (idx ! i) nums = nums ! (idx ! i) # drop (Suc (idx ! i)) nums" using assms by (simp add: Cons_nth_drop_Suc)
  moreover have "(i + 1) * tnum - idx ! i = Suc ((i + 1) * tnum - Suc (idx ! i))" using assms(1) by simp
  ultimately show ?thesis using assms(3) by (simp add: rest_def)
qed

lemma rest_other: "i \<noteq> j \<Longrightarrow> rest tnum nums (idx[i := k]) j = rest tnum nums idx j"
  by (simp add: rest_def)

lemma rest_ends: "rest tnum nums idx i \<noteq> [] \<Longrightarrow> idx ! i < (i + 1) * tnum"
  by (auto simp: rest_def)

lemma merge_inv_candidate:
  assumes "merge_inv nthr tnum nums sidx g" "sidx < length nums" "length nums = nthr * tnum"
  shows "\<exists>i<nthr. rest tnum nums (mg_idx g) i \<noteq> []"
proof (rule ccontr)
  assume "\<not> ?thesis"
  then have "(\<Sum>i<nthr. mset (rest tnum nums (mg_idx g) i)) = {#}" by simp
  then have "mset (take sidx (mg_snums g)) = mset nums" using assms(1) by (simp add: merge_inv_def)
  then have "length (take sidx (mg_snums g)) = length nums" using mset_eq_length by blast
  then show False using assms by (simp add: merge_inv_def)
qed

text \<open>The turn finds the smallest of the elements that are left and takes it.\<close>

lemma merge_turn_min:
  assumes inv: "merge_inv nthr tnum nums sidx g" and len: "length nums = nthr * tnum" "sidx < length nums"
    and small: "\<forall>y\<in>set nums. y < LONG_MAX"
  shows "\<exists>m x. m < nthr \<and> rest tnum nums (mg_idx g) m = x # rest tnum nums ((mg_idx g)[m := mg_idx g ! m + 1]) m \<and>
    (\<forall>i<nthr. \<forall>y\<in>set (rest tnum nums (mg_idx g) i). x \<le> y) \<and>
    merge_turn nums tnum sidx g =
      Some (g\<lparr>mg_minidx := Some m, mg_snums := (mg_snums g)[sidx := x], mg_idx := (mg_idx g)[m := mg_idx g ! m + 1]\<rparr>)"
proof -
  let ?idx = "mg_idx g"
  have len_idx: "length ?idx = nthr" and srt: "\<And>i. i < nthr \<Longrightarrow> sorted (rest tnum nums ?idx i)"
    using inv by (auto simp: merge_inv_def)
  have bound: "(i + 1) * tnum \<le> length nums" if "i < nthr" for i using part_end_le [OF that, of tnum] len(1) by simp
  obtain i0 where i0: "i0 < nthr" "?idx ! i0 < (i0 + 1) * tnum"
    using merge_inv_candidate [OF inv len(2,1)] rest_ends by blast
  then have "nums ! (?idx ! i0) < LONG_MAX" using small bound [OF i0(1)] by (intro small [rule_format] nth_mem) linarith
  then obtain m where m: "m < nthr" "?idx ! m < (m + 1) * tnum"
      "scan_parts nums tnum 0 ?idx LONG_MAX (mg_minidx g) = Some m"
      "\<forall>j<nthr. ?idx ! j < (j + 1) * tnum \<longrightarrow> nums ! (?idx ! m) \<le> nums ! (?idx ! j)"
    using scan_parts_min [of ?idx nums tnum 0 LONG_MAX "mg_minidx g"] i0 len_idx by (auto simp: not_le)
  have least: "nums ! (?idx ! m) \<le> y" if i: "i < nthr" and y: "y \<in> set (rest tnum nums ?idx i)" for i y
  proof -
    have "rest tnum nums ?idx i \<noteq> []" using y by force
    then have c: "?idx ! i < (i + 1) * tnum" by (rule rest_ends)
    have "rest tnum nums ?idx i = nums ! (?idx ! i) # rest tnum nums (?idx[i := ?idx ! i + 1]) i"
      using rest_Cons [OF c bound [OF i]] i len_idx by simp
    then have "nums ! (?idx ! i) \<le> y" using y srt [OF i] by auto
    then show ?thesis using m(4) i c by force
  qed
  have "?idx ! m < length nums" using m(2) bound [OF m(1)] by linarith
  then have "merge_turn nums tnum sidx g =
      Some (g\<lparr>mg_minidx := Some m, mg_snums := (mg_snums g)[sidx := nums ! (?idx ! m)], mg_idx := ?idx[m := ?idx ! m + 1]\<rparr>)"
    using m(3) len inv by (simp add: merge_turn_def merge_inv_def Let_def)
  then show ?thesis
    using m(1) least rest_Cons [OF m(2) bound [OF m(1)]] len_idx by (intro exI [of _ m] exI [of _ "nums ! (?idx ! m)"]) auto
qed

lemma merge_turn_inv:
  assumes inv: "merge_inv nthr tnum nums sidx g" and len: "length nums = nthr * tnum" "sidx < length nums"
    and small: "\<forall>y\<in>set nums. y < LONG_MAX"
  shows "\<exists>g'. merge_turn nums tnum sidx g = Some g' \<and> merge_inv nthr tnum nums (Suc sidx) g'"
proof -
  let ?R = "rest tnum nums (mg_idx g)"
  obtain m x where m: "m < nthr" "?R m = x # rest tnum nums ((mg_idx g)[m := mg_idx g ! m + 1]) m"
      "\<forall>i<nthr. \<forall>y\<in>set (?R i). x \<le> y"
      "merge_turn nums tnum sidx g =
        Some (g\<lparr>mg_minidx := Some m, mg_snums := (mg_snums g)[sidx := x], mg_idx := (mg_idx g)[m := mg_idx g ! m + 1]\<rparr>)"
    using merge_turn_min [OF assms] by blast
  define idx where "idx = (mg_idx g)[m := mg_idx g ! m + 1]"
  have out: "take (Suc sidx) ((mg_snums g)[sidx := x]) = take sidx (mg_snums g) @ [x]"
    using len inv by (simp add: take_Suc_conv_app_nth merge_inv_def)
  have others: "rest tnum nums idx i = ?R i" if "i \<noteq> m" for i using that by (simp add: idx_def rest_other)
  have sub: "set (rest tnum nums idx i) \<subseteq> set (?R i)" for i
    using m(2) others [of i] by (cases "i = m") (auto simp: idx_def)
  have srt: "sorted (rest tnum nums idx i)" if "i < nthr" for i
    using inv that m(2) others [of i] by (cases "i = m") (auto simp: merge_inv_def idx_def)
  have "(\<Sum>i<nthr. mset (?R i)) = mset (?R m) + (\<Sum>i\<in>{..<nthr} - {m}. mset (?R i))"
    using m(1) by (simp add: sum.remove)
  also have "\<dots> = add_mset x (\<Sum>i<nthr. mset (rest tnum nums idx i))"
    using m(1,2) others by (simp add: sum.remove [of "{..<nthr}" m] idx_def)
  finally have sums: "(\<Sum>i<nthr. mset (?R i)) = add_mset x (\<Sum>i<nthr. mset (rest tnum nums idx i))" .
  define g' where "g' = g\<lparr>mg_minidx := Some m, mg_snums := (mg_snums g)[sidx := x], mg_idx := idx\<rparr>"
  have g': "mg_idx g' = idx" "mg_snums g' = (mg_snums g)[sidx := x]" by (simp_all add: g'_def)
  have below: "y \<le> z" if "i < nthr" "z \<in> set (?R i)" "y = x \<or> y \<in> set (take sidx (mg_snums g))" for i y z
    using inv m(3) that by (auto simp: merge_inv_def)
  have "\<forall>y\<in>set (take sidx (mg_snums g)). y \<le> x" using below [OF m(1), of x] m(2) by simp
  moreover have "length idx = nthr" "length (mg_snums g) = nthr * tnum" "sorted (take sidx (mg_snums g))"
      "mset (take sidx (mg_snums g)) + (\<Sum>i<nthr. mset (?R i)) = mset nums"
    using inv by (auto simp: merge_inv_def idx_def)
  ultimately have "merge_inv nthr tnum nums (Suc sidx) g'"
    unfolding merge_inv_def g' out using srt sub below by (simp add: sorted_append sums) blast
  then show ?thesis using m(4) g'_def idx_def by simp
qed

lemma merge_loop_inv:
  assumes "merge_inv nthr tnum nums sidx g" "length nums = nthr * tnum" "\<forall>y\<in>set nums. y < LONG_MAX" "sidx + n = length nums"
  shows "\<exists>g'. merge_loop nums tnum [sidx..<sidx + n] g = Some g' \<and> merge_inv nthr tnum nums (length nums) g'"
  using assms
proof (induction n arbitrary: sidx g)
  case (Suc n)
  then obtain g1 where "merge_turn nums tnum sidx g = Some g1" "merge_inv nthr tnum nums (Suc sidx) g1"
    using merge_turn_inv [of nthr tnum nums sidx g] by auto
  moreover have "[sidx..<sidx + Suc n] = sidx # [Suc sidx..<Suc sidx + n]" by (simp add: upt_conv_Cons del: upt_Suc)
  ultimately show ?case using Suc.IH [of "Suc sidx" g1] Suc.prems by (simp del: upt_Suc)
qed simp

lemma rest_start: "i < nthr \<Longrightarrow> rest tnum nums (part_starts nthr tnum) i = part_of tnum i nums"
  by (simp add: rest_def part_starts_def part_of_def)

lemma parts_cover: "(\<Sum>i<n. mset (part_of tnum i nums)) = mset (take (n * tnum) nums)"
proof (induction n)
  case (Suc n)
  have "take (Suc n * tnum) nums = take (n * tnum) nums @ part_of tnum n nums"
    using take_add [of "n * tnum" tnum nums] by (simp add: part_of_def add.commute)
  then show ?case using Suc by simp
qed simp

lemma merge_sorts:
  assumes "length nums = nthr * tnum" "length snums = nthr * tnum" "\<forall>i<nthr. sorted (part_of tnum i nums)" "\<forall>y\<in>set nums. y < LONG_MAX"
  shows "merge nthr tnum nums snums = Some (sort nums)"
proof -
  let ?g = "\<lparr>mg_idx = part_starts nthr tnum, mg_minidx = None, mg_snums = snums\<rparr>"
  have "length (part_starts nthr tnum) = nthr" by (simp add: part_starts_def)
  then have "merge_inv nthr tnum nums 0 ?g" using assms parts_cover [of tnum nums nthr] by (simp add: merge_inv_def rest_start)
  then obtain g where g: "merge_loop nums tnum [0..<0 + length nums] ?g = Some g" "merge_inv nthr tnum nums (length nums) g"
    using merge_loop_inv [of nthr tnum nums 0 ?g "length nums"] assms by auto
  then have "length (mg_snums g) = length nums" "sorted (mg_snums g)"
      "mset (mg_snums g) + (\<Sum>i<nthr. mset (rest tnum nums (mg_idx g) i)) = mset nums"
    using assms(1) by (auto simp: merge_inv_def)
  moreover from this have "(\<Sum>i<nthr. mset (rest tnum nums (mg_idx g) i)) = {#}"
    by (metis add_diff_cancel_left' size_Diff_submset size_mset mset_subset_eq_add_left size_eq_0_iff_empty diff_self_eq_0)
  ultimately have "mg_snums g = sort nums" using properties_for_sort [of "mg_snums g" nums] by simp
  then show ?thesis using g(1) assms(1) by (simp add: merge_def)
qed

section \<open>The threads and the barrier\<close>

text \<open>What a thread does next: sort its part, arrive at the barrier, leave it; beside it the local variable \<open>idx\<close>.\<close>
datatype thr_pc = T_sort | T_arrive | T_wait | T_end

datatype main_pc = M_create nat | M_wait | M_merge | M_end

record bs_state =
  bs_nums :: "int list"
  bs_snums :: "int list"
  bs_threads :: "(nat \<times> thr_pc) list"
  bs_main :: main_pc
  bs_arrived :: nat
  bs_open :: bool

text \<open>\<open>main\<close> up to the creation of the threads; \<open>rs\<close> are the results of \<open>random()\<close>, and \<open>snums\<close> is
  zero like every global array.\<close>

definition bs_init :: "int list \<Rightarrow> bs_state" where
  "bs_init rs = \<lparr>bs_nums = rs, bs_snums = replicate (length rs) 0, bs_threads = [], bs_main = M_create 0,
     bs_arrived = 0, bs_open = False\<rparr>"

text \<open>An arrival at a barrier of a given number of parties; the last one lets all of them go on.\<close>

definition barrier_arrive :: "nat \<Rightarrow> bs_state \<Rightarrow> bs_state" where
  "barrier_arrive parties s = (if Suc (bs_arrived s) = parties then s\<lparr>bs_arrived := 0, bs_open := True\<rparr>
     else s\<lparr>bs_arrived := Suc (bs_arrived s)\<rparr>)"

text \<open>One step of \<open>thr_fn\<close> in thread \<open>k\<close>.\<close>

definition thr_act :: "nat \<Rightarrow> nat \<Rightarrow> nat \<Rightarrow> bs_state \<Rightarrow> bs_state option" where
  "thr_act nthr tnum k s = (if k < length (bs_threads s) then
     (case bs_threads s ! k of
        (idx, T_sort) \<Rightarrow> Some (s\<lparr>bs_nums := sort_part tnum idx (bs_nums s), bs_threads := (bs_threads s)[k := (idx, T_arrive)]\<rparr>)
      | (idx, T_arrive) \<Rightarrow> Some (barrier_arrive (nthr + 1) (s\<lparr>bs_threads := (bs_threads s)[k := (idx, T_wait)]\<rparr>))
      | (idx, T_wait) \<Rightarrow> (if bs_open s then Some (s\<lparr>bs_threads := (bs_threads s)[k := (idx, T_end)]\<rparr>) else None)
      | (idx, T_end) \<Rightarrow> None)
     else None)"

text \<open>One step of \<open>main\<close>; \<open>ok\<close> is whether \<open>pthread_create\<close> succeeds, and its failure is only reported.\<close>

definition bs_main_act :: "nat \<Rightarrow> nat \<Rightarrow> bool \<Rightarrow> bs_state \<Rightarrow> bs_state option" where
  "bs_main_act nthr tnum ok s = (case bs_main s of
       M_create i \<Rightarrow>
         if i < nthr then Some (s\<lparr>bs_main := M_create (Suc i),
             bs_threads := bs_threads s @ (if ok then [(i * tnum, T_sort)] else [])\<rparr>)
         else Some (barrier_arrive (nthr + 1) (s\<lparr>bs_main := M_wait\<rparr>))
     | M_wait \<Rightarrow> if bs_open s then Some (s\<lparr>bs_main := M_merge\<rparr>) else None
     | M_merge \<Rightarrow> do {
         snums \<leftarrow> merge nthr tnum (bs_nums s) (bs_snums s);
         Some (s\<lparr>bs_snums := snums, bs_main := M_end\<rparr>) }
     | M_end \<Rightarrow> None)"

inductive bs_step :: "nat \<Rightarrow> nat \<Rightarrow> bs_state \<Rightarrow> bs_state \<Rightarrow> bool" for nthr tnum where
  main: "bs_main_act nthr tnum ok s = Some s' \<Longrightarrow> bs_step nthr tnum s s'"
| thread: "thr_act nthr tnum k s = Some s' \<Longrightarrow> bs_step nthr tnum s s'"

text \<open>The numbers \<open>main\<close> prints, one per line, when the program has ended.\<close>
definition bs_output :: "bs_state \<Rightarrow> int list option" where
  "bs_output s = (if bs_main s = M_end then Some (bs_snums s) else None)"

text \<open>The time \<open>main\<close> reports, in microseconds, from two pairs of seconds and microseconds.\<close>
definition elapsed_usec :: "int \<times> int \<Rightarrow> int \<times> int \<Rightarrow> int" where
  "elapsed_usec start stop = (fst stop * 1000000 + snd stop) - (fst start * 1000000 + snd start)"

section \<open>The invariant of the parallel sort\<close>

definition created :: "nat \<Rightarrow> main_pc \<Rightarrow> nat" where
  "created nthr m = (case m of M_create i \<Rightarrow> i | _ \<Rightarrow> nthr)"

definition waiting :: "bs_state \<Rightarrow> nat" where
  "waiting s = length (filter (\<lambda>t. snd t = T_wait) (bs_threads s)) + (if bs_main s = M_wait then 1 else 0)"

text \<open>The arrays: they keep their lengths and their elements, and a thread past its sort has a sorted part.\<close>

definition arrays_ok :: "nat \<Rightarrow> nat \<Rightarrow> int list \<Rightarrow> bs_state \<Rightarrow> bool" where
  "arrays_ok nthr tnum rs s \<longleftrightarrow>
     length (bs_nums s) = nthr * tnum \<and> mset (bs_nums s) = mset rs \<and> length (bs_snums s) = nthr * tnum \<and>
     (\<forall>t\<in>set (bs_threads s). (\<exists>i<nthr. fst t = i * tnum) \<and> (snd t \<noteq> T_sort \<longrightarrow> sorted (take tnum (drop (fst t) (bs_nums s))))) \<and>
     (bs_main s = M_end \<longrightarrow> bs_snums s = sort rs)"

text \<open>The control state; \<open>d\<close> is 1 inside of an arrival, when the arriving party is counted but the barrier is not.\<close>

definition control_ok :: "nat \<Rightarrow> nat \<Rightarrow> nat \<Rightarrow> bs_state \<Rightarrow> bool" where
  "control_ok nthr tnum d s \<longleftrightarrow>
     created nthr (bs_main s) \<le> nthr \<and> length (bs_threads s) \<le> created nthr (bs_main s) \<and>
     (length (bs_threads s) = created nthr (bs_main s) \<longrightarrow> map fst (bs_threads s) = part_starts (created nthr (bs_main s)) tnum) \<and>
     (if bs_open s then length (bs_threads s) = nthr \<and> (\<forall>t\<in>set (bs_threads s). snd t \<in> {T_wait, T_end}) \<and> bs_main s \<in> {M_wait, M_merge, M_end}
      else bs_main s \<notin> {M_merge, M_end} \<and> (\<forall>t\<in>set (bs_threads s). snd t \<noteq> T_end) \<and> bs_arrived s + d = waiting s \<and> bs_arrived s \<le> nthr)"

definition bs_inv :: "nat \<Rightarrow> nat \<Rightarrow> int list \<Rightarrow> bs_state \<Rightarrow> bool" where
  "bs_inv nthr tnum rs s \<longleftrightarrow> arrays_ok nthr tnum rs s \<and> control_ok nthr tnum 0 s"

lemma created_simps [simp]:
  "created nthr (M_create i) = i" "created nthr M_wait = nthr" "created nthr M_merge = nthr" "created nthr M_end = nthr"
  by (simp_all add: created_def)

lemma barrier_arrive_fields [simp]:
  "bs_nums (barrier_arrive p s) = bs_nums s" "bs_snums (barrier_arrive p s) = bs_snums s"
  "bs_threads (barrier_arrive p s) = bs_threads s" "bs_main (barrier_arrive p s) = bs_main s"
  by (simp_all add: barrier_arrive_def)

text \<open>When the last party arrives, all threads exist and all of them have sorted.\<close>

lemma barrier_arrive_control:
  assumes "control_ok nthr tnum 1 s" "\<not> bs_open s"
  shows "control_ok nthr tnum 0 (barrier_arrive (nthr + 1) s)"
proof (cases "bs_arrived s = nthr")
  case True
  let ?w = "filter (\<lambda>t. snd t = T_wait) (bs_threads s)"
  have "length ?w + (if bs_main s = M_wait then 1 else 0) = nthr + 1" "length (bs_threads s) \<le> nthr"
    using assms True by (auto simp: control_ok_def waiting_def)
  moreover have "length ?w \<le> length (bs_threads s)" by (rule length_filter_le)
  ultimately have "bs_main s = M_wait \<and> length (bs_threads s) = nthr \<and> length ?w = length (bs_threads s)"
    by (cases "bs_main s = M_wait") (simp_all del: length_filter_le)
  moreover from this have "\<forall>t\<in>set (bs_threads s). snd t = T_wait"
    using length_filter_less [of _ "bs_threads s" "\<lambda>t. snd t = T_wait"] by fastforce
  ultimately show ?thesis using assms True by (auto simp: control_ok_def barrier_arrive_def)
next
  case False
  then show ?thesis using assms by (auto simp: control_ok_def barrier_arrive_def waiting_def)
qed

lemma thr_act_control:
  assumes "thr_act nthr tnum k s = Some s'" "control_ok nthr tnum 0 s"
  shows "control_ok nthr tnum 0 s'"
proof -
  obtain idx pc where t: "bs_threads s ! k = (idx, pc)" by (cases "bs_threads s ! k")
  have k: "k < length (bs_threads s)" using assms(1) by (auto simp: thr_act_def split: if_splits)
  have mem: "(idx, pc) \<in> set (bs_threads s)" using k t nth_mem by metis
  have fsts: "map fst ((bs_threads s)[k := (idx, pc')]) = map fst (bs_threads s)" for pc'
    using t by (metis fst_conv list_update_id map_update)
  have upd: "set ((bs_threads s)[k := x]) \<subseteq> insert x (set (bs_threads s))" for x by (rule set_update_subset_insert)
  have pc: "bs_open s \<Longrightarrow> pc \<in> {T_wait, T_end}" using mem assms(2) by (force simp: control_ok_def)
  note flt = length_filter_update [OF k, of "\<lambda>t. snd t = T_wait"]
  show ?thesis
  proof (cases pc)
    case T_sort
    then have "\<not> bs_open s" using pc by auto
    then show ?thesis using assms t k T_sort fsts [of T_arrive] upd [of "(idx, T_arrive)"] flt [of "(idx, T_arrive)"]
      by (auto simp: thr_act_def control_ok_def waiting_def)
  next
    case T_arrive
    define s1 where "s1 = s\<lparr>bs_threads := (bs_threads s)[k := (idx, T_wait)]\<rparr>"
    have "\<not> bs_open s" using pc T_arrive by auto
    then have "control_ok nthr tnum 1 s1" "\<not> bs_open s1"
      using assms t T_arrive fsts [of T_wait] upd [of "(idx, T_wait)"] flt [of "(idx, T_wait)"]
      by (auto simp: s1_def control_ok_def waiting_def)
    then show ?thesis using barrier_arrive_control [of nthr tnum s1] assms(1) t k T_arrive by (simp add: thr_act_def s1_def)
  next
    case T_wait
    then show ?thesis using assms t k fsts [of T_end] upd [of "(idx, T_end)"]
      by (auto simp: thr_act_def control_ok_def split: if_splits)
  qed (use assms t k in \<open>simp add: thr_act_def\<close>)
qed

lemma arrays_ok_sorted:
  "arrays_ok nthr tnum rs s \<Longrightarrow> t \<in> set (bs_threads s) \<Longrightarrow> fst t = idx \<Longrightarrow> snd t \<noteq> T_sort \<Longrightarrow> sorted (take tnum (drop idx (bs_nums s)))"
  by (force simp: arrays_ok_def)

lemma thr_act_arrays:
  assumes "thr_act nthr tnum k s = Some s'" "arrays_ok nthr tnum rs s" "bs_main s \<noteq> M_end \<or> (\<forall>t\<in>set (bs_threads s). snd t \<noteq> T_sort)"
  shows "arrays_ok nthr tnum rs s'"
proof -
  obtain idx pc where t: "bs_threads s ! k = (idx, pc)" by (cases "bs_threads s ! k")
  have k: "k < length (bs_threads s)" using assms(1) by (auto simp: thr_act_def split: if_splits)
  have mem: "(idx, pc) \<in> set (bs_threads s)" using k t nth_mem by metis
  have part: "\<And>t. t \<in> set (bs_threads s) \<Longrightarrow> \<exists>i<nthr. fst t = i * tnum" and len: "length (bs_nums s) = nthr * tnum"
    using assms(2) by (auto simp: arrays_ok_def)
  then obtain i where i: "i < nthr" "idx = i * tnum" using mem by fastforce
  show ?thesis
  proof (cases pc)
    case T_sort
    define nums where "nums = sort_part tnum idx (bs_nums s)"
    have sorted_now: "sorted (take tnum (drop idx nums))"
      using part_sort_part_same [OF len i(1)] by (simp add: nums_def i part_of_def)
    have still: "sorted (take tnum (drop (fst x) nums))" if x: "x \<in> set (bs_threads s)" "snd x \<noteq> T_sort" for x
    proof -
      obtain j where j: "j < nthr" "fst x = j * tnum" using part [OF x(1)] by blast
      show ?thesis
      proof (cases "j = i")
        case False
        then have "part_of tnum j nums = part_of tnum j (bs_nums s)"
          using part_sort_part_other [OF len i(1) j(1)] by (simp add: nums_def i)
        then show ?thesis using arrays_ok_sorted [OF assms(2) x(1) j(2)] x(2) j(2) by (simp add: part_of_def)
      qed (use sorted_now i j in simp)
    qed
    have "s' = s\<lparr>bs_nums := nums, bs_threads := (bs_threads s)[k := (idx, T_arrive)]\<rparr>"
      using assms(1) t k T_sort by (simp add: thr_act_def nums_def)
    moreover have "bs_main s \<noteq> M_end" using assms(3) mem T_sort by auto
    ultimately show ?thesis using assms(2) still sorted_now i
      by (simp add: arrays_ok_def nums_def) (intro ball_update; force)
  next
    case T_arrive
    then have "s' = barrier_arrive (nthr + 1) (s\<lparr>bs_threads := (bs_threads s)[k := (idx, T_wait)]\<rparr>)"
      using assms(1) t k by (simp add: thr_act_def)
    moreover have "sorted (take tnum (drop idx (bs_nums s)))" using arrays_ok_sorted [OF assms(2) mem] T_arrive by simp
    ultimately show ?thesis using assms(2) i by (simp add: arrays_ok_def) (intro ball_update; force)
  next
    case T_wait
    then have "s' = s\<lparr>bs_threads := (bs_threads s)[k := (idx, T_end)]\<rparr>"
      using assms(1) t k by (simp add: thr_act_def split: if_splits)
    moreover have "sorted (take tnum (drop idx (bs_nums s)))" using arrays_ok_sorted [OF assms(2) mem] T_wait by simp
    ultimately show ?thesis using assms(2) i by (simp add: arrays_ok_def) (intro ball_update; force)
  qed (use assms t k in \<open>simp add: thr_act_def\<close>)
qed

text \<open>Behind the barrier all parts are sorted, so that \<open>merge\<close> sorts the array.\<close>

lemma open_merge:
  assumes "bs_inv nthr tnum rs s" "bs_open s" "\<forall>r\<in>set rs. r < LONG_MAX"
  shows "merge nthr tnum (bs_nums s) (bs_snums s) = Some (sort rs)"
proof -
  have len: "length (bs_nums s) = nthr * tnum" "length (bs_snums s) = nthr * tnum" and ms: "mset (bs_nums s) = mset rs"
    using assms(1) by (auto simp: bs_inv_def arrays_ok_def)
  have starts: "map fst (bs_threads s) = part_starts nthr tnum" and pcs: "\<forall>t\<in>set (bs_threads s). snd t \<in> {T_wait, T_end}"
    using assms(1,2) by (auto simp: bs_inv_def control_ok_def)
  have "sorted (part_of tnum i (bs_nums s))" if "i < nthr" for i
  proof -
    have "i * tnum \<in> set (map fst (bs_threads s))" using that unfolding starts by (auto simp: part_starts_def)
    then obtain t where t: "t \<in> set (bs_threads s)" "fst t = i * tnum" by auto
    moreover from t pcs have "snd t \<noteq> T_sort" by auto
    ultimately show ?thesis using arrays_ok_sorted [of nthr tnum rs s t] assms(1) by (simp add: bs_inv_def part_of_def)
  qed
  moreover have "\<forall>y\<in>set (bs_nums s). y < LONG_MAX" using assms(3) mset_eq_setD [OF ms] by simp
  moreover have "sort (bs_nums s) = sort rs" using ms by (metis mset_sort properties_for_sort sorted_sort)
  ultimately show ?thesis using merge_sorts [OF len] by simp
qed

lemma bs_main_act_inv:
  assumes "bs_main_act nthr tnum ok s = Some s'" "bs_inv nthr tnum rs s" "\<forall>r\<in>set rs. r < LONG_MAX"
  shows "bs_inv nthr tnum rs s'"
proof (cases "bs_main s")
  case (M_create i)
  then have closed: "\<not> bs_open s" using assms(2) by (auto simp: bs_inv_def control_ok_def)
  show ?thesis
  proof (cases "i < nthr")
    case True
    have s': "s' = s\<lparr>bs_main := M_create (Suc i), bs_threads := bs_threads s @ (if ok then [(i * tnum, T_sort)] else [])\<rparr>"
      using assms(1) True M_create by (simp add: bs_main_act_def)
    have "arrays_ok nthr tnum rs s'" using assms(2) True M_create by (cases ok) (auto simp: s' bs_inv_def arrays_ok_def)
    moreover have "control_ok nthr tnum 0 s" using assms(2) by (simp add: bs_inv_def)
    then have "control_ok nthr tnum 0 s'" using True closed M_create
      by (cases ok) (simp_all add: s' control_ok_def waiting_def part_starts_def)
    ultimately show ?thesis by (simp add: bs_inv_def)
  next
    case False
    define s1 where "s1 = s\<lparr>bs_main := M_wait\<rparr>"
    have "i = nthr" using False assms(2) M_create by (auto simp: bs_inv_def control_ok_def)
    then have "control_ok nthr tnum 1 s1" "\<not> bs_open s1" "arrays_ok nthr tnum rs s1"
      using assms(2) closed M_create by (auto simp: s1_def bs_inv_def control_ok_def arrays_ok_def waiting_def)
    moreover have "s' = barrier_arrive (nthr + 1) s1" using assms(1) False M_create by (simp add: bs_main_act_def s1_def)
    ultimately show ?thesis using barrier_arrive_control [of nthr tnum s1] by (simp add: bs_inv_def arrays_ok_def)
  qed
next
  case M_merge
  then have "bs_open s" using assms(2) by (auto simp: bs_inv_def control_ok_def split: if_splits)
  then show ?thesis using open_merge [OF assms(2) _ assms(3)] assms(1,2) M_merge
    by (auto simp: bs_main_act_def bs_inv_def control_ok_def arrays_ok_def dest: mset_eq_length)
qed (use assms in \<open>auto simp: bs_main_act_def bs_inv_def control_ok_def arrays_ok_def split: if_splits\<close>)

lemma bs_init_inv: "length rs = nthr * tnum \<Longrightarrow> bs_inv nthr tnum rs (bs_init rs)"
  by (simp add: bs_inv_def arrays_ok_def control_ok_def bs_init_def waiting_def part_starts_def)

lemma bs_step_inv:
  assumes "bs_step nthr tnum s s'" "bs_inv nthr tnum rs s" "\<forall>r\<in>set rs. r < LONG_MAX"
  shows "bs_inv nthr tnum rs s'"
  using assms
proof cases
  case (thread k)
  have "bs_main s \<noteq> M_end \<or> (\<forall>t\<in>set (bs_threads s). snd t \<noteq> T_sort)"
    using assms(2) by (auto simp: bs_inv_def control_ok_def split: if_splits)
  then show ?thesis using thr_act_control [OF thread] thr_act_arrays [OF thread] assms(2) by (auto simp: bs_inv_def)
qed (auto intro: bs_main_act_inv)

interpretation bs: transition_system
  "\<lambda>s. s = bs_init rs \<and> length rs = nthr * tnum \<and> (\<forall>r\<in>set rs. r < LONG_MAX)" "bs_step nthr tnum"
  "\<lambda>s. bs_inv nthr tnum rs s \<and> (\<forall>r\<in>set rs. r < LONG_MAX)" for nthr tnum rs
  by unfold_locales (auto intro: bs_init_inv bs_step_inv)

section \<open>Correctness of the parallel sort\<close>

lemmas bs_reachable_inv = bs.reachable_inv [OF conjI [OF refl conjI], THEN conjunct1]

text \<open>The steps that are left at most.\<close>

primrec thr_left :: "thr_pc \<Rightarrow> nat" where
  "thr_left T_sort = 3"
| "thr_left T_arrive = 2"
| "thr_left T_wait = 1"
| "thr_left T_end = 0"

definition steps_left :: "nat \<Rightarrow> bs_state \<Rightarrow> nat" where
  "steps_left nthr s = (case bs_main s of M_create i \<Rightarrow> 4 * (nthr - i) + 3 | M_wait \<Rightarrow> 2 | M_merge \<Rightarrow> 1 | M_end \<Rightarrow> 0) +
     sum_list (map (\<lambda>t. thr_left (snd t)) (bs_threads s))"

lemma thr_act_left:
  assumes "thr_act nthr tnum k s = Some s'"
  shows "steps_left nthr s' < steps_left nthr s"
proof -
  have k: "k < length (bs_threads s)" using assms by (auto simp: thr_act_def split: if_splits)
  obtain idx pc where t: "bs_threads s ! k = (idx, pc)" by (cases "bs_threads s ! k")
  then show ?thesis
    using assms k sum_list_map_update [OF k, of "\<lambda>t. thr_left (snd t)" "(idx, T_arrive)"]
      sum_list_map_update [OF k, of "\<lambda>t. thr_left (snd t)" "(idx, T_wait)"]
      sum_list_map_update [OF k, of "\<lambda>t. thr_left (snd t)" "(idx, T_end)"]
    by (cases pc) (auto simp: thr_act_def steps_left_def split: if_splits)
qed

lemma bs_step_left: "bs_step nthr tnum s s' \<Longrightarrow> steps_left nthr s' < steps_left nthr s"
proof (induction rule: bs_step.induct)
  case (main ok s s')
  then show ?case by (auto simp: bs_main_act_def steps_left_def bind_eq_Some_conv split: main_pc.splits if_splits)
qed (rule thr_act_left)

lemma bs_steps_left: "(bs_step nthr tnum ^^ n) s s' \<Longrightarrow> steps_left nthr s' + n \<le> steps_left nthr s"
proof (induction n arbitrary: s')
  case (Suc n)
  then obtain s1 where "(bs_step nthr tnum ^^ n) s s1" "bs_step nthr tnum s1 s'" by auto
  then show ?case using Suc.IH [of s1] bs_step_left [of nthr tnum s1 s'] by simp
qed simp

lemma bs_stuck_pcs:
  assumes "\<not> (\<exists>s'. bs_step nthr tnum s s')" "t \<in> set (bs_threads s)"
  shows "snd t = T_end \<or> snd t = T_wait \<and> \<not> bs_open s"
proof -
  obtain k where k: "k < length (bs_threads s)" "bs_threads s ! k = t" using assms(2) by (auto simp: in_set_conv_nth)
  then have "thr_act nthr tnum k s = None" using assms(1) bs_step.thread by (metis not_None_eq)
  then show ?thesis using k by (cases t; cases "snd t") (auto simp: thr_act_def split: if_splits)
qed

lemma bs_stuck_ended:
  assumes inv: "bs_inv nthr tnum rs s" and small: "\<forall>r\<in>set rs. r < LONG_MAX"
    and stuck: "\<not> (\<exists>s'. bs_step nthr tnum s s')" and all: "length (bs_threads s) = nthr"
  shows "bs_main s = M_end \<and> (\<forall>t\<in>set (bs_threads s). snd t = T_end)"
proof -
  have main: "bs_main_act nthr tnum True s = None" using stuck bs_step.main by (metis not_None_eq)
  have "bs_open s"
  proof (rule ccontr)
    assume closed: "\<not> bs_open s"
    then have "\<forall>t\<in>set (bs_threads s). snd t = T_wait"
      using bs_stuck_pcs [OF stuck] inv by (force simp: bs_inv_def control_ok_def)
    moreover have "bs_main s = M_wait"
      using main closed inv by (auto simp: bs_main_act_def bs_inv_def control_ok_def split: main_pc.splits if_splits)
    ultimately have "waiting s = nthr + 1" using all by (simp add: waiting_def)
    then show False using inv closed by (auto simp: bs_inv_def control_ok_def)
  qed
  moreover from this have "bs_main s = M_end"
    using main open_merge [OF inv _ small] inv
    by (auto simp: bs_main_act_def bs_inv_def control_ok_def split: main_pc.splits if_splits)
  ultimately show ?thesis using bs_stuck_pcs [OF stuck] by auto
qed

text \<open>C17: However the threads are scheduled, the numbers the program prints are the random numbers in
  ascending order.\<close>
theorem barrier_sort_correct:
  assumes "length rs = nthr * tnum" "\<forall>r\<in>set rs. r < LONG_MAX" "(bs_step nthr tnum)\<^sup>*\<^sup>* (bs_init rs) s" "bs_output s = Some out"
  shows "sorted out \<and> mset out = mset rs"
proof -
  have "out = sort rs" using bs_reachable_inv [OF assms(1-3)] assms(4)
    by (auto simp: bs_output_def bs_inv_def arrays_ok_def split: if_splits)
  then show ?thesis by simp
qed

text \<open>C18: The program ends: a run has at most four steps per thread and three more, and a run that cannot go on,
  with all threads created, has printed the sorted numbers and has no thread left.\<close>
theorem barrier_sort_ends:
  assumes "length rs = nthr * tnum" "\<forall>r\<in>set rs. r < LONG_MAX" "(bs_step nthr tnum ^^ n) (bs_init rs) s"
  shows "n \<le> 4 * nthr + 3 \<and>
    (\<not> (\<exists>s'. bs_step nthr tnum s s') \<and> length (bs_threads s) = nthr \<longrightarrow>
      bs_output s = Some (sort rs) \<and> (\<forall>t\<in>set (bs_threads s). snd t = T_end))"
proof -
  have inv: "bs_inv nthr tnum rs s" by (rule bs_reachable_inv [OF assms(1,2) relpowp_imp_rtranclp [OF assms(3)]])
  moreover have "n \<le> 4 * nthr + 3" using bs_steps_left [OF assms(3)] by (simp add: steps_left_def bs_init_def)
  ultimately show ?thesis using bs_stuck_ended [OF inv assms(2)]
    by (auto simp: bs_output_def bs_inv_def arrays_ok_def)
qed

lemma bs_step_missing:
  assumes "bs_step nthr tnum s s'" "length (bs_threads s) < created nthr (bs_main s)" "bs_inv nthr tnum rs s"
  shows "length (bs_threads s') < created nthr (bs_main s')"
  using assms(1)
proof cases
  case (main ok)
  then show ?thesis using assms(2,3)
    by (auto simp: bs_main_act_def bind_eq_Some_conv bs_inv_def control_ok_def split: main_pc.splits if_splits)
next
  case (thread k)
  then show ?thesis using assms(2)
    by (cases "bs_threads s ! k"; cases "snd (bs_threads s ! k)") (auto simp: thr_act_def split: if_splits)
qed

text \<open>A thread that could not be created is only reported: from then on, whatever happens, \<open>main\<close> never gets
  past the barrier, so that the program neither prints the numbers nor ends.\<close>
theorem barrier_create_failure_blocks:
  assumes "length rs = nthr * tnum" "\<forall>r\<in>set rs. r < LONG_MAX" "(bs_step nthr tnum)\<^sup>*\<^sup>* (bs_init rs) s"
    and "bs_main_act nthr tnum False s = Some s1" "bs_main s = M_create i" "i < nthr" "(bs_step nthr tnum)\<^sup>*\<^sup>* s1 s2"
  shows "bs_main s2 \<notin> {M_merge, M_end}"
proof -
  have first: "bs_step nthr tnum s s1" using assms(4) by (rule bs_step.main)
  have missing: "length (bs_threads s1) < created nthr (bs_main s1)"
    using assms(4-6) bs_reachable_inv [OF assms(1-3)] by (auto simp: bs_main_act_def bs_inv_def control_ok_def)
  have "bs_inv nthr tnum rs s2 \<and> length (bs_threads s2) < created nthr (bs_main s2)"
    using assms(7)
  proof (induction rule: rtranclp_induct)
    case base
    then show ?case using bs_step_inv [OF first bs_reachable_inv [OF assms(1-3)] assms(2)] missing by simp
  next
    case (step s2 s3)
    then show ?case using bs_step_inv [OF step(2) _ assms(2)] bs_step_missing [OF step(2), of rs] by simp
  qed
  then show ?thesis by (auto simp: bs_inv_def control_ok_def split: if_splits)
qed

section \<open>A run with two threads\<close>

definition bs_act :: "nat \<Rightarrow> nat \<Rightarrow> bool + nat \<Rightarrow> bs_state \<Rightarrow> bs_state option" where
  "bs_act nthr tnum e = (case e of Inl ok \<Rightarrow> bs_main_act nthr tnum ok | Inr k \<Rightarrow> thr_act nthr tnum k)"

lemma bs_run: "run_events (bs_act nthr tnum) es s1 = Some s2 \<Longrightarrow> (bs_step nthr tnum ^^ length es) s1 s2"
proof (induction es arbitrary: s1)
  case (Cons e es)
  then obtain s where s: "bs_act nthr tnum e s1 = Some s" "(bs_step nthr tnum ^^ length es) s s2" by (auto simp: bind_eq_Some_conv)
  then have "bs_step nthr tnum s1 s" by (cases e) (auto simp: bs_act_def intro: bs_step.intros)
  then show ?case using s(2) relpowp_Suc_I2 [of "bs_step nthr tnum" s1 s "length es" s2] by simp
qed simp

lemmas bs_run_reaches = relpowp_imp_rtranclp [OF bs_run]

definition bs_demo_nums :: "int list" where "bs_demo_nums = [5, 3, 9, 1]"

definition bs_demo_run :: "(bool + nat) list" where
  "bs_demo_run = [Inl True, Inr 0, Inl True, Inl True, Inr 1, Inr 1, Inr 0, Inl True, Inl True, Inr 0, Inr 1]"

definition bs_demo :: bs_state where
  "bs_demo = \<lparr>bs_nums = [3, 5, 1, 9], bs_snums = [1, 3, 5, 9], bs_threads = [(0, T_end), (2, T_end)], bs_main = M_end,
     bs_arrived = 0, bs_open = True\<rparr>"

lemma bs_demo_runs: "run_events (bs_act 2 2) bs_demo_run (bs_init bs_demo_nums) = Some bs_demo"
  by code_simp

lemma bs_demo_small: "\<forall>r\<in>set bs_demo_nums. r < LONG_MAX"
  by (simp add: bs_demo_nums_def LONG_MAX_def)

theorem barrier_sort_correct_witness:
  "bs_output bs_demo = Some [1, 3, 5, 9] \<and> sorted [1, 3, 5, 9 :: int] \<and> mset [1, 3, 5, 9] = mset bs_demo_nums"
proof -
  have out: "bs_output bs_demo = Some [1, 3, 5, 9]" by (simp add: bs_output_def bs_demo_def)
  have "length bs_demo_nums = 2 * 2" by (simp add: bs_demo_nums_def)
  from barrier_sort_correct [OF this bs_demo_small bs_run_reaches [OF bs_demo_runs] out] out show ?thesis by simp
qed

theorem barrier_sort_ends_witness: "length bs_demo_run \<le> 4 * 2 + 3 \<and> bs_output bs_demo = Some (sort bs_demo_nums)"
proof -
  have stuck: "\<not> (\<exists>s'. bs_step 2 2 bs_demo s')"
    by (auto simp: bs_step.simps bs_main_act_def thr_act_def bs_demo_def less_Suc_eq numeral_2_eq_2)
  have "length bs_demo_nums = 2 * 2" by (simp add: bs_demo_nums_def)
  from barrier_sort_ends [OF this bs_demo_small bs_run [OF bs_demo_runs]] stuck show ?thesis by (simp add: bs_demo_def)
qed

theorem barrier_create_failure_blocks_witness: "\<exists>s. (bs_step 2 2)\<^sup>*\<^sup>* (bs_init bs_demo_nums) s \<and> bs_main s = M_wait \<and> bs_main s \<notin> {M_merge, M_end}"
proof -
  define s1 where "s1 = bs_init bs_demo_nums\<lparr>bs_main := M_create 1\<rparr>"
  define s2 where "s2 = bs_init bs_demo_nums\<lparr>bs_main := M_wait, bs_threads := [(2, T_sort)], bs_arrived := 1\<rparr>"
  have len: "length bs_demo_nums = 2 * 2" by (simp add: bs_demo_nums_def)
  have s1: "bs_main_act 2 2 False (bs_init bs_demo_nums) = Some s1" by (simp add: bs_main_act_def bs_init_def s1_def)
  have "run_events (bs_act 2 2) [Inl True, Inl True] s1 = Some s2"
    by (simp add: bs_act_def bs_main_act_def bs_init_def s1_def s2_def barrier_arrive_def)
  then have s2: "(bs_step 2 2)\<^sup>*\<^sup>* s1 s2" by (rule bs_run_reaches)
  have "bs_main (bs_init bs_demo_nums) = M_create 0" by (simp add: bs_init_def)
  from barrier_create_failure_blocks [OF len bs_demo_small rtranclp.rtrancl_refl s1 this _ s2]
  have "bs_main s2 \<notin> {M_merge, M_end}" by simp
  moreover have "(bs_step 2 2)\<^sup>*\<^sup>* (bs_init bs_demo_nums) s2"
    using bs_step.main [OF s1] s2 by (rule converse_rtranclp_into_rtranclp)
  ultimately show ?thesis by (intro exI [of _ s2]) (simp add: s2_def)
qed

text \<open>An element \<open>LONG_MAX\<close>, which \<open>random()\<close> never returns, is not a candidate of the inner loop: \<open>minidx\<close> keeps
  the part of the last round, and here the merge reads past the end of the array.\<close>
theorem merge_misses_long_max: "merge 2 1 [LONG_MAX, 5] [0, 0] = None"
  by code_simp

end
