(* ===== verification/Process_Helpers.thy ===== *)
theory Process_Helpers
  imports Prelude
begin

text \<open>
  The helpers of \<open>socket/others\<close>: \<open>connect_retry.h\<close>, which retries a connection with growing pauses,
  \<open>change_user.h\<close>, which is to give up the rights of root, and \<open>daemonize.h\<close>.
\<close>

section \<open>connect with retries\<close>

definition MAXSLEEP :: int where "MAXSLEEP = 128"

text \<open>The pause of attempt \<open>i\<close>: \<open>numsec\<close> starts at 1 and is shifted left.\<close>
definition numsec :: "nat \<Rightarrow> int" where
  "numsec i = push_bit i 1"

text \<open>\<open>net i\<close> is what attempt \<open>i\<close> meets: the result of \<open>socket\<close> and whether \<open>connect\<close> succeeds. The result, the
  descriptors closed and the pauses made.\<close>

function connect_retry_loop :: "(nat \<Rightarrow> int \<times> bool) \<Rightarrow> nat \<Rightarrow> int list \<Rightarrow> int list \<Rightarrow> int \<times> int list \<times> int list" where
  "connect_retry_loop net i closed slept =
     (if numsec i \<le> MAXSLEEP then
        (if fst (net i) < 0 then (- 1, closed, slept)
         else if snd (net i) then (fst (net i), closed, slept)
         else connect_retry_loop net (Suc i) (closed @ [fst (net i)])
           (if numsec i \<le> MAXSLEEP div 2 then slept @ [numsec i] else slept))
      else (- 1, closed, slept))"
  by auto

lemma numsec_le: "numsec i \<le> MAXSLEEP \<longleftrightarrow> i \<le> 7"
proof -
  have "numsec i \<le> MAXSLEEP \<longleftrightarrow> (2 :: int) ^ i \<le> 2 ^ 7" by (simp add: numsec_def MAXSLEEP_def push_bit_eq_mult)
  then show ?thesis by (simp only: power_increasing_iff)
qed

termination connect_retry_loop
  by (relation "measure (\<lambda>(net, i, closed, slept). 8 - i)") (auto simp: numsec_le)

declare connect_retry_loop.simps [simp del]

definition connect_retry :: "(nat \<Rightarrow> int \<times> bool) \<Rightarrow> int \<times> int list \<times> int list" where
  "connect_retry net = connect_retry_loop net 0 [] []"

text \<open>The first attempt that does not go on to the next one.\<close>

definition decisive :: "int \<times> bool \<Rightarrow> bool" where
  "decisive a \<longleftrightarrow> fst a < 0 \<or> snd a"

lemma numsec_half: "numsec i \<le> MAXSLEEP div 2 \<longleftrightarrow> i \<le> 6"
proof -
  have "numsec i \<le> MAXSLEEP div 2 \<longleftrightarrow> (2 :: int) ^ i \<le> 2 ^ 6" by (simp add: numsec_def MAXSLEEP_def push_bit_eq_mult)
  then show ?thesis by (simp only: power_increasing_iff)
qed

lemma connect_retry_loop_decided:
  assumes "\<forall>j. i \<le> j \<and> j < n \<longrightarrow> \<not> decisive (net j)" "i \<le> n" "n \<le> 7" "decisive (net n)"
  shows "connect_retry_loop net i closed slept =
    (if fst (net n) < 0 then - 1 else fst (net n), closed @ map (\<lambda>j. fst (net j)) [i..<n], slept @ map numsec [i..<n])"
  using assms
proof (induction "n - i" arbitrary: i closed slept)
  case 0
  then show ?case by (subst connect_retry_loop.simps) (auto simp: numsec_le decisive_def)
next
  case (Suc k)
  have i: "i < n" "\<not> decisive (net i)" using Suc.hyps(2) Suc.prems(1) by auto
  then have "connect_retry_loop net i closed slept = connect_retry_loop net (Suc i) (closed @ [fst (net i)]) (slept @ [numsec i])"
    using Suc.prems(3) by (subst connect_retry_loop.simps) (simp add: numsec_le numsec_half decisive_def)
  also have "\<dots> = (if fst (net n) < 0 then - 1 else fst (net n), (closed @ [fst (net i)]) @ map (\<lambda>j. fst (net j)) [Suc i..<n], (slept @ [numsec i]) @ map numsec [Suc i..<n])"
    by (rule Suc.hyps(1)) (use Suc.hyps(2) Suc.prems i in auto)
  finally show ?case using i(1) by (simp add: upt_conv_Cons)
qed

lemma connect_retry_loop_exhausted:
  assumes "\<forall>j. i \<le> j \<and> j \<le> 7 \<longrightarrow> \<not> decisive (net j)" "i \<le> 8"
  shows "connect_retry_loop net i closed slept =
    (- 1, closed @ map (\<lambda>j. fst (net j)) [i..<8], slept @ map numsec [i..<7])"
  using assms
proof (induction "8 - i" arbitrary: i closed slept)
  case 0
  then show ?case by (subst connect_retry_loop.simps) (auto simp: numsec_le)
next
  case (Suc k)
  have i: "i \<le> 7" "\<not> decisive (net i)" using Suc.hyps(2) Suc.prems(1) by auto
  then have "connect_retry_loop net i closed slept =
      connect_retry_loop net (Suc i) (closed @ [fst (net i)]) (if i \<le> 6 then slept @ [numsec i] else slept)"
    by (subst connect_retry_loop.simps) (simp add: numsec_le numsec_half decisive_def)
  also have "\<dots> = (- 1, (closed @ [fst (net i)]) @ map (\<lambda>j. fst (net j)) [Suc i..<8], (if i \<le> 6 then slept @ [numsec i] else slept) @ map numsec [Suc i..<7])"
    by (rule Suc.hyps(1)) (use Suc.hyps(2) Suc.prems i in auto)
  finally show ?case using i(1) by (auto simp: upt_conv_Cons)
qed

text \<open>At most eight attempts with pauses of 1, 2, 4, ... seconds between them, 127 at most in all, and none after
  the last; the socket of every failed attempt is closed and the one that is returned is not.\<close>
theorem connect_retry_bounds:
  "\<exists>n\<le>8. (let (r, closed, slept) = connect_retry net in
     closed = map (\<lambda>j. fst (net j)) [0..<n] \<and> (\<forall>j<n. \<not> decisive (net j)) \<and>
     slept = map numsec [0..<min n 7] \<and> sum_list slept \<le> 127 \<and>
     (if n < 8 then decisive (net n) \<and> r = (if fst (net n) < 0 then - 1 else fst (net n)) else r = - 1))"
proof -
  have total: "sum_list (map numsec [0..<m]) \<le> 127" if "m \<le> 7" for m
  proof -
    have "sum_list (map numsec [0..<m]) = 2 ^ m - 1" by (induction m) (simp_all add: numsec_def push_bit_eq_mult)
    moreover have "(2 :: int) ^ m \<le> 2 ^ 7" using that by (intro power_increasing) auto
    ultimately show ?thesis by simp
  qed
  show ?thesis
  proof (cases "\<exists>n\<le>7. decisive (net n)")
    case True
    define n where "n = (LEAST n. decisive (net n))"
    have n: "decisive (net n)" "n \<le> 7" "\<forall>j<n. \<not> decisive (net j)"
      using True LeastI_ex [of "\<lambda>n. decisive (net n)"] not_less_Least [of _ "\<lambda>n. decisive (net n)"]
        Least_le [of "\<lambda>n. decisive (net n)"] unfolding n_def by (blast intro: order_trans)+
    then show ?thesis using connect_retry_loop_decided [of 0 n net "[]" "[]"] total [OF n(2)]
      by (intro exI [of _ n]) (simp add: connect_retry_def min_def)
  next
    case False
    then show ?thesis using connect_retry_loop_exhausted [of 0 net "[]" "[]"] total [of 7]
      by (intro exI [of _ 8]) (auto simp: connect_retry_def)
  qed
qed

definition demo_net :: "nat \<Rightarrow> int \<times> bool" where
  "demo_net i = (int i + 4, i = 2)"

theorem connect_retry_bounds_witness: "connect_retry demo_net = (6, [4, 5], [1, 2])"
proof -
  obtain r closed slept where c: "connect_retry demo_net = (r, closed, slept)" by (cases "connect_retry demo_net")
  with connect_retry_bounds [of demo_net] obtain n where n: "n \<le> 8" "closed = map (\<lambda>j. fst (demo_net j)) [0..<n]"
      "\<forall>j<n. \<not> decisive (demo_net j)" "slept = map numsec [0..<min n 7]"
      "if n < 8 then decisive (demo_net n) \<and> r = (if fst (demo_net n) < 0 then - 1 else fst (demo_net n)) else r = - 1"
    by auto
  have d: "decisive (demo_net j) \<longleftrightarrow> j = 2" for j by (simp add: decisive_def demo_net_def)
  have "\<not> 2 < n" using n(3) d by blast
  then have "n = 2" using n(1,5) by (cases "n < 8") (auto simp: d)
  then show ?thesis using c n by (simp add: demo_net_def numsec_def numeral_2_eq_2)
qed

section \<open>Giving up the rights of root\<close>

record cred =
  cr_uid :: nat
  cr_gid :: nat

text \<open>\<open>setuid\<close> and \<open>setgid\<close>: root may take any identity, others only keep theirs. \<open>None\<close> is the result -1.\<close>

definition setuid :: "nat \<Rightarrow> cred \<Rightarrow> cred option" where
  "setuid u c = (if cr_uid c = 0 \<or> cr_uid c = u then Some (c\<lparr>cr_uid := u\<rparr>) else None)"

definition setgid :: "nat \<Rightarrow> cred \<Rightarrow> cred option" where
  "setgid g c = (if cr_uid c = 0 \<or> cr_gid c = g then Some (c\<lparr>cr_gid := g\<rparr>) else None)"

text \<open>The calls get \<open>uid\<close> and \<open>gid\<close>, the present identity, and not the parameters.\<close>

definition switch_to_user :: "nat \<Rightarrow> nat \<Rightarrow> cred \<Rightarrow> bool \<times> cred" where
  "switch_to_user user_id gp_id c = (let gid = cr_gid c; uid = cr_uid c in
     if gid = gp_id \<and> uid = user_id then (True, c)
     else if gid = 0 \<and> uid = 0 then
       (case setuid uid c of None \<Rightarrow> (False, c)
        | Some c1 \<Rightarrow> (case setgid gid c1 of None \<Rightarrow> (False, c1) | Some c2 \<Rightarrow> (True, c2)))
     else (False, c))"


section \<open>Becoming a daemon\<close>

datatype dm_file = Dev_null_rdonly | Dev_null_rdwr | Other_file string

record dm_process =
  dm_umask :: nat
  dm_cwd :: string
  dm_session_leader :: bool
  dm_fds :: "nat \<rightharpoonup> dm_file"

text \<open>What \<open>fork\<close> returns: an error, or the two processes. \<open>None\<close> as the result of \<open>daemonize\<close> is a process that has exited.\<close>

datatype fork_ans = Fork_error | Fork_parent | Fork_child

definition dm_close :: "nat \<Rightarrow> dm_process \<Rightarrow> dm_process" where
  "dm_close fd p = p\<lparr>dm_fds := (dm_fds p)(fd := None)\<rparr>"

text \<open>\<open>open\<close> uses the lowest free descriptor; here the search is among 0, 1, 2, which are free then.\<close>

definition dm_open :: "dm_file \<Rightarrow> bool \<Rightarrow> dm_process \<Rightarrow> dm_process" where
  "dm_open f ok p = (if \<not> ok then p else
     (case filter (\<lambda>fd. dm_fds p fd = None) [0, 1, 2] of [] \<Rightarrow> p | fd # _ \<Rightarrow> p\<lparr>dm_fds := (dm_fds p)(fd \<mapsto> f)\<rparr>))"

definition daemonize :: "fork_ans \<Rightarrow> bool \<Rightarrow> bool \<Rightarrow> bool \<times> bool \<times> bool \<Rightarrow> dm_process \<Rightarrow> (bool \<times> dm_process) option" where
  "daemonize fork_ans setsid_ok chdir_ok opens p = (
     let p1 = p\<lparr>dm_umask := 0\<rparr> in
     case fork_ans of
       Fork_error \<Rightarrow> Some (False, p1)
     | Fork_parent \<Rightarrow> None
     | Fork_child \<Rightarrow>
         if \<not> setsid_ok then Some (False, p1)
         else let p2 = p1\<lparr>dm_session_leader := True\<rparr> in
           if \<not> chdir_ok then Some (False, p2)
           else let p3 = dm_close 2 (dm_close 1 (dm_close 0 (p2\<lparr>dm_cwd := ''/''\<rparr>)));
                    (o1, o2, o3) = opens in
             Some (True, dm_open Dev_null_rdwr o3 (dm_open Dev_null_rdwr o2 (dm_open Dev_null_rdonly o1 p3))))"

text \<open>Success means a daemon: the parent has gone, and the child leads a session of its own in the root
  directory with an empty mask; if \<open>/dev/null\<close> can be opened, its three standard descriptors are bound to it and the others are as
  they were.\<close>
theorem daemonize_result:
  assumes "daemonize fork_ans setsid_ok chdir_ok (o1, o2, o3) p = Some (True, q)"
  shows "fork_ans = Fork_child \<and> dm_umask q = 0 \<and> dm_cwd q = ''/'' \<and> dm_session_leader q \<and>
    (o1 \<and> o2 \<and> o3 \<longrightarrow> dm_fds q = (dm_fds p)(0 \<mapsto> Dev_null_rdonly, 1 \<mapsto> Dev_null_rdwr, 2 \<mapsto> Dev_null_rdwr))"
proof -
  have c: "fork_ans = Fork_child" setsid_ok chdir_ok
    using assms by (auto simp: daemonize_def Let_def split: fork_ans.splits if_splits)
  define p3 where "p3 = dm_close 2 (dm_close 1 (dm_close 0 (p\<lparr>dm_umask := 0, dm_session_leader := True, dm_cwd := ''/''\<rparr>)))"
  have q: "q = dm_open Dev_null_rdwr o3 (dm_open Dev_null_rdwr o2 (dm_open Dev_null_rdonly o1 p3))"
    using assms c by (simp add: daemonize_def Let_def p3_def)
  have keeps: "dm_umask (dm_open f ok r) = dm_umask r" "dm_cwd (dm_open f ok r) = dm_cwd r"
      "dm_session_leader (dm_open f ok r) = dm_session_leader r" for f ok r
    by (simp_all add: dm_open_def split: list.splits)
  show ?thesis using c by (auto simp: q keeps) (auto simp: p3_def dm_close_def dm_open_def fun_eq_iff)
qed

definition dm_demo :: dm_process where
  "dm_demo = \<lparr>dm_umask = 18, dm_cwd = ''/home'', dm_session_leader = False, dm_fds = [0 \<mapsto> Other_file ''tty'', 1 \<mapsto> Other_file ''tty'', 5 \<mapsto> Other_file ''log'']\<rparr>"

theorem daemonize_result_witness:
  "\<exists>q. daemonize Fork_child True True (True, True, True) dm_demo = Some (True, q) \<and>
     dm_fds q = (dm_fds dm_demo)(0 \<mapsto> Dev_null_rdonly, 1 \<mapsto> Dev_null_rdwr, 2 \<mapsto> Dev_null_rdwr)"
proof -
  obtain q where q: "daemonize Fork_child True True (True, True, True) dm_demo = Some (True, q)"
    by (simp add: daemonize_def Let_def)
  from daemonize_result [OF q] q show ?thesis by auto
qed

end
