(* ===== verification/Exit_Status.thy ===== *)
theory Exit_Status
  imports C_String "HOL-Library.Word"
begin

unbundle bit_operations_syntax

text \<open>
  Waiting for processes in \<open>apue\<close>: the status word and its decoding in \<open>pr_exit\<close> (\<open>system.c\<close>, \<open>wait.c\<close> and
  \<open>times.c\<close> have the same function), the \<open>system\<close> of \<open>system.c\<close>, the timing of commands in \<open>times.c\<close>, and the two processes
  of \<open>nice.c\<close> that count until a deadline. A status is a 32 bit word.
\<close>

section \<open>The macros of sys/wait.h\<close>

type_synonym status = "32 word"

definition WTERMSIG :: "status \<Rightarrow> status" where
  "WTERMSIG s = s AND 0x7F"

definition WEXITSTATUS :: "status \<Rightarrow> status" where
  "WEXITSTATUS s = drop_bit 8 (s AND 0xFF00)"

definition WIFEXITED :: "status \<Rightarrow> bool" where
  "WIFEXITED s \<longleftrightarrow> WTERMSIG s = 0"

text \<open>\<open>((signed char) ((status & 0x7f) + 1) >> 1) > 0\<close>: the sum is a byte, and its sign bit is set for 0x7f.\<close>

definition WIFSIGNALED :: "status \<Rightarrow> bool" where
  "WIFSIGNALED s \<longleftrightarrow> 0 < sint (signed_drop_bit 1 (ucast (WTERMSIG s + 1) :: 8 word))"

definition WCOREDUMP :: "status \<Rightarrow> bool" where
  "WCOREDUMP s \<longleftrightarrow> s AND 0x80 \<noteq> 0"

definition WIFSTOPPED :: "status \<Rightarrow> bool" where
  "WIFSTOPPED s \<longleftrightarrow> s AND 0xFF = 0x7F"

definition WSTOPSIG :: "status \<Rightarrow> status" where
  "WSTOPSIG s = WEXITSTATUS s"

section \<open>pr_exit\<close>

datatype exit_report = Normal nat | Abnormal nat bool | Stopped nat

text \<open>\<open>None\<close>: nothing is printed.\<close>

definition pr_exit :: "status \<Rightarrow> exit_report option" where
  "pr_exit s = (if WIFEXITED s then Some (Normal (unat (WEXITSTATUS s)))
     else if WIFSIGNALED s then Some (Abnormal (unat (WTERMSIG s)) (WCOREDUMP s))
     else if WIFSTOPPED s then Some (Stopped (unat (WSTOPSIG s)))
     else None)"

text \<open>The copies of the function in \<open>wait.c\<close> and \<open>times.c\<close>.\<close>

definition wait_pr_exit :: "status \<Rightarrow> exit_report option" where
  "wait_pr_exit s = (if WIFEXITED s then Some (Normal (unat (WEXITSTATUS s)))
     else if WIFSIGNALED s then Some (Abnormal (unat (WTERMSIG s)) (WCOREDUMP s))
     else if WIFSTOPPED s then Some (Stopped (unat (WSTOPSIG s)))
     else None)"

definition times_pr_exit :: "status \<Rightarrow> exit_report option" where
  "times_pr_exit s = (if WIFEXITED s then Some (Normal (unat (WEXITSTATUS s)))
     else if WIFSIGNALED s then Some (Abnormal (unat (WTERMSIG s)) (WCOREDUMP s))
     else if WIFSTOPPED s then Some (Stopped (unat (WSTOPSIG s)))
     else None)"

lemma pr_exit_copies: "wait_pr_exit = pr_exit" "times_pr_exit = pr_exit"
  by (auto simp: fun_eq_iff wait_pr_exit_def times_pr_exit_def pr_exit_def)

text \<open>The status the kernel makes of what happened to a process; a process passes any number to \<open>exit\<close>.\<close>

datatype fate = Exit "32 word" | Signal nat bool | Stop nat

fun encode :: "fate \<Rightarrow> status" where
  "encode (Exit code) = push_bit 8 (code AND 0xFF)"
| "encode (Signal sig core) = of_nat sig OR (if core then 0x80 else 0)"
| "encode (Stop sig) = push_bit 8 (of_nat sig) OR 0x7F"

fun report :: "fate \<Rightarrow> exit_report" where
  "report (Exit code) = Normal (unat code mod 256)"
| "report (Signal sig core) = Abnormal sig core"
| "report (Stop sig) = Stopped sig"

fun possible :: "fate \<Rightarrow> bool" where
  "possible (Exit code) \<longleftrightarrow> True"
| "possible (Signal sig core) \<longleftrightarrow> 0 < sig \<and> sig \<le> 64"
| "possible (Stop sig) \<longleftrightarrow> 0 < sig \<and> sig \<le> 64"

lemma low_byte: "(w :: 32 word) AND 0xFF = of_nat (unat w mod 256)"
proof -
  have "w AND 0xFF = take_bit 8 w" by (simp add: take_bit_eq_mask mask_numeral)
  also have "\<dots> = w mod 2 ^ 8" by (rule take_bit_eq_mod)
  also have "\<dots> = of_nat (unat (w mod 2 ^ 8))" by simp
  also have "unat (w mod 2 ^ 8) = unat w mod 256" by (subst unat_mod) simp
  finally show ?thesis .
qed

lemma report_exit_codes: "list_all (\<lambda>n. pr_exit (push_bit 8 (of_nat n)) = Some (Normal n)) [0..<256]"
  by code_simp

lemma report_signals: "list_all (\<lambda>sig. pr_exit (of_nat sig) = Some (Abnormal sig False) \<and> pr_exit (of_nat sig OR 0x80) = Some (Abnormal sig True) \<and>
    pr_exit (push_bit 8 (of_nat sig) OR 0x7F) = Some (Stopped sig)) [1..<65]"
  by code_simp

lemma pr_exit_encode: "possible f \<Longrightarrow> pr_exit (encode f) = Some (report f)"
proof (cases f)
  case (Exit code)
  have "unat code mod 256 \<in> set [0..<256]" by simp
  then show ?thesis using report_exit_codes Exit by (simp only: list_all_iff low_byte encode.simps report.simps)
next
  case (Signal sig core)
  assume "possible f"
  with Signal have "sig \<in> set [1..<65]" by simp
  then show ?thesis using report_signals Signal by (cases core) (simp_all only: list_all_iff encode.simps report.simps if_True if_False or.right_neutral)
next
  case (Stop sig)
  assume "possible f"
  with Stop have "sig \<in> set [1..<65]" by simp
  then show ?thesis using report_signals Stop by (simp only: list_all_iff encode.simps report.simps)
qed

section \<open>system\<close>

datatype wait_ans = Wait_status status | Wait_eintr | Wait_fail

text \<open>The loop around \<open>waitpid\<close> on the answers still to come; \<open>None\<close>: it is still waiting.\<close>

fun system_wait :: "wait_ans list \<Rightarrow> status option" where
  "system_wait [] = None"
| "system_wait (Wait_status s # ws) = Some s"
| "system_wait (Wait_eintr # ws) = system_wait ws"
| "system_wait (Wait_fail # ws) = Some (- 1)"

definition system :: "string option \<Rightarrow> bool \<Rightarrow> wait_ans list \<Rightarrow> status option" where
  "system cmdstring forked ws = (case cmdstring of None \<Rightarrow> Some 1
   | Some cmd \<Rightarrow> if \<not> forked then Some (- 1) else system_wait ws)"

text \<open>The child: the fate of the shell, or \<open>_exit(127)\<close> when there is none.\<close>

definition system_child :: "(string \<Rightarrow> fate) option \<Rightarrow> string \<Rightarrow> fate" where
  "system_child sh cmd = (case sh of None \<Rightarrow> Exit 127 | Some run \<Rightarrow> run cmd)"

text \<open>\<open>main\<close> of \<open>system.c\<close>: the two commands in turn; whether an error was reported, and the line of \<open>pr_exit\<close>.\<close>

definition system_report :: "status \<Rightarrow> bool \<times> exit_report option" where
  "system_report s = (sint s < 0, pr_exit s)"

fun system_main :: "(string \<times> bool \<times> wait_ans list) list \<Rightarrow> (bool \<times> exit_report option) list option" where
  "system_main [] = Some []"
| "system_main ((cmd, forked, ws) # cs) = do {
     s \<leftarrow> system (Some cmd) forked ws;
     rest \<leftarrow> system_main cs;
     Some (system_report s # rest) }"

lemma system_wait_eintr: "system_wait (replicate n Wait_eintr @ ws) = system_wait ws"
  by (induction n) simp_all

text \<open>What a command did is what the program reports, however often a signal interrupts the wait: exit codes
  modulo 256, signals with the core flag, 127 when there is no shell.\<close>
theorem system_reports_fate:
  assumes "possible (system_child sh cmd)"
  shows "map_option pr_exit (system (Some cmd) True (replicate n Wait_eintr @ Wait_status (encode (system_child sh cmd)) # ws)) =
    Some (Some (report (system_child sh cmd)))"
  using pr_exit_encode [OF assms] by (simp add: system_def system_wait_eintr)

theorem system_reports_fate_witness:
  "map_option pr_exit (system (Some ''who; exit 44'') True [Wait_eintr, Wait_status (push_bit 8 44)]) = Some (Some (Normal 44))"
  using system_reports_fate [of "Some (\<lambda>_. Exit 44)" "''who; exit 44''" 1 "[]"] by (simp add: system_child_def)

text \<open>A \<open>fork\<close> or a wait that fails gives -1, which is reported as an error and decoded as nothing.\<close>
theorem system_error_silent:
  "system (Some cmd) False ws = Some (- 1) \<and> system (Some cmd) True (replicate n Wait_eintr @ Wait_fail # ws) = Some (- 1) \<and>
   system_report (- 1) = (True, None)"
proof -
  have "pr_exit (- 1) = None" by code_simp
  then show ?thesis by (simp add: system_def system_wait_eintr system_report_def)
qed

section \<open>Waiting for three children\<close>

text \<open>\<open>main\<close> of \<open>wait.c\<close>: three times \<open>fork\<close>, and \<open>wait\<close> whatever it returned; a \<open>wait\<close> that fails leaves \<open>status\<close> as it was, which
  is then printed. The pair of an answer: the pid (negative on failure), and what \<open>wait\<close> returns and stores.\<close>

fun wait_main :: "(int \<times> int \<times> status option) list \<Rightarrow> status \<Rightarrow> (bool \<times> exit_report option) list" where
  "wait_main [] s = []"
| "wait_main ((pid, r, stored) # as) s = (let s' = (case stored of None \<Rightarrow> s | Some s1 \<Rightarrow> s1) in
     (r \<noteq> pid, wait_pr_exit s') # wait_main as s')"

section \<open>The clock ticks of a command\<close>

record tms =
  tms_utime :: int
  tms_stime :: int
  tms_cutime :: int
  tms_cstime :: int

text \<open>The numbers \<open>pr_times\<close> divides by \<open>clktck\<close>, which it asks for at its first call only.\<close>

definition pr_times :: "int \<Rightarrow> tms \<Rightarrow> tms \<Rightarrow> int \<Rightarrow> int \<Rightarrow> int list \<times> int" where
  "pr_times elapsed tmsstart tmsend sysconf_ans clktck =
     ([elapsed, tms_utime tmsend - tms_utime tmsstart, tms_stime tmsend - tms_stime tmsstart,
       tms_cutime tmsend - tms_cutime tmsstart, tms_cstime tmsend - tms_cstime tmsstart],
      if clktck = 0 then sysconf_ans else clktck)"

definition do_cmd :: "int \<times> tms \<Rightarrow> status \<Rightarrow> int \<times> tms \<Rightarrow> int \<Rightarrow> int \<Rightarrow> (int list \<times> exit_report option) \<times> int" where
  "do_cmd start s stop sysconf_ans clktck =
     (let (ticks, clktck') = pr_times (fst stop - fst start) (snd start) (snd stop) sysconf_ans clktck in
      ((ticks, times_pr_exit s), clktck'))"

text \<open>\<open>main\<close> of \<open>times.c\<close>: the commands in turn, each with the answers of \<open>times\<close>, \<open>system\<close> and \<open>times\<close>.\<close>

fun times_loop :: "((int \<times> tms) \<times> status \<times> (int \<times> tms)) list \<Rightarrow> int \<Rightarrow> int \<Rightarrow> (int list \<times> exit_report option) list" where
  "times_loop [] sysconf_ans clktck = []"
| "times_loop ((start, s, stop) # cs) sysconf_ans clktck =
     (case do_cmd start s stop sysconf_ans clktck of (r, clktck') \<Rightarrow> r # times_loop cs sysconf_ans clktck')"

lemma times_reports:
  assumes "list_all (\<lambda>(start, f, stop). possible f) cs"
  shows "map snd (times_loop (map (\<lambda>(start, f, stop). (start, encode f, stop)) cs) n clktck) = map (\<lambda>(start, f, stop). Some (report f)) cs"
  using assms by (induction cs arbitrary: clktck) (auto simp: do_cmd_def pr_times_def pr_exit_copies pr_exit_encode Let_def)

section \<open>Counting until a deadline\<close>

record timeval =
  tv_sec :: int
  tv_usec :: int

definition usecs :: "timeval \<Rightarrow> int" where
  "usecs tv = tv_sec tv * 1000000 + tv_usec tv"

definition valid_time :: "timeval \<Rightarrow> bool" where
  "valid_time tv \<longleftrightarrow> 0 \<le> tv_usec tv \<and> tv_usec tv < 1000000"

text \<open>Whether \<open>checktime\<close> prints the count and exits.\<close>

definition checktime :: "timeval \<Rightarrow> timeval \<Rightarrow> bool" where
  "checktime stop tv \<longleftrightarrow> tv_sec tv \<ge> tv_sec stop \<and> tv_usec tv \<ge> tv_usec stop"

definition nice_end :: "timeval \<Rightarrow> timeval" where
  "nice_end now = now\<lparr>tv_sec := tv_sec now + 10\<rparr>"

text \<open>The loop of \<open>main\<close> in \<open>nice.c\<close> on the times \<open>gettimeofday\<close> returns: the count, 64 bits wide, and how often it wrapped.\<close>

fun nice_loop :: "timeval \<Rightarrow> timeval list \<Rightarrow> 64 word \<Rightarrow> nat \<Rightarrow> (64 word \<times> nat) option" where
  "nice_loop stop [] cnt wraps = None"
| "nice_loop stop (tv # tvs) cnt wraps =
     (let cnt1 = cnt + 1; wraps1 = (if cnt1 = 0 then Suc wraps else wraps) in
      if checktime stop tv then Some (cnt1, wraps1) else nice_loop stop tvs cnt1 wraps1)"

definition count_range :: nat where "count_range = 2 ^ 64"

lemma count_step:
  "nice_loop stop (tv # tvs) (of_nat k) (k div count_range) = (if checktime stop tv then Some (of_nat (Suc k), Suc k div count_range)
    else nice_loop stop tvs (of_nat (Suc k)) (Suc k div count_range))"
proof -
  have "(of_nat (Suc k) :: 64 word) = 0 \<longleftrightarrow> Suc k mod count_range = 0"
    using word_of_nat_eq_0_iff [of "Suc k", where 'a = 64] by (simp add: mod_eq_0_iff_dvd count_range_def del: of_nat_Suc)
  then have "(if (of_nat (Suc k) :: 64 word) = 0 then Suc (k div count_range) else k div count_range) = Suc k div count_range"
    by (simp only: div_Suc)
  moreover have "(of_nat k + 1 :: 64 word) = of_nat (Suc k)" by (simp add: add.commute)
  ultimately show ?thesis by (simp only: nice_loop.simps Let_def)
qed

lemma nice_loop_from:
  "nice_loop stop tvs (of_nat k) (k div count_range) = (if \<exists>tv\<in>set tvs. checktime stop tv
    then (let n = k + Suc (length (takeWhile (\<lambda>tv. \<not> checktime stop tv) tvs)) in Some (of_nat n, n div count_range)) else None)"
proof (induction tvs arbitrary: k)
  case (Cons tv tvs)
  show ?case
  proof (cases "checktime stop tv")
    case True
    then show ?thesis by (subst count_step) simp
  next
    case False
    then show ?thesis using Cons.IH [of "Suc k"] by (subst count_step) (simp add: Let_def del: of_nat_Suc)
  qed
qed simp

text \<open>The count a process prints is the number of its turns up to the first one that finds the time over, modulo
  2 to the 64, and the wraps it has reported are the quotient.\<close>
theorem nice_loop_counts:
  "nice_loop stop tvs 0 0 = (if \<exists>tv\<in>set tvs. checktime stop tv
    then (let n = Suc (length (takeWhile (\<lambda>tv. \<not> checktime stop tv) tvs)) in Some (of_nat n, n div count_range)) else None)"
  using nice_loop_from [of stop tvs 0] by simp

text \<open>\<open>checktime\<close> compares seconds and microseconds separately. It never stops early, but it can miss the deadline: at a later
  time whose microseconds are smaller it goes on. It stops less than a second after any such time.\<close>
theorem checktime_late:
  assumes "valid_time stop" "valid_time tv"
  shows "(checktime stop tv \<longrightarrow> usecs stop \<le> usecs tv) \<and>
    (usecs stop \<le> usecs tv \<and> \<not> checktime stop tv \<longleftrightarrow> tv_sec stop < tv_sec tv \<and> tv_usec tv < tv_usec stop) \<and>
    (usecs stop \<le> usecs tv \<longrightarrow> (\<exists>tv'. valid_time tv' \<and> usecs tv \<le> usecs tv' \<and> usecs tv' < usecs tv + 1000000 \<and> checktime stop tv'))"
proof -
  have order: "usecs stop \<le> usecs tv \<longleftrightarrow> tv_sec stop < tv_sec tv \<or> tv_sec stop = tv_sec tv \<and> tv_usec stop \<le> tv_usec tv"
    using assms by (auto simp: usecs_def valid_time_def)
  have "\<exists>tv'. valid_time tv' \<and> usecs tv \<le> usecs tv' \<and> usecs tv' < usecs tv + 1000000 \<and> checktime stop tv'" if late: "usecs stop \<le> usecs tv"
  proof (cases "checktime stop tv")
    case True
    then show ?thesis using assms(2) by (intro exI [of _ tv]) simp
  next
    case False
    then have "tv_sec stop < tv_sec tv" "tv_usec tv < tv_usec stop" using late order by (auto simp: checktime_def)
    then show ?thesis using assms by (intro exI [of _ "tv\<lparr>tv_usec := tv_usec stop\<rparr>"]) (auto simp: usecs_def valid_time_def checktime_def)
  qed
  then show ?thesis using order by (auto simp: checktime_def)
qed

theorem checktime_late_witness:
  "\<not> checktime \<lparr>tv_sec = 10, tv_usec = 900000\<rparr> \<lparr>tv_sec = 11, tv_usec = 0\<rparr> \<and>
   usecs \<lparr>tv_sec = 10, tv_usec = 900000\<rparr> < usecs \<lparr>tv_sec = 11, tv_usec = 0\<rparr>"
  using checktime_late [of "\<lparr>tv_sec = 10, tv_usec = 900000\<rparr>" "\<lparr>tv_sec = 11, tv_usec = 0\<rparr>"]
  by (simp add: valid_time_def usecs_def)

section \<open>The processes of \<open>nice.c\<close>\<close>

text \<open>The lines before the counting, and the name a process counts under, which is not set when \<open>fork\<close> fails. \<open>cur\<close> is the nice value, \<open>nice_ans\<close> the answer to the
  change, \<open>None\<close> for an error; \<open>strtol\<close> reads the number as \<open>atoi\<close> does.\<close>

datatype nice_line = Nzero int | Fork_failed | Child_now int int | Not_changed | Child_after int | Parent_now int

definition nice_start :: "string list \<Rightarrow> int \<Rightarrow> int \<Rightarrow> int \<Rightarrow> int option \<Rightarrow> nice_line list \<times> string option" where
  "nice_start argv nzero pid cur nice_ans = (
     let adj = (if length argv = 2 then atoi (argv ! 1) else 0) in
     if pid < 0 then ([Nzero nzero, Fork_failed], None)
     else if pid = 0 then
       (let ret = (case nice_ans of None \<Rightarrow> - 1 | Some v \<Rightarrow> v) in
        ([Nzero nzero, Child_now (cur + nzero) adj] @ (if nice_ans = None then [Not_changed] else []) @ [Child_after (ret + nzero)], Some ''child''))
     else ([Nzero nzero, Parent_now (cur + nzero)], Some ''parent''))"

text \<open>The whole process: the lines, and the name, the count and the number of wraps it prints at its end. Without a name the last line has no meaning.\<close>

definition nice_main :: "string list \<Rightarrow> int \<Rightarrow> int \<Rightarrow> int \<Rightarrow> int option \<Rightarrow> timeval \<Rightarrow> timeval list \<Rightarrow> (nice_line list \<times> string \<times> 64 word \<times> nat) option" where
  "nice_main argv nzero pid cur nice_ans now tvs = (case nice_start argv nzero pid cur nice_ans of
       (ls, None) \<Rightarrow> None
     | (ls, Some s) \<Rightarrow> map_option (\<lambda>(cnt, wraps). (ls, s, cnt, wraps)) (nice_loop (nice_end now) tvs 0 0))"

text \<open>Parent and child count the same readings of the clock; the child reports the nice value its argument asks for.\<close>

lemma nice_main_child:
  assumes "tvs \<noteq> []" "checktime (nice_end now) (last tvs)" "list_all (\<lambda>tv. \<not> checktime (nice_end now) tv) (butlast tvs)"
  shows "nice_main [prog, dec_int adj] nzero 0 cur (Some (cur + adj)) now tvs =
    Some ([Nzero nzero, Child_now (cur + nzero) adj, Child_after (cur + adj + nzero)], ''child'', of_nat (length tvs), length tvs div count_range)"
proof -
  have "takeWhile (\<lambda>tv. \<not> checktime (nice_end now) tv) (butlast tvs @ [last tvs]) = butlast tvs"
    using assms(2,3) by (simp add: takeWhile_tail list_all_iff takeWhile_append2)
  then have "takeWhile (\<lambda>tv. \<not> checktime (nice_end now) tv) tvs = butlast tvs" using assms(1) by simp
  moreover have "\<exists>tv\<in>set tvs. checktime (nice_end now) tv" using assms(1,2) by auto
  moreover have "Suc (length (butlast tvs)) = length tvs" using assms(1) by simp
  ultimately show ?thesis using nice_loop_from [of "nice_end now" tvs 0] atoi_dec_int [of "[]" adj] by (simp add: nice_main_def nice_start_def Let_def)
qed

end
