(* ===== verification/Signal_Masks.thy ===== *)
theory Signal_Masks
  imports Event_Loop
begin

text \<open>
  Signal masks across handlers and jumps: \<open>apue/sigsetjmp.c\<close>, where a handler leaves by \<open>siglongjmp\<close>, and
  \<open>apue/sigsuspend.c\<close>, where a signal is let in only while the process is suspended. A handler that is running is a frame with the mask to
  restore when it returns; while it runs its own signal is blocked. The programs interleave with the arrival of signals. What is
  printed is the label and the mask.
\<close>

datatype usig = Sig_int | Sig_quit | Sig_usr1 | Sig_alrm

text \<open>The labels of the lines the programs print.\<close>

datatype pr_label = Starting_main | Ending_main | Starting_usr1 | Finishing_usr1 | In_alrm |
  Program_start | Critical_region | After_suspend | Program_exit | In_int

definition pr_mask :: "usig set \<Rightarrow> usig list" where
  "pr_mask sigset = filter (\<lambda>s. s \<in> sigset) [Sig_int, Sig_quit, Sig_usr1, Sig_alrm]"

section \<open>Leaving a handler by a jump\<close>

text \<open>The positions of \<open>main\<close>, from the point where both handlers are installed, and of the two handlers.\<close>

datatype sj_main = J_start | J_setjmp | J_arm | J_pause | J_back | J_end

datatype sj_pc = U_enter | U_loop | A_enter

fun frame_sig :: "sj_pc \<Rightarrow> usig" where
  "frame_sig U_enter = Sig_usr1"
| "frame_sig U_loop = Sig_usr1"
| "frame_sig A_enter = Sig_alrm"

record sj_state =
  sj_main :: sj_main
  sj_mask :: "usig set"
  sj_frames :: "(sj_pc \<times> usig set) list"
  canjump :: bool
  jmpbuf :: "usig set option"
  sj_out :: "(pr_label \<times> usig list) list"

definition sj_init :: "usig set \<Rightarrow> sj_state" where
  "sj_init m = \<lparr>sj_main = J_start, sj_mask = m, sj_frames = [], canjump = False, jmpbuf = None, sj_out = []\<rparr>"

definition sj_print :: "pr_label \<Rightarrow> sj_state \<Rightarrow> sj_state" where
  "sj_print str s = s\<lparr>sj_out := sj_out s @ [(str, pr_mask (sj_mask s))]\<rparr>"

definition sj_main_act :: "sj_state \<Rightarrow> sj_state option" where
  "sj_main_act s = (if sj_frames s \<noteq> [] then None
     else (case sj_main s of
         J_start \<Rightarrow> Some ((sj_print Starting_main s)\<lparr>sj_main := J_setjmp\<rparr>)
       | J_setjmp \<Rightarrow> Some (s\<lparr>jmpbuf := Some (sj_mask s), sj_main := J_arm\<rparr>)
       | J_arm \<Rightarrow> Some (s\<lparr>canjump := True, sj_main := J_pause\<rparr>)
       | J_pause \<Rightarrow> None
       | J_back \<Rightarrow> Some ((sj_print Ending_main s)\<lparr>sj_main := J_end\<rparr>)
       | J_end \<Rightarrow> None))"

text \<open>The return of a handler, and \<open>siglongjmp\<close>: all frames are dropped and the saved mask is installed. A jump to a buffer that
  \<open>sigsetjmp\<close> has not filled is a fault.\<close>

definition sj_return :: "usig set \<Rightarrow> (sj_pc \<times> usig set) list \<Rightarrow> sj_state \<Rightarrow> sj_state" where
  "sj_return saved fs s = s\<lparr>sj_mask := saved, sj_frames := fs\<rparr>"

definition siglongjmp :: "sj_state \<Rightarrow> sj_state option" where
  "siglongjmp s = map_option (\<lambda>m. s\<lparr>sj_mask := m, sj_frames := [], sj_main := J_back\<rparr>) (jmpbuf s)"

text \<open>The handler on top; \<open>over\<close> tells whether the clock has passed the time \<open>sig_usr1\<close> waits for.\<close>

definition sj_handler_act :: "bool \<Rightarrow> sj_state \<Rightarrow> sj_state option" where
  "sj_handler_act over s = (case sj_frames s of
     [] \<Rightarrow> None
   | (U_enter, saved) # fs \<Rightarrow>
       if \<not> canjump s then Some (sj_return saved fs s)
       else Some ((sj_print Starting_usr1 s)\<lparr>sj_frames := (U_loop, saved) # fs\<rparr>)
   | (U_loop, saved) # fs \<Rightarrow>
       if \<not> over then Some s
       else siglongjmp ((sj_print Finishing_usr1 s)\<lparr>canjump := False\<rparr>)
   | (A_enter, saved) # fs \<Rightarrow> Some (sj_return saved fs (sj_print In_alrm s)))"

definition sj_deliver :: "sj_pc \<Rightarrow> sj_state \<Rightarrow> sj_state" where
  "sj_deliver h s = s\<lparr>sj_frames := (h, sj_mask s) # sj_frames s, sj_mask := insert (frame_sig h) (sj_mask s)\<rparr>"

inductive sj_step :: "sj_state \<Rightarrow> sj_state \<Rightarrow> bool" where
  main: "sj_main_act s = Some s' \<Longrightarrow> sj_step s s'"
| handler: "sj_handler_act over s = Some s' \<Longrightarrow> sj_step s s'"
| signal: "h \<in> {U_enter, A_enter} \<Longrightarrow> frame_sig h \<notin> sj_mask s \<Longrightarrow> sj_main s \<noteq> J_end \<Longrightarrow> sj_step s (sj_deliver h s)"

text \<open>The frames on the stack account for the mask, frame by frame.\<close>

fun frames_ok :: "usig set \<Rightarrow> (sj_pc \<times> usig set) list \<Rightarrow> usig set \<Rightarrow> bool" where
  "frames_ok b [] m \<longleftrightarrow> m = b"
| "frames_ok b ((h, saved) # fs) m \<longleftrightarrow> m = insert (frame_sig h) saved \<and> frame_sig h \<notin> saved \<and> frames_ok b fs saved"

lemma frames_ok_sigs: "frames_ok b fs m \<Longrightarrow> frame_sig ` fst ` set fs \<subseteq> m"
  by (induction b fs m rule: frames_ok.induct) auto

definition outer_line :: "usig set \<Rightarrow> pr_label \<times> usig list \<Rightarrow> bool" where
  "outer_line b l \<longleftrightarrow> (fst l \<in> {Starting_main, Ending_main} \<longrightarrow> snd l = pr_mask b)"

definition sj_inv :: "usig set \<Rightarrow> sj_state \<Rightarrow> bool" where
  "sj_inv b s \<longleftrightarrow> frames_ok b (sj_frames s) (sj_mask s) \<and>
     (canjump s \<longrightarrow> jmpbuf s \<noteq> None) \<and> (\<forall>m. jmpbuf s = Some m \<longrightarrow> m = b) \<and>
     (sj_main s \<in> {J_start, J_setjmp} \<longrightarrow> \<not> canjump s) \<and> (sj_main s = J_arm \<longrightarrow> jmpbuf s \<noteq> None) \<and>
     (U_loop \<in> fst ` set (sj_frames s) \<longrightarrow> canjump s) \<and> list_all (outer_line b) (sj_out s)"

lemma sj_inv_main: "sj_inv b s \<Longrightarrow> sj_main_act s = Some s' \<Longrightarrow> sj_inv b s'"
  by (cases "sj_main s"; clarsimp simp: sj_inv_def sj_main_act_def sj_print_def outer_line_def split: if_splits)

lemma sj_inv_handler:
  assumes "sj_inv b s" "sj_handler_act over s = Some s'"
  shows "sj_inv b s'"
proof -
  obtain h saved fs where f: "sj_frames s = (h, saved) # fs"
    using assms(2) by (auto simp: sj_handler_act_def split: list.splits)
  have loop: "h = U_loop \<Longrightarrow> U_loop \<notin> fst ` set fs"
    using assms(1) f frames_ok_sigs [of b fs saved] by (force simp: sj_inv_def)
  show ?thesis
    using assms f loop by (cases h; clarsimp simp: sj_inv_def sj_handler_act_def sj_return_def siglongjmp_def sj_print_def outer_line_def split: if_splits; blast?)
qed

lemma sj_inv_step: "sj_step s s' \<Longrightarrow> sj_inv b s \<Longrightarrow> sj_inv b s'"
proof (induction rule: sj_step.induct)
  case (signal h s)
  then show ?case by (cases h) (simp_all add: sj_inv_def sj_deliver_def)
qed (blast intro: sj_inv_main sj_inv_handler)+

interpretation sj: transition_system "\<lambda>s. s = sj_init b" sj_step "sj_inv b" for b
proof unfold_locales
  show "sj_inv b s" if "s = sj_init b" for s using that by (simp add: sj_init_def sj_inv_def)
qed (rule sj_inv_step)

text \<open>C38: Whatever signals arrive, and whether the handlers return or jump: \<open>main\<close> ends with the mask it started with, the jump is taken
  only after \<open>sigsetjmp\<close>, and while a handler runs its signal is blocked, so that it is never nested in itself.\<close>
theorem sigsetjmp_restores_mask:
  assumes "sj_step\<^sup>*\<^sup>* (sj_init b) s"
  shows "(sj_frames s = [] \<longrightarrow> sj_mask s = b) \<and> (sj_frames s \<noteq> [] \<longrightarrow> (\<exists>s'. sj_handler_act True s = Some s')) \<and>
    (\<forall>m. (Ending_main, m) \<in> set (sj_out s) \<longrightarrow> m = pr_mask b) \<and> distinct (map (frame_sig \<circ> fst) (sj_frames s))"
proof -
  have inv: "sj_inv b s" using sj.reachable_inv [OF refl assms] .
  have "frames_ok b fs m \<Longrightarrow> distinct (map (frame_sig \<circ> fst) fs)" for fs m
  proof (induction b fs m rule: frames_ok.induct)
    case (2 b h saved fs m)
    then show ?case using frames_ok_sigs [of b fs saved] by auto
  qed simp
  moreover have "sj_handler_act True s \<noteq> None" if "sj_frames s \<noteq> []"
  proof -
    obtain h saved fs where "sj_frames s = (h, saved) # fs" using \<open>sj_frames s \<noteq> []\<close> by (cases "sj_frames s") auto
    then show ?thesis using inv by (cases h) (auto simp: sj_inv_def sj_handler_act_def siglongjmp_def sj_print_def)
  qed
  moreover have "m = pr_mask b" if "(Ending_main, m) \<in> set (sj_out s)" for m
    using inv that by (auto simp: sj_inv_def list_all_iff outer_line_def)
  ultimately show ?thesis using inv by (auto simp: sj_inv_def)
qed

section \<open>Letting a signal in while suspended\<close>

datatype su_main = K_start | K_block | K_critical | K_suspend | K_wait | K_after | K_restore | K_exit | K_end

text \<open>\<open>su_frames\<close>: the masks to restore, one per running \<open>sig_int\<close>.\<close>

record su_state =
  su_main :: su_main
  su_mask :: "usig set"
  su_oldmask :: "usig set"
  su_saved :: "usig set"
  su_frames :: "usig set list"
  su_out :: "(pr_label \<times> usig list) list"

definition su_init :: "usig set \<Rightarrow> su_state" where
  "su_init m = \<lparr>su_main = K_start, su_mask = m, su_oldmask = {}, su_saved = {}, su_frames = [], su_out = []\<rparr>"

definition su_print :: "pr_label \<Rightarrow> su_state \<Rightarrow> su_state" where
  "su_print str s = s\<lparr>su_out := su_out s @ [(str, pr_mask (su_mask s))]\<rparr>"

definition su_main_act :: "su_state \<Rightarrow> su_state option" where
  "su_main_act s = (if su_frames s \<noteq> [] then None
     else (case su_main s of
         K_start \<Rightarrow> Some ((su_print Program_start s)\<lparr>su_main := K_block\<rparr>)
       | K_block \<Rightarrow> Some (s\<lparr>su_oldmask := su_mask s, su_mask := insert Sig_int (su_mask s), su_main := K_critical\<rparr>)
       | K_critical \<Rightarrow> Some ((su_print Critical_region s)\<lparr>su_main := K_suspend\<rparr>)
       | K_suspend \<Rightarrow> Some (s\<lparr>su_saved := su_mask s, su_mask := {Sig_usr1}, su_main := K_wait\<rparr>)
       | K_wait \<Rightarrow> None
       | K_after \<Rightarrow> Some ((su_print After_suspend s)\<lparr>su_main := K_restore\<rparr>)
       | K_restore \<Rightarrow> Some (s\<lparr>su_mask := su_oldmask s, su_main := K_exit\<rparr>)
       | K_exit \<Rightarrow> Some ((su_print Program_exit s)\<lparr>su_main := K_end\<rparr>)
       | K_end \<Rightarrow> None))"

text \<open>The arrival of \<open>SIGINT\<close>. In \<open>sigsuspend\<close> the frame restores the mask of before the call, and the call returns behind the handler.\<close>

definition su_deliver :: "su_state \<Rightarrow> su_state option" where
  "su_deliver s = (if Sig_int \<in> su_mask s \<or> su_main s = K_end then None
     else if su_main s = K_wait
       then Some (s\<lparr>su_frames := su_saved s # su_frames s, su_mask := insert Sig_int (su_mask s), su_main := K_after\<rparr>)
       else Some (s\<lparr>su_frames := su_mask s # su_frames s, su_mask := insert Sig_int (su_mask s)\<rparr>))"

definition sig_int :: "su_state \<Rightarrow> su_state option" where
  "sig_int s = (case su_frames s of [] \<Rightarrow> None
   | saved # fs \<Rightarrow> Some ((su_print In_int s)\<lparr>su_mask := saved, su_frames := fs\<rparr>))"

inductive su_step :: "su_state \<Rightarrow> su_state \<Rightarrow> bool" where
  main: "su_main_act s = Some s' \<Longrightarrow> su_step s s'"
| handler: "sig_int s = Some s' \<Longrightarrow> su_step s s'"
| signal: "su_deliver s = Some s' \<Longrightarrow> su_step s s'"

text \<open>The mask that belongs to a position of \<open>main\<close>, no handler running.\<close>

fun su_base :: "usig set \<Rightarrow> su_main \<Rightarrow> usig set" where
  "su_base b K_wait = {Sig_usr1}"
| "su_base b p = (if p \<in> {K_critical, K_suspend, K_after, K_restore} then insert Sig_int b else b)"

definition su_line :: "usig set \<Rightarrow> pr_label \<times> usig list \<Rightarrow> bool" where
  "su_line b l \<longleftrightarrow> (fst l \<in> {Program_start, Program_exit} \<longrightarrow> snd l = pr_mask b) \<and>
     (fst l \<in> {Critical_region, After_suspend} \<longrightarrow> snd l = pr_mask (insert Sig_int b)) \<and>
     (fst l = In_int \<longrightarrow> Sig_int \<in> set (snd l))"

definition su_inv :: "usig set \<Rightarrow> su_state \<Rightarrow> bool" where
  "su_inv b s \<longleftrightarrow> (su_frames s = [] \<and> su_mask s = su_base b (su_main s) \<or>
       su_frames s = [su_base b (su_main s)] \<and> Sig_int \<in> su_mask s \<and> su_main s \<notin> {K_critical, K_suspend, K_restore}) \<and>
     (su_main s \<notin> {K_start, K_block} \<longrightarrow> su_oldmask s = b) \<and> (su_main s = K_wait \<longrightarrow> su_saved s = insert Sig_int b \<and> su_frames s = []) \<and>
     list_all (su_line b) (su_out s)"

lemma su_inv_step: "su_step s s' \<Longrightarrow> su_inv b s \<Longrightarrow> su_inv b s'"
proof (induction rule: su_step.induct)
  case (main s s')
  then have f: "su_frames s = []" by (auto simp: su_main_act_def split: if_splits)
  with main show ?case by (cases "su_main s"; clarsimp simp: su_inv_def su_main_act_def su_print_def su_line_def)
next
  case (handler s s')
  then obtain m where f: "su_frames s = [m]" by (auto simp: sig_int_def su_inv_def split: list.splits)
  with handler show ?case by (cases "su_main s"; clarsimp simp: su_inv_def sig_int_def su_print_def su_line_def pr_mask_def)
next
  case (signal s s')
  then have f: "su_frames s = []" "su_mask s = su_base b (su_main s)" by (auto simp: su_deliver_def su_inv_def split: if_splits)
  with signal show ?case by (cases "su_main s"; clarsimp simp: su_inv_def su_deliver_def split: if_splits)
qed

interpretation su: transition_system "\<lambda>s. s = su_init b" su_step "su_inv b" for b
proof unfold_locales
  show "su_inv b s" if "s = su_init b" for s using that by (simp add: su_init_def su_inv_def)
qed (rule su_inv_step)

text \<open>However often and whenever \<open>SIGINT\<close> arrives: no handler runs in the critical region or on the way from it into
  \<open>sigsuspend\<close>, the region's mask is back when \<open>sigsuspend\<close> returns, and the program ends with the mask it started with.\<close>
theorem sigsuspend_protects_region:
  assumes "su_step\<^sup>*\<^sup>* (su_init b) s"
  shows "(su_main s \<in> {K_critical, K_suspend, K_restore} \<longrightarrow> su_frames s = [] \<and> su_mask s = insert Sig_int b) \<and>
    (\<forall>m. (After_suspend, m) \<in> set (su_out s) \<longrightarrow> m = pr_mask (insert Sig_int b)) \<and>
    (\<forall>m. (Program_exit, m) \<in> set (su_out s) \<longrightarrow> m = pr_mask b) \<and> length (su_frames s) \<le> 1"
  using su.reachable_inv [OF refl assms] by (auto simp: su_inv_def list_all_iff su_line_def)

section \<open>Witnesses\<close>

datatype sig_event = Ev_main | Ev_handler | Ev_usr1 | Ev_alrm | Ev_int

fun sj_do :: "sig_event \<Rightarrow> sj_state \<Rightarrow> sj_state option" where
  "sj_do Ev_main s = sj_main_act s"
| "sj_do Ev_handler s = sj_handler_act True s"
| "sj_do Ev_usr1 s = (if Sig_usr1 \<in> sj_mask s \<or> sj_main s = J_end then None else Some (sj_deliver U_enter s))"
| "sj_do Ev_alrm s = (if Sig_alrm \<in> sj_mask s \<or> sj_main s = J_end then None else Some (sj_deliver A_enter s))"
| "sj_do Ev_int s = None"

fun su_do :: "sig_event \<Rightarrow> su_state \<Rightarrow> su_state option" where
  "su_do Ev_main s = su_main_act s"
| "su_do Ev_handler s = sig_int s"
| "su_do _ s = su_deliver s"

lemma sj_do_step: "sj_do e s = Some s' \<Longrightarrow> sj_step s s'"
  using sj_step.signal [of U_enter s] sj_step.signal [of A_enter s]
  by (cases e) (auto intro: sj_step.main sj_step.handler split: if_splits)

lemma su_do_step: "su_do e s = Some s' \<Longrightarrow> su_step s s'"
  by (cases e) (auto intro: su_step.intros)

text \<open>\<open>SIGUSR1\<close> arrives, then \<open>SIGALRM\<close> inside its handler, and the handler jumps; and a \<open>SIGINT\<close> in \<open>sigsuspend\<close>.\<close>

definition sj_demo :: sj_state where
  "sj_demo = the (run_events sj_do [Ev_main, Ev_main, Ev_main, Ev_usr1, Ev_handler, Ev_alrm, Ev_handler, Ev_handler, Ev_main] (sj_init {Sig_quit}))"

definition su_demo :: su_state where
  "su_demo = the (run_events su_do [Ev_main, Ev_main, Ev_main, Ev_main, Ev_int, Ev_handler, Ev_main, Ev_main, Ev_main] (su_init {Sig_quit}))"

lemma sj_demo_reached: "sj_step\<^sup>*\<^sup>* (sj_init {Sig_quit}) sj_demo"
  by (rule run_events_reaches [where act = sj_do and es = "[Ev_main, Ev_main, Ev_main, Ev_usr1, Ev_handler, Ev_alrm, Ev_handler, Ev_handler, Ev_main]"])
    (erule sj_do_step | simp add: sj_demo_def sj_main_act_def sj_handler_act_def sj_init_def sj_print_def sj_deliver_def sj_return_def siglongjmp_def)+

lemma su_demo_reached: "su_step\<^sup>*\<^sup>* (su_init {Sig_quit}) su_demo"
  by (rule run_events_reaches [where act = su_do and es = "[Ev_main, Ev_main, Ev_main, Ev_main, Ev_int, Ev_handler, Ev_main, Ev_main, Ev_main]"])
    (erule su_do_step | simp add: su_demo_def su_main_act_def sig_int_def su_init_def su_print_def su_deliver_def)+

theorem sigsetjmp_restores_mask_witness:
  "(Ending_main, [Sig_quit]) \<in> set (sj_out sj_demo) \<and> (In_alrm, [Sig_quit, Sig_usr1, Sig_alrm]) \<in> set (sj_out sj_demo) \<and>
   sj_frames sj_demo = [] \<and> sj_mask sj_demo = {Sig_quit}"
  using sigsetjmp_restores_mask [OF sj_demo_reached]
  by (simp add: sj_demo_def sj_main_act_def sj_handler_act_def sj_init_def sj_print_def sj_deliver_def sj_return_def siglongjmp_def pr_mask_def)

theorem sigsuspend_protects_region_witness:
  "(After_suspend, [Sig_int, Sig_quit]) \<in> set (su_out su_demo) \<and> (Program_exit, [Sig_quit]) \<in> set (su_out su_demo) \<and> length (su_frames su_demo) \<le> 1"
  using sigsuspend_protects_region [OF su_demo_reached]
  by (simp add: su_demo_def su_main_act_def sig_int_def su_init_def su_print_def su_deliver_def pr_mask_def)

end
