(* ===== verification/Io_Demos.thy ===== *)
theory Io_Demos
  imports Event_Loop C_String "HOL-Library.Monad_Syntax"
begin

text \<open>
  Programs that move bytes: the copies of \<open>apue/rw.c\<close> (by \<open>read\<close> and \<open>write\<close>) and \<open>apue/mmap.c\<close> (by mapping both files), the
  zero copy programs \<open>socket/zero_copy/zc_tee.c\<close> and \<open>zc_splice.c\<close>, the server \<open>socket/io_multiplexing/io_select.c\<close> for normal and
  urgent data, its variant \<open>socket/signal/sigurg_oob.c\<close> with a signal handler, and the passing of a descriptor in
  \<open>socket/ipc/socketpair.c\<close>.
\<close>

section \<open>Copying by read and write\<close>

datatype rw_end = Rw_done | Rw_write_error | Rw_read_error

text \<open>Answers of \<open>read\<close>: the bytes, none of them at the end of the file, or \<open>None\<close> for -1; answers of \<open>write\<close>: the number
  of bytes taken, or a negative number. The result is what has been written.\<close>

fun rw_loop :: "string option list \<Rightarrow> int list \<Rightarrow> string \<Rightarrow> (rw_end \<times> string) option" where
  "rw_loop (None # rs) ws out = Some (Rw_read_error, out)"
| "rw_loop (Some buf # rs) ws out =
     (if buf = [] then Some (Rw_done, out)
      else (case ws of
          [] \<Rightarrow> None
        | w # ws' \<Rightarrow> if w \<noteq> int (length buf) then Some (Rw_write_error, out @ take (nat w) buf) else rw_loop rs ws' (out @ buf)))"
| "rw_loop [] ws out = None"

text \<open>The bytes of a file that is read to its end, and a sequence of successful writes for them.\<close>

definition read_script :: "string list \<Rightarrow> string option list" where
  "read_script bufs = map Some bufs @ [Some []]"

definition write_script :: "string list \<Rightarrow> int list" where
  "write_script bufs = map (int \<circ> length) bufs"

lemma rw_loop_copies:
  "[] \<notin> set bufs \<Longrightarrow> rw_loop (map Some bufs @ rs) (write_script bufs @ ws) out = rw_loop rs ws (out @ concat bufs)"
  by (induction bufs arbitrary: out) (auto simp: write_script_def)

text \<open>A file is copied completely, whatever pieces it is read in; when a \<open>write\<close> takes fewer bytes than it was given, the program says
  so and stops, with exactly the bytes before that point written.\<close>
theorem rw_copies:
  assumes "[] \<notin> set bufs" "buf \<noteq> []" "w \<noteq> int (length buf)"
  shows "rw_loop (read_script bufs) (write_script bufs) [] = Some (Rw_done, concat bufs) \<and>
    rw_loop (map Some bufs @ Some buf # rs) (write_script bufs @ w # ws) [] = Some (Rw_write_error, concat bufs @ take (nat w) buf) \<and>
    rw_loop (map Some bufs @ None # rs) (write_script bufs @ ws) [] = Some (Rw_read_error, concat bufs)"
  using assms rw_loop_copies [of bufs "[Some []]" "[]"] by (simp add: read_script_def rw_loop_copies)

theorem rw_copies_witness:
  "rw_loop (read_script [''ab'', ''c'']) (write_script [''ab'', ''c'']) [] = Some (Rw_done, ''abc'')"
  using rw_copies [of "[''ab'', ''c'']" "''x''" 0] by simp

section \<open>Copying by mapping\<close>

definition COPYINCR :: nat where "COPYINCR = 1024 * 1024 * 1024"

text \<open>The two files as the mappings show them: \<open>fin\<close> is \<open>None\<close> when it could not be opened. \<open>maps\<close> tells for every offset whether the two calls
  of \<open>mmap\<close> succeed; a failure is only printed and the copy then uses the invalid pointer. Access to a mapping beyond the end of its
  file is a fault too.\<close>

definition mmap_turn :: "string option \<Rightarrow> (nat \<Rightarrow> bool \<times> bool) \<Rightarrow> nat \<Rightarrow> nat \<Rightarrow> string \<Rightarrow> string option" where
  "mmap_turn fin maps fsz copysz out = do {
     src \<leftarrow> (if fst (maps fsz) then fin else None);
     if snd (maps fsz) \<and> fsz + copysz \<le> length src \<and> fsz + copysz \<le> length out
     then Some (take fsz out @ take copysz (drop fsz src) @ drop (fsz + copysz) out) else None }"

definition mmap_copysz :: "nat \<Rightarrow> nat \<Rightarrow> nat" where
  "mmap_copysz st_size fsz = (if st_size - fsz > COPYINCR then COPYINCR else st_size - fsz)"

lemma mmap_copysz_le: "fsz < st_size \<Longrightarrow> 0 < mmap_copysz st_size fsz \<and> fsz + mmap_copysz st_size fsz \<le> st_size"
  by (auto simp: mmap_copysz_def COPYINCR_def)

function mmap_loop :: "string option \<Rightarrow> (nat \<Rightarrow> bool \<times> bool) \<Rightarrow> nat \<Rightarrow> nat \<Rightarrow> string \<Rightarrow> nat \<Rightarrow> (string \<times> nat) option" where
  "mmap_loop fin maps st_size fsz out turns =
     (if fsz < st_size then do {
        out' \<leftarrow> mmap_turn fin maps fsz (mmap_copysz st_size fsz) out;
        mmap_loop fin maps st_size (fsz + mmap_copysz st_size fsz) out' (Suc turns) }
      else Some (out, turns))"
  by pat_completeness auto
termination mmap_loop
proof (relation "measure (\<lambda>(fin, maps, st_size, fsz, out, turns). st_size - fsz)", goal_cases)
  case (2 fin maps st_size fsz out turns out')
  then show ?case using mmap_copysz_le [of fsz st_size] by (simp, arith)
qed simp

declare mmap_loop.simps [simp del]

text \<open>\<open>main\<close>: \<open>junk\<close> is what \<open>sbuf\<close> holds when \<open>fstat\<close> fails, which happens when the input could not be opened.\<close>

definition mmap_main :: "string option \<Rightarrow> bool \<Rightarrow> nat \<Rightarrow> (nat \<Rightarrow> bool \<times> bool) \<Rightarrow> (string \<times> nat) option" where
  "mmap_main fin creat_ok junk maps =
     (let st_size = (case fin of None \<Rightarrow> junk | Some src \<Rightarrow> length src) in
      mmap_loop fin maps st_size 0 (if creat_ok then replicate st_size NUL else []) 0)"

lemma mmap_loop_copies:
  assumes "\<forall>i. maps i = (True, True)" "fsz \<le> length src" "length out = length src" "take fsz out = take fsz src"
  shows "mmap_loop (Some src) maps (length src) fsz out turns =
    Some (src, turns + (length src - fsz + COPYINCR - 1) div COPYINCR)"
  using assms
proof (induction "length src - fsz" arbitrary: fsz out turns rule: less_induct)
  case less
  show ?case
  proof (cases "fsz < length src")
    case True
    define n where "n = mmap_copysz (length src) fsz"
    define out' where "out' = take fsz out @ take n (drop fsz src) @ drop (fsz + n) out"
    have n: "0 < n" "fsz + n \<le> length src" using mmap_copysz_le [OF True] by (simp_all add: n_def)
    have len: "length out' = length src" using n less.prems(3) by (simp add: out'_def)
    have tk: "take (fsz + n) out' = take (fsz + n) src" using n less.prems(2-4) by (simp add: out'_def take_add)
    have "mmap_loop (Some src) maps (length src) fsz out turns = mmap_loop (Some src) maps (length src) (fsz + n) out' (Suc turns)"
      using True n less.prems by (subst mmap_loop.simps) (simp add: mmap_turn_def n_def [symmetric] out'_def)
    also have "\<dots> = Some (src, Suc turns + (length src - (fsz + n) + COPYINCR - 1) div COPYINCR)"
      by (rule less.hyps) (use n tk len less.prems(1) True in simp_all)
    also have "Suc turns + (length src - (fsz + n) + COPYINCR - 1) div COPYINCR = turns + (length src - fsz + COPYINCR - 1) div COPYINCR"
    proof (cases "length src - fsz > COPYINCR")
      case True
      then have "length src - fsz + COPYINCR - 1 = (length src - (fsz + n) + COPYINCR - 1) + COPYINCR" by (simp add: n_def mmap_copysz_def)
      then show ?thesis by (simp add: COPYINCR_def)
    next
      case False
      then have "length src - (fsz + n) = 0" by (simp add: n_def mmap_copysz_def)
      moreover have "(length src - fsz + COPYINCR - 1) div COPYINCR = 1"
        using True False by (intro div_nat_eqI) (simp_all add: COPYINCR_def)
      ultimately show ?thesis by (simp add: COPYINCR_def)
    qed
    finally show ?thesis .
  next
    case False
    then show ?thesis using less.prems by (subst mmap_loop.simps) (simp add: COPYINCR_def)
  qed
qed

text \<open>When the mappings succeed, the copy is the file, whatever its size, in as many turns as it has pieces of one gigabyte; without an
  input file, or when its first mapping fails, the program faults on a file that is not empty.\<close>
theorem mmap_copies:
  assumes "\<forall>i. maps i = (True, True)"
  shows "mmap_main (Some src) True junk maps = Some (src, (length src + COPYINCR - 1) div COPYINCR) \<and>
    (0 < junk \<longrightarrow> mmap_main None True junk maps = None) \<and>
    (src \<noteq> [] \<longrightarrow> mmap_main (Some src) True junk (maps(0 := (False, ok))) = None)"
proof (intro conjI impI)
  show "mmap_main (Some src) True junk maps = Some (src, (length src + COPYINCR - 1) div COPYINCR)"
    using mmap_loop_copies [OF assms, of 0 src "replicate (length src) NUL" 0] by (simp add: mmap_main_def)
  show "mmap_main None True junk maps = None" if "0 < junk"
    using that by (simp add: mmap_main_def mmap_loop.simps [of _ _ _ 0] mmap_turn_def)
  show "mmap_main (Some src) True junk (maps(0 := (False, ok))) = None" if "src \<noteq> []"
    using that by (simp add: mmap_main_def mmap_loop.simps [of _ _ _ 0] mmap_turn_def)
qed

theorem mmap_copies_witness: "mmap_main (Some ''abc'') True 0 (\<lambda>_. (True, True)) = Some (''abc'', 1)"
  using mmap_copies [of "\<lambda>_. (True, True)" "''abc''" 0 True] by (simp add: COPYINCR_def)

section \<open>Zero copy\<close>

text \<open>A \<open>splice\<close> from an empty pipe whose writing end is open waits forever, and \<open>tee\<close> with \<open>SPLICE_F_NONBLOCK\<close> fails on it: both
  programs keep the writing ends of their pipes open. The other answers of \<open>splice\<close> and \<open>tee\<close> are arguments: \<open>None\<close> is -1, which the
  assertions catch.\<close>

datatype zc_end = Zc_ok | Zc_abort | Zc_blocks

definition zc_tee :: "int \<Rightarrow> bool \<Rightarrow> string option \<Rightarrow> nat option \<Rightarrow> nat option \<Rightarrow> nat option \<Rightarrow> zc_end \<times> string \<times> string" where
  "zc_tee filefd pipes_ok input tee_ans file_ans out_ans =
     (if \<not> filefd > 0 \<or> \<not> pipes_ok then (Zc_abort, [], [])
      else (case (input, tee_ans) of
          (Some (c # cs), Some t) \<Rightarrow>
            (let copied = take t (c # cs) in
             if copied = [] then (Zc_blocks, [], [])
             else (case file_ans of
                 None \<Rightarrow> (Zc_abort, [], [])
               | Some f \<Rightarrow> (case out_ans of
                     None \<Rightarrow> (Zc_abort, take f copied, [])
                   | Some n \<Rightarrow> (Zc_ok, take f copied, take n (c # cs)))))
        | _ \<Rightarrow> (Zc_abort, [], [])))"

definition zc_splice :: "string option \<Rightarrow> nat option \<Rightarrow> zc_end \<times> string" where
  "zc_splice received sent = (case received of
     None \<Rightarrow> (Zc_abort, [])
   | Some bs \<Rightarrow> if bs = [] then (Zc_blocks, [])
       else (case sent of None \<Rightarrow> (Zc_abort, []) | Some n \<Rightarrow> (Zc_ok, take n bs)))"

text \<open>One piece of input reaches the file and the terminal, and comes back to the client; no input at all is not handled: the tee program
  aborts on an empty input, and the echo program never ends when its client closes without having sent anything.\<close>
theorem zero_copy_one_piece:
  assumes "input \<noteq> []" "length input \<le> t" "length input \<le> f" "length input \<le> n" "0 < filefd"
  shows "zc_tee filefd True (Some input) (Some t) (Some f) (Some n) = (Zc_ok, input, input) \<and> zc_splice (Some input) (Some n) = (Zc_ok, input) \<and>
    fst (zc_tee filefd True (Some []) (Some t) (Some f) (Some n)) = Zc_abort \<and> fst (zc_splice (Some []) (Some n)) = Zc_blocks"
  using assms by (cases input) (auto simp: zc_tee_def zc_splice_def Let_def)

theorem zero_copy_one_piece_witness:
  "zc_tee 3 True (Some ''ab'') (Some 2) (Some 2) (Some 2) = (Zc_ok, ''ab'', ''ab'') \<and> fst (zc_splice (Some []) (Some 2)) = Zc_blocks"
  using zero_copy_one_piece [of "''ab''" 2 2 2 3] by simp

section \<open>Normal and urgent data\<close>

text \<open>A line the programs print: the number of bytes, and the text up to the first NUL.\<close>

datatype oob_line = Normal_line int string | Urgent_line int string

datatype sel_ans = Sel_fail | Sel bool bool

definition recv_line :: "(int \<Rightarrow> string \<Rightarrow> oob_line) \<Rightarrow> string option \<Rightarrow> oob_line" where
  "recv_line f r = (case r of None \<Rightarrow> f (- 1) [] | Some bs \<Rightarrow> f (int (length bs)) (cstr bs))"

text \<open>The loop of \<open>io_select.c\<close>: in every turn the answer of \<open>select\<close> (the descriptor is in the read set, in the exception set) and of the
  \<open>recv\<close> that follows. The first component of the result tells whether the loop has been left.\<close>

fun io_select_loop :: "(sel_ans \<times> string option) list \<Rightarrow> oob_line list \<Rightarrow> bool \<times> oob_line list" where
  "io_select_loop [] ls = (False, ls)"
| "io_select_loop ((Sel_fail, r) # as) ls = (True, ls)"
| "io_select_loop ((Sel readable urgent, r) # as) ls =
     (if readable then
        (if r = None then (True, ls) else io_select_loop as (ls @ [recv_line Normal_line r]))
      else if urgent then
        (if r = None \<or> r = Some [] then (True, ls) else io_select_loop as (ls @ [recv_line Urgent_line r]))
      else io_select_loop as ls)"

text \<open>\<open>sigurg_oob.c\<close>: the answers to the \<open>recv\<close> of \<open>main\<close>, and between them the signals with the answer to the \<open>recv\<close> of
  \<open>sig_urg\<close>.\<close>

datatype urg_event = Urg "string option" | Rcv "string option"

fun sigurg_loop :: "urg_event list \<Rightarrow> oob_line list \<Rightarrow> bool \<times> oob_line list" where
  "sigurg_loop [] ls = (False, ls)"
| "sigurg_loop (Urg r # es) ls = sigurg_loop es (ls @ [recv_line Urgent_line r])"
| "sigurg_loop (Rcv r # es) ls = (if r = None \<or> r = Some [] then (True, ls) else sigurg_loop es (ls @ [recv_line Normal_line r]))"

definition some_data :: "string option \<Rightarrow> bool" where
  "some_data r \<longleftrightarrow> r \<noteq> None \<and> r \<noteq> Some []"

lemma io_select_data:
  "list_all (\<lambda>(u, r). some_data r) as \<Longrightarrow>
   io_select_loop (map (\<lambda>(u, r). (Sel (\<not> u) u, r)) as @ bs) ls =
   io_select_loop bs (ls @ map (\<lambda>(u, r). recv_line (if u then Urgent_line else Normal_line) r) as)"
  by (induction as arbitrary: ls) (auto simp: some_data_def)

lemma sigurg_data:
  "list_all (\<lambda>(u, r). some_data r) as \<Longrightarrow>
   sigurg_loop (map (\<lambda>(u, r). if u then Urg r else Rcv r) as @ es) ls =
   sigurg_loop es (ls @ map (\<lambda>(u, r). recv_line (if u then Urgent_line else Normal_line) r) as)"
  by (induction as arbitrary: ls) (auto simp: some_data_def)

lemma io_select_eof: "io_select_loop (replicate k (Sel True u, Some [])) ls = (False, ls @ replicate k (Normal_line 0 []))"
  by (induction k arbitrary: ls) (auto simp: recv_line_def cstr_def)

text \<open>Both programs report the same lines for the same arrivals. They differ at the end of the stream: the signal driven one
  ends, the other one reports zero bytes again and again, because it leaves its loop at an error of \<open>recv\<close> only.\<close>
theorem select_spins_at_eof:
  assumes "list_all (\<lambda>(u, r). some_data r) as"
  defines "ls \<equiv> map (\<lambda>(u, r). recv_line (if u then Urgent_line else Normal_line) r) as"
  shows "sigurg_loop (map (\<lambda>(u, r). if u then Urg r else Rcv r) as @ [Rcv (Some [])]) [] = (True, ls) \<and>
    io_select_loop (map (\<lambda>(u, r). (Sel (\<not> u) u, r)) as @ replicate k (Sel True v, Some [])) [] = (False, ls @ replicate k (Normal_line 0 []))"
  using assms by (simp add: io_select_data sigurg_data io_select_eof)

theorem select_spins_at_eof_witness:
  "io_select_loop [(Sel True False, Some ''ab''), (Sel True False, Some []), (Sel True False, Some [])] [] =
    (False, [Normal_line 2 ''ab'', Normal_line 0 [], Normal_line 0 []])"
  using select_spins_at_eof [of "[(False, Some ''ab'')]" 2 False] by (simp add: some_data_def recv_line_def numeral_2_eq_2)

section \<open>Passing a descriptor\<close>

text \<open>The sizes of a \<open>struct cmsghdr\<close> and of a control message with one \<open>int\<close>; the data follow the header. \<open>touch\<close> is an access
  to some bytes of an object of a given size.\<close>

definition CMSGHDR_SIZE :: nat where "CMSGHDR_SIZE = 16"

definition CONTROL_LEN :: nat where "CONTROL_LEN = CMSGHDR_SIZE + 4"

definition touch :: "nat \<Rightarrow> nat \<Rightarrow> nat \<Rightarrow> unit option" where
  "touch room off len = (if off + len \<le> room then Some () else None)"

text \<open>\<open>cm\<close> and \<open>buf\<close> are the sizes of the two local objects; the source has \<open>CMSGHDR_SIZE\<close> and 0. The message carries the open file behind the
  descriptor.\<close>

definition send_fd :: "nat \<Rightarrow> nat \<Rightarrow> (int \<Rightarrow> 'f option) \<Rightarrow> int \<Rightarrow> 'f option option" where
  "send_fd cm buf fds fd_to_send = do {
     _ \<leftarrow> touch cm CMSGHDR_SIZE 4;
     _ \<leftarrow> touch buf 0 1;
     _ \<leftarrow> touch cm 0 CONTROL_LEN;
     Some (fds fd_to_send) }"

definition recv_fd :: "nat \<Rightarrow> nat \<Rightarrow> int \<Rightarrow> 'f option \<Rightarrow> (int \<Rightarrow> 'f option) \<Rightarrow> (int \<times> (int \<Rightarrow> 'f option)) option" where
  "recv_fd cm buf new msg fds = do {
     _ \<leftarrow> touch buf 0 1;
     _ \<leftarrow> touch cm 0 CONTROL_LEN;
     _ \<leftarrow> touch cm CMSGHDR_SIZE 4;
     f \<leftarrow> msg;
     Some (new, fds(new := Some f)) }"

text \<open>\<open>main\<close>: the child opens the file, or sends its standard input when that fails; the parent's descriptor, and the file it
  reads from.\<close>

definition pass_main :: "nat \<Rightarrow> nat \<Rightarrow> int \<Rightarrow> 'f \<Rightarrow> (int \<Rightarrow> 'f option) \<Rightarrow> int \<Rightarrow> (int \<times> 'f option) option" where
  "pass_main cm buf fd_to_pass file fds new = do {
     let child = (if fd_to_pass \<ge> 0 then fds(fd_to_pass := Some file) else fds);
     msg \<leftarrow> send_fd cm buf child (if fd_to_pass > 0 then fd_to_pass else 0);
     (fd, parent) \<leftarrow> recv_fd cm buf new msg fds;
     Some (fd, parent fd) }"

text \<open>With room for the message the parent reads from the file the child has opened, or from the child's standard input; with the objects of the
  source every run writes behind both of them.\<close>
theorem descriptor_passed_or_overrun:
  assumes "CONTROL_LEN \<le> cm" "1 \<le> buf" "fds 0 = Some tty"
  shows "pass_main cm buf fd_to_pass file fds new = Some (new, Some (if fd_to_pass \<ge> 0 then file else tty)) \<and>
    pass_main CMSGHDR_SIZE buf fd_to_pass file fds new = None \<and> pass_main cm 0 fd_to_pass file fds new = None"
  using assms by (auto simp: pass_main_def send_fd_def recv_fd_def touch_def CONTROL_LEN_def CMSGHDR_SIZE_def)

theorem descriptor_passed_or_overrun_witness:
  "pass_main CONTROL_LEN 1 5 ''test.txt'' [0 \<mapsto> ''tty''] 4 = Some (4, Some ''test.txt'') \<and>
   pass_main CMSGHDR_SIZE 1 5 ''test.txt'' [0 \<mapsto> ''tty''] 4 = None"
  using descriptor_passed_or_overrun [of CONTROL_LEN 1 "[0 \<mapsto> ''tty'']" "''tty''" 5 "''test.txt''" 4] by simp

end
