(* ===== verification/Load_Test.thy ===== *)
theory Load_Test
  imports Stress_Client Web_Server
begin

text \<open>
  The load generator of \<open>socket/test/stress_test.c\<close> against the web server of \<open>socket/pool\<close>: one connection, whose
  end is \<open>cfd\<close> at the generator and \<open>fd\<close> at the server. A round is the five events of one request, in the order
  the two \<open>epoll\<close> loops see them; what one side has sent is what the other side receives.
\<close>

definition written :: "hc_call list \<Rightarrow> string" where
  "written log = concat (map (\<lambda>c. case c of Writev bs \<Rightarrow> bs | _ \<Rightarrow> []) log)"

lemma written_append [simp]: "written (a @ b) = written a @ written b"
  by (simp add: written_def)

definition client_out :: "int \<Rightarrow> nat list \<Rightarrow> st_event" where
  "client_out cfd ans = \<lparr>se_fd = cfd, se_in = False, se_out = True, se_err = False, se_recv = Rv_eof, se_send = ans\<rparr>"

definition client_in :: "int \<Rightarrow> string \<Rightarrow> st_event" where
  "client_in cfd bs = \<lparr>se_fd = cfd, se_in = True, se_out = False, se_err = False, se_recv = Rv_data (take 2048 bs), se_send = []\<rparr>"

definition server_in :: "int \<Rightarrow> string \<Rightarrow> web_event" where
  "server_in fd bs = \<lparr>we_fd = fd, we_broken = False, we_in = True, we_out = False, we_accept = None,
     we_recv = [Recv_data bs, Recv_EAGAIN], we_writev = []\<rparr>"

definition server_out :: "int \<Rightarrow> nat \<Rightarrow> web_event" where
  "server_out fd n = \<lparr>we_fd = fd, we_broken = False, we_in = False, we_out = True, we_accept = None, we_recv = [], we_writev = [Wv_takes n]\<rparr>"

text \<open>\<open>ans\<close>: what the generator's kernel takes in each \<open>send\<close>; \<open>n\<close>: what the server's kernel takes in one \<open>writev\<close>.\<close>

definition load_round :: "web_files \<Rightarrow> int \<Rightarrow> int \<Rightarrow> nat list \<Rightarrow> nat \<Rightarrow> stress \<times> web_server \<Rightarrow> (stress \<times> web_server) option" where
  "load_round fs cfd fd ans n = (\<lambda>(s, w). do {
     let s1 = stress_event (client_out cfd ans) s;
     w1 \<leftarrow> web_event (server_in fd (drop (length (st_sent s cfd)) (st_sent s1 cfd))) w;
     w2 \<leftarrow> web_work fs w1;
     w3 \<leftarrow> web_event (server_out fd n) w2;
     let resp = drop (length (written (hc_log (ws_users w fd)))) (written (hc_log (ws_users w3 fd)));
     Some (stress_event (client_in cfd resp) s1, w3)
   })"

fun load_rounds :: "nat \<Rightarrow> web_files \<Rightarrow> int \<Rightarrow> int \<Rightarrow> nat list \<Rightarrow> nat \<Rightarrow> stress \<times> web_server \<Rightarrow> (stress \<times> web_server) option" where
  "load_rounds 0 fs cfd fd ans n x = Some x"
| "load_rounds (Suc k) fs cfd fd ans n x = Option.bind (load_round fs cfd fd ans n x) (load_rounds k fs cfd fd ans n)"

definition index_file :: string where "index_file = doc_root @ ''/index.html''"

text \<open>The request of the generator as the server sees it.\<close>

lemma stress_request_parts:
  "stress_request = (''GET'' @ '' '' @ (''http://localhost'' @ ''/index.html'') @ '' '' @ ''HTTP/1.1'' @ crlf @
     concat (map (\<lambda>h. h @ crlf) [''Connection: keep-alive'']) @ crlf) @ ''xxxxxxxxxxxx''"
  by (simp add: stress_request_def)

lemma stress_keeps_alive: "list_ex keep_alive [''Connection: keep-alive'']"
  by (simp add: keep_alive_def strncaseeq_def strcaseeq_def tolower_def skipspn_def)

lemma server_reads_request:
  assumes "web_idle fd w" "servable fs index_file" "web_answer fs index_file = (status, title, content)"
  shows "\<exists>w1 w2. web_event (server_in fd stress_request) w = Some w1 \<and> web_work fs w1 = Some w2 \<and>
    hc_log (ws_users w2 fd) = hc_log (ws_users w fd) @ [Epoll_mod_out fd] \<and>
    web_waits fd (response_head status title (length content) True @ content) True w2"
proof -
  define req where "req = ''GET'' @ '' '' @ (''http://localhost'' @ ''/index.html'') @ '' '' @ ''HTTP/1.1'' @ crlf @
     concat (map (\<lambda>h. h @ crlf) [''Connection: keep-alive'']) @ crlf"
  have sr: "stress_request = req @ ''xxxxxxxxxxxx''" unfolding req_def by (rule stress_request_parts)
  have ka: "list_ex keep_alive [''Connection: keep-alive''] = True" using stress_keeps_alive by simp
  have f: "doc_root @ take 198 ''/index.html'' = index_file" by (simp add: index_file_def)
  have "length (req @ ''xxxxxxxxxxxx'') < READ_BUFFER_SIZE" by (simp add: req_def READ_BUFFER_SIZE_def)
  from web_get [OF assms(1), where e = "server_in fd (req @ ''xxxxxxxxxxxx'')", OF _ _ _ _ _ _ demo_prefix _ _ _ _ req_def this, of fs status title content]
  show ?thesis unfolding sr f ka using assms(2,3)
    by (simp add: server_in_def strcaseeq_def target_ok_def field_ok_def strncaseeq_def tolower_def)
qed

lemma load_round_ok:
  assumes "web_idle fd w" "servable fs index_file" "web_answer fs index_file = (status, title, content)"
    "st_reg s cfd = Some Want_out" "write_nbytes ans stress_request = (True, stress_request)"
    "resp = response_head status title (length content) True @ content" "length resp \<le> n"
  shows "\<exists>s' w'. load_round fs cfd fd ans n (s, w) = Some (s', w') \<and> web_idle fd w' \<and> st_reg s' cfd = Some Want_out \<and>
    st_reads s' cfd = Suc (st_reads s cfd) \<and> st_sent s' cfd = st_sent s cfd @ stress_request \<and>
    written (hc_log (ws_users w' fd)) = written (hc_log (ws_users w fd)) @ resp"
proof -
  define s1 where "s1 = stress_event (client_out cfd ans) s"
  have s1: "st_sent s1 cfd = st_sent s cfd @ stress_request" "st_reg s1 cfd = Some Want_in" "st_reads s1 cfd = st_reads s cfd"
    using assms(4,5) by (simp_all add: s1_def stress_event_def client_out_def stress_mod_def Let_def)
  obtain w1 w2 where w: "web_event (server_in fd stress_request) w = Some w1" "web_work fs w1 = Some w2"
      "hc_log (ws_users w2 fd) = hc_log (ws_users w fd) @ [Epoll_mod_out fd]" "web_waits fd resp True w2"
    using server_reads_request [OF assms(1-3)] assms(6) by auto
  obtain w3 mid where w3: "web_event (server_out fd n) w2 = Some w3" "web_idle fd w3"
      "hc_log (ws_users w3 fd) = hc_log (ws_users w2 fd) @ [Writev resp] @ mid @ [Epoll_mod_in fd]" "mid = [] \<or> (\<exists>a k. mid = [Munmap a k])"
    using web_sends [OF w(4), of "server_out fd n" n "[]"] assms(7) by (auto simp: server_out_def)
  have log: "written (hc_log (ws_users w3 fd)) = written (hc_log (ws_users w fd)) @ resp"
    using w(3) w3(3,4) by (auto simp: written_def)
  define s2 where "s2 = stress_event (client_in cfd resp) s1"
  have run: "load_round fs cfd fd ans n (s, w) = Some (s2, w3)"
    using w(1,2) w3(1) log s1(1) by (simp add: load_round_def s1_def [symmetric] s2_def)
  have "resp \<noteq> []" using assms(6) head_not_empty by simp
  then have "st_reg s2 cfd = Some Want_out" "st_reads s2 cfd = Suc (st_reads s1 cfd)" "st_sent s2 cfd = st_sent s1 cfd"
    using s1(2) by (auto simp: s2_def stress_event_def client_in_def stress_mod_def read_once_def Let_def)
  then show ?thesis using run w3(2) log s1 by auto
qed


lemma unknown_method:
  assumes "m_read_buf s = (m @ CHR '' '' # v) @ crlf @ rest" "set m \<inter> {CHR '' '', TAB, NUL, CR, LF} = {}" "set v \<inter> {NUL, CR, LF} = {}"
    "\<not> strcaseeq m ''GET''" "m_check_state s = CHECK_STATE_REQUESTLINE" "m_checked_idx s = 0" "m_start_line s = 0"
    "length (m @ CHR '' '' # v) + 2 \<le> m_read_idx s"
  shows "\<exists>s'. process_read fs s = Some (BAD_REQUEST, s')"
proof -
  define s1 where "s1 = s\<lparr>m_read_buf := (m @ CHR '' '' # v) @ [NUL, NUL] @ rest, m_checked_idx := length (m @ CHR '' '' # v) + 2\<rparr>"
  have p: "parse_line s = (LINE_OK, s1)"
    using parse_line_finds [of s "[]" "m @ CHR '' '' # v" rest] assms by (auto simp: s1_def)
  define s2 where "s2 = s1\<lparr>m_start_line := m_checked_idx s1\<rparr>"
  have b: "pbrk_at 0 (m_read_buf s2) blanks = Some (length m)"
    using pbrk_at_append [of m blanks "CHR '' ''" v "[]" "NUL # rest"] assms(2,3) by (auto simp: s2_def s1_def)
  have "cstr_at 0 ((m_read_buf s2)[length m := NUL]) = m"
    using cstr_at_append [of m "[]"] assms(2) by (simp add: s2_def s1_def list_update_append)
  then have "fst (parse_request_line 0 s2) = BAD_REQUEST" using b assms(4) by (simp add: parse_request_line_def Let_def)
  then show ?thesis
    using line_round [OF _ p, of fs LINE_OK] assms(5,7)
    by (simp add: process_read_def process_read_loop.simps [of fs LINE_OK s] Let_def s2_def [symmetric])
qed

text \<open>The twelve bytes behind the request are not part of it: a server that reads them later than the rest finds them in
  front of the next request, whose method is then unknown.\<close>
theorem load_test_late_tail:
  "\<exists>s'. process_read fs (hc_feed (''xxxxxxxxxxxx'' @ stress_request) (hc_reset x)) = Some (BAD_REQUEST, s')"
proof (rule unknown_method [where m = "''xxxxxxxxxxxxGET''" and v = "''http://localhost/index.html HTTP/1.1''" and
      rest = "''Connection: keep-alive'' @ crlf @ crlf @ ''xxxxxxxxxxxx'' @ drop (length (''xxxxxxxxxxxx'' @ stress_request)) (replicate READ_BUFFER_SIZE NUL)"])
qed (simp_all add: hc_reset_def store_bytes_def stress_request_def strcaseeq_def tolower_def)

section \<open>A witness\<close>

definition demo_index :: web_files where
  "demo_index = \<lparr>wf_stat = (\<lambda>f. if f = index_file then Some \<lparr>fs_roth = True, fs_isdir = False, fs_size = 5\<rparr> else None),
     wf_map = (\<lambda>f. if f = index_file then Some ''hello'' else None)\<rparr>"


end
