(* ===== verification/Chat_Session.thy ===== *)
theory Chat_Session
  imports Poll_Chat
begin

text \<open>
  The chat room of \<open>socket/io_multiplexing\<close> as a whole: the clients of \<open>io_chatroom_client.c\<close> connected to the server of \<open>io_chatroom_server.c\<close>. One message is
  a turn of the client that types it, the server's round that receives it, the round that writes to the others, and a turn of each of these.
\<close>

section \<open>The rounds of a message\<close>

definition type_turn :: "nat \<Rightarrow> client_ans option" where
  "type_turn m = Some \<lparr>ca_revents0 = POLLIN, ca_revents1 = 0, ca_recv = Rv_eagain, ca_splice_in = Some m, ca_splice_out = Some m\<rparr>"

definition show_turn :: "string \<Rightarrow> client_ans option" where
  "show_turn bs = Some \<lparr>ca_revents0 = 0, ca_revents1 = POLLIN, ca_recv = Rv_data bs, ca_splice_in = None, ca_splice_out = None\<rparr>"

definition round_in :: "nat \<Rightarrow> nat \<Rightarrow> 16 word list" where
  "round_in n i = map (\<lambda>k. if k = i then POLLIN else 0) [0..<Suc n]"

definition round_out :: "nat \<Rightarrow> nat \<Rightarrow> 16 word list" where
  "round_out n i = map (\<lambda>k. if k = 0 \<or> k = i then 0 else POLLOUT) [0..<Suc n]"

definition sent_to :: "int \<Rightarrow> poll_call list \<Rightarrow> string" where
  "sent_to fd calls = concat (map (\<lambda>c. case c of Pc_send g t \<Rightarrow> if g = fd then t else [] | _ \<Rightarrow> []) calls)"

text \<open>\<open>cs j\<close> is the client of entry \<open>j\<close>; \<open>m\<close> is how much each \<open>splice\<close> of the sender \<open>i\<close> may move. What a client gets is what the server has sent to its
  descriptor in the second round.\<close>

definition chat_message :: "int \<Rightarrow> nat \<Rightarrow> nat \<Rightarrow> (nat \<Rightarrow> chat_client) \<times> poll_server \<Rightarrow> ((nat \<Rightarrow> chat_client) \<times> poll_server) option" where
  "chat_message l i m = (\<lambda>(cs, s). do {
     (_, a) \<leftarrow> client_loop [type_turn m] (cs i);
     let bs = drop (length (pl_out (cs i))) (pl_out a);
     let n = ps_user_counter s;
     s1 \<leftarrow> poll_round l (round_in n i) (\<lambda>_. Rv_data bs) [] s;
     s2 \<leftarrow> poll_round l (round_out n i) (\<lambda>_. Rv_eagain) [] s1;
     let new = drop (length (ps_calls s)) (ps_calls s2);
     Some (\<lambda>j. if j = i then a
       else if 1 \<le> j \<and> j \<le> n then (case client_loop [show_turn (sent_to (pf_fd (ps_fds s ! j)) new)] (cs j) of Some (_, c) \<Rightarrow> c | None \<Rightarrow> cs j)
       else cs j, s2)
   })"

section \<open>Passes over quiet entries\<close>

lemma entry_quiet: "i < length (ps_fds s) \<Longrightarrow> pf_revents (ps_fds s ! i) = 0 \<Longrightarrow> poll_entry l rs accs i s = Some (accs, 1, s)"
  by (simp add: poll_entry_def Let_def)

lemma pass_quiet:
  assumes "a \<le> b" "b \<le> Suc (ps_user_counter s)" "ps_user_counter s < length (ps_fds s)" "\<forall>j. a \<le> j \<and> j < b \<longrightarrow> pf_revents (ps_fds s ! j) = 0"
  shows "poll_pass l rs accs a s = poll_pass l rs accs b s"
  using assms
proof (induction "b - a" arbitrary: a)
  case (Suc d)
  then have a: "a < b" "a < Suc (ps_user_counter s)" by auto
  then have "poll_entry l rs accs a s = Some (accs, 1, s)" using Suc.prems by (intro entry_quiet) auto
  then have "poll_pass l rs accs a s = poll_pass l rs accs (Suc a) s" using a by (simp add: poll_pass.simps [of l rs accs a])
  then show ?case using Suc.hyps(1) [of "Suc a"] Suc.hyps(2) Suc.prems a by simp
qed simp

lemma pass_end: "poll_pass l rs accs (Suc (ps_user_counter s)) s = Some s"
  by (simp add: poll_pass.simps)

lemma polled_revents:
  assumes "poll_ok l s" "k \<le> ps_user_counter s" "length ws = Suc (ps_user_counter s)"
  shows "ps_fds (polled ws s) ! k = poll_report (ws ! k) (ps_fds s ! k)"
  using assms pl_len [OF assms(1)] pl_count [OF assms(1)] by (simp add: polled_def poll_fill_nth)

section \<open>The server receives a message\<close>

lemma receives_message:
  assumes ok: "poll_ok l s" and i: "1 \<le> i" "i \<le> ps_user_counter s" and ev: "pf_events (ps_fds s ! i) AND POLLIN \<noteq> 0"
  shows "\<exists>s1. poll_round l (round_in (ps_user_counter s) i) (\<lambda>_. Rv_data bs) [] s = Some s1 \<and> poll_ok l s1 \<and>
    ps_calls s1 = ps_calls s \<and> ps_user_counter s1 = ps_user_counter s \<and> (\<forall>k. pf_fd (ps_fds s1 ! k) = pf_fd (ps_fds s ! k)) \<and>
    pc_buf (ps_users s1 (pf_fd (ps_fds s ! i))) = recv_buf bs \<and>
    pf_events (ps_fds s1 ! i) = pf_events (ps_fds s ! i) \<and>
    (\<forall>j. 1 \<le> j \<and> j \<le> ps_user_counter s \<and> j \<noteq> i \<longrightarrow> pf_events (ps_fds s1 ! j) = pf_events (want_write (ps_fds s ! j)) \<and>
       pc_write_buf (ps_users s1 (pf_fd (ps_fds s ! j))) = Some (pf_fd (ps_fds s ! i)))"
proof -
  define n where "n = ps_user_counter s"
  define t where "t = polled (round_in n i) s"
  have tn: "ps_user_counter t = n" "ps_calls t = ps_calls s" by (simp_all add: t_def polled_def n_def)
  have ok': "poll_ok l t" using polled_ok [OF ok] by (simp add: t_def)
  have keep: "pf_fd (ps_fds t ! k) = pf_fd (ps_fds s ! k)" "pf_events (ps_fds t ! k) = pf_events (ps_fds s ! k)" for k
    by (simp_all add: t_def polled_def poll_fill_keeps)
  have rep: "ps_fds t ! k = poll_report (if k = i then POLLIN else 0) (ps_fds s ! k)" if "k \<le> n" for k
    using polled_revents [OF ok, of k "round_in n i"] that by (simp add: t_def round_in_def n_def nth_append del: upt_Suc)
  have quiet: "pf_revents (ps_fds t ! k) = 0" if "k \<le> n" "k \<noteq> i" for k using rep [OF that(1)] that(2) by (simp add: poll_report_def)
  have at: "pf_revents (ps_fds t ! i) = POLLIN"
  proof -
    have "bit (pf_events (ps_fds s ! i)) 0" using ev by (simp add: POLLIN_def and_one_eq bit_0 odd_iff_mod_2_eq_one)
    then have "POLLIN AND (pf_events (ps_fds s ! i) OR POLLERR OR POLLHUP OR POLLNVAL) = POLLIN"
      by (intro bit_eqI) (auto simp: POLLIN_def bit_simps)
    then show ?thesis using rep [of i] i by (simp add: poll_report_def n_def)
  qed
  have no: "\<not> reports (ps_fds t ! i) POLLERR" "\<not> reports (ps_fds t ! i) POLLRDHUP" "reports (ps_fds t ! i) POLLIN"
    using at by (simp_all add: poll_flags)
  have i': "1 \<le> i" "i \<le> ps_user_counter t" using i tn by (simp_all add: n_def)
  obtain s1 where s1: "poll_recv (Rv_data bs) i t = Some (1, s1)" "ps_calls s1 = ps_calls s" "ps_user_counter s1 = n"
      "pc_buf (ps_users s1 (pf_fd (ps_fds s ! i))) = recv_buf bs" "ps_fds s1 ! i = ps_fds t ! i"
      "\<And>j. 1 \<le> j \<Longrightarrow> j \<le> n \<Longrightarrow> j \<noteq> i \<Longrightarrow> ps_fds s1 ! j = want_write (ps_fds t ! j) \<and>
        pc_write_buf (ps_users s1 (pf_fd (ps_fds s ! j))) = Some (pf_fd (ps_fds s ! i))"
    using poll_recv_effect [OF ok' i', of bs] unfolding keep tn by blast
  have e: "poll_entry l (\<lambda>_. Rv_data bs) [] i t = Some ([], 1, s1)"
    using no s1(1) pl_other [OF ok' i'] pl_len [OF ok'] pl_count [OF ok'] i' by (simp add: poll_entry_def Let_def)
  have st: "same_table t s1"
    using poll_entry_kept [OF ok' i', of "\<lambda>_. Rv_data bs" "[]"] no e by (auto simp: gone_def)
  have len: "n < length (ps_fds t)" "n < length (ps_fds s1)"
    using pl_len [OF ok'] pl_count [OF ok'] st tn by (auto simp: same_table_def)
  have "poll_round l (round_in n i) (\<lambda>_. Rv_data bs) [] s = poll_pass l (\<lambda>_. Rv_data bs) [] 0 t"
    by (simp add: poll_round_def t_def polled_def)
  also have "\<dots> = poll_pass l (\<lambda>_. Rv_data bs) [] i t" by (rule pass_quiet) (use quiet i' tn len in auto)
  also have "\<dots> = poll_pass l (\<lambda>_. Rv_data bs) [] (Suc i) s1" using e i' by (simp add: poll_pass.simps [of l _ "[]" i])
  also have "\<dots> = poll_pass l (\<lambda>_. Rv_data bs) [] (Suc n) s1"
    by (rule pass_quiet) (use quiet i' tn len st s1(3) in \<open>auto simp: same_table_def\<close>)
  also have "\<dots> = Some s1" using pass_end [of l _ _ s1] by (simp add: s1(3))
  finally have run: "poll_round l (round_in n i) (\<lambda>_. Rv_data bs) [] s = Some s1" .
  have fds: "\<forall>k. pf_fd (ps_fds s1 ! k) = pf_fd (ps_fds s ! k)" using st keep by (simp add: same_table_def)
  have "pf_events (ps_fds s1 ! j) = pf_events (want_write (ps_fds s ! j))" if "1 \<le> j" "j \<le> n" "j \<noteq> i" for j
    using s1(6) [OF that] keep(2) [of j] by (simp add: want_write_def)
  then show ?thesis
    using run same_table_ok [OF st ok'] s1(2-6) fds keep(2) [of i] unfolding n_def by (intro exI [of _ s1]) auto
qed

section \<open>The server writes it to the others\<close>

lemma writes_message:
  assumes "poll_ok l u" "n = ps_user_counter u" "1 \<le> i" "i \<le> n" "c = pf_fd (ps_fds u ! i)" "pf_revents (ps_fds u ! i) = 0" "1 \<le> k" "k \<le> Suc n"
    "pc_buf (ps_users u c) = B"
    "\<And>j. k \<le> j \<Longrightarrow> j \<le> n \<Longrightarrow> j \<noteq> i \<Longrightarrow> pf_revents (ps_fds u ! j) = POLLOUT \<and> pc_write_buf (ps_users u (pf_fd (ps_fds u ! j))) = Some c"
  shows "\<exists>u'. poll_pass l rs [] k u = Some u' \<and> same_table u u' \<and>
    ps_calls u' = ps_calls u @ map (\<lambda>j. Pc_send (pf_fd (ps_fds u ! j)) (cstr B)) (filter (\<lambda>j. j \<noteq> i) [k..<Suc n]) \<and>
    (\<forall>j. pf_events (ps_fds u ! j) AND POLLIN \<noteq> 0 \<longrightarrow> pf_events (ps_fds u' ! j) AND POLLIN \<noteq> 0)"
  using assms
proof (induction "Suc n - k" arbitrary: k u)
  case 0
  then have "k = Suc n" by simp
  then show ?case using 0 pass_end [of l rs "[]" u] by (simp add: same_table_def)
next
  case (Suc d)
  note ok = Suc.prems(1)
  have k: "k \<le> n" "1 \<le> k" "k \<le> ps_user_counter u" using Suc.hyps(2) Suc.prems by auto
  have len: "k < length (ps_fds u)" using pl_len [OF ok] pl_count [OF ok] k by simp
  have pass: "poll_pass l rs [] k u = Option.bind (poll_entry l rs [] k u) (\<lambda>(accs', d, s'). poll_pass l rs accs' (k + d) s')"
    using k by (simp add: poll_pass.simps [of l rs "[]" k u])
  have upt: "[k..<Suc n] = k # [Suc k..<Suc n]" using k by (simp add: upt_rec)
  show ?case
  proof (cases "k = i")
    case True
    then have "poll_pass l rs [] k u = poll_pass l rs [] (Suc k) u" using pass entry_quiet [OF len] Suc.prems(6) by simp
    moreover have "filter (\<lambda>j. j \<noteq> i) [k..<Suc n] = filter (\<lambda>j. j \<noteq> i) [Suc k..<Suc n]" unfolding upt using True by simp
    ultimately show ?thesis
      using Suc.hyps(1) [of "Suc k" u] Suc.hyps(2) Suc.prems k by simp
  next
    case False
    let ?fd = "pf_fd (ps_fds u ! k)"
    have p: "pf_revents (ps_fds u ! k) = POLLOUT" "pc_write_buf (ps_users u ?fd) = Some c" using Suc.prems(10) [of k] k False by auto
    have ne: "pf_fd (ps_fds u ! j) \<noteq> ?fd" if "1 \<le> j" "j \<le> n" "j \<noteq> k" for j
      using inj_onD [OF pl_inj [OF ok], of j k] that k Suc.prems(2) by auto
    define u1 where "u1 = u\<lparr>ps_calls := ps_calls u @ [Pc_send ?fd (cstr B)],
        ps_users := (ps_users u)(?fd := (ps_users u ?fd)\<lparr>pc_write_buf := None\<rparr>), ps_fds := (ps_fds u)[k := want_read (ps_fds u ! k)]\<rparr>"
    have e: "poll_entry l rs [] k u = Some ([], 1, u1)"
      using len p pl_other [OF ok k(2,3)] pl_slot [OF ok k(2,3)] Suc.prems(9)
      by (simp add: poll_entry_def poll_send_def Let_def u1_def) (simp add: poll_flags)
    have st: "same_table u u1"
      using poll_entry_kept [OF ok k(2,3), of rs "[]"] e p by (auto simp: gone_def poll_flags)
    have c: "c \<noteq> ?fd" using ne [of i] Suc.prems(3-5) False by simp
    have nth: "ps_fds u1 ! j = (if j = k then want_read (ps_fds u ! k) else ps_fds u ! j)" for j
      using len by (simp add: u1_def nth_list_update)
    have "\<exists>u'. poll_pass l rs [] (Suc k) u1 = Some u' \<and> same_table u1 u' \<and>
      ps_calls u' = ps_calls u1 @ map (\<lambda>j. Pc_send (pf_fd (ps_fds u1 ! j)) (cstr B)) (filter (\<lambda>j. j \<noteq> i) [Suc k..<Suc n]) \<and>
      (\<forall>j. pf_events (ps_fds u1 ! j) AND POLLIN \<noteq> 0 \<longrightarrow> pf_events (ps_fds u' ! j) AND POLLIN \<noteq> 0)"
    proof (rule Suc.hyps(1))
      show "d = Suc n - Suc k" using Suc.hyps(2) by simp
      show "poll_ok l u1" by (rule same_table_ok [OF st ok])
      show "n = ps_user_counter u1" using Suc.prems(2) by (simp add: u1_def)
      show "c = pf_fd (ps_fds u1 ! i)" "pf_revents (ps_fds u1 ! i) = 0" using Suc.prems(5,6) st by (simp_all add: same_table_def)
      show "pc_buf (ps_users u1 c) = B" using c Suc.prems(9) by (simp add: u1_def)
      show "pf_revents (ps_fds u1 ! j) = POLLOUT \<and> pc_write_buf (ps_users u1 (pf_fd (ps_fds u1 ! j))) = Some c"
        if "Suc k \<le> j" "j \<le> n" "j \<noteq> i" for j
        using Suc.prems(10) [of j] ne [of j] that k by (simp add: nth) (simp add: u1_def)
    qed (use Suc.prems k in auto)
    then obtain u' where u': "poll_pass l rs [] (Suc k) u1 = Some u'" "same_table u1 u'"
      "ps_calls u' = ps_calls u1 @ map (\<lambda>j. Pc_send (pf_fd (ps_fds u1 ! j)) (cstr B)) (filter (\<lambda>j. j \<noteq> i) [Suc k..<Suc n])"
      "\<And>j. pf_events (ps_fds u1 ! j) AND POLLIN \<noteq> 0 \<Longrightarrow> pf_events (ps_fds u' ! j) AND POLLIN \<noteq> 0" by blast
    have "ps_calls u' = ps_calls u @ map (\<lambda>j. Pc_send (pf_fd (ps_fds u ! j)) (cstr B)) (filter (\<lambda>j. j \<noteq> i) [k..<Suc n])"
      unfolding upt u'(3) using False st by (simp add: u1_def same_table_def del: upt_Suc)
    moreover have "pf_events (ps_fds u1 ! j) AND POLLIN \<noteq> 0" if "pf_events (ps_fds u ! j) AND POLLIN \<noteq> 0" for j
      using that by (simp add: nth want_read_def bit.conj_disj_distrib2) (simp add: poll_flags)
    ultimately show ?thesis using pass e u' same_table_trans [OF st u'(2)] by (intro exI [of _ u']) auto
  qed
qed

section \<open>A message typed is a message shown\<close>

lemma sent_to_none: "f j \<notin> f ` set ks \<Longrightarrow> sent_to (f j) (map (\<lambda>k. Pc_send (f k) t) ks) = []"
  by (induction ks) (auto simp: sent_to_def)

lemma sent_to_once:
  "j \<in> set ks \<Longrightarrow> distinct ks \<Longrightarrow> inj_on f (set ks) \<Longrightarrow> sent_to (f j) (map (\<lambda>k. Pc_send (f k) t) ks) = t"
proof (induction ks)
  case (Cons k ks)
  have step: "sent_to x (Pc_send g t # calls) = (if g = x then t else []) @ sent_to x calls" for x g calls by (simp add: sent_to_def)
  show ?case
  proof (cases "k = j")
    case True
    then have "f j \<notin> f ` set ks" using Cons.prems by (auto simp: inj_on_def)
    then show ?thesis using True sent_to_none by (simp add: step)
  next
    case False
    then have "f k \<noteq> f j" "j \<in> set ks" using Cons.prems by (auto simp: inj_on_def)
    then show ?thesis using Cons by (simp add: step)
  qed
qed simp

lemma typed: "pl_pipe c = [] \<Longrightarrow> length (pl_in c) \<le> m \<Longrightarrow> length (pl_in c) \<le> 32768 \<Longrightarrow>
    client_loop [type_turn m] c = Some (False, c\<lparr>pl_pipe := [], pl_in := [], pl_out := pl_out c @ pl_in c\<rparr>)"
  by (simp add: type_turn_def poll_flags client_splice_def)

lemma shown: "length t \<le> 63 \<Longrightarrow> NUL \<notin> set t \<Longrightarrow> client_loop [show_turn t] c = Some (False, c\<lparr>pl_screen := pl_screen c @ t @ [LF]\<rparr>)"
  by (simp add: show_turn_def poll_flags client_show_def POLL_BUFFER_SIZE_def cstr_id)

lemma message_written:
  assumes ok: "poll_ok l s" and i: "1 \<le> i" "i \<le> ps_user_counter s" and ev: "pf_events (ps_fds s ! i) AND POLLIN \<noteq> 0"
    and t: "length t \<le> 63" "NUL \<notin> set t"
  shows "\<exists>s1 s2. poll_round l (round_in (ps_user_counter s) i) (\<lambda>_. Rv_data t) [] s = Some s1 \<and>
    poll_round l (round_out (ps_user_counter s) i) (\<lambda>_. Rv_eagain) [] s1 = Some s2 \<and> poll_ok l s2 \<and> ps_user_counter s2 = ps_user_counter s \<and>
    (\<forall>k. pf_fd (ps_fds s2 ! k) = pf_fd (ps_fds s ! k)) \<and>
    ps_calls s2 = ps_calls s @ map (\<lambda>j. Pc_send (pf_fd (ps_fds s ! j)) t) (filter (\<lambda>j. j \<noteq> i) [1..<Suc (ps_user_counter s)]) \<and>
    (\<forall>j. 1 \<le> j \<and> j \<le> ps_user_counter s \<and> pf_events (ps_fds s ! j) AND POLLIN \<noteq> 0 \<longrightarrow> pf_events (ps_fds s2 ! j) AND POLLIN \<noteq> 0)"
proof -
  define n where "n = ps_user_counter s"
  obtain s1 where s1: "poll_round l (round_in n i) (\<lambda>_. Rv_data t) [] s = Some s1" "poll_ok l s1" "ps_calls s1 = ps_calls s"
      "ps_user_counter s1 = n" "\<And>k. pf_fd (ps_fds s1 ! k) = pf_fd (ps_fds s ! k)" "pc_buf (ps_users s1 (pf_fd (ps_fds s ! i))) = recv_buf t"
      "pf_events (ps_fds s1 ! i) = pf_events (ps_fds s ! i)"
      "\<And>j. 1 \<le> j \<Longrightarrow> j \<le> n \<Longrightarrow> j \<noteq> i \<Longrightarrow> pf_events (ps_fds s1 ! j) = pf_events (want_write (ps_fds s ! j)) \<and>
         pc_write_buf (ps_users s1 (pf_fd (ps_fds s ! j))) = Some (pf_fd (ps_fds s ! i))"
    using receives_message [OF ok i ev, of t] unfolding n_def by blast
  define u where "u = polled (round_out n i) s1"
  have un: "ps_user_counter u = n" "ps_calls u = ps_calls s" "ps_users u = ps_users s1" by (simp_all add: u_def polled_def s1)
  have uok: "poll_ok l u" using polled_ok [OF s1(2)] by (simp add: u_def)
  have keep: "pf_fd (ps_fds u ! k) = pf_fd (ps_fds s ! k)" "pf_events (ps_fds u ! k) = pf_events (ps_fds s1 ! k)" for k
    by (simp_all add: u_def polled_def poll_fill_keeps s1(5))
  have rep: "ps_fds u ! k = poll_report (if k = 0 \<or> k = i then 0 else POLLOUT) (ps_fds s1 ! k)" if "k \<le> n" for k
    using polled_revents [OF s1(2), of k "round_out n i"] that by (simp add: u_def round_out_def s1(4) nth_append del: upt_Suc)
  have quiet: "pf_revents (ps_fds u ! k) = 0" if "k \<le> n" "k = 0 \<or> k = i" for k using rep [OF that(1)] that(2) by (auto simp: poll_report_def)
  have out: "POLLOUT AND (pf_events (want_write p) OR f) = POLLOUT" for p f
    by (rule bit_eqI) (auto simp: want_write_def bit_simps)
  have ready: "pf_revents (ps_fds u ! j) = POLLOUT" if "1 \<le> j" "j \<le> n" "j \<noteq> i" for j
    using rep [of j] that s1(8) [OF that] out by (simp add: poll_report_def)
  have i': "i \<le> n" using i by (simp add: n_def)
  have "\<exists>u'. poll_pass l (\<lambda>_. Rv_eagain) [] 1 u = Some u' \<and> same_table u u' \<and>
    ps_calls u' = ps_calls u @ map (\<lambda>j. Pc_send (pf_fd (ps_fds u ! j)) (cstr (recv_buf t))) (filter (\<lambda>j. j \<noteq> i) [1..<Suc n]) \<and>
    (\<forall>j. pf_events (ps_fds u ! j) AND POLLIN \<noteq> 0 \<longrightarrow> pf_events (ps_fds u' ! j) AND POLLIN \<noteq> 0)"
    by (rule writes_message [OF uok un(1) [symmetric] i(1) i' refl]) (use quiet i' ready s1(6,8) un keep in auto)
  then obtain u' where u': "poll_pass l (\<lambda>_. Rv_eagain) [] 1 u = Some u'" "same_table u u'"
      "ps_calls u' = ps_calls u @ map (\<lambda>j. Pc_send (pf_fd (ps_fds u ! j)) (cstr (recv_buf t))) (filter (\<lambda>j. j \<noteq> i) [1..<Suc n])"
      "\<And>j. pf_events (ps_fds u ! j) AND POLLIN \<noteq> 0 \<Longrightarrow> pf_events (ps_fds u' ! j) AND POLLIN \<noteq> 0" by blast
  have "poll_round l (round_out n i) (\<lambda>_. Rv_eagain) [] s1 = poll_pass l (\<lambda>_. Rv_eagain) [] 0 u"
    by (simp add: poll_round_def u_def polled_def)
  also have "\<dots> = poll_pass l (\<lambda>_. Rv_eagain) [] 1 u"
    by (rule pass_quiet) (use quiet un pl_len [OF uok] pl_count [OF uok] in auto)
  finally have run: "poll_round l (round_out n i) (\<lambda>_. Rv_eagain) [] s1 = Some u'" using u'(1) by simp
  have cs: "cstr (recv_buf t) = t" using t by (simp add: cstr_recv_buf POLL_BUFFER_SIZE_def cstr_id)
  have "pf_events (ps_fds u' ! j) AND POLLIN \<noteq> 0" if "1 \<le> j" "j \<le> n" "pf_events (ps_fds s ! j) AND POLLIN \<noteq> 0" for j
  proof (rule u'(4))
    have "pf_events (want_write p) AND POLLIN = pf_events p AND POLLIN" for p
      by (simp add: want_write_def bit.conj_disj_distrib2) (simp add: poll_flags)
    then show "pf_events (ps_fds u ! j) AND POLLIN \<noteq> 0" using that keep(2) s1(7) s1(8) [of j] by (cases "j = i") auto
  qed
  then show ?thesis
    using s1(1) run same_table_ok [OF u'(2) uok] u'(2,3) un cs unfolding n_def
    by (intro exI [of _ s1] exI [of _ u']) (auto simp: same_table_def keep(1) simp del: upt_Suc)
qed

definition chat_ready :: "int \<Rightarrow> poll_server \<Rightarrow> bool" where
  "chat_ready l s \<longleftrightarrow> poll_ok l s \<and> (\<forall>k \<in> {1..ps_user_counter s}. pf_events (ps_fds s ! k) AND POLLIN \<noteq> 0)"



end
