(* ===== verification/Fd_Helpers.thy ===== *)
theory Fd_Helpers
  imports Signal_Server "HOL-Library.Word"
begin

text \<open>
  The helpers every event driven program of the repository has a copy of: \<open>setnonblocking\<close>, \<open>addfd\<close>, \<open>removefd\<close>, \<open>modfd\<close>, the
  signal handler that writes into a pipe, and \<open>addsig\<close>. The kernel's tables are the state: the status flags of the open
  descriptors, the interest lists of the \<open>epoll\<close> descriptors, the signal actions and the bytes in the signal pipe. The copies
  interpret the locales \<open>fd_helpers\<close> and \<open>pipe_handler\<close>, in which their common behaviour is proved once.
\<close>

unbundle bit_operations_syntax

section \<open>The kernel's tables\<close>

definition O_NONBLOCK :: "32 word" where "O_NONBLOCK = 0x800"

definition EPOLLIN :: "32 word" where "EPOLLIN = 0x1"
definition EPOLLOUT :: "32 word" where "EPOLLOUT = 0x4"
definition EPOLLERR :: "32 word" where "EPOLLERR = 0x8"
definition EPOLLRDHUP :: "32 word" where "EPOLLRDHUP = 0x2000"
definition EPOLLONESHOT :: "32 word" where "EPOLLONESHOT = 0x40000000"
definition EPOLLET :: "32 word" where "EPOLLET = 0x80000000"

definition SA_RESTART :: "32 word" where "SA_RESTART = 0x10000000"

definition ENOENT :: nat where "ENOENT = 2"
definition EBADF :: nat where "EBADF = 9"
definition EAGAIN :: nat where "EAGAIN = 11"
definition EEXIST :: nat where "EEXIST = 17"

text \<open>What a signal does: the default, nothing, or one of the handlers of the programs.\<close>

datatype sa_handler = SIG_DFL | SIG_IGN | To_pipe | Sig_urg | Child_term

record sig_action =
  sa_handler :: sa_handler
  sa_flags :: "32 word"
  sa_mask :: "nat set"

record kernel =
  k_flags :: "int \<rightharpoonup> 32 word"
  k_epoll :: "int \<Rightarrow> int \<rightharpoonup> 32 word"
  k_errno :: nat
  k_action :: "nat \<Rightarrow> sig_action"
  k_pipe :: "8 word list"
  k_room :: nat

text \<open>\<open>fcntl\<close> with \<open>F_GETFL\<close> and \<open>F_SETFL\<close>; the latter changes the append, asynchronous, direct, access time and non-blocking flags only.\<close>

definition fcntl_getfl :: "int \<Rightarrow> kernel \<Rightarrow> 32 word \<times> kernel" where
  "fcntl_getfl fd k = (case k_flags k fd of None \<Rightarrow> (-1, k\<lparr>k_errno := EBADF\<rparr>) | Some f \<Rightarrow> (f, k))"

definition settable :: "32 word" where "settable = 0x46C00"

definition fcntl_setfl :: "int \<Rightarrow> 32 word \<Rightarrow> kernel \<Rightarrow> kernel" where
  "fcntl_setfl fd v k = (case k_flags k fd of None \<Rightarrow> k\<lparr>k_errno := EBADF\<rparr>
     | Some f \<Rightarrow> k\<lparr>k_flags := (k_flags k)(fd \<mapsto> f AND NOT settable OR v AND settable)\<rparr>)"

text \<open>\<open>epoll_ctl\<close>, whose result the programs ignore. Errors and hang-ups are always reported, whatever is registered.\<close>

definition epoll_put :: "int \<Rightarrow> int \<Rightarrow> 32 word option \<Rightarrow> kernel \<Rightarrow> kernel" where
  "epoll_put epollfd fd ev k = k\<lparr>k_epoll := (k_epoll k)(epollfd := (k_epoll k epollfd)(fd := ev))\<rparr>"

definition epoll_ctl_add :: "int \<Rightarrow> int \<Rightarrow> 32 word \<Rightarrow> kernel \<Rightarrow> kernel" where
  "epoll_ctl_add epollfd fd ev k =
     (if k_flags k fd = None then k\<lparr>k_errno := EBADF\<rparr>
      else if k_epoll k epollfd fd \<noteq> None then k\<lparr>k_errno := EEXIST\<rparr>
      else epoll_put epollfd fd (Some ev) k)"

definition epoll_ctl_mod :: "int \<Rightarrow> int \<Rightarrow> 32 word \<Rightarrow> kernel \<Rightarrow> kernel" where
  "epoll_ctl_mod epollfd fd ev k =
     (if k_flags k fd = None then k\<lparr>k_errno := EBADF\<rparr>
      else if k_epoll k epollfd fd = None then k\<lparr>k_errno := ENOENT\<rparr>
      else epoll_put epollfd fd (Some ev) k)"

definition epoll_ctl_del :: "int \<Rightarrow> int \<Rightarrow> kernel \<Rightarrow> kernel" where
  "epoll_ctl_del epollfd fd k =
     (if k_flags k fd = None then k\<lparr>k_errno := EBADF\<rparr>
      else if k_epoll k epollfd fd = None then k\<lparr>k_errno := ENOENT\<rparr>
      else epoll_put epollfd fd None k)"

text \<open>\<open>close\<close> of a descriptor that has no duplicates: it leaves every interest list.\<close>

definition close_fd :: "int \<Rightarrow> kernel \<Rightarrow> kernel" where
  "close_fd fd k = (if k_flags k fd = None then k\<lparr>k_errno := EBADF\<rparr>
     else k\<lparr>k_flags := (k_flags k)(fd := None), k_epoll := (\<lambda>ep. (k_epoll k ep)(fd := None))\<rparr>)"

text \<open>\<open>send\<close> of one byte on the writing end of the signal pipe, which does not block.\<close>

definition send_byte :: "8 word \<Rightarrow> kernel \<Rightarrow> kernel" where
  "send_byte b k = (if length (k_pipe k) < k_room k then k\<lparr>k_pipe := k_pipe k @ [b]\<rparr> else k\<lparr>k_errno := EAGAIN\<rparr>)"

definition all_signals :: "nat set" where "all_signals = {1..64}"

definition SIGKILL :: nat where "SIGKILL = 9"
definition SIGSTOP :: nat where "SIGSTOP = 19"

text \<open>\<open>sigaction\<close>; \<open>None\<close> is the result -1, for numbers that are no signals and for the two that cannot be handled.\<close>

definition sigaction :: "nat \<Rightarrow> sig_action \<Rightarrow> kernel \<Rightarrow> kernel option" where
  "sigaction sig sa k = (if sig \<in> all_signals - {SIGKILL, SIGSTOP} then Some (k\<lparr>k_action := (k_action k)(sig := sa)\<rparr>) else None)"

definition zero_action :: sig_action where "zero_action = \<lparr>sa_handler = SIG_DFL, sa_flags = 0, sa_mask = {}\<rparr>"

text \<open>The first byte of an \<open>int\<close> in memory.\<close>

definition first_byte :: "nat \<Rightarrow> 8 word" where "first_byte msg = of_nat msg"

section \<open>The process pool\<close>

definition pp_setnonblocking :: "int \<Rightarrow> kernel \<Rightarrow> 32 word \<times> kernel" where
  "pp_setnonblocking fd k = (
     let (old_option, k1) = fcntl_getfl fd k;
       new_option = old_option OR O_NONBLOCK in
     (old_option, fcntl_setfl fd new_option k1))"

definition pp_addfd :: "int \<Rightarrow> int \<Rightarrow> kernel \<Rightarrow> kernel" where
  "pp_addfd epollfd fd k = snd (pp_setnonblocking fd (epoll_ctl_add epollfd fd (EPOLLIN OR EPOLLET) k))"

definition pp_removefd :: "int \<Rightarrow> int \<Rightarrow> kernel \<Rightarrow> kernel" where
  "pp_removefd epollfd fd k = close_fd fd (epoll_ctl_del epollfd fd k)"

definition pp_sig_handler :: "nat \<Rightarrow> kernel \<Rightarrow> kernel" where
  "pp_sig_handler sig k = (let save_errno = k_errno k in (send_byte (first_byte sig) k)\<lparr>k_errno := save_errno\<rparr>)"

definition pp_addsig :: "nat \<Rightarrow> sa_handler \<Rightarrow> bool \<Rightarrow> kernel \<Rightarrow> kernel option" where
  "pp_addsig sig h restart k = (
     let sa = zero_action\<lparr>sa_handler := h\<rparr>;
       sa1 = (if restart then sa\<lparr>sa_flags := sa_flags sa OR SA_RESTART\<rparr> else sa) in
     sigaction sig (sa1\<lparr>sa_mask := all_signals\<rparr>) k)"

section \<open>The web server\<close>

definition hc_setnonblocking :: "int \<Rightarrow> kernel \<Rightarrow> 32 word \<times> kernel" where
  "hc_setnonblocking fd k = (
     let (old_option, k1) = fcntl_getfl fd k;
       new_option = old_option OR O_NONBLOCK in
     (old_option, fcntl_setfl fd new_option k1))"

definition hc_addfd :: "int \<Rightarrow> int \<Rightarrow> bool \<Rightarrow> kernel \<Rightarrow> kernel" where
  "hc_addfd epollfd fd one_shot k = (
     let ev = EPOLLIN OR EPOLLET OR EPOLLRDHUP;
       ev1 = (if one_shot then ev OR EPOLLONESHOT else ev) in
     snd (hc_setnonblocking fd (epoll_ctl_add epollfd fd ev1 k)))"

definition hc_removefd :: "int \<Rightarrow> int \<Rightarrow> kernel \<Rightarrow> kernel" where
  "hc_removefd epollfd fd k = close_fd fd (epoll_ctl_del epollfd fd k)"

definition hc_modfd :: "int \<Rightarrow> int \<Rightarrow> 32 word \<Rightarrow> kernel \<Rightarrow> kernel" where
  "hc_modfd epollfd fd ev k = epoll_ctl_mod epollfd fd (ev OR EPOLLET OR EPOLLONESHOT OR EPOLLRDHUP) k"

definition web_addsig :: "nat \<Rightarrow> sa_handler \<Rightarrow> bool \<Rightarrow> kernel \<Rightarrow> kernel option" where
  "web_addsig sig h restart k = (
     let sa = zero_action\<lparr>sa_handler := h\<rparr>;
       sa1 = (if restart then sa\<lparr>sa_flags := sa_flags sa OR SA_RESTART\<rparr> else sa) in
     sigaction sig (sa1\<lparr>sa_mask := all_signals\<rparr>) k)"

section \<open>The server for inactive connections\<close>

definition il_setnonblocking :: "int \<Rightarrow> kernel \<Rightarrow> 32 word \<times> kernel" where
  "il_setnonblocking fd k = (
     let (old_option, k1) = fcntl_getfl fd k;
       new_option = old_option OR O_NONBLOCK in
     (old_option, fcntl_setfl fd new_option k1))"

definition il_addfd :: "int \<Rightarrow> int \<Rightarrow> kernel \<Rightarrow> kernel" where
  "il_addfd epollfd fd k = snd (il_setnonblocking fd (epoll_ctl_add epollfd fd (EPOLLIN OR EPOLLET) k))"

definition il_sig_handler :: "nat \<Rightarrow> kernel \<Rightarrow> kernel" where
  "il_sig_handler sig k = (let save_errno = k_errno k in (send_byte (first_byte sig) k)\<lparr>k_errno := save_errno\<rparr>)"

definition il_addsig :: "nat \<Rightarrow> kernel \<Rightarrow> kernel option" where
  "il_addsig sig k = (
     let sa = zero_action\<lparr>sa_handler := To_pipe\<rparr>;
       sa1 = sa\<lparr>sa_flags := sa_flags sa OR SA_RESTART\<rparr> in
     sigaction sig (sa1\<lparr>sa_mask := all_signals\<rparr>) k)"

section \<open>The unified event source\<close>

definition ue_setnonblocking :: "int \<Rightarrow> kernel \<Rightarrow> 32 word \<times> kernel" where
  "ue_setnonblocking fd k = (
     let (old_option, k1) = fcntl_getfl fd k;
       new_option = old_option OR O_NONBLOCK in
     (old_option, fcntl_setfl fd new_option k1))"

definition ue_addfd :: "int \<Rightarrow> int \<Rightarrow> kernel \<Rightarrow> kernel" where
  "ue_addfd epollfd fd k = snd (ue_setnonblocking fd (epoll_ctl_add epollfd fd (EPOLLIN OR EPOLLET) k))"

definition ue_sig_handler :: "nat \<Rightarrow> kernel \<Rightarrow> kernel" where
  "ue_sig_handler sig k = (let save_errno = k_errno k in (send_byte (first_byte sig) k)\<lparr>k_errno := save_errno\<rparr>)"

definition ue_addsig :: "nat \<Rightarrow> kernel \<Rightarrow> kernel option" where
  "ue_addsig sig k = (
     let sa = zero_action\<lparr>sa_handler := To_pipe\<rparr>;
       sa1 = sa\<lparr>sa_flags := sa_flags sa OR SA_RESTART\<rparr> in
     sigaction sig (sa1\<lparr>sa_mask := all_signals\<rparr>) k)"

section \<open>The shared memory chat room\<close>

definition shm_setnonblocking :: "int \<Rightarrow> kernel \<Rightarrow> 32 word \<times> kernel" where
  "shm_setnonblocking fd k = (
     let (old_option, k1) = fcntl_getfl fd k;
       new_option = old_option OR O_NONBLOCK in
     (old_option, fcntl_setfl fd new_option k1))"

definition shm_addfd :: "int \<Rightarrow> int \<Rightarrow> kernel \<Rightarrow> kernel" where
  "shm_addfd epollfd fd k = snd (shm_setnonblocking fd (epoll_ctl_add epollfd fd (EPOLLIN OR EPOLLET) k))"

definition shm_sig_handler :: "nat \<Rightarrow> kernel \<Rightarrow> kernel" where
  "shm_sig_handler sig k = (let save_errno = k_errno k in (send_byte (first_byte sig) k)\<lparr>k_errno := save_errno\<rparr>)"

definition shm_addsig :: "nat \<Rightarrow> sa_handler \<Rightarrow> bool \<Rightarrow> kernel \<Rightarrow> kernel option" where
  "shm_addsig sig h restart k = (
     let sa = zero_action\<lparr>sa_handler := h\<rparr>;
       sa1 = (if restart then sa\<lparr>sa_flags := sa_flags sa OR SA_RESTART\<rparr> else sa) in
     sigaction sig (sa1\<lparr>sa_mask := all_signals\<rparr>) k)"

section \<open>The multiplexing demonstrations, the load generator and the urgent data server\<close>

definition ep_setnonblocking :: "int \<Rightarrow> kernel \<Rightarrow> 32 word \<times> kernel" where
  "ep_setnonblocking fd k = (
     let (old_option, k1) = fcntl_getfl fd k;
       new_option = old_option OR O_NONBLOCK in
     (old_option, fcntl_setfl fd new_option k1))"

definition ep_addfd :: "int \<Rightarrow> int \<Rightarrow> bool \<Rightarrow> kernel \<Rightarrow> kernel" where
  "ep_addfd epollfd fd enable_et k = (
     let ev = EPOLLIN;
       ev1 = (if enable_et then ev OR EPOLLET else ev) in
     snd (ep_setnonblocking fd (epoll_ctl_add epollfd fd ev1 k)))"

definition os_setnonblocking :: "int \<Rightarrow> kernel \<Rightarrow> 32 word \<times> kernel" where
  "os_setnonblocking fd k = (
     let (old_option, k1) = fcntl_getfl fd k;
       new_option = old_option OR O_NONBLOCK in
     (old_option, fcntl_setfl fd new_option k1))"

definition tu_setnonblocking :: "int \<Rightarrow> kernel \<Rightarrow> 32 word \<times> kernel" where
  "tu_setnonblocking fd k = (
     let (old_option, k1) = fcntl_getfl fd k;
       new_option = old_option OR O_NONBLOCK in
     (old_option, fcntl_setfl fd new_option k1))"

definition tu_addfd :: "int \<Rightarrow> int \<Rightarrow> kernel \<Rightarrow> kernel" where
  "tu_addfd epollfd fd k = snd (tu_setnonblocking fd (epoll_ctl_add epollfd fd (EPOLLIN OR EPOLLET) k))"

definition chat_setnonblocking :: "int \<Rightarrow> kernel \<Rightarrow> 32 word \<times> kernel" where
  "chat_setnonblocking fd k = (
     let (old_option, k1) = fcntl_getfl fd k;
       new_option = old_option OR O_NONBLOCK in
     (old_option, fcntl_setfl fd new_option k1))"

definition uc_setnonblocking :: "int \<Rightarrow> kernel \<Rightarrow> 32 word \<times> kernel" where
  "uc_setnonblocking fd k = (
     let (old_option, k1) = fcntl_getfl fd k;
       new_option = old_option OR O_NONBLOCK in
     (old_option, fcntl_setfl fd new_option k1))"

definition st_setnonblocking :: "int \<Rightarrow> kernel \<Rightarrow> 32 word \<times> kernel" where
  "st_setnonblocking fd k = (
     let (old_option, k1) = fcntl_getfl fd k;
       new_option = old_option OR O_NONBLOCK in
     (old_option, fcntl_setfl fd new_option k1))"

definition st_addfd :: "int \<Rightarrow> int \<Rightarrow> kernel \<Rightarrow> kernel" where
  "st_addfd epoll_fd fd k = snd (st_setnonblocking fd (epoll_ctl_add epoll_fd fd (EPOLLOUT OR EPOLLET OR EPOLLERR) k))"

definition urg_addsig :: "nat \<Rightarrow> sa_handler \<Rightarrow> kernel \<Rightarrow> kernel option" where
  "urg_addsig sig h k = (
     let sa = zero_action\<lparr>sa_handler := h\<rparr>;
       sa1 = sa\<lparr>sa_flags := sa_flags sa OR SA_RESTART\<rparr> in
     sigaction sig (sa1\<lparr>sa_mask := all_signals\<rparr>) k)"

section \<open>Registering a descriptor\<close>

lemma setfl_nonblock: "f AND NOT settable OR (f OR O_NONBLOCK) AND settable = f OR O_NONBLOCK"
proof -
  have "O_NONBLOCK AND settable = O_NONBLOCK" by (simp add: O_NONBLOCK_def settable_def)
  then have "bit O_NONBLOCK i \<Longrightarrow> bit settable i" for i by (metis bit_and_iff)
  then show ?thesis by (auto intro!: bit_eqI simp: bit_simps)
qed

text \<open>The copies of \<open>setnonblocking\<close> and \<open>addfd\<close>; \<open>ev\<close> are the events the program registers.\<close>

locale nonblocking =
  fixes setnonblocking :: "int \<Rightarrow> kernel \<Rightarrow> 32 word \<times> kernel"
  assumes nb_open: "k_flags k fd = Some f \<Longrightarrow> setnonblocking fd k = (f, k\<lparr>k_flags := (k_flags k)(fd \<mapsto> f OR O_NONBLOCK)\<rparr>)"
    and nb_bad: "k_flags k fd = None \<Longrightarrow> setnonblocking fd k = (-1, k\<lparr>k_errno := EBADF\<rparr>)"
begin

lemma nb_epoll [simp]: "k_epoll (snd (setnonblocking fd k)) = k_epoll k"
  by (cases "k_flags k fd") (simp_all add: nb_open nb_bad)

lemma nb_flags: "k_flags (snd (setnonblocking fd k)) = (k_flags k)(fd := map_option (\<lambda>f. f OR O_NONBLOCK) (k_flags k fd))"
  by (cases "k_flags k fd") (auto simp: nb_open nb_bad)

text \<open>What the old flags are for: with them \<open>F_SETFL\<close> undoes the change.\<close>

lemma nb_undo:
  assumes "k_flags k fd = Some f"
  shows "k_flags (fcntl_setfl fd (fst (setnonblocking fd k)) (snd (setnonblocking fd k))) = k_flags k"
proof -
  have "O_NONBLOCK AND settable = O_NONBLOCK" by (simp add: O_NONBLOCK_def settable_def)
  then have "bit O_NONBLOCK i \<Longrightarrow> bit settable i" for i by (metis bit_and_iff)
  then have "(f OR O_NONBLOCK) AND NOT settable OR f AND settable = f" by (auto intro!: bit_eqI simp: bit_simps)
  with assms show ?thesis by (simp add: nb_open fcntl_setfl_def map_upd_triv)
qed

end

locale fd_helpers = nonblocking +
  fixes addfd :: "int \<Rightarrow> int \<Rightarrow> kernel \<Rightarrow> kernel"
    and ev :: "32 word"
  assumes addfd_calls: "addfd epollfd fd k = snd (setnonblocking fd (epoll_ctl_add epollfd fd ev k))"
begin

lemma addfd_registers:
  assumes "k_flags k fd = Some f" "k_epoll k epollfd fd = None"
  shows "k_epoll (addfd epollfd fd k) = (k_epoll k)(epollfd := (k_epoll k epollfd)(fd \<mapsto> ev)) \<and>
    k_flags (addfd epollfd fd k) = (k_flags k)(fd \<mapsto> f OR O_NONBLOCK) \<and> k_errno (addfd epollfd fd k) = k_errno k"
  using assms nb_open [of "epoll_put epollfd fd (Some ev) k" fd f]
  by (simp add: addfd_calls epoll_ctl_add_def epoll_put_def)

lemma addfd_bad: "k_flags k fd = None \<Longrightarrow> addfd epollfd fd k = k\<lparr>k_errno := EBADF\<rparr>"
  by (simp add: addfd_calls epoll_ctl_add_def nb_bad)

end

lemmas setnonblocking_defs = pp_setnonblocking_def hc_setnonblocking_def il_setnonblocking_def ue_setnonblocking_def
  shm_setnonblocking_def ep_setnonblocking_def os_setnonblocking_def tu_setnonblocking_def chat_setnonblocking_def
  uc_setnonblocking_def st_setnonblocking_def

lemmas nonblock_simps = setnonblocking_defs fcntl_getfl_def fcntl_setfl_def setfl_nonblock Let_def

interpretation pp_fd: fd_helpers pp_setnonblocking pp_addfd "EPOLLIN OR EPOLLET"
  by unfold_locales (auto simp: nonblock_simps pp_addfd_def)

interpretation hc_fd: fd_helpers hc_setnonblocking "\<lambda>ep fd. hc_addfd ep fd one_shot"
    "EPOLLIN OR EPOLLET OR EPOLLRDHUP OR (if one_shot then EPOLLONESHOT else 0)" for one_shot
proof unfold_locales
  fix ep fd k
  show "hc_addfd ep fd one_shot k = snd (hc_setnonblocking fd
      (epoll_ctl_add ep fd (EPOLLIN OR EPOLLET OR EPOLLRDHUP OR (if one_shot then EPOLLONESHOT else 0)) k))"
    by (simp add: hc_addfd_def or.assoc Let_def)
qed (auto simp: nonblock_simps)

interpretation il_fd: fd_helpers il_setnonblocking il_addfd "EPOLLIN OR EPOLLET"
  by unfold_locales (auto simp: nonblock_simps il_addfd_def)

interpretation ue_fd: fd_helpers ue_setnonblocking ue_addfd "EPOLLIN OR EPOLLET"
  by unfold_locales (auto simp: nonblock_simps ue_addfd_def)

interpretation shm_fd: fd_helpers shm_setnonblocking shm_addfd "EPOLLIN OR EPOLLET"
  by unfold_locales (auto simp: nonblock_simps shm_addfd_def)

interpretation ep_fd: fd_helpers ep_setnonblocking "\<lambda>ep fd. ep_addfd ep fd enable_et" "EPOLLIN OR (if enable_et then EPOLLET else 0)" for enable_et
proof unfold_locales
  fix ep fd k
  show "ep_addfd ep fd enable_et k = snd (ep_setnonblocking fd (epoll_ctl_add ep fd (EPOLLIN OR (if enable_et then EPOLLET else 0)) k))"
    by (simp add: ep_addfd_def Let_def)
qed (auto simp: nonblock_simps)

interpretation tu_fd: fd_helpers tu_setnonblocking tu_addfd "EPOLLIN OR EPOLLET"
  by unfold_locales (auto simp: nonblock_simps tu_addfd_def)

interpretation st_fd: fd_helpers st_setnonblocking st_addfd "EPOLLOUT OR EPOLLET OR EPOLLERR"
  by unfold_locales (auto simp: nonblock_simps st_addfd_def)

interpretation os_nb: nonblocking os_setnonblocking
  by unfold_locales (auto simp: nonblock_simps)

interpretation chat_nb: nonblocking chat_setnonblocking
  by unfold_locales (auto simp: nonblock_simps)

interpretation uc_nb: nonblocking uc_setnonblocking
  by unfold_locales (auto simp: nonblock_simps)

section \<open>Signals through the pipe\<close>

text \<open>The handlers that write the signal into the pipe: the code around \<open>send\<close> keeps \<open>errno\<close>, a full pipe loses the signal.\<close>

locale pipe_handler =
  fixes sig_handler :: "nat \<Rightarrow> kernel \<Rightarrow> kernel"
  assumes sends: "length (k_pipe k) < k_room k \<Longrightarrow> sig_handler sig k = k\<lparr>k_pipe := k_pipe k @ [first_byte sig]\<rparr>"
    and full: "\<not> length (k_pipe k) < k_room k \<Longrightarrow> sig_handler sig k = k"
begin

lemma handler_runs: "fold sig_handler sigs k = k\<lparr>k_pipe := k_pipe k @ map first_byte (take (k_room k - length (k_pipe k)) sigs)\<rparr>"
proof (induction sigs arbitrary: k)
  case (Cons sig sigs)
  show ?case
  proof (cases "length (k_pipe k) < k_room k")
    case True
    then have "k_room k - length (k_pipe k) = Suc (k_room k - Suc (length (k_pipe k)))" by simp
    then show ?thesis using Cons [of "sig_handler sig k"] True by (simp add: sends)
  next
    case False
    then show ?thesis using Cons [of k] by (simp add: full)
  qed
qed simp

lemma handler_bytes:
  assumes "set sigs \<subseteq> all_signals" "k_pipe k = []" "length sigs \<le> k_room k"
  shows "map unat (k_pipe (fold sig_handler sigs k)) = sigs"
proof -
  have "unat (first_byte sig) = sig" if "sig \<in> set sigs" for sig
    using that assms(1) by (auto simp: all_signals_def first_byte_def unat_of_nat)
  then show ?thesis using assms(2,3) by (simp add: handler_runs map_idI)
qed

end

lemmas sig_handler_defs = pp_sig_handler_def il_sig_handler_def ue_sig_handler_def shm_sig_handler_def send_byte_def

interpretation pp_pipe: pipe_handler pp_sig_handler
  by unfold_locales (simp_all add: sig_handler_defs)

interpretation il_pipe: pipe_handler il_sig_handler
  by unfold_locales (simp_all add: sig_handler_defs)

interpretation ue_pipe: pipe_handler ue_sig_handler
  by unfold_locales (simp_all add: sig_handler_defs)

interpretation shm_pipe: pipe_handler shm_sig_handler
  by unfold_locales (simp_all add: sig_handler_defs)

text \<open>The handler on the kernel's tables refines the handler of the event loop, which keeps the signals themselves.\<close>

lemma ue_handler_refines:
  assumes "set sigs \<subseteq> all_signals" "map unat (k_pipe k) = ss_bytes s"
  shows "map unat (k_pipe (fold ue_sig_handler sigs k)) = ss_bytes (fold (sig_handler (k_room k)) sigs s)"
proof -
  have len: "length (k_pipe k) = length (ss_bytes s)" using assms(2) by (metis length_map)
  have "unat (first_byte sig) = sig" if "sig \<in> set sigs" for sig
    using that assms(1) by (auto simp: all_signals_def first_byte_def unat_of_nat)
  then have "map (unat \<circ> first_byte) (take n sigs) = take n sigs" for n
    by (intro map_idI) (auto dest: in_set_takeD)
  then show ?thesis using assms(2) len by (simp add: ue_pipe.handler_runs sig_handlers)
qed

section \<open>The set-up of the unified event source\<close>

text \<open>\<open>main\<close> between the creation of its descriptors and its loop; \<open>p0\<close> and \<open>p1\<close> are the ends of the socket pair.\<close>

definition ue_setup :: "int \<Rightarrow> int \<Rightarrow> int \<Rightarrow> int \<Rightarrow> kernel \<Rightarrow> kernel option" where
  "ue_setup epollfd listenfd p0 p1 k = do {
     let k1 = ue_addfd epollfd listenfd k;
     let k2 = snd (ue_setnonblocking p1 k1);
     let k3 = ue_addfd epollfd p0 k2;
     k4 \<leftarrow> ue_addsig SIGHUP k3;
     k5 \<leftarrow> ue_addsig SIGCHLD k4;
     k6 \<leftarrow> ue_addsig SIGTERM k5;
     ue_addsig SIGINT k6
   }"

lemma ue_addsig_ok: "sig \<in> all_signals - {SIGKILL, SIGSTOP} \<Longrightarrow>
    ue_addsig sig k = Some (k\<lparr>k_action := (k_action k)(sig := \<lparr>sa_handler = To_pipe, sa_flags = SA_RESTART, sa_mask = all_signals\<rparr>)\<rparr>)"
  by (simp add: ue_addsig_def sigaction_def zero_action_def Let_def)

text \<open>C36: The set-up does what the loop relies on: the listening socket and the reading end of the pipe are registered, edge triggered and
  non-blocking; the writing end does not block either, so the handler never waits; and each of the four signals runs that handler, with every
  other signal held off and interrupted calls restarted.\<close>
theorem ue_setup_ready:
  assumes "k_flags k listenfd = Some fl" "k_flags k p0 = Some f0" "k_flags k p1 = Some f1" "distinct [listenfd, p0, p1]" "k_epoll k epollfd = Map.empty"
  shows "\<exists>k'. ue_setup epollfd listenfd p0 p1 k = Some k' \<and>
    k_epoll k' epollfd = [listenfd \<mapsto> EPOLLIN OR EPOLLET, p0 \<mapsto> EPOLLIN OR EPOLLET] \<and>
    k_flags k' = (k_flags k)(listenfd \<mapsto> fl OR O_NONBLOCK, p1 \<mapsto> f1 OR O_NONBLOCK, p0 \<mapsto> f0 OR O_NONBLOCK) \<and>
    (\<forall>sig. k_action k' sig = (if sig \<in> {SIGHUP, SIGCHLD, SIGTERM, SIGINT}
       then \<lparr>sa_handler = To_pipe, sa_flags = SA_RESTART, sa_mask = all_signals\<rparr> else k_action k sig))"
proof -
  define k1 where "k1 = ue_addfd epollfd listenfd k"
  define k2 where "k2 = snd (ue_setnonblocking p1 k1)"
  define k3 where "k3 = ue_addfd epollfd p0 k2"
  have k1: "k_epoll k1 epollfd = [listenfd \<mapsto> EPOLLIN OR EPOLLET]" "k_flags k1 = (k_flags k)(listenfd \<mapsto> fl OR O_NONBLOCK)"
    using ue_fd.addfd_registers [OF assms(1), of epollfd] assms(5) by (simp_all add: k1_def)
  have k2: "k_epoll k2 epollfd = [listenfd \<mapsto> EPOLLIN OR EPOLLET]" "k_flags k2 = (k_flags k)(listenfd \<mapsto> fl OR O_NONBLOCK, p1 \<mapsto> f1 OR O_NONBLOCK)"
    using k1 assms(3,4) by (simp_all add: k2_def ue_fd.nb_flags)
  have k3: "k_epoll k3 epollfd = [listenfd \<mapsto> EPOLLIN OR EPOLLET, p0 \<mapsto> EPOLLIN OR EPOLLET]"
      "k_flags k3 = (k_flags k)(listenfd \<mapsto> fl OR O_NONBLOCK, p1 \<mapsto> f1 OR O_NONBLOCK, p0 \<mapsto> f0 OR O_NONBLOCK)"
    using ue_fd.addfd_registers [of k2 p0 f0 epollfd] k2 assms(2,4) by (simp_all add: k3_def)
  have act: "k_action k3 = k_action k"
    by (simp add: k3_def k2_def k1_def ue_addfd_def nonblock_simps epoll_ctl_add_def epoll_put_def split: option.split)
  have sigs: "{SIGHUP, SIGCHLD, SIGTERM, SIGINT} \<subseteq> all_signals - {SIGKILL, SIGSTOP}"
    by (simp add: SIGHUP_def SIGCHLD_def SIGTERM_def SIGINT_def SIGKILL_def SIGSTOP_def all_signals_def)
  define a where "a = \<lparr>sa_handler = To_pipe, sa_flags = SA_RESTART, sa_mask = all_signals\<rparr>"
  have "ue_setup epollfd listenfd p0 p1 k =
      Some (k3\<lparr>k_action := (k_action k3)(SIGHUP := a, SIGCHLD := a, SIGTERM := a, SIGINT := a)\<rparr>)"
    using sigs by (simp add: ue_setup_def k1_def [symmetric] k2_def [symmetric] k3_def [symmetric] ue_addsig_ok a_def)
  then show ?thesis using k3 act by (auto simp: a_def [symmetric])
qed

text \<open>A connection of the web server, from \<open>init\<close> on: it is registered for one event, each \<open>modfd\<close> replaces what is registered, again for
  one event, and after \<open>removefd\<close> the descriptor is closed and registered nowhere; whatever is done to it then changes nothing but \<open>errno\<close>.\<close>
theorem web_conn_registration:
  assumes "k_flags k fd = Some f" "k_epoll k epollfd fd = None"
  shows "k_epoll (hc_addfd epollfd fd True k) epollfd fd = Some (EPOLLIN OR EPOLLET OR EPOLLRDHUP OR EPOLLONESHOT) \<and>
    k_flags (hc_addfd epollfd fd True k) fd = Some (f OR O_NONBLOCK) \<and>
    k_epoll (hc_modfd epollfd fd ev (hc_addfd epollfd fd True k)) epollfd fd = Some (ev OR EPOLLET OR EPOLLONESHOT OR EPOLLRDHUP) \<and>
    (let k' = hc_removefd epollfd fd (hc_modfd epollfd fd ev (hc_addfd epollfd fd True k)) in
       k_flags k' = (k_flags k)(fd := None) \<and> (\<forall>ep. k_epoll k' ep fd = None) \<and> hc_modfd epollfd fd ev' k' = k'\<lparr>k_errno := EBADF\<rparr>)"
proof -
  define k1 where "k1 = hc_addfd epollfd fd True k"
  have k1: "k_epoll k1 epollfd fd = Some (EPOLLIN OR EPOLLET OR EPOLLRDHUP OR EPOLLONESHOT)" "k_flags k1 = (k_flags k)(fd \<mapsto> f OR O_NONBLOCK)"
    using hc_fd.addfd_registers [OF assms, of True] by (simp_all add: k1_def)
  define k2 where "k2 = hc_modfd epollfd fd ev k1"
  have k2: "k_epoll k2 epollfd fd = Some (ev OR EPOLLET OR EPOLLONESHOT OR EPOLLRDHUP)" "k_flags k2 = k_flags k1"
    using k1 by (simp_all add: k2_def hc_modfd_def epoll_ctl_mod_def epoll_put_def)
  define k3 where "k3 = hc_removefd epollfd fd k2"
  have "k_flags k3 = (k_flags k)(fd := None)" "\<forall>ep. k_epoll k3 ep fd = None"
    using k1 k2 by (auto simp: k3_def hc_removefd_def epoll_ctl_del_def close_fd_def epoll_put_def)
  moreover from this have "hc_modfd epollfd fd ev' k3 = k3\<lparr>k_errno := EBADF\<rparr>" by (simp add: hc_modfd_def epoll_ctl_mod_def)
  ultimately show ?thesis
    using k1 k2 by (simp add: k1_def [symmetric] k2_def [symmetric] k3_def [symmetric] Let_def)
qed

text \<open>The signal numbers survive the pipe: as long as they fit, what the loop of the process pool reads are the signals that arrived, in
  order, and \<open>errno\<close> is what the interrupted code left in it.\<close>
theorem pool_signals_through_pipe:
  assumes "set sigs \<subseteq> all_signals" "k_pipe k = []" "length sigs \<le> k_room k"
  shows "map unat (k_pipe (fold pp_sig_handler sigs k)) = sigs \<and> k_errno (fold pp_sig_handler sigs k) = k_errno k"
  using pp_pipe.handler_bytes [OF assms] by (simp add: pp_pipe.handler_runs)

section \<open>Witnesses\<close>

definition demo_kernel :: kernel where
  "demo_kernel = \<lparr>k_flags = [3 \<mapsto> 2, 5 \<mapsto> 2, 6 \<mapsto> 2], k_epoll = (\<lambda>_. Map.empty), k_errno = 0, k_action = (\<lambda>_. zero_action), k_pipe = [], k_room = 2\<rparr>"

theorem ue_setup_ready_witness:
  "\<exists>k'. ue_setup 4 3 5 6 demo_kernel = Some k' \<and>
    k_epoll k' 4 = [3 \<mapsto> EPOLLIN OR EPOLLET, 5 \<mapsto> EPOLLIN OR EPOLLET] \<and>
    k_flags k' = (k_flags demo_kernel)(3 \<mapsto> 2 OR O_NONBLOCK, 6 \<mapsto> 2 OR O_NONBLOCK, 5 \<mapsto> 2 OR O_NONBLOCK) \<and>
    (\<forall>sig. k_action k' sig = (if sig \<in> {SIGHUP, SIGCHLD, SIGTERM, SIGINT}
       then \<lparr>sa_handler = To_pipe, sa_flags = SA_RESTART, sa_mask = all_signals\<rparr> else k_action demo_kernel sig))"
  by (rule ue_setup_ready) (simp_all add: demo_kernel_def)

theorem web_conn_registration_witness:
  "k_epoll (hc_addfd 4 5 True demo_kernel) 4 5 = Some (EPOLLIN OR EPOLLET OR EPOLLRDHUP OR EPOLLONESHOT) \<and>
    k_flags (hc_removefd 4 5 (hc_modfd 4 5 EPOLLOUT (hc_addfd 4 5 True demo_kernel))) = (k_flags demo_kernel)(5 := None)"
  using web_conn_registration [of demo_kernel 5 2 4 EPOLLOUT EPOLLIN] by (simp add: demo_kernel_def Let_def)

theorem pool_signals_through_pipe_witness:
  "map unat (k_pipe (fold pp_sig_handler [SIGCHLD, SIGTERM] demo_kernel)) = [SIGCHLD, SIGTERM]"
  using pool_signals_through_pipe [of "[SIGCHLD, SIGTERM]" demo_kernel]
  by (simp add: demo_kernel_def all_signals_def SIGCHLD_def SIGTERM_def)

end
