(* ===== verification/Server_Start.thy ===== *)
theory Server_Start
  imports C_String "HOL-Library.Word"
begin

text \<open>
  How the network programs start: the check of the arguments, the port number as \<open>atoi\<close> reads it and \<open>htons\<close> stores it, the address, and the
  socket that is bound and listens, or is connected. Every program has its own copy of these lines. The servers interpret the locale
  \<open>listener\<close>, the clients \<open>connector\<close>, where it is proved what port and address an argument stands for.
\<close>

unbundle bit_operations_syntax

section \<open>Addresses\<close>

definition AF_INET :: nat where "AF_INET = 2"
definition INADDR_ANY :: "32 word" where "INADDR_ANY = 0"

record sockaddr_in =
  sin_family :: nat
  sin_addr :: "32 word"
  sin_port :: "16 word"

text \<open>The two bytes of a port are swapped on their way to the network and back.\<close>

definition htons :: "16 word \<Rightarrow> 16 word" where
  "htons x = push_bit 8 x OR drop_bit 8 x"

definition ntohs :: "16 word \<Rightarrow> 16 word" where
  "ntohs x = push_bit 8 x OR drop_bit 8 x"

lemma ntohs_htons [simp]: "ntohs (htons x) = x"
  by (rule bit_eqI) (auto simp: ntohs_def htons_def bit_simps)

text \<open>The argument of \<open>htons\<close> is an \<open>int\<close> that is cut to 16 bits.\<close>

definition net_port :: "int \<Rightarrow> 16 word" where "net_port port = htons (of_int port)"

lemma net_port_value: "uint (ntohs (net_port port)) = port mod 65536"
  by (simp add: net_port_def uint_word_of_int)

text \<open>The answers of the kernel and of \<open>inet_pton\<close>, which stores nothing unless it can read the text.\<close>

record net_ans =
  na_socket :: int
  na_bind :: int
  na_listen :: int
  na_accept :: int
  na_connect :: int
  na_pton :: "string \<Rightarrow> 32 word option"

definition inet_pton :: "net_ans \<Rightarrow> string \<Rightarrow> 32 word \<Rightarrow> 32 word" where
  "inet_pton a ip old = (case na_pton a ip of Some x \<Rightarrow> x | None \<Rightarrow> old)"

datatype 'a startup = Usage_exit | Assert_fails | Connect_fails | Goes_on 'a

definition zero_addr :: sockaddr_in where "zero_addr = \<lparr>sin_family = 0, sin_addr = 0, sin_port = 0\<rparr>"

section \<open>Servers on any address\<close>

definition il_start :: "string list \<Rightarrow> net_ans \<Rightarrow> (int \<times> sockaddr_in) startup" where
  "il_start argv a = (if length argv \<noteq> 2 then Usage_exit
     else let port = atoi (argv ! 1);
         address = zero_addr\<lparr>sin_family := AF_INET, sin_addr := INADDR_ANY, sin_port := net_port port\<rparr> in
       if na_socket a < 0 then Assert_fails
       else if na_bind a = -1 then Assert_fails
       else if na_listen a = -1 then Assert_fails
       else Goes_on (na_socket a, address))"

definition ue_start :: "string list \<Rightarrow> net_ans \<Rightarrow> (int \<times> sockaddr_in) startup" where
  "ue_start argv a = (if length argv \<noteq> 2 then Usage_exit
     else let port = atoi (argv ! 1);
         address = zero_addr\<lparr>sin_family := AF_INET, sin_addr := INADDR_ANY, sin_port := net_port port\<rparr> in
       if na_socket a < 0 then Assert_fails
       else if na_bind a = -1 then Assert_fails
       else if na_listen a = -1 then Assert_fails
       else Goes_on (na_socket a, address))"

definition ep_start :: "string list \<Rightarrow> net_ans \<Rightarrow> (int \<times> sockaddr_in) startup" where
  "ep_start argv a = (if length argv \<noteq> 2 then Usage_exit
     else let port = atoi (argv ! 1);
         address = zero_addr\<lparr>sin_family := AF_INET, sin_addr := INADDR_ANY, sin_port := net_port port\<rparr> in
       if na_socket a < 0 then Assert_fails
       else if \<not> na_bind a \<ge> 0 then Assert_fails
       else if na_listen a = -1 then Assert_fails
       else Goes_on (na_socket a, address))"

definition os_start :: "string list \<Rightarrow> net_ans \<Rightarrow> (int \<times> sockaddr_in) startup" where
  "os_start argv a = (if length argv \<noteq> 2 then Usage_exit
     else let port = atoi (argv ! 1);
         address = zero_addr\<lparr>sin_family := AF_INET, sin_addr := INADDR_ANY, sin_port := net_port port\<rparr> in
       if na_socket a < 0 then Assert_fails
       else if na_bind a = -1 then Assert_fails
       else if na_listen a = -1 then Assert_fails
       else Goes_on (na_socket a, address))"

definition tu_start :: "string list \<Rightarrow> net_ans \<Rightarrow> (int \<times> sockaddr_in) startup" where
  "tu_start argv a = (if length argv \<noteq> 2 then Usage_exit
     else let port = atoi (argv ! 1);
         address = zero_addr\<lparr>sin_family := AF_INET, sin_addr := INADDR_ANY, sin_port := net_port port\<rparr> in
       if na_socket a < 0 then Assert_fails
       else if na_bind a = -1 then Assert_fails
       else if na_listen a = -1 then Assert_fails
       else Goes_on (na_socket a, address))"

definition chat_start :: "string list \<Rightarrow> net_ans \<Rightarrow> (int \<times> sockaddr_in) startup" where
  "chat_start argv a = (if length argv \<noteq> 2 then Usage_exit
     else let port = atoi (argv ! 1);
         address = zero_addr\<lparr>sin_family := AF_INET, sin_addr := INADDR_ANY, sin_port := net_port port\<rparr> in
       if na_socket a < 0 then Assert_fails
       else if na_bind a = -1 then Assert_fails
       else if na_listen a = -1 then Assert_fails
       else Goes_on (na_socket a, address))"

definition sel_start :: "string list \<Rightarrow> net_ans \<Rightarrow> (int \<times> sockaddr_in) startup" where
  "sel_start argv a = (if length argv \<noteq> 2 then Usage_exit
     else let port = atoi (argv ! 1);
         address = zero_addr\<lparr>sin_family := AF_INET, sin_addr := INADDR_ANY, sin_port := net_port port\<rparr> in
       if na_socket a < 0 then Assert_fails
       else if na_bind a = -1 then Assert_fails
       else if na_listen a = -1 then Assert_fails
       else Goes_on (na_socket a, address))"

definition urg_start :: "string list \<Rightarrow> net_ans \<Rightarrow> (int \<times> sockaddr_in) startup" where
  "urg_start argv a = (if length argv \<noteq> 2 then Usage_exit
     else let port = atoi (argv ! 1);
         address = zero_addr\<lparr>sin_family := AF_INET, sin_addr := INADDR_ANY, sin_port := net_port port\<rparr> in
       if na_socket a < 0 then Assert_fails
       else if na_bind a = -1 then Assert_fails
       else if na_listen a = -1 then Assert_fails
       else Goes_on (na_socket a, address))"

definition spl_start :: "string list \<Rightarrow> net_ans \<Rightarrow> (int \<times> sockaddr_in) startup" where
  "spl_start argv a = (if length argv \<noteq> 2 then Usage_exit
     else let port = atoi (argv ! 1);
         address = zero_addr\<lparr>sin_family := AF_INET, sin_addr := INADDR_ANY, sin_port := net_port port\<rparr> in
       if na_socket a < 0 then Assert_fails
       else if na_bind a = -1 then Assert_fails
       else if na_listen a = -1 then Assert_fails
       else Goes_on (na_socket a, address))"

definition http_start :: "string list \<Rightarrow> net_ans \<Rightarrow> (int \<times> sockaddr_in) startup" where
  "http_start argv a = (if length argv \<noteq> 3 then Usage_exit
     else let port = atoi (argv ! 1);
         address = zero_addr\<lparr>sin_family := AF_INET, sin_addr := INADDR_ANY, sin_port := net_port port\<rparr> in
       if na_socket a < 0 then Assert_fails
       else if na_bind a = -1 then Assert_fails
       else if na_listen a = -1 then Assert_fails
       else Goes_on (na_socket a, address))"

section \<open>Servers on a given address\<close>

definition web_start :: "string list \<Rightarrow> net_ans \<Rightarrow> (int \<times> sockaddr_in) startup" where
  "web_start argv a = (if length argv \<noteq> 3 then Usage_exit
     else let port = atoi (argv ! 2);
         address = zero_addr\<lparr>sin_family := AF_INET, sin_addr := inet_pton a (argv ! 1) (sin_addr zero_addr), sin_port := net_port port\<rparr> in
       if na_socket a < 0 then Assert_fails
       else if \<not> na_bind a \<ge> 0 then Assert_fails
       else if \<not> na_listen a \<ge> 0 then Assert_fails
       else Goes_on (na_socket a, address))"

definition cgi_start :: "string list \<Rightarrow> net_ans \<Rightarrow> (int \<times> sockaddr_in) startup" where
  "cgi_start argv a = (if length argv \<le> 2 then Usage_exit
     else let port = atoi (argv ! 2);
         address = zero_addr\<lparr>sin_family := AF_INET, sin_addr := inet_pton a (argv ! 1) (sin_addr zero_addr), sin_port := net_port port\<rparr> in
       if na_socket a < 0 then Assert_fails
       else if na_bind a = -1 then Assert_fails
       else if na_listen a = -1 then Assert_fails
       else Goes_on (na_socket a, address))"

section \<open>Clients\<close>

definition chatc_start :: "string list \<Rightarrow> net_ans \<Rightarrow> (int \<times> sockaddr_in) startup" where
  "chatc_start argv a = (if length argv \<noteq> 3 then Usage_exit
     else let ip = argv ! 1; port = atoi (argv ! 2);
         address = zero_addr\<lparr>sin_family := AF_INET, sin_addr := inet_pton a ip (sin_addr zero_addr), sin_port := net_port port\<rparr> in
       if na_socket a < 0 then Assert_fails
       else if na_connect a < 0 then Connect_fails
       else Goes_on (na_socket a, address))"

text \<open>\<open>timeout_connect\<close>: the result, and the address it connects to.\<close>

definition timeout_connect :: "string \<Rightarrow> int \<Rightarrow> int \<Rightarrow> net_ans \<Rightarrow> (int \<times> sockaddr_in) startup" where
  "timeout_connect ip port setopt_ret a = (
     let address = zero_addr\<lparr>sin_family := AF_INET, sin_addr := inet_pton a ip (sin_addr zero_addr), sin_port := net_port port\<rparr> in
     if na_socket a < 0 then Assert_fails
     else if setopt_ret = -1 then Assert_fails
     else if na_connect a = -1 then Connect_fails
     else Goes_on (na_socket a, address))"

definition tconn_start :: "string list \<Rightarrow> net_ans \<Rightarrow> (int \<times> sockaddr_in) startup" where
  "tconn_start argv a = (if length argv \<noteq> 3 then Usage_exit else timeout_connect (argv ! 1) (atoi (argv ! 2)) 0 a)"

section \<open>What an argument stands for\<close>

text \<open>A server reads its port from \<open>argv ! portarg\<close> and takes its address from \<open>addr\<close>.\<close>

locale listener =
  fixes start :: "string list \<Rightarrow> net_ans \<Rightarrow> (int \<times> sockaddr_in) startup"
    and argc_ok :: "nat \<Rightarrow> bool"
    and portarg :: nat
    and addr :: "string list \<Rightarrow> net_ans \<Rightarrow> 32 word"
  assumes usage: "\<not> argc_ok (length argv) \<Longrightarrow> start argv a = Usage_exit"
    and aborts: "argc_ok (length argv) \<Longrightarrow> na_socket a < 0 \<or> na_bind a = -1 \<or> na_listen a = -1 \<Longrightarrow> start argv a = Assert_fails"
    and listens: "argc_ok (length argv) \<Longrightarrow> 0 \<le> na_socket a \<Longrightarrow> na_bind a = 0 \<Longrightarrow> na_listen a = 0 \<Longrightarrow>
      start argv a = Goes_on (na_socket a, \<lparr>sin_family = AF_INET, sin_addr = addr argv a, sin_port = net_port (atoi (argv ! portarg))\<rparr>)"
begin

lemma port_of_argument:
  assumes "argc_ok (length argv)" "argv ! portarg = dec_int p" "0 \<le> na_socket a" "na_bind a = 0" "na_listen a = 0"
  shows "\<exists>s. start argv a = Goes_on (na_socket a, s) \<and> sin_addr s = addr argv a \<and> uint (ntohs (sin_port s)) = p mod 65536"
  using listens [OF assms(1,3-5)] assms(2) atoi_dec_int [of "[]" p] by (simp add: net_port_value)

end

lemma start_address: "zero_addr\<lparr>sin_family := f, sin_addr := x, sin_port := p\<rparr> = \<lparr>sin_family = f, sin_addr = x, sin_port = p\<rparr>"
  by (simp add: zero_addr_def)

interpretation il_start: listener il_start "\<lambda>n. n = 2" 1 "\<lambda>_ _. INADDR_ANY"
  by unfold_locales (auto simp: il_start_def start_address Let_def)

interpretation ue_start: listener ue_start "\<lambda>n. n = 2" 1 "\<lambda>_ _. INADDR_ANY"
  by unfold_locales (auto simp: ue_start_def start_address Let_def)

interpretation ep_start: listener ep_start "\<lambda>n. n = 2" 1 "\<lambda>_ _. INADDR_ANY"
  by unfold_locales (auto simp: ep_start_def start_address Let_def)

interpretation os_start: listener os_start "\<lambda>n. n = 2" 1 "\<lambda>_ _. INADDR_ANY"
  by unfold_locales (auto simp: os_start_def start_address Let_def)

interpretation tu_start: listener tu_start "\<lambda>n. n = 2" 1 "\<lambda>_ _. INADDR_ANY"
  by unfold_locales (auto simp: tu_start_def start_address Let_def)

interpretation chat_start: listener chat_start "\<lambda>n. n = 2" 1 "\<lambda>_ _. INADDR_ANY"
  by unfold_locales (auto simp: chat_start_def start_address Let_def)

interpretation sel_start: listener sel_start "\<lambda>n. n = 2" 1 "\<lambda>_ _. INADDR_ANY"
  by unfold_locales (auto simp: sel_start_def start_address Let_def)

interpretation urg_start: listener urg_start "\<lambda>n. n = 2" 1 "\<lambda>_ _. INADDR_ANY"
  by unfold_locales (auto simp: urg_start_def start_address Let_def)

interpretation spl_start: listener spl_start "\<lambda>n. n = 2" 1 "\<lambda>_ _. INADDR_ANY"
  by unfold_locales (auto simp: spl_start_def start_address Let_def)

interpretation http_start: listener http_start "\<lambda>n. n = 3" 1 "\<lambda>_ _. INADDR_ANY"
  by unfold_locales (auto simp: http_start_def start_address Let_def)

interpretation web_start: listener web_start "\<lambda>n. n = 3" 2 "\<lambda>argv a. inet_pton a (argv ! 1) 0"
  by unfold_locales (auto simp: web_start_def start_address zero_addr_def Let_def)

interpretation cgi_start: listener cgi_start "\<lambda>n. 2 < n" 2 "\<lambda>argv a. inet_pton a (argv ! 1) 0"
  by unfold_locales (auto simp: cgi_start_def start_address zero_addr_def Let_def)

text \<open>A client connects to \<open>argv ! 1\<close> and \<open>argv ! 2\<close>.\<close>

locale connector =
  fixes start :: "string list \<Rightarrow> net_ans \<Rightarrow> (int \<times> sockaddr_in) startup"
  assumes no_usage: "length argv \<noteq> 3 \<Longrightarrow> start argv a = Usage_exit"
    and refused: "length argv = 3 \<Longrightarrow> 0 \<le> na_socket a \<Longrightarrow> na_connect a = -1 \<Longrightarrow> start argv a = Connect_fails"
    and connects: "length argv = 3 \<Longrightarrow> 0 \<le> na_socket a \<Longrightarrow> na_connect a = 0 \<Longrightarrow>
      start argv a = Goes_on (na_socket a, \<lparr>sin_family = AF_INET, sin_addr = inet_pton a (argv ! 1) 0, sin_port = net_port (atoi (argv ! 2))\<rparr>)"
begin

lemma peer_of_arguments:
  assumes "na_pton a ip = Some x" "0 \<le> na_socket a" "na_connect a = 0" "0 \<le> p" "p < 65536"
  shows "\<exists>s. start [prog, ip, dec_int p] a = Goes_on (na_socket a, s) \<and> sin_addr s = x \<and> uint (ntohs (sin_port s)) = p"
  using connects [of "[prog, ip, dec_int p]" a] assms atoi_dec_int [of "[]" p] by (simp add: net_port_value inet_pton_def)

end

interpretation chatc_start: connector chatc_start
  by unfold_locales (auto simp: chatc_start_def start_address zero_addr_def Let_def)

interpretation tconn_start: connector tconn_start
  by unfold_locales (auto simp: tconn_start_def timeout_connect_def start_address zero_addr_def Let_def)

text \<open>The chat client finds the chat server. Given the same port number, in the range of ports, on both command lines and an address the
  resolver knows, the address the client connects to is the given one with the port the server is bound to.\<close>
theorem chat_client_finds_server:
  assumes "0 \<le> p" "p < 65536" "0 \<le> na_socket a" "na_bind a = 0" "na_listen a = 0" "0 \<le> na_socket b" "na_connect b = 0" "na_pton b ip = Some x"
  shows "\<exists>s c. chat_start [srv, dec_int p] a = Goes_on (na_socket a, s) \<and> chatc_start [cli, ip, dec_int p] b = Goes_on (na_socket b, c) \<and>
    sin_addr s = INADDR_ANY \<and> sin_addr c = x \<and> sin_port c = sin_port s \<and> uint (ntohs (sin_port s)) = p"
proof -
  obtain s where s: "chat_start [srv, dec_int p] a = Goes_on (na_socket a, s)" "sin_addr s = INADDR_ANY" "uint (ntohs (sin_port s)) = p"
    using chat_start.port_of_argument [of "[srv, dec_int p]" p a] assms by auto
  obtain c where c: "chatc_start [cli, ip, dec_int p] b = Goes_on (na_socket b, c)" "sin_addr c = x" "uint (ntohs (sin_port c)) = p"
    using chatc_start.peer_of_arguments [of b ip x p cli] assms by auto
  have inv: "htons (ntohs y) = y" for y using ntohs_htons [of y] unfolding htons_def ntohs_def .
  have "ntohs (sin_port c) = ntohs (sin_port s)" by (rule word_uint_eqI) (simp only: s(3) c(3))
  then have "sin_port c = sin_port s" by (metis inv)
  with s c show ?thesis by blast
qed

text \<open>Port numbers outside the range are not refused: the server listens on the number modulo 65536. An address that is no address is not
  refused either: the client goes on with 0.0.0.0.\<close>
theorem wrong_arguments_accepted:
  assumes "0 \<le> na_socket a" "na_bind a = 0" "na_listen a = 0" "na_connect a = 0" "na_pton a ip = None"
  shows "(\<exists>s. chat_start [srv, dec_int p] a = Goes_on (na_socket a, s) \<and> uint (ntohs (sin_port s)) = p mod 65536) \<and>
    (\<exists>c. chatc_start [cli, ip, dec_int p] a = Goes_on (na_socket a, c) \<and> sin_addr c = 0)"
  using chat_start.port_of_argument [of "[srv, dec_int p]" p a] chatc_start.connects [of "[cli, ip, dec_int p]" a] assms
  by (simp add: inet_pton_def) blast

definition demo_net :: net_ans where
  "demo_net = \<lparr>na_socket = 3, na_bind = 0, na_listen = 0, na_accept = 4, na_connect = 0,
     na_pton = (\<lambda>ip. if ip = ''127.0.0.1'' then Some 0x0100007F else None)\<rparr>"

theorem chat_client_finds_server_witness:
  "\<exists>s c. chat_start [''s'', dec_int 8080] demo_net = Goes_on (3, s) \<and> chatc_start [''c'', ''127.0.0.1'', dec_int 8080] demo_net = Goes_on (3, c) \<and>
    sin_addr s = INADDR_ANY \<and> sin_addr c = 0x0100007F \<and> sin_port c = sin_port s \<and> uint (ntohs (sin_port s)) = 8080"
  using chat_client_finds_server [of 8080 demo_net demo_net "''127.0.0.1''" "0x0100007F" "''s''" "''c''"] by (simp add: demo_net_def)

theorem wrong_arguments_accepted_witness:
  "(\<exists>s. chat_start [''s'', dec_int 70000] demo_net = Goes_on (3, s) \<and> uint (ntohs (sin_port s)) = 4464) \<and>
    (\<exists>c. chatc_start [''c'', ''local'', dec_int 70000] demo_net = Goes_on (3, c) \<and> sin_addr c = 0)"
  using wrong_arguments_accepted [of demo_net "''local''" "''s''" 70000 "''c''"] by (simp add: demo_net_def)

end
