(* ===== verification/Socket_Mains.thy ===== *)
theory Socket_Mains
  imports Server_Start Event_Loop "HOL-Library.Sublist"
begin

text \<open>
  The small programs around one connection: urgent data sent by \<open>socket/rw_flag_oob/testoobsend.c\<close> and received by
  \<open>testoobrecv.c\<close>, standard output on a socket in \<open>socket/CGI/cgi.c\<close>, \<open>socket/zero_copy/zc_sendfile.c\<close>, the buffer sizes of
  \<open>socket/socket_opt\<close>, \<open>socket/others/listen_backlog.c\<close>, \<open>socket/others/hostinfo.c\<close> and \<open>socket/thread/thread_signal.c\<close>.
\<close>

section \<open>Urgent data\<close>

text \<open>Bytes on their way; the last byte of a \<open>send\<close> with \<open>MSG_OOB\<close> is marked.\<close>

type_synonym marked = "(char \<times> bool) list"

definition send_plain :: "string \<Rightarrow> marked" where
  "send_plain bs = map (\<lambda>c. (c, False)) bs"

definition send_oob :: "string \<Rightarrow> marked" where
  "send_oob bs = (if bs = [] then [] else send_plain (butlast bs) @ [(last bs, True)])"

definition oob_data :: string where "oob_data = ''abc''"
definition normal_data :: string where "normal_data = ''123''"

definition oobsend_main :: "string list \<Rightarrow> net_ans \<Rightarrow> marked startup" where
  "oobsend_main argv a = (if length argv \<le> 2 then Usage_exit
     else let server_address = zero_addr\<lparr>sin_family := AF_INET, sin_addr := inet_pton a (argv ! 1) (sin_addr zero_addr),
           sin_port := net_port (atoi (argv ! 2))\<rparr> in
       if na_socket a < 0 then Assert_fails
       else if na_connect a < 0 then Connect_fails
       else Goes_on (send_plain normal_data @ send_oob oob_data @ send_plain normal_data))"

text \<open>\<open>recv\<close> without flags on the bytes that have arrived: it starts behind a mark and stops in front of one.\<close>

definition recv_plain :: "nat \<Rightarrow> marked \<Rightarrow> string \<times> marked" where
  "recv_plain n q = (
     let q1 = (case q of (c, True) # r \<Rightarrow> r | _ \<Rightarrow> q);
       d = takeWhile (\<lambda>x. \<not> snd x) (take n q1) in
     (map fst d, drop (length d) q1))"

text \<open>\<open>recv\<close> with \<open>MSG_OOB\<close>: the marked byte, if it has arrived and has not been passed; \<open>None\<close> is -1.\<close>

definition recv_oob :: "marked \<Rightarrow> char option" where
  "recv_oob q = map_option fst (find snd q)"

definition BUFSIZ :: nat where "BUFSIZ = 8192"

datatype oob_print = Got_bytes string | Got_error

text \<open>\<open>testoobrecv.c\<close> behind \<open>accept\<close>; \<open>a1\<close>, \<open>a2\<close> and \<open>a3\<close> are the bytes that arrive before each of the three calls.\<close>

definition oobrecv_main :: "string list \<Rightarrow> net_ans \<Rightarrow> marked \<Rightarrow> marked \<Rightarrow> marked \<Rightarrow> (oob_print list) startup" where
  "oobrecv_main argv a a1 a2 a3 = (if length argv \<le> 1 then Usage_exit
     else let address = zero_addr\<lparr>sin_family := AF_INET, sin_addr := INADDR_ANY, sin_port := net_port (atoi (argv ! 1))\<rparr> in
       if na_socket a < 0 then Assert_fails
       else if na_bind a = -1 then Assert_fails
       else if na_listen a = -1 then Assert_fails
       else if na_accept a < 0 then Goes_on []
       else let (d1, q1) = recv_plain (BUFSIZ - 1) a1;
           q2 = q1 @ a2;
           u = (case recv_oob q2 of Some c \<Rightarrow> Got_bytes [c] | None \<Rightarrow> Got_error);
           (d2, q3) = recv_plain (BUFSIZ - 1) (q2 @ a3) in
         Goes_on [Got_bytes d1, u, Got_bytes d2])"

text \<open>The bytes that are not marked.\<close>

definition plain :: "marked \<Rightarrow> string" where
  "plain q = map fst (filter (\<lambda>x. \<not> snd x) q)"

lemma plain_append [simp]: "plain (p @ q) = plain p @ plain q"
  by (simp add: plain_def)

lemma recv_plain_split: "recv_plain n q = (d, q') \<Longrightarrow> plain q = d @ plain q'"
proof -
  have *: "plain p = map fst (takeWhile (\<lambda>x. \<not> snd x) (take n p)) @ plain (drop (length (takeWhile (\<lambda>x. \<not> snd x) (take n p))) p)" for p
  proof -
    define t where "t = takeWhile (\<lambda>x. \<not> snd x) (take n p)"
    have "take (length t) p = t" unfolding t_def
      by (metis length_takeWhile_le length_take min.bounded_iff takeWhile_eq_take take_take min_def)
    then have "p = t @ drop (length t) p" by (metis append_take_drop_id)
    moreover have "\<forall>x \<in> set t. \<not> snd x" by (auto simp: t_def dest: set_takeWhileD)
    then have "plain t = map fst t" by (simp add: plain_def)
    ultimately show ?thesis unfolding t_def [symmetric] by (metis plain_append)
  qed
  show "recv_plain n q = (d, q') \<Longrightarrow> plain q = d @ plain q'"
    using * [of q] * [of "tl q"] by (auto simp: recv_plain_def Let_def plain_def split: list.splits prod.splits bool.splits)
qed

text \<open>The first call never passes a mark behind a byte it returns.\<close>

lemma recv_plain_keeps_mark:
  assumes "\<not> snd x" "recv_plain n (x # q) = (d, q')"
  shows "filter snd q' = filter snd (x # q)"
proof -
  define t where "t = takeWhile (\<lambda>x. \<not> snd x) (take n (x # q))"
  have "take (length t) (x # q) = t" unfolding t_def
    by (metis length_takeWhile_le length_take min.bounded_iff takeWhile_eq_take take_take min_def)
  then have s: "x # q = t @ drop (length t) (x # q)" by (metis append_take_drop_id)
  have "filter snd t = []" by (auto simp: t_def filter_empty_conv dest: set_takeWhileD)
  moreover have "q' = drop (length t) (x # q)"
    using assms by (cases x) (auto simp: recv_plain_def Let_def t_def)
  ultimately show ?thesis using s by (metis append_Nil filter_append)
qed

text \<open>However the bytes of the sender arrive, in pieces of any size between the calls: the two calls for normal data return the bytes
  of the two normal messages and all but the last of the urgent one, in order and from the start on; the call for urgent data returns
  the last byte of the urgent message if it has arrived, and fails otherwise; and a sender that is completely there before the first call is
  printed as 123ab, c and 123.\<close>
theorem oob_exchange:
  assumes "oobsend_main [s, ip, port] a = Goes_on (a1 @ a2 @ a3 @ rest)" "a1 \<noteq> []" "0 \<le> na_socket b" "na_bind b = 0" "na_listen b = 0" "0 \<le> na_accept b"
  shows "\<exists>d1 u d2. oobrecv_main [r, port'] b a1 a2 a3 = Goes_on [Got_bytes d1, u, Got_bytes d2] \<and> prefix (d1 @ d2) ''123ab123'' \<and>
    u = (if 6 \<le> length (a1 @ a2) then Got_bytes ''c'' else Got_error) \<and> (a2 = [] \<and> rest = [] \<and> a3 = [] \<longrightarrow> d1 = ''123ab'' \<and> d2 = ''123'')"
proof -
  define st where "st = send_plain normal_data @ send_oob oob_data @ send_plain normal_data"
  have st: "a1 @ a2 @ a3 @ rest = st" using assms(1) by (auto simp: oobsend_main_def st_def Let_def split: if_splits)
  have st': "st = map (\<lambda>c. (c, False)) ''123ab'' @ (CHR ''c'', True) # map (\<lambda>c. (c, False)) ''123''"
    by (simp add: st_def send_plain_def send_oob_def normal_data_def oob_data_def)
  obtain d1 q1 where r1: "recv_plain (BUFSIZ - 1) a1 = (d1, q1)" by fastforce
  obtain d2 q3 where r2: "recv_plain (BUFSIZ - 1) (q1 @ a2 @ a3) = (d2, q3)" by fastforce
  obtain x q where a1: "a1 = x # q" using assms(2) by (cases a1) auto
  have x: "\<not> snd x" using st st' a1 by auto
  have marks: "filter snd (q1 @ a2) = filter snd (a1 @ a2)" using recv_plain_keeps_mark [OF x] r1 a1 by simp
  have pre: "a1 @ a2 = take (length (a1 @ a2)) st" using st by (metis append_assoc append_eq_conv_conj)
  have marks': "filter snd (take n st) = (if 6 \<le> n then [(CHR ''c'', True)] else [])" for n
  proof (cases "6 \<le> n")
    case True
    then obtain m where "n = 6 + m" using le_Suc_ex by blast
    then show ?thesis by (auto simp: st' eval_nat_numeral take_Cons')
  next
    case False
    then have "n \<in> {0, 1, 2, 3, 4, 5}" by auto
    then show ?thesis by (auto simp: st')
  qed
  have oob: "recv_oob (q1 @ a2) = (if 6 \<le> length (a1 @ a2) then Some (CHR ''c'') else None)"
  proof -
    have "recv_oob q = map_option fst (case filter snd q of [] \<Rightarrow> None | y # _ \<Rightarrow> Some y)" for q
      by (induction q) (auto simp: recv_oob_def)
    moreover have "filter snd (q1 @ a2) = (if 6 \<le> length (a1 @ a2) then [(CHR ''c'', True)] else [])"
      using marks marks' [of "length (a1 @ a2)"] pre by metis
    ultimately show ?thesis by simp
  qed
  have "plain st = ''123ab123''" by (simp add: plain_def st')
  then have "d1 @ (plain q1 @ plain a2 @ plain a3) @ plain rest = ''123ab123''"
    using recv_plain_split [OF r1] arg_cong [OF st, of plain] by simp
  moreover have "plain q1 @ plain a2 @ plain a3 = d2 @ plain q3" using recv_plain_split [OF r2] by simp
  ultimately have "d1 @ (d2 @ plain q3) @ plain rest = ''123ab123''" by argo
  then have p: "prefix (d1 @ d2) ''123ab123''" by (metis append_assoc prefixI)
  have all: "d1 = ''123ab'' \<and> d2 = ''123''" if "a2 = [] \<and> rest = [] \<and> a3 = []"
    using that st st' r1 r2 by (auto simp: recv_plain_def BUFSIZ_def)
  show ?thesis using r1 r2 oob p all assms(3-6)
    by (intro exI [of _ d1] exI [of _ "if 6 \<le> length (a1 @ a2) then Got_bytes ''c'' else Got_error"] exI [of _ d2])
      (auto simp: oobrecv_main_def Let_def)
qed

theorem oob_exchange_witness:
  "\<exists>d1 u d2. oobrecv_main [''r'', ''80''] demo_net (send_plain ''123'') (send_oob ''abc'') (send_plain ''123'') =
      Goes_on [Got_bytes d1, u, Got_bytes d2] \<and> prefix (d1 @ d2) ''123ab123'' \<and> u = Got_bytes ''c''"
  using oob_exchange [of "''s''" "''127.0.0.1''" "''80''" demo_net "send_plain ''123''" "send_oob ''abc''" "send_plain ''123''" "[]" demo_net "''r''" "''80''"]
  by (auto simp: oobsend_main_def demo_net_def send_plain_def send_oob_def normal_data_def oob_data_def)

section \<open>Standard output on a connection\<close>

text \<open>The files of \<open>cgi.c\<close>, and its descriptor table; \<open>cp_out\<close> is what has been written to the client.\<close>

datatype cgi_file = Tty | Listening | Client

record cgi_proc =
  cp_fds :: "nat \<rightharpoonup> cgi_file"
  cp_buf :: string
  cp_out :: string

definition lowest_free :: "(nat \<rightharpoonup> cgi_file) \<Rightarrow> nat option" where
  "lowest_free fds = find (\<lambda>n. fds n = None) [0..<1024]"

definition fd_alloc :: "cgi_file \<Rightarrow> cgi_proc \<Rightarrow> (nat \<times> cgi_proc) option" where
  "fd_alloc f p = map_option (\<lambda>n. (n, p\<lparr>cp_fds := (cp_fds p)(n \<mapsto> f)\<rparr>)) (lowest_free (cp_fds p))"

definition fd_close :: "nat \<Rightarrow> cgi_proc \<Rightarrow> cgi_proc" where
  "fd_close n p = p\<lparr>cp_fds := (cp_fds p)(n := None)\<rparr>"

text \<open>\<open>dup\<close>, whose result is ignored.\<close>

definition fd_dup :: "nat \<Rightarrow> cgi_proc \<Rightarrow> cgi_proc" where
  "fd_dup n p = (case cp_fds p n of None \<Rightarrow> p | Some f \<Rightarrow> (case fd_alloc f p of None \<Rightarrow> p | Some (_, p') \<Rightarrow> p'))"

text \<open>The output of \<open>printf\<close> is written by \<open>exit\<close>, to whatever descriptor 1 is then.\<close>

definition flush_stdout :: "cgi_proc \<Rightarrow> cgi_proc" where
  "flush_stdout p = (if cp_fds p 1 = Some Client then p\<lparr>cp_out := cp_out p @ cp_buf p, cp_buf := []\<rparr> else p\<lparr>cp_buf := []\<rparr>)"

text \<open>\<open>main\<close> of \<open>cgi.c\<close> behind its arguments, for calls that succeed; \<open>None\<close>: the process has no descriptor left.\<close>

definition cgi_main :: "cgi_proc \<Rightarrow> cgi_proc option" where
  "cgi_main p = do {
     (sock, p1) \<leftarrow> fd_alloc Listening p;
     (connfd, p2) \<leftarrow> fd_alloc Client p1;
     let p3 = fd_dup connfd (fd_close 1 p2);
     let p4 = p3\<lparr>cp_buf := cp_buf p3 @ ''abcd'' @ [LF]\<rparr>;
     Some (flush_stdout (fd_close sock (fd_close connfd p4)))
   }"

text \<open>The whole program; \<open>junk\<close> is what the address holds before it is set. Where the numbers of the descriptors do not matter the answers of the kernel are those of \<open>a\<close>; a failed \<open>accept\<close> is reported on the standard
  output of the program, and nothing is sent.\<close>

definition cgi_program :: "sockaddr_in \<Rightarrow> string list \<Rightarrow> net_ans \<Rightarrow> cgi_proc \<Rightarrow> (sockaddr_in \<times> cgi_proc option) startup" where
  "cgi_program junk argv a p = (if length argv \<le> 2 then Usage_exit
     else let address = junk\<lparr>sin_family := AF_INET, sin_addr := inet_pton a (argv ! 1) (sin_addr junk), sin_port := net_port (atoi (argv ! 2))\<rparr> in
       if na_socket a < 0 then Assert_fails
       else if na_bind a = -1 then Assert_fails
       else if na_listen a = -1 then Assert_fails
       else if na_accept a < 0 then Goes_on (address, Some p)
       else Goes_on (address, cgi_main p))"

interpretation cgi_program: listener "\<lambda>argv a. case cgi_program junk argv a p of Goes_on (address, _) \<Rightarrow> Goes_on (na_socket a, address)
    | Usage_exit \<Rightarrow> Usage_exit | Assert_fails \<Rightarrow> Assert_fails | Connect_fails \<Rightarrow> Connect_fails" "\<lambda>n. 2 < n" 2 "\<lambda>argv a. inet_pton a (argv ! 1) (sin_addr junk)" for junk p
  by unfold_locales (auto simp: cgi_program_def Let_def)

lemma lowest_freeE:
  assumes "lowest_free fds = Some n"
  shows "fds n = None" "m < n \<Longrightarrow> fds m \<noteq> None"
  using assms by (auto simp: lowest_free_def find_Some_iff)

lemma lowest_freeI: "fds n = None \<Longrightarrow> (\<And>m. m < n \<Longrightarrow> fds m \<noteq> None) \<Longrightarrow> n < 1024 \<Longrightarrow> lowest_free fds = Some n"
  by (auto simp: lowest_free_def find_Some_iff intro!: exI [of _ n])

lemma lowest_free_one: "fds 0 \<noteq> None \<Longrightarrow> fds 1 = None \<Longrightarrow> lowest_free fds = Some 1"
  by (rule lowest_freeI) auto

lemma lowest_free_zero: "fds 0 = None \<Longrightarrow> lowest_free fds = Some 0"
  by (rule lowest_freeI) auto

text \<open>The text reaches the client exactly if the program is started with standard output open. Without it the listening socket or the
  connection itself is descriptor 1, and is closed.\<close>
theorem cgi_prints_to_client:
  assumes "cgi_main p = Some p'" "cp_buf p = []" "cp_out p = []"
  shows "cp_out p' = (if cp_fds p 1 \<noteq> None then ''abcd'' @ [LF] else [])"
proof -
  obtain sock where s: "lowest_free (cp_fds p) = Some sock" using assms(1) by (auto simp: cgi_main_def fd_alloc_def bind_eq_Some_conv)
  define p1 where "p1 = p\<lparr>cp_fds := (cp_fds p)(sock \<mapsto> Listening)\<rparr>"
  obtain connfd where c: "lowest_free (cp_fds p1) = Some connfd"
    using assms(1) s by (auto simp: cgi_main_def fd_alloc_def bind_eq_Some_conv p1_def)
  define p2 where "p2 = p1\<lparr>cp_fds := (cp_fds p1)(connfd \<mapsto> Client)\<rparr>"
  define p3 where "p3 = fd_dup connfd (fd_close 1 p2)"
  have p': "p' = flush_stdout (fd_close sock (fd_close connfd (p3\<lparr>cp_buf := cp_buf p3 @ ''abcd'' @ [LF]\<rparr>)))"
    using assms(1) s c by (simp add: cgi_main_def fd_alloc_def p1_def p2_def p3_def Let_def)
  have free: "cp_fds p sock = None" "cp_fds p1 connfd = None" "connfd \<noteq> sock" using lowest_freeE [OF s] lowest_freeE [OF c] by (auto simp: p1_def)
  have zero: "cp_fds p2 0 \<noteq> None"
    using lowest_free_zero [of "cp_fds p"] s by (cases "cp_fds p 0") (auto simp: p2_def p1_def)
  have three: "cp_buf p3 = []" "cp_out p3 = []"
    using assms(2,3) by (auto simp: p3_def fd_dup_def fd_close_def fd_alloc_def p2_def p1_def split: option.splits)
  show ?thesis
  proof (cases "cp_fds p 1 = None")
    case False
    then have ne: "sock \<noteq> 1" "connfd \<noteq> 1" using free by (auto simp: p1_def)
    have "lowest_free (cp_fds (fd_close 1 p2)) = Some 1" using zero by (intro lowest_free_one) (simp_all add: fd_close_def)
    then have "cp_fds p3 1 = Some Client" using ne by (simp add: p3_def fd_dup_def fd_close_def p2_def fd_alloc_def)
    then show ?thesis using False ne three p' by (simp add: flush_stdout_def fd_close_def)
  next
    case True
    have "sock = 1 \<or> connfd = 1"
    proof (cases "cp_fds p 0 = None")
      case z: True
      then have "sock = 0" using lowest_free_zero s by simp
      then show ?thesis using lowest_free_one [of "cp_fds p1"] c True by (simp add: p1_def)
    next
      case False
      then show ?thesis using lowest_free_one [of "cp_fds p"] s True by simp
    qed
    then show ?thesis using True three p' by (auto simp: flush_stdout_def fd_close_def)
  qed
qed

theorem cgi_prints_to_client_witness:
  "\<exists>p'. cgi_main \<lparr>cp_fds = [0 \<mapsto> Tty, 1 \<mapsto> Tty, 2 \<mapsto> Tty], cp_buf = [], cp_out = []\<rparr> = Some p' \<and> cp_out p' = ''abcd'' @ [LF]"
proof -
  define p where "p = \<lparr>cp_fds = [0 \<mapsto> Tty, 1 \<mapsto> Tty, 2 \<mapsto> Tty], cp_buf = [], cp_out = []\<rparr>"
  have "lowest_free (cp_fds p) = Some 3" by (rule lowest_freeI) (auto simp: p_def less_Suc_eq eval_nat_numeral)
  moreover have "lowest_free ((cp_fds p)(3 \<mapsto> Listening)) = Some 4" by (rule lowest_freeI) (auto simp: p_def less_Suc_eq eval_nat_numeral)
  ultimately obtain p' where "cgi_main p = Some p'" by (auto simp: cgi_main_def fd_alloc_def Let_def)
  then show ?thesis using cgi_prints_to_client [of p p'] by (simp add: p_def)
qed

section \<open>Sending a file\<close>

text \<open>The most bytes one \<open>sendfile\<close> moves.\<close>

definition MAX_RW_COUNT :: nat where "MAX_RW_COUNT = 0x7FFFF000"

text \<open>\<open>main\<close> of \<open>zc_sendfile.c\<close>: the file if it can be opened, its size for \<open>fstat\<close> and what the socket takes of it. The result: whether a client was
  there, the bytes it got, and the descriptors that are closed.\<close>

datatype sf_fd = Sf_file | Sf_sock | Sf_conn

definition sendfile_main :: "string list \<Rightarrow> string option \<Rightarrow> net_ans \<Rightarrow> nat \<Rightarrow> (string \<times> sf_fd list) startup" where
  "sendfile_main argv file a takes = (if length argv \<noteq> 3 then Usage_exit
     else (case file of None \<Rightarrow> Assert_fails
       | Some data \<Rightarrow>
           let st_size = length data;
             address = zero_addr\<lparr>sin_family := AF_INET, sin_port := net_port (atoi (argv ! 1)), sin_addr := INADDR_ANY\<rparr> in
           if na_socket a < 0 then Assert_fails
           else if na_bind a = -1 then Assert_fails
           else if na_listen a = -1 then Assert_fails
           else if na_accept a < 0 then Goes_on ([], [Sf_sock])
           else Goes_on (take (min takes (min st_size MAX_RW_COUNT)) data, [Sf_conn, Sf_sock])))"

text \<open>One call is all there is: the client gets the whole file exactly if it is no longer than one \<open>sendfile\<close> can move and the socket takes it
  at once; what is missing is not noticed. The file is never closed.\<close>
theorem sendfile_one_call:
  assumes "0 \<le> na_socket a" "na_bind a = 0" "na_listen a = 0" "0 \<le> na_accept a"
  shows "\<exists>got. sendfile_main [p, port, name] (Some data) a takes = Goes_on (got, [Sf_conn, Sf_sock]) \<and> prefix got data \<and>
    (got = data \<longleftrightarrow> length data \<le> takes \<and> length data \<le> MAX_RW_COUNT)"
proof -
  have "take n data = data \<longleftrightarrow> length data \<le> n" for n by auto
  then show ?thesis using assms by (simp add: sendfile_main_def take_is_prefix)
qed

theorem sendfile_one_call_witness:
  "\<exists>got. sendfile_main [''p'', ''80'', ''f''] (Some ''hello'') demo_net 4 = Goes_on (got, [Sf_conn, Sf_sock]) \<and> prefix got ''hello'' \<and> got \<noteq> ''hello''"
  using sendfile_one_call [of demo_net "''p''" "''80''" "''f''" "''hello''" 4] by (simp add: demo_net_def)

section \<open>Buffer sizes\<close>

text \<open>\<open>setsockopt\<close> of a buffer size: the value as unsigned, at most \<open>limit\<close>, is doubled and at least \<open>floor\<close>.\<close>

definition set_buf :: "nat \<Rightarrow> nat \<Rightarrow> int \<Rightarrow> nat" where
  "set_buf limit floor v = max (2 * min (nat (v mod 2 ^ 32)) limit) floor"

text \<open>The loop that reads and forgets: the sizes of the answers, 0 or less for the end.\<close>

fun drain_loop :: "int list \<Rightarrow> nat \<Rightarrow> bool \<times> nat" where
  "drain_loop [] n = (False, n)"
| "drain_loop (r # rs) n = (if r > 0 then drain_loop rs (n + nat r) else (True, n))"

definition recvbuf_main :: "string list \<Rightarrow> net_ans \<Rightarrow> nat \<Rightarrow> nat \<Rightarrow> int list \<Rightarrow> (nat \<times> bool \<times> nat) startup" where
  "recvbuf_main argv a limit floor rs = (if length argv \<le> 2 then Usage_exit
     else let address = zero_addr\<lparr>sin_family := AF_INET, sin_addr := INADDR_ANY, sin_port := net_port (atoi (argv ! 1))\<rparr> in
       if na_socket a < 0 then Assert_fails
       else let recvbuf = set_buf limit floor (atoi (argv ! 2)) in
         if na_bind a = -1 then Assert_fails
         else if na_listen a = -1 then Assert_fails
         else if na_accept a < 0 then Goes_on (recvbuf, True, 0)
         else Goes_on (recvbuf, drain_loop rs 0))"

definition sendbuf_main :: "string list \<Rightarrow> net_ans \<Rightarrow> nat \<Rightarrow> nat \<Rightarrow> (nat \<times> string) startup" where
  "sendbuf_main argv a limit floor = (if length argv \<le> 3 then Usage_exit
     else let server_address = zero_addr\<lparr>sin_family := AF_INET, sin_addr := inet_pton a (argv ! 1) (sin_addr zero_addr),
           sin_port := net_port (atoi (argv ! 2))\<rparr> in
       if na_socket a < 0 then Assert_fails
       else let sendbuf = set_buf limit floor (atoi (argv ! 3)) in
         if na_connect a \<noteq> -1 then Goes_on (sendbuf, replicate 512 (CHR ''a'')) else Goes_on (sendbuf, []))"

lemma drain_loop_all: "\<forall>r \<in> set rs. 0 < r \<Longrightarrow> drain_loop (rs @ 0 # rs') n = (True, n + nat (sum_list rs))"
proof (induction rs arbitrary: n)
  case (Cons r rs)
  moreover have "0 \<le> sum_list rs" using Cons.prems by (intro sum_list_nonneg) auto
  ultimately show ?case by (simp add: nat_add_distrib)
qed simp

text \<open>The two programs together: in whatever pieces the 512 bytes arrive, the receiver's loop ends with the stream and has read all of them; the sizes
  both print are twice the requested ones where these are within the bounds of the system, and negative requests ask for the maximum.\<close>
theorem buffers_exchange:
  assumes "sendbuf_main [s, ip, port, dec_int v] a limit floor = Goes_on (sz, bs)" "\<forall>r \<in> set rs. 0 < r" "nat (sum_list rs) = length bs"
    "0 \<le> na_socket b" "na_bind b = 0" "na_listen b = 0" "0 \<le> na_accept b"
  shows "recvbuf_main [r, port', dec_int w] b limit floor (rs @ [0]) = Goes_on (set_buf limit floor w, True, length bs) \<and> length bs \<in> {0, 512} \<and>
    sz = set_buf limit floor v \<and> (0 \<le> v \<and> nat v \<le> limit \<and> limit < 2 ^ 31 \<and> floor \<le> 2 * nat v \<longrightarrow> sz = 2 * nat v) \<and>
    (- (2 ^ 31) \<le> v \<and> v < 0 \<and> limit < 2 ^ 31 \<and> floor \<le> 2 * limit \<longrightarrow> sz = 2 * limit)"
proof -
  have bs: "sz = set_buf limit floor v" "length bs \<in> {0, 512}"
    using assms(1) atoi_dec_int [of "[]" v] by (auto simp: sendbuf_main_def Let_def split: if_splits)
  have "sz = 2 * nat v" if "0 \<le> v" "nat v \<le> limit" "limit < 2 ^ 31" "floor \<le> 2 * nat v"
    using that bs(1) by (simp add: set_buf_def)
  moreover have "sz = 2 * limit" if "- (2 ^ 31) \<le> v" "v < 0" "limit < 2 ^ 31" "floor \<le> 2 * limit"
  proof -
    have "v mod 2 ^ 32 = (v + 2 ^ 32) mod 2 ^ 32" by simp
    also have "\<dots> = v + 2 ^ 32" by (rule mod_pos_pos_trivial) (use that in auto)
    finally have "v mod 2 ^ 32 = v + 2 ^ 32" .
    then show ?thesis using that bs(1) by (simp add: set_buf_def)
  qed
  ultimately show ?thesis
    using bs assms(2-7) drain_loop_all [of rs "[]" 0] atoi_dec_int [of "[]" w] by (simp add: recvbuf_main_def Let_def)
qed

theorem buffers_exchange_witness:
  "recvbuf_main [''r'', ''80'', dec_int 1000] demo_net 200000 2304 ([500, 12] @ [0]) = Goes_on (set_buf 200000 2304 1000, True, 512)"
proof -
  have "sendbuf_main [''s'', ''127.0.0.1'', ''80'', dec_int (-1)] demo_net 200000 2304 = Goes_on (set_buf 200000 2304 (-1), replicate 512 (CHR ''a''))"
    using atoi_dec_int [of "[]" "-1"] by (simp add: sendbuf_main_def demo_net_def)
  from buffers_exchange [OF this, of "[500, 12]" demo_net "''r''" "''80''" 1000] show ?thesis by (simp add: demo_net_def)
qed

section \<open>Waiting for the end\<close>

definition BL_SIGTERM :: nat where "BL_SIGTERM = 15"

definition handle_term :: "nat \<Rightarrow> bool \<Rightarrow> bool" where
  "handle_term sig stop = True"

text \<open>The loop of \<open>listen_backlog.c\<close>: the signals that arrive in each second, of which only \<open>SIGTERM\<close> has a handler and the others are
  taken to be ignored. The result tells whether the loop has ended.\<close>

fun backlog_loop :: "nat list list \<Rightarrow> bool \<Rightarrow> bool" where
  "backlog_loop ss stop = (if stop then True else (case ss of [] \<Rightarrow> False
     | sigs # rest \<Rightarrow> backlog_loop rest (fold (\<lambda>s b. if s = BL_SIGTERM then handle_term s b else b) sigs stop)))"

declare backlog_loop.simps [simp del]

definition backlog_main :: "string list \<Rightarrow> net_ans \<Rightarrow> nat list list \<Rightarrow> (int \<times> bool) startup" where
  "backlog_main argv a ss = (if length argv \<le> 2 then Usage_exit
     else let port = atoi (argv ! 1); backlog = atoi (argv ! 2);
         address = zero_addr\<lparr>sin_family := AF_INET, sin_addr := INADDR_ANY, sin_port := net_port port\<rparr> in
       if na_socket a < 0 then Assert_fails
       else if na_bind a = -1 then Assert_fails
       else if na_listen a = -1 then Assert_fails
       else Goes_on (backlog, backlog_loop ss False))"

lemma backlog_loop_ends: "backlog_loop ss stop \<longleftrightarrow> stop \<or> (\<exists>sigs \<in> set ss. BL_SIGTERM \<in> set sigs)"
proof (induction ss arbitrary: stop)
  case Nil
  then show ?case by (simp add: backlog_loop.simps)
next
  case (Cons sigs rest)
  have "fold (\<lambda>s b. if s = BL_SIGTERM then handle_term s b else b) sigs b \<longleftrightarrow> b \<or> BL_SIGTERM \<in> set sigs" for b
    by (induction sigs arbitrary: b) (auto simp: handle_term_def)
  then show ?case using Cons by (simp add: backlog_loop.simps [of "sigs # rest"])
qed

section \<open>Addresses of a host\<close>

text \<open>The answers of \<open>getnameinfo\<close>, whose result is not looked at: a failure leaves \<open>buf\<close> as it is.\<close>

fun hostinfo_loop :: "string option list \<Rightarrow> string \<Rightarrow> string list" where
  "hostinfo_loop [] buf = []"
| "hostinfo_loop (r # rs) buf = (let buf' = (case r of Some s \<Rightarrow> s | None \<Rightarrow> buf) in buf' # hostinfo_loop rs buf')"

text \<open>\<open>main\<close>: the addresses if \<open>getaddrinfo\<close> finds some, and the exit status.\<close>

definition hostinfo_main :: "string list \<Rightarrow> string option list option \<Rightarrow> string \<Rightarrow> int \<times> string list" where
  "hostinfo_main argv info buf = (if length argv \<noteq> 2 then (1, [])
     else (case info of None \<Rightarrow> (1, []) | Some listp \<Rightarrow> (0, hostinfo_loop listp buf)))"

text \<open>Every address is printed once and in order; in place of one that cannot be converted the one before it is printed again.\<close>
lemma hostinfo_lines:
  "hostinfo_main [p, name] (Some (map Some addrs)) buf = (0, addrs)"
  "hostinfo_main [p, name] (Some (map Some addrs @ [Some x, None])) buf = (0, addrs @ [x, x])"
proof -
  have *: "hostinfo_loop (map Some addrs @ rest) b = addrs @ hostinfo_loop rest (if addrs = [] then b else last addrs)" for b rest
    by (induction addrs arbitrary: b) auto
  show "hostinfo_main [p, name] (Some (map Some addrs)) buf = (0, addrs)" using * [of "[]"] by (simp add: hostinfo_main_def)
  show "hostinfo_main [p, name] (Some (map Some addrs @ [Some x, None])) buf = (0, addrs @ [x, x])" using * by (simp add: hostinfo_main_def)
qed

section \<open>A thread for the signals\<close>

text \<open>\<open>thread_signal.c\<close>: \<open>ts_set\<close> is \<open>set\<close>, blocked in both threads since it was blocked before the second one was created. A signal that is not
  blocked ends the process. \<open>ts_arrived\<close> records what has arrived.\<close>

record ts_state =
  ts_set :: "nat set"
  ts_pending :: "nat set"
  ts_alive :: bool
  ts_printed :: "nat list"
  ts_arrived :: "nat set"

definition TS_SIGQUIT :: nat where "TS_SIGQUIT = 3"
definition TS_SIGUSR1 :: nat where "TS_SIGUSR1 = 10"

definition ts_main :: ts_state where
  "ts_main = \<lparr>ts_set = insert TS_SIGUSR1 (insert TS_SIGQUIT {}), ts_pending = {}, ts_alive = True, ts_printed = [], ts_arrived = {}\<rparr>"

text \<open>One turn of \<open>sig_thread\<close>: \<open>sigwait\<close> takes a pending signal of the set.\<close>

definition sig_thread :: "nat \<Rightarrow> ts_state \<Rightarrow> ts_state option" where
  "sig_thread sig s = (if ts_alive s \<and> sig \<in> ts_set s \<and> sig \<in> ts_pending s
     then Some (s\<lparr>ts_pending := ts_pending s - {sig}, ts_printed := ts_printed s @ [sig]\<rparr>) else None)"

definition ts_signal :: "nat \<Rightarrow> ts_state \<Rightarrow> ts_state" where
  "ts_signal sig s = (let s1 = s\<lparr>ts_arrived := insert sig (ts_arrived s)\<rparr> in
     if sig \<in> ts_set s then s1\<lparr>ts_pending := insert sig (ts_pending s)\<rparr> else s1\<lparr>ts_alive := False\<rparr>)"

inductive ts_step :: "ts_state \<Rightarrow> ts_state \<Rightarrow> bool" where
  arrives: "ts_alive s \<Longrightarrow> ts_step s (ts_signal sig s)"
| thread: "sig_thread sig s = Some s' \<Longrightarrow> ts_step s s'"

definition ts_inv :: "ts_state \<Rightarrow> bool" where
  "ts_inv s \<longleftrightarrow> ts_set s = {TS_SIGQUIT, TS_SIGUSR1} \<and> set (ts_printed s) \<union> ts_pending s = ts_arrived s \<inter> ts_set s \<and>
     (ts_alive s \<longleftrightarrow> ts_arrived s \<subseteq> ts_set s)"

interpretation ts: transition_system "\<lambda>s. s = ts_main" ts_step ts_inv
proof unfold_locales
  show "ts_inv s" if "s = ts_main" for s using that by (auto simp: ts_inv_def ts_main_def)
  show "ts_inv s'" if "ts_step s s'" "ts_inv s" for s s'
    using that
  proof (induction rule: ts_step.induct)
    case (arrives s sig)
    then show ?case by (cases "sig \<in> ts_set s") (auto simp: ts_inv_def ts_signal_def Let_def)
  next
    case (thread sig s s')
    then show ?case by (auto simp: ts_inv_def sig_thread_def split: if_splits)
  qed
qed

text \<open>No signal of the set ends the process or is lost: as long as only such signals arrive the process lives, and each of them has been
  printed by the thread or can be taken by it next.\<close>
theorem thread_takes_signals:
  assumes "ts_step\<^sup>*\<^sup>* ts_main s" "ts_arrived s \<subseteq> {TS_SIGQUIT, TS_SIGUSR1}"
  shows "ts_alive s \<and> (\<forall>sig \<in> ts_arrived s. sig \<in> set (ts_printed s) \<or> sig_thread sig s \<noteq> None)"
  using ts.reachable_inv [OF refl assms(1)] assms(2) by (auto simp: ts_inv_def sig_thread_def)

theorem thread_takes_signals_witness:
  "ts_alive (ts_signal TS_SIGQUIT ts_main) \<and> sig_thread TS_SIGQUIT (ts_signal TS_SIGQUIT ts_main) \<noteq> None"
proof -
  have "ts_step\<^sup>*\<^sup>* ts_main (ts_signal TS_SIGQUIT ts_main)" by (intro r_into_rtranclp ts_step.arrives) (simp add: ts_main_def)
  from thread_takes_signals [OF this] show ?thesis by (auto simp: ts_signal_def ts_main_def)
qed

end
