(* ===== verification/Program_Mains.thy ===== *)
theory Program_Mains
  imports Server_Start Fd_Helpers Echo_Programs Io_Demos Poll_Chat
begin

text \<open>
  Whole \<open>main\<close> functions: the start of \<open>Server_Start\<close> followed by the loop that is modelled elsewhere, and the end of the program. The programs that
  serve a single connection (\<open>io_select.c\<close>, \<open>sigurg_oob.c\<close>, \<open>zc_splice.c\<close>) share a contract on their sockets; the pair of \<open>socket/echo\<close> is run
  against each other, from the command lines to the terminals.
\<close>

fun and_then :: "'a startup \<Rightarrow> ('a \<Rightarrow> 'b startup) \<Rightarrow> 'b startup" where
  "and_then Usage_exit f = Usage_exit"
| "and_then Assert_fails f = Assert_fails"
| "and_then Connect_fails f = Connect_fails"
| "and_then (Goes_on x) f = f x"

section \<open>Programs for one connection\<close>

text \<open>What can be told of a run: whether \<open>main\<close> has returned, its output, and the sockets it has closed.\<close>

record 'o one_run =
  or_ended :: bool
  or_out :: 'o
  or_closed :: "int list"

definition sel_main :: "string list \<Rightarrow> net_ans \<Rightarrow> (sel_ans \<times> string option) list \<Rightarrow> oob_line list one_run startup" where
  "sel_main argv a as = and_then (sel_start argv a) (\<lambda>(listenfd, _).
     let connfd = na_accept a in
     if connfd < 0 then Goes_on \<lparr>or_ended = True, or_out = [], or_closed = [listenfd]\<rparr>
     else (case io_select_loop as [] of (ended, ls) \<Rightarrow>
       Goes_on \<lparr>or_ended = ended, or_out = ls, or_closed = if ended then [connfd, listenfd] else []\<rparr>))"

definition SIGURG :: nat where "SIGURG = 23"

text \<open>The signals are only sent to the owner of the socket, which is set behind the handler; \<open>k\<close> are the tables of the kernel. The output is that of
  the loop, with the owner and the table of handlers it ran under.\<close>

definition urg_main :: "string list \<Rightarrow> net_ans \<Rightarrow> kernel \<times> int \<times> urg_event list \<Rightarrow> (oob_line list \<times> int option \<times> kernel) one_run startup" where
  "urg_main argv a = (\<lambda>(k, pid, es). and_then (urg_start argv a) (\<lambda>(sock, _).
     let connfd = na_accept a in
     if connfd < 0 then Goes_on \<lparr>or_ended = True, or_out = ([], None, k), or_closed = [sock]\<rparr>
     else (case urg_addsig SIGURG Sig_urg k of
         None \<Rightarrow> Assert_fails
       | Some k' \<Rightarrow> (case sigurg_loop es [] of (ended, ls) \<Rightarrow>
           Goes_on \<lparr>or_ended = ended, or_out = (ls, Some pid, k'), or_closed = if ended then [connfd, sock] else []\<rparr>))))"

text \<open>\<open>received\<close> and \<open>sent\<close> are the answers of the two \<open>splice\<close> calls. The two ends of the pipe are closed by the end of the process only.\<close>

definition spl_main :: "string list \<Rightarrow> net_ans \<Rightarrow> bool \<times> string option \<times> nat option \<Rightarrow> string one_run startup" where
  "spl_main argv a = (\<lambda>(pipe_ok, received, sent). and_then (spl_start argv a) (\<lambda>(sock, _).
     let connfd = na_accept a in
     if connfd < 0 then Goes_on \<lparr>or_ended = True, or_out = [], or_closed = [sock]\<rparr>
     else if \<not> pipe_ok then Assert_fails
     else (case zc_splice received sent of
         (Zc_abort, _) \<Rightarrow> Assert_fails
       | (Zc_blocks, _) \<Rightarrow> Goes_on \<lparr>or_ended = False, or_out = [], or_closed = []\<rparr>
       | (Zc_ok, out) \<Rightarrow> Goes_on \<lparr>or_ended = True, or_out = out, or_closed = [connfd, sock]\<rparr>)))"

text \<open>The contract: \<open>run\<close> is what the program does with its connection, \<open>no\<close> its output when there is none.\<close>

locale one_connection =
  fixes start :: "string list \<Rightarrow> net_ans \<Rightarrow> (int \<times> sockaddr_in) startup"
    and main :: "string list \<Rightarrow> net_ans \<Rightarrow> 'e \<Rightarrow> 'o one_run startup"
    and run :: "'e \<Rightarrow> (bool \<times> 'o) option"
    and no :: "'e \<Rightarrow> 'o"
  assumes refused: "start argv a = Goes_on (sock, addr) \<Longrightarrow> na_accept a < 0 \<Longrightarrow>
      main argv a e = Goes_on \<lparr>or_ended = True, or_out = no e, or_closed = [sock]\<rparr>"
    and served: "start argv a = Goes_on (sock, addr) \<Longrightarrow> 0 \<le> na_accept a \<Longrightarrow> run e = Some (ended, out) \<Longrightarrow>
      main argv a e = Goes_on \<lparr>or_ended = ended, or_out = out, or_closed = if ended then [na_accept a, sock] else []\<rparr>"
    and aborted: "start argv a = Goes_on (sock, addr) \<Longrightarrow> 0 \<le> na_accept a \<Longrightarrow> run e = None \<Longrightarrow> main argv a e = Assert_fails"
    and unstarted: "start argv a = Usage_exit \<Longrightarrow> main argv a e = Usage_exit" "start argv a = Assert_fails \<Longrightarrow> main argv a e = Assert_fails"
begin

text \<open>A \<open>main\<close> that returns has closed every socket it was given, once.\<close>

lemma sockets_closed:
  assumes "start argv a = Goes_on (sock, addr)" "main argv a e = Goes_on r" "or_ended r"
  shows "mset (or_closed r) = mset (filter (\<lambda>fd. 0 \<le> fd) [na_accept a]) + {#sock#}"
proof (cases "na_accept a < 0")
  case True
  then show ?thesis using refused [OF assms(1) True, of e] assms(2) by auto
next
  case False
  then obtain ended out where "run e = Some (ended, out)" using aborted [OF assms(1), of e] assms(2) by fastforce
  then show ?thesis using served [OF assms(1), of e ended out] False assms(2,3) by auto
qed

end

interpretation sel_main: one_connection sel_start sel_main "\<lambda>as. Some (io_select_loop as [])" "\<lambda>_. []"
  by unfold_locales (simp_all add: sel_main_def Let_def)

interpretation urg_main: one_connection urg_start urg_main
  "\<lambda>(k, pid, es). (case urg_addsig SIGURG Sig_urg k of None \<Rightarrow> None
     | Some k' \<Rightarrow> Some (fst (sigurg_loop es []), (snd (sigurg_loop es []), Some pid, k')))"
  "\<lambda>(k, pid, es). ([], None, k)"
  by unfold_locales (auto simp: urg_main_def Let_def case_prod_beta split: option.splits)

interpretation spl_main: one_connection spl_start spl_main
  "\<lambda>(pipe_ok, received, sent). if \<not> pipe_ok then None else (case zc_splice received sent of
     (Zc_abort, _) \<Rightarrow> None | (Zc_blocks, _) \<Rightarrow> Some (False, []) | (Zc_ok, out) \<Rightarrow> Some (True, out))"
  "\<lambda>_. []"
  by unfold_locales (auto simp: spl_main_def Let_def split: prod.splits zc_end.splits if_splits)

text \<open>The signal driven program, started on a port and sent some normal and urgent data and the end of the stream, installs its handler as a
  restarting one with all signals blocked, makes itself the owner of the socket, prints a line per arrival and closes both sockets; \<open>io_select.c\<close> under
  the same arrivals prints the same lines and closes neither, because it never ends.\<close>
theorem urgent_program_runs:
  assumes "0 \<le> na_socket a" "na_bind a = 0" "na_listen a = 0" "0 \<le> na_accept a" "list_all (\<lambda>(u, r). some_data r) as"
  defines "ls \<equiv> map (\<lambda>(u, r). recv_line (if u then Urgent_line else Normal_line) r) as"
  shows "(\<exists>k'. urg_main [prog, port] a (k, pid, map (\<lambda>(u, r). if u then Urg r else Rcv r) as @ [Rcv (Some [])]) =
      Goes_on \<lparr>or_ended = True, or_out = (ls, Some pid, k'), or_closed = [na_accept a, na_socket a]\<rparr> \<and>
      k_action k' SIGURG = \<lparr>sa_handler = Sig_urg, sa_flags = SA_RESTART, sa_mask = all_signals\<rparr>) \<and>
    sel_main [prog, port] a (map (\<lambda>(u, r). (Sel (\<not> u) u, r)) as @ replicate n (Sel True v, Some [])) =
      Goes_on \<lparr>or_ended = False, or_out = ls @ replicate n (Normal_line 0 []), or_closed = []\<rparr>"
proof -
  obtain su where su: "urg_start [prog, port] a = Goes_on (na_socket a, su)" using urg_start.listens [of "[prog, port]" a] assms by simp
  obtain ss where ss: "sel_start [prog, port] a = Goes_on (na_socket a, ss)" using sel_start.listens [of "[prog, port]" a] assms by simp
  have "SIGURG \<in> all_signals - {SIGKILL, SIGSTOP}" by (simp add: SIGURG_def all_signals_def SIGKILL_def SIGSTOP_def)
  then obtain k' where k: "urg_addsig SIGURG Sig_urg k = Some k'"
      "k_action k' SIGURG = \<lparr>sa_handler = Sig_urg, sa_flags = SA_RESTART, sa_mask = all_signals\<rparr>"
    by (simp add: urg_addsig_def sigaction_def zero_action_def Let_def)
  have "urg_main [prog, port] a (k, pid, map (\<lambda>(u, r). if u then Urg r else Rcv r) as @ [Rcv (Some [])]) =
      Goes_on \<lparr>or_ended = True, or_out = (ls, Some pid, k'), or_closed = [na_accept a, na_socket a]\<rparr>"
    using urg_main.served [OF su assms(4), of "(k, pid, map (\<lambda>(u, r). if u then Urg r else Rcv r) as @ [Rcv (Some [])])" True "(ls, Some pid, k')"]
      k(1) sigurg_data [OF assms(5), of "[Rcv (Some [])]" "[]"] by (simp add: ls_def)
  moreover have "sel_main [prog, port] a (map (\<lambda>(u, r). (Sel (\<not> u) u, r)) as @ replicate n (Sel True v, Some [])) =
      Goes_on \<lparr>or_ended = False, or_out = ls @ replicate n (Normal_line 0 []), or_closed = []\<rparr>"
    using sel_main.served [OF ss assms(4), of "map (\<lambda>(u, r). (Sel (\<not> u) u, r)) as @ replicate n (Sel True v, Some [])" False "ls @ replicate n (Normal_line 0 [])"]
      io_select_data [OF assms(5), of _ "[]"] io_select_eof by (simp add: ls_def)
  ultimately show ?thesis using k(2) by blast
qed

theorem urgent_program_runs_witness:
  "\<exists>k'. urg_main [''p'', ''8080''] demo_net (demo_kernel, 1, [Rcv (Some ''ab''), Urg (Some ''c''), Rcv (Some [])]) =
      Goes_on \<lparr>or_ended = True, or_out = ([Normal_line 2 ''ab'', Urgent_line 1 ''c''], Some 1, k'), or_closed = [4, 3]\<rparr>"
  using urgent_program_runs [of demo_net "[(False, Some ''ab''), (True, Some ''c'')]" "''p''" "''8080''" demo_kernel 1 0 False]
  by (auto simp: demo_net_def some_data_def recv_line_def cstr_def)

section \<open>The chat client and the connection with a timeout\<close>

definition chatc_main :: "string list \<Rightarrow> net_ans \<Rightarrow> bool \<Rightarrow> client_ans option list \<Rightarrow> chat_client \<Rightarrow> chat_client one_run startup" where
  "chatc_main argv a pipe_ok as c = and_then (chatc_start argv a) (\<lambda>(sockfd, _).
     if \<not> pipe_ok then Assert_fails
     else (case client_loop as c of
         None \<Rightarrow> Assert_fails
       | Some (ended, c') \<Rightarrow> Goes_on \<lparr>or_ended = ended, or_out = c', or_closed = if ended then [sockfd] else []\<rparr>))"

text \<open>\<open>io_nonblock_connect.c\<close>: the exit code of \<open>main\<close>, and the calls on the socket.\<close>

definition uc_main :: "string list \<Rightarrow> int \<Rightarrow> connect_ans \<Rightarrow> int \<Rightarrow> bool \<Rightarrow> int option \<Rightarrow> (int \<times> uc_call list) startup" where
  "uc_main argv sockfd conn sel isset so_error = (if length argv \<noteq> 3 then Usage_exit
     else (case unblock_connect sockfd conn sel isset so_error of
         None \<Rightarrow> Assert_fails
       | Some (fd, calls) \<Rightarrow> if fd < 0 then Goes_on (1, calls) else Goes_on (0, calls @ [Uc_close fd])))"

lemma uc_main_result:
  assumes "0 \<le> fd" "length argv = 3"
  shows "\<exists>code calls. uc_main argv fd conn sel isset err = Goes_on (code, calls) \<and>
    (code = 0 \<longleftrightarrow> conn = Cn_done \<or> conn = Cn_inprogress \<and> 0 < sel \<and> isset \<and> err = Some 0) \<and>
    (Uc_close fd \<in> set calls \<longleftrightarrow> conn \<noteq> Cn_failed)"
  using assms by (cases conn; cases err) (auto simp: uc_main_def unblock_connect_def)

section \<open>The echo server and its client\<close>

text \<open>Neither program clears its address; \<open>junk\<close> is what it holds before.\<close>

definition es_start :: "sockaddr_in \<Rightarrow> string list \<Rightarrow> net_ans \<Rightarrow> (int \<times> sockaddr_in) startup" where
  "es_start junk argv a = (if length argv \<noteq> 2 then Usage_exit
     else let port = atoi (argv ! 1);
         address = junk\<lparr>sin_family := AF_INET, sin_addr := INADDR_ANY, sin_port := net_port port\<rparr> in
       if na_socket a < 0 then Assert_fails
       else if na_bind a = -1 then Assert_fails
       else if na_listen a = -1 then Assert_fails
       else Goes_on (na_socket a, address))"

text \<open>The clients in the order of \<open>accept\<close>, each with what it sends, how the terminal and the connection take what is written. A refused \<open>accept\<close>
  fails the assertion. The result is what the terminal and the client have received, for each.\<close>

fun es_loop :: "(int \<times> rd_event list \<times> wr_event list \<times> wr_event list) list \<Rightarrow> (int \<times> string \<times> string) list option" where
  "es_loop [] = Some []"
| "es_loop ((clientsock, ks, ts, ws) # cs) = (if clientsock < 0 then None
     else do {
       got \<leftarrow> raw_echo ks ts ws ([], []);
       rest \<leftarrow> es_loop cs;
       Some ((clientsock, got) # rest)
     })"

definition es_main :: "sockaddr_in \<Rightarrow> string list \<Rightarrow> net_ans \<Rightarrow> (int \<times> rd_event list \<times> wr_event list \<times> wr_event list) list \<Rightarrow>
    (sockaddr_in \<times> (int \<times> string \<times> string) list option) startup" where
  "es_main junk argv a conns = and_then (es_start junk argv a) (\<lambda>(_, address). Goes_on (address, es_loop conns))"

definition ec_main :: "sockaddr_in \<Rightarrow> string list \<Rightarrow> net_ans \<Rightarrow> rd_event list \<Rightarrow> rd_event list \<Rightarrow> wr_event list \<Rightarrow>
    (sockaddr_in \<times> (string \<times> string) option) startup" where
  "ec_main junk argv a typed rs ws = (if length argv \<noteq> 3 then Usage_exit
     else let ip = argv ! 1; port = atoi (argv ! 2) in
       if na_socket a < 0 then Assert_fails
       else let server = junk\<lparr>sin_family := AF_INET, sin_addr := inet_pton a ip (sin_addr junk), sin_port := net_port port\<rparr> in
         if na_connect a \<noteq> 0 then Connect_fails
         else Goes_on (server, raw_client typed rs ws [] []))"

interpretation es_start: listener "es_start junk" "\<lambda>n. n = 2" 1 "\<lambda>_ _. INADDR_ANY" for junk
  by unfold_locales (auto simp: es_start_def Let_def)

lemma es_loop_serves:
  "list_all (\<lambda>(fd, ks, ts, ws). 0 \<le> fd \<and> smooth ks \<and> roomy ts \<and> roomy ws) conns \<Longrightarrow>
   es_loop conns = Some (map (\<lambda>(fd, ks, ts, ws). (fd, fst (content ks), fst (content ks))) conns)"
  by (induction conns rule: es_loop.induct) (auto simp: raw_echo_smooth)



end
