(* ===== verification/Ipc_Demos.thy ===== *)
theory Ipc_Demos
  imports Event_Loop C_String Io_Demos
begin

text \<open>
  The interprocess communication programs of \<open>apue/ipc\<close>: a pipe between parent and child, message queues and shared memory of both
  kinds, a pair of programs on a Unix domain socket, a named pipe, and the variant of descriptor passing kept there. Kernel objects
  that outlive a process (queues, segments) are the state the programs share.
\<close>

section \<open>A pipe between parent and child\<close>

text \<open>\<open>test_pipe.c\<close>. A process is at a system call; the child holds the byte it has read until it has written it.\<close>

datatype pi_parent = PP_close_read | PP_write | PP_close_write | PP_wait | PP_exit
datatype pi_child = PC_close_write | PC_read | PC_write char | PC_close_read | PC_exit

record pipe_state =
  pi_parent :: pi_parent
  pi_child :: pi_child
  pi_data :: string
  pi_wr :: "bool \<times> bool"
  pi_rd :: "bool \<times> bool"
  pi_out :: string

text \<open>\<open>pi_wr\<close> and \<open>pi_rd\<close> tell whether parent and child hold the writing and the reading end.\<close>

definition pipe_text :: string where "pipe_text = ''hello wrold'' @ [LF]"

definition pipe_fork :: pipe_state where
  "pipe_fork = \<lparr>pi_parent = PP_close_read, pi_child = PC_close_write, pi_data = [], pi_wr = (True, True), pi_rd = (True, True), pi_out = []\<rparr>"

text \<open>A write to a pipe nobody reads kills the process (here: no step); \<open>wait\<close> returns when the child has ended.\<close>

definition pipe_parent_act :: "pipe_state \<Rightarrow> pipe_state option" where
  "pipe_parent_act s = (case pi_parent s of
     PP_close_read \<Rightarrow> Some (s\<lparr>pi_rd := (False, snd (pi_rd s)), pi_parent := PP_write\<rparr>)
   | PP_write \<Rightarrow> if fst (pi_rd s) \<or> snd (pi_rd s) then Some (s\<lparr>pi_data := pi_data s @ pipe_text, pi_parent := PP_close_write\<rparr>) else None
   | PP_close_write \<Rightarrow> Some (s\<lparr>pi_wr := (False, snd (pi_wr s)), pi_parent := PP_wait\<rparr>)
   | PP_wait \<Rightarrow> if pi_child s = PC_exit then Some (s\<lparr>pi_parent := PP_exit\<rparr>) else None
   | PP_exit \<Rightarrow> None)"

text \<open>A read from an empty pipe waits while a writing end is open and returns 0 when none is.\<close>

definition pipe_child_act :: "pipe_state \<Rightarrow> pipe_state option" where
  "pipe_child_act s = (case pi_child s of
     PC_close_write \<Rightarrow> Some (s\<lparr>pi_wr := (fst (pi_wr s), False), pi_child := PC_read\<rparr>)
   | PC_read \<Rightarrow> (case pi_data s of
         c # cs \<Rightarrow> Some (s\<lparr>pi_data := cs, pi_child := PC_write c\<rparr>)
       | [] \<Rightarrow> if fst (pi_wr s) \<or> snd (pi_wr s) then None else Some (s\<lparr>pi_child := PC_close_read\<rparr>))
   | PC_write c \<Rightarrow> Some (s\<lparr>pi_out := pi_out s @ [c], pi_child := PC_read\<rparr>)
   | PC_close_read \<Rightarrow> Some (s\<lparr>pi_rd := (fst (pi_rd s), False), pi_child := PC_exit\<rparr>)
   | PC_exit \<Rightarrow> None)"

inductive pipe_step :: "pipe_state \<Rightarrow> pipe_state \<Rightarrow> bool" where
  parent: "pipe_parent_act s = Some s' \<Longrightarrow> pipe_step s s'"
| child: "pipe_child_act s = Some s' \<Longrightarrow> pipe_step s s'"

definition pipe_held :: "pipe_state \<Rightarrow> string" where
  "pipe_held s = (case pi_child s of PC_write c \<Rightarrow> [c] | _ \<Rightarrow> [])"

definition pipe_inv :: "pipe_state \<Rightarrow> bool" where
  "pipe_inv s \<longleftrightarrow>
     (if pi_parent s \<in> {PP_close_read, PP_write} then pi_out s = [] \<and> pipe_held s = [] \<and> pi_data s = []
      else pi_out s @ pipe_held s @ pi_data s = pipe_text) \<and>
     (pi_parent s \<in> {PP_close_read, PP_write, PP_close_write} \<longleftrightarrow> fst (pi_wr s)) \<and>
     (snd (pi_wr s) \<longleftrightarrow> pi_child s = PC_close_write) \<and> (snd (pi_rd s) \<longleftrightarrow> pi_child s \<noteq> PC_exit) \<and>
     (pi_child s \<in> {PC_close_read, PC_exit} \<longrightarrow> pi_data s = [] \<and> \<not> fst (pi_wr s)) \<and>
     (pi_parent s = PP_exit \<longrightarrow> pi_child s = PC_exit)"

lemma pipe_inv_step: "pipe_step s s' \<Longrightarrow> pipe_inv s \<Longrightarrow> pipe_inv s'"
proof (induction rule: pipe_step.induct)
  case (parent s s')
  then show ?case by (cases "pi_parent s"; clarsimp simp: pipe_parent_act_def pipe_inv_def pipe_held_def split: if_splits)
next
  case (child s s')
  then show ?case
    by (cases "pi_child s"; cases "pi_data s"; cases "pi_parent s"; clarsimp simp: pipe_child_act_def pipe_inv_def pipe_held_def split: if_splits)
qed

interpretation pipe: transition_system "\<lambda>s. s = pipe_fork" pipe_step pipe_inv
proof unfold_locales
  show "pipe_inv s" if "s = pipe_fork" for s using that by (simp add: pipe_fork_def pipe_inv_def pipe_held_def)
qed (rule pipe_inv_step)

text \<open>How many steps are left at most.\<close>

fun pp_rank :: "pi_parent \<Rightarrow> nat" where
  "pp_rank PP_close_read = 4"
| "pp_rank PP_write = 3"
| "pp_rank PP_close_write = 2"
| "pp_rank PP_wait = 1"
| "pp_rank PP_exit = 0"

fun pc_rank :: "pi_child \<Rightarrow> nat" where
  "pc_rank PC_close_write = 3"
| "pc_rank PC_read = 2"
| "pc_rank (PC_write c) = 3"
| "pc_rank PC_close_read = 1"
| "pc_rank PC_exit = 0"

definition pipe_rank :: "pipe_state \<Rightarrow> nat" where
  "pipe_rank s = pp_rank (pi_parent s) + pc_rank (pi_child s) +
     2 * (length (pi_data s) + (if pi_parent s \<in> {PP_close_read, PP_write} then length pipe_text else 0))"

lemma pipe_rank_step: "pipe_step s s' \<Longrightarrow> pipe_rank s' < pipe_rank s"
proof (induction rule: pipe_step.induct)
  case (parent s s')
  then show ?case by (cases "pi_parent s"; clarsimp simp: pipe_parent_act_def pipe_rank_def split: if_splits)
next
  case (child s s')
  then show ?case by (cases "pi_child s"; cases "pi_data s"; clarsimp simp: pipe_child_act_def pipe_rank_def split: if_splits)
qed

lemma pipe_progress:
  assumes "pipe_inv s" "\<not> (\<exists>s'. pipe_step s s')"
  shows "pi_parent s = PP_exit \<and> pi_child s = PC_exit"
proof -
  have p: "pipe_parent_act s = None" "pipe_child_act s = None" using assms(2) pipe_step.intros by (metis not_None_eq)+
  show ?thesis
    using p assms(1) by (cases "pi_parent s"; cases "pi_child s"; cases "pi_data s")
      (auto simp: pipe_parent_act_def pipe_child_act_def pipe_inv_def split: if_splits)
qed

text \<open>C34: In every interleaving the parent's text comes out of the child, and both end: a run has at most 31 steps, and where no step is left both
  processes have exited and the child has written exactly the text.\<close>
theorem pipe_delivers:
  assumes "(pipe_step ^^ n) pipe_fork s"
  shows "n \<le> 31 \<and> ((\<nexists>s'. pipe_step s s') \<longrightarrow> pi_parent s = PP_exit \<and> pi_child s = PC_exit \<and> pi_out s = pipe_text)"
proof -
  have "pipe_rank s + n \<le> pipe_rank pipe_fork"
    using assms
  proof (induction n arbitrary: s)
    case (Suc n)
    then obtain t where "(pipe_step ^^ n) pipe_fork t" "pipe_step t s" by auto
    then show ?case using Suc.IH [of t] pipe_rank_step [of t s] by simp
  qed simp
  moreover have "pipe_rank pipe_fork = 31" by (simp add: pipe_rank_def pipe_fork_def pipe_text_def)
  moreover have inv: "pipe_inv s" using pipe.reachable_inv [OF refl] assms by (metis relpowp_imp_rtranclp)
  moreover have "pi_out s = pipe_text" if "pi_parent s = PP_exit" "pi_child s = PC_exit"
    using inv that by (auto simp: pipe_inv_def pipe_held_def)
  ultimately show ?thesis using pipe_progress [OF inv] by auto
qed

text \<open>A complete run: the parent up to \<open>wait\<close>, the child, the parent.\<close>

definition pipe_do :: "bool \<Rightarrow> pipe_state \<Rightarrow> pipe_state option" where
  "pipe_do p = (if p then pipe_parent_act else pipe_child_act)"

definition pipe_demo :: pipe_state where
  "pipe_demo = \<lparr>pi_parent = PP_exit, pi_child = PC_exit, pi_data = [], pi_wr = (False, False), pi_rd = (False, False), pi_out = pipe_text\<rparr>"

lemma pipe_demo_run: "run_events pipe_do (replicate 3 True @ replicate 27 False @ [True]) pipe_fork = Some pipe_demo"
  by code_simp

theorem pipe_delivers_witness:
  "\<exists>n. (pipe_step ^^ n) pipe_fork pipe_demo \<and> n \<le> 31 \<and> pi_out pipe_demo = pipe_text"
proof -
  have "pipe_step\<^sup>*\<^sup>* pipe_fork pipe_demo"
    by (rule run_events_reaches [OF _ pipe_demo_run]) (auto simp: pipe_do_def intro: pipe_step.intros split: if_splits)
  then obtain n where n: "(pipe_step ^^ n) pipe_fork pipe_demo" by (metis rtranclp_imp_relpowp)
  have "\<nexists>s'. pipe_step pipe_demo s'"
    by (auto simp: pipe_step.simps pipe_parent_act_def pipe_child_act_def pipe_demo_def)
  then show ?thesis using pipe_delivers [OF n] n by blast
qed

section \<open>Message queues\<close>

text \<open>\<open>test_mqw.c\<close> and \<open>test_mqr.c\<close>: System V queues by key. \<open>ftok\<close> is -1 for a file that does not exist, and any key will do for
  \<open>msgget\<close> with \<open>IPC_CREAT\<close>.\<close>

definition ftok :: "(string \<rightharpoonup> int) \<Rightarrow> string \<Rightarrow> int" where
  "ftok files path = (case files path of Some k \<Rightarrow> k | None \<Rightarrow> -1)"

record mymesg =
  mtype :: nat
  mtext :: string

type_synonym sysv_queues = "int \<rightharpoonup> mymesg list"

definition msgget_creat :: "int \<Rightarrow> sysv_queues \<Rightarrow> sysv_queues" where
  "msgget_creat key qs = (case qs key of None \<Rightarrow> qs(key \<mapsto> []) | Some _ \<Rightarrow> qs)"

definition msgsnd :: "int \<Rightarrow> mymesg \<Rightarrow> sysv_queues \<Rightarrow> sysv_queues" where
  "msgsnd key msg qs = (case qs key of None \<Rightarrow> qs | Some q \<Rightarrow> qs(key \<mapsto> q @ [msg]))"

text \<open>\<open>msgrcv\<close> takes the first message of the type; \<open>None\<close>: it waits.\<close>

fun take_type :: "nat \<Rightarrow> mymesg list \<Rightarrow> (mymesg \<times> mymesg list) option" where
  "take_type t [] = None"
| "take_type t (m # q) = (if mtype m = t then Some (m, q) else map_option (\<lambda>(m', q'). (m', m # q')) (take_type t q))"

definition mq_text :: string where "mq_text = ''message queue test''"

text \<open>\<open>strcpy\<close> leaves the bytes behind the text as they are in the 512 of \<open>mtext\<close>.\<close>

definition mqw_main :: "(string \<rightharpoonup> int) \<Rightarrow> string \<Rightarrow> sysv_queues \<Rightarrow> sysv_queues" where
  "mqw_main files junk qs = (
     let key = ftok files ''./test_mqw.c'';
       qs1 = msgget_creat key qs;
       msg = \<lparr>mtype = 1, mtext = put_front (mq_text @ [NUL]) junk\<rparr> in
     msgsnd key msg qs1)"

definition mqr_main :: "(string \<rightharpoonup> int) \<Rightarrow> sysv_queues \<Rightarrow> (string \<times> sysv_queues) option" where
  "mqr_main files qs = (
     let key = ftok files ''./test_mqw.c'';
       qs1 = msgget_creat key qs in
     do {
       q \<leftarrow> qs1 key;
       (msg, q') \<leftarrow> take_type 1 q;
       Some (cstr (mtext msg), qs1(key \<mapsto> q'))
     })"

text \<open>\<open>test_mqw2.c\<close> and \<open>test_mqr2.c\<close>: POSIX queues by name, the messages with their priorities, highest first.\<close>

type_synonym posix_queues = "string \<rightharpoonup> (nat \<times> string) list"

fun mq_insert :: "nat \<times> string \<Rightarrow> (nat \<times> string) list \<Rightarrow> (nat \<times> string) list" where
  "mq_insert m [] = [m]"
| "mq_insert m (x # q) = (if fst m > fst x then m # x # q else x # mq_insert m q)"

definition mq_open_creat :: "string \<Rightarrow> posix_queues \<Rightarrow> posix_queues" where
  "mq_open_creat name qs = (case qs name of None \<Rightarrow> qs(name \<mapsto> []) | Some _ \<Rightarrow> qs)"

definition mqw2_main :: "posix_queues \<Rightarrow> posix_queues" where
  "mqw2_main qs = (
     let qs1 = mq_open_creat ''/posixmq'' qs;
       buf = mq_text @ [NUL] in
     (case qs1 ''/posixmq'' of None \<Rightarrow> qs1 | Some q \<Rightarrow> qs1(''/posixmq'' \<mapsto> mq_insert (0, buf) q)))"

definition mqr2_main :: "posix_queues \<Rightarrow> (string \<times> posix_queues) option" where
  "mqr2_main qs = (
     let qs1 = mq_open_creat ''/posixmq'' qs in
     (case qs1 ''/posixmq'' of
        Some ((p, text) # q) \<Rightarrow> Some (cstr text, qs1(''/posixmq'' := None))
      | _ \<Rightarrow> None))"

lemma take_type_append: "(\<And>m. m \<in> set q \<Longrightarrow> mtype m = t) \<Longrightarrow> q \<noteq> [] \<Longrightarrow> take_type t (q @ r) = Some (hd q, tl q @ r)"
  by (cases q) auto

lemma mq_text_cstr [simp]: "cstr (put_front (mq_text @ [NUL]) junk) = mq_text" "cstr (mq_text @ [NUL]) = mq_text"
  by (simp_all add: cstr_def mq_text_def put_front_def)

text \<open>A queue that only these programs use: all its messages print as the text.\<close>

definition mq_ok :: "int \<Rightarrow> nat \<Rightarrow> sysv_queues \<Rightarrow> bool" where
  "mq_ok key n qs \<longleftrightarrow> (\<exists>q. (qs key = Some q \<or> qs key = None \<and> q = []) \<and> length q = n \<and> (\<forall>m \<in> set q. mtype m = 1 \<and> cstr (mtext m) = mq_text))"

lemma mqw_adds: "mq_ok (ftok files ''./test_mqw.c'') n qs \<Longrightarrow> mq_ok (ftok files ''./test_mqw.c'') (Suc n) (mqw_main files junk qs)"
  by (auto simp: mq_ok_def mqw_main_def msgget_creat_def msgsnd_def Let_def)

lemma mqr_takes:
  assumes "mq_ok (ftok files ''./test_mqw.c'') n qs"
  shows "case n of 0 \<Rightarrow> mqr_main files qs = None
    | Suc k \<Rightarrow> \<exists>qs'. mqr_main files qs = Some (mq_text, qs') \<and> mq_ok (ftok files ''./test_mqw.c'') k qs'"
proof -
  define key where "key = ftok files ''./test_mqw.c''"
  obtain q where q: "qs key = Some q \<or> qs key = None \<and> q = []" "length q = n" "\<forall>m \<in> set q. mtype m = 1 \<and> cstr (mtext m) = mq_text"
    using assms by (auto simp: mq_ok_def key_def)
  have get: "msgget_creat key qs key = Some q" using q(1) by (auto simp: msgget_creat_def)
  show ?thesis
  proof (cases q)
    case Nil
    then show ?thesis using q(2) get by (auto simp: mqr_main_def key_def [symmetric] Let_def)
  next
    case (Cons m q')
    then have "mqr_main files qs = Some (mq_text, (msgget_creat key qs)(key \<mapsto> q'))"
      using get q(3) by (simp add: mqr_main_def key_def [symmetric] Let_def)
    then show ?thesis using Cons q(2,3) by (auto simp: mq_ok_def key_def [symmetric])
  qed
qed

text \<open>The System V pair: \<open>True\<close> runs the writer, \<open>False\<close> the reader, which must not have to wait.\<close>

fun mq_runs :: "(string \<rightharpoonup> int) \<Rightarrow> bool list \<Rightarrow> sysv_queues \<Rightarrow> (string list \<times> sysv_queues) option" where
  "mq_runs files [] qs = Some ([], qs)"
| "mq_runs files (w # ws) qs = (if w then mq_runs files ws (mqw_main files [] qs)
     else do { (line, qs1) \<leftarrow> mqr_main files qs; (lines, qs2) \<leftarrow> mq_runs files ws qs1; Some (line # lines, qs2) })"

fun never_short :: "nat \<Rightarrow> bool list \<Rightarrow> bool" where
  "never_short n [] = True"
| "never_short n (w # ws) = (if w then never_short (Suc n) ws else 0 < n \<and> never_short (n - 1) ws)"

text \<open>No message is lost in a System V queue: however writers and readers are run, as long as no reader is ahead of the writers, every reader
  prints the text, and what the readers have not taken is still there. In the POSIX pair the reader removes the queue: of two messages the
  second one is lost, and the next reader waits.\<close>
theorem queues_keep_messages:
  assumes "mq_ok (ftok files ''./test_mqw.c'') n qs" "never_short n ws"
  shows "(\<exists>qs'. mq_runs files ws qs = Some (replicate (length (filter Not ws)) mq_text, qs') \<and>
      mq_ok (ftok files ''./test_mqw.c'') (n + length (filter id ws) - length (filter Not ws)) qs') \<and>
    (\<exists>ps. mqr2_main (mqw2_main (mqw2_main Map.empty)) = Some (mq_text, ps) \<and> mqr2_main ps = None)"
proof
  show "\<exists>ps. mqr2_main (mqw2_main (mqw2_main Map.empty)) = Some (mq_text, ps) \<and> mqr2_main ps = None"
    by (simp add: mqr2_main_def mqw2_main_def mq_open_creat_def Let_def)
  show "\<exists>qs'. mq_runs files ws qs = Some (replicate (length (filter Not ws)) mq_text, qs') \<and>
      mq_ok (ftok files ''./test_mqw.c'') (n + length (filter id ws) - length (filter Not ws)) qs'"
    using assms
  proof (induction ws arbitrary: n qs)
    case (Cons w ws)
    show ?case
    proof (cases w)
      case True
      then show ?thesis using Cons.IH [OF mqw_adds [OF Cons.prems(1)]] Cons.prems(2) by simp
    next
      case False
      then obtain k where k: "n = Suc k" "never_short k ws" using Cons.prems(2) by (cases n) auto
      then obtain qs1 where r: "mqr_main files qs = Some (mq_text, qs1)" "mq_ok (ftok files ''./test_mqw.c'') k qs1"
        using mqr_takes [OF Cons.prems(1)] by auto
      show ?thesis using Cons.IH [OF r(2) k(2)] r(1) k(1) False by auto
    qed
  qed simp
qed

theorem queues_keep_messages_witness:
  "\<exists>qs'. mq_runs Map.empty [True, True, False] Map.empty = Some ([mq_text], qs') \<and> mq_ok (ftok Map.empty ''./test_mqw.c'') 1 qs'"
  using queues_keep_messages [of Map.empty 0 Map.empty "[True, True, False]"] by (simp add: mq_ok_def)

section \<open>Shared memory\<close>

definition SM_SIZE :: nat where "SM_SIZE = 0x400000"

text \<open>\<open>test_smw.c\<close> and \<open>test_smr.c\<close>: segments by key. \<open>None\<close>: the program uses the result of a failed \<open>shmat\<close>.\<close>

type_synonym segments = "int \<rightharpoonup> string"

definition shmget :: "bool \<Rightarrow> int \<Rightarrow> nat \<Rightarrow> segments \<Rightarrow> segments option" where
  "shmget creat key n ms = (case ms key of
     Some m \<Rightarrow> if n \<le> length m then Some ms else None
   | None \<Rightarrow> if creat then Some (ms(key \<mapsto> replicate n NUL)) else None)"

definition smw_main :: "(string \<rightharpoonup> int) \<Rightarrow> segments \<Rightarrow> segments option" where
  "smw_main files ms = (let key = ftok files ''./test_v_sw.c'' in do {
     ms1 \<leftarrow> shmget True key SM_SIZE ms;
     m \<leftarrow> ms1 key;
     Some (ms1(key \<mapsto> put_front (replicate SM_SIZE (CHR ''A'')) m))
   })"

definition smr_main :: "(string \<rightharpoonup> int) \<Rightarrow> segments \<Rightarrow> (string \<times> segments) option" where
  "smr_main files ms = (let key = ftok files ''./test_v_sw.c'' in do {
     ms1 \<leftarrow> shmget False key SM_SIZE ms;
     p \<leftarrow> ms1 key;
     Some ([p ! 0, CHR '' '', p ! 1, CHR '' '', p ! 2, CHR '' '', p ! 3, LF], ms1)
   })"

text \<open>\<open>test_smw2.c\<close> and \<open>test_smr2.c\<close>: objects by name. The writer is taken apart, since the reader may run in between; \<open>ftruncate\<close> of the reader fails, its
  descriptor being open for reading only. \<open>None\<close>: the reader faults, as the object is missing or too short.\<close>

type_synonym shm_objects = "string \<rightharpoonup> string"

definition smw2_open :: "shm_objects \<Rightarrow> shm_objects" where
  "smw2_open os = (case os ''/posixsm'' of None \<Rightarrow> os(''/posixsm'' \<mapsto> []) | Some _ \<Rightarrow> os)"

definition smw2_truncate :: "shm_objects \<Rightarrow> shm_objects" where
  "smw2_truncate os = (case os ''/posixsm'' of None \<Rightarrow> os | Some m \<Rightarrow> os(''/posixsm'' \<mapsto> take SM_SIZE m @ replicate (SM_SIZE - length m) NUL))"

definition smw2_set :: "shm_objects \<Rightarrow> shm_objects" where
  "smw2_set os = (case os ''/posixsm'' of None \<Rightarrow> os | Some m \<Rightarrow> os(''/posixsm'' \<mapsto> put_front (replicate SM_SIZE (CHR ''A'')) m))"

definition smr2_main :: "shm_objects \<Rightarrow> (string \<times> shm_objects) option" where
  "smr2_main os = do {
     p \<leftarrow> os ''/posixsm'';
     if length p < 4 then None
     else Some ([p ! 0, CHR '' '', p ! 1, CHR '' '', p ! 2, CHR '' '', p ! 3, LF], os(''/posixsm'' := None)) }"

lemma SM_SIZE_4: "3 < SM_SIZE" "4 \<le> SM_SIZE" by (simp_all add: SM_SIZE_def)

text \<open>A reader behind a writer prints four times A, for both kinds of shared memory, and for the System V kind although the file the key is made of does not
  exist. A reader without a writer faults; so does, for the POSIX kind, a second reader and one that runs between the writer's \<open>shm_open\<close> and \<open>ftruncate\<close>.\<close>
theorem shared_memory_read:
  assumes "ms (ftok files ''./test_v_sw.c'') = None" "os ''/posixsm'' = None"
  shows "(\<exists>ms'. smw_main files ms = Some ms' \<and> smr_main files ms' = Some (''A A A A'' @ [LF], ms')) \<and> smr_main files ms = None \<and>
    (\<exists>os'. smr2_main (smw2_set (smw2_truncate (smw2_open os))) = Some (''A A A A'' @ [LF], os') \<and> smr2_main os' = None) \<and>
    smr2_main os = None \<and> smr2_main (smw2_open os) = None"
proof -
  define k where "k = ftok files ''./test_v_sw.c''"
  have a: "replicate SM_SIZE (CHR ''A'') ! i = CHR ''A''" if "i < 4" for i using that SM_SIZE_4 by simp
  have w: "smw_main files ms = Some (ms(k \<mapsto> replicate SM_SIZE (CHR ''A'')))"
    using assms(1) by (simp add: smw_main_def shmget_def Let_def put_front_def k_def)
  have r: "smr_main files (ms(k \<mapsto> replicate SM_SIZE (CHR ''A''))) = Some (''A A A A'' @ [LF], ms(k \<mapsto> replicate SM_SIZE (CHR ''A'')))"
    using a [of 0] a [of 1] a [of 2] a [of 3] by (simp add: smr_main_def shmget_def Let_def k_def)
  have p: "smw2_set (smw2_truncate (smw2_open os)) = os(''/posixsm'' \<mapsto> replicate SM_SIZE (CHR ''A''))"
    using assms(2) by (simp add: smw2_set_def smw2_truncate_def smw2_open_def put_front_def)
  have q: "smr2_main (os(''/posixsm'' \<mapsto> replicate SM_SIZE (CHR ''A''))) = Some (''A A A A'' @ [LF], os(''/posixsm'' := None))"
    using a [of 0] a [of 1] a [of 2] a [of 3] SM_SIZE_4 by (simp add: smr2_main_def)
  have n: "smr_main files ms = None" "smr2_main os = None" "smr2_main (smw2_open os) = None" "smr2_main (os(''/posixsm'' := None)) = None"
    using assms by (simp_all add: smr_main_def shmget_def Let_def smr2_main_def smw2_open_def)
  show ?thesis using w r p q n by auto
qed

theorem shared_memory_read_witness:
  "\<exists>ms'. smw_main Map.empty Map.empty = Some ms' \<and> smr_main Map.empty ms' = Some (''A A A A'' @ [LF], ms')"
  using shared_memory_read [of Map.empty Map.empty Map.empty] by simp

section \<open>A Unix domain socket\<close>

text \<open>\<open>test_unix_server.c\<close> and \<open>test_unix_client.c\<close>, call by call. The listening socket, and the bytes on their way in both directions. A buffer that has
  not been filled is \<open>None\<close>: printing it prints what happens to be there. The client ignores the result of \<open>connect\<close>.\<close>

datatype un_server = US_bind | US_listen | US_accept | US_read | US_write | US_print | US_end
datatype un_client = UC_connect | UC_write | UC_read | UC_print | UC_end

record unix_state =
  us_pc :: un_server
  uc_pc :: un_client
  un_listening :: bool
  un_connected :: bool
  un_to_server :: string
  un_to_client :: string
  us_buf :: "string option"
  uc_buf :: "string option"
  us_out :: "string option list"
  uc_out :: "string option list"

definition unix_init :: unix_state where
  "unix_init = \<lparr>us_pc = US_bind, uc_pc = UC_connect, un_listening = False, un_connected = False, un_to_server = [], un_to_client = [],
     us_buf = None, uc_buf = None, us_out = [], uc_out = []\<rparr>"

definition hello_server :: string where "hello_server = ''hello server'' @ [NUL]"
definition i_receive :: string where "i_receive = ''i receive'' @ [NUL]"

definition unix_server_act :: "unix_state \<Rightarrow> unix_state option" where
  "unix_server_act s = (case us_pc s of
     US_bind \<Rightarrow> Some (s\<lparr>us_pc := US_listen\<rparr>)
   | US_listen \<Rightarrow> Some (s\<lparr>un_listening := True, us_pc := US_accept\<rparr>)
   | US_accept \<Rightarrow> if un_connected s then Some (s\<lparr>us_pc := US_read\<rparr>) else None
   | US_read \<Rightarrow> if un_to_server s = [] then None
       else Some (s\<lparr>us_buf := Some (take 1024 (un_to_server s)), un_to_server := drop 1024 (un_to_server s), us_pc := US_write\<rparr>)
   | US_write \<Rightarrow> Some (s\<lparr>un_to_client := un_to_client s @ i_receive, us_pc := US_print\<rparr>)
   | US_print \<Rightarrow> Some (s\<lparr>us_out := us_out s @ [map_option cstr (us_buf s)], us_pc := US_end\<rparr>)
   | US_end \<Rightarrow> None)"

definition unix_client_act :: "unix_state \<Rightarrow> unix_state option" where
  "unix_client_act s = (case uc_pc s of
     UC_connect \<Rightarrow> Some (s\<lparr>un_connected := un_listening s, uc_pc := UC_write\<rparr>)
   | UC_write \<Rightarrow> Some ((if un_connected s then s\<lparr>un_to_server := un_to_server s @ hello_server\<rparr> else s)\<lparr>uc_pc := UC_read\<rparr>)
   | UC_read \<Rightarrow> if \<not> un_connected s then Some (s\<lparr>uc_pc := UC_print\<rparr>)
       else if un_to_client s = [] then None
       else Some (s\<lparr>uc_buf := Some (take 1024 (un_to_client s)), un_to_client := drop 1024 (un_to_client s), uc_pc := UC_print\<rparr>)
   | UC_print \<Rightarrow> Some (s\<lparr>uc_out := uc_out s @ [map_option cstr (uc_buf s)], uc_pc := UC_end\<rparr>)
   | UC_end \<Rightarrow> None)"

inductive unix_step :: "unix_state \<Rightarrow> unix_state \<Rightarrow> bool" where
  server: "unix_server_act s = Some s' \<Longrightarrow> unix_step s s'"
| client: "unix_client_act s = Some s' \<Longrightarrow> unix_step s s'"

fun us_rank :: "un_server \<Rightarrow> nat" where
  "us_rank US_bind = 0" | "us_rank US_listen = 1" | "us_rank US_accept = 2" | "us_rank US_read = 3" | "us_rank US_write = 4"
| "us_rank US_print = 5" | "us_rank US_end = 6"

fun uc_rank :: "un_client \<Rightarrow> nat" where
  "uc_rank UC_connect = 0" | "uc_rank UC_write = 1" | "uc_rank UC_read = 2" | "uc_rank UC_print = 3" | "uc_rank UC_end = 4"

text \<open>What the positions say about the rest of the state.\<close>

definition unix_inv :: "unix_state \<Rightarrow> bool" where
  "unix_inv s \<longleftrightarrow> (un_listening s \<longleftrightarrow> 2 \<le> us_rank (us_pc s)) \<and> (un_connected s \<longrightarrow> un_listening s \<and> uc_pc s \<noteq> UC_connect) \<and>
     (3 \<le> us_rank (us_pc s) \<longrightarrow> un_connected s) \<and>
     un_to_server s = (if un_connected s \<and> 2 \<le> uc_rank (uc_pc s) \<and> us_rank (us_pc s) \<le> 3 then hello_server else []) \<and>
     un_to_client s = (if 5 \<le> us_rank (us_pc s) \<and> uc_rank (uc_pc s) \<le> 2 then i_receive else []) \<and>
     (4 \<le> us_rank (us_pc s) \<longrightarrow> us_buf s = Some hello_server \<and> 2 \<le> uc_rank (uc_pc s)) \<and>
     (3 \<le> uc_rank (uc_pc s) \<longrightarrow> uc_buf s = (if un_connected s then Some i_receive else None) \<and> (un_connected s \<longrightarrow> 5 \<le> us_rank (us_pc s))) \<and>
     (uc_rank (uc_pc s) \<le> 2 \<longrightarrow> uc_buf s = None) \<and>
     us_out s = (if us_pc s = US_end then [Some ''hello server''] else []) \<and>
     uc_out s = (if uc_pc s = UC_end then [if un_connected s then Some ''i receive'' else None] else [])"

lemma unix_texts [simp]: "take 1024 hello_server = hello_server" "drop 1024 hello_server = []" "hello_server \<noteq> []" "cstr hello_server = ''hello server''"
  "take 1024 i_receive = i_receive" "drop 1024 i_receive = []" "i_receive \<noteq> []" "cstr i_receive = ''i receive''"
  by (simp_all add: hello_server_def i_receive_def cstr_def)

lemma unix_inv_step: "unix_step s s' \<Longrightarrow> unix_inv s \<Longrightarrow> unix_inv s'"
proof (induction rule: unix_step.induct)
  case (server s s')
  then show ?case
    by (cases "us_pc s"; cases "uc_pc s"; clarsimp simp: unix_inv_def unix_server_act_def split: if_splits)
next
  case (client s s')
  then show ?case
    by (cases "us_pc s"; cases "uc_pc s"; clarsimp simp: unix_inv_def unix_client_act_def split: if_splits)
qed

interpretation unix: transition_system "\<lambda>s. s = unix_init" unix_step unix_inv
proof unfold_locales
  show "unix_inv s" if "s = unix_init" for s using that by (simp add: unix_init_def unix_inv_def)
qed (rule unix_inv_step)

text \<open>If the server listens in time the two programs understand each other: in whatever order their calls are made, where no call is left both have ended and each has
  printed the other's text. A client that is too early prints a buffer nobody has filled, and the server waits for another client.\<close>
theorem unix_pair_talks:
  assumes "unix_step\<^sup>*\<^sup>* unix_init s" "\<nexists>s'. unix_step s s'"
  shows "if un_connected s then us_pc s = US_end \<and> uc_pc s = UC_end \<and> us_out s = [Some ''hello server''] \<and> uc_out s = [Some ''i receive'']
    else us_pc s = US_accept \<and> uc_pc s = UC_end \<and> us_out s = [] \<and> uc_out s = [None]"
proof -
  have inv: "unix_inv s" by (rule unix.reachable_inv [OF refl assms(1)])
  have p: "unix_server_act s = None" "unix_client_act s = None" using assms(2) unix_step.intros by (metis not_None_eq)+
  show ?thesis
    using p inv by (cases "us_pc s"; cases "uc_pc s") (auto simp: unix_server_act_def unix_client_act_def unix_inv_def split: if_splits)
qed

definition unix_do :: "bool \<Rightarrow> unix_state \<Rightarrow> unix_state option" where
  "unix_do p = (if p then unix_server_act else unix_client_act)"

definition unix_demo :: unix_state where
  "unix_demo = the (run_events unix_do [True, True, False, False, True, True, True, True, False, False] unix_init)"

theorem unix_pair_talks_witness: "un_connected unix_demo \<and> us_out unix_demo = [Some ''hello server''] \<and> uc_out unix_demo = [Some ''i receive'']"
proof -
  have run: "run_events unix_do [True, True, False, False, True, True, True, True, False, False] unix_init = Some unix_demo"
    by (simp add: unix_demo_def unix_do_def unix_server_act_def unix_client_act_def unix_init_def)
  have c: "un_connected unix_demo" "us_pc unix_demo = US_end" "uc_pc unix_demo = UC_end"
    by (simp_all add: unix_demo_def unix_do_def unix_server_act_def unix_client_act_def unix_init_def)
  have r: "unix_step\<^sup>*\<^sup>* unix_init unix_demo"
    by (rule run_events_reaches [OF _ run]) (auto simp: unix_do_def intro: unix_step.intros split: if_splits)
  have "\<nexists>s'. unix_step unix_demo s'" using c by (auto simp: unix_step.simps unix_server_act_def unix_client_act_def)
  from unix_pair_talks [OF r this] c show ?thesis by simp
qed

section \<open>A named pipe\<close>

text \<open>\<open>test_fifo.c\<close>: \<open>None\<close> for a failed \<open>open\<close> or \<open>read\<close>. The program passes -1 on to \<open>write\<close> as a length then, and \<open>write\<close> fails.\<close>

definition fifo_main :: "string option \<Rightarrow> string" where
  "fifo_main data = (
     let bytes = (case data of None \<Rightarrow> -1 | Some bs \<Rightarrow> int (length (take 200 bs))) in
     if bytes < 0 then [] else take (nat bytes) (the data))"

lemma fifo_prints: "fifo_main (Some bs) = take 200 bs" "fifo_main None = []"
  by (simp_all add: fifo_main_def min_def)

section \<open>Passing a descriptor, again\<close>

text \<open>\<open>test_socketpair.c\<close> differs from the program in \<open>socket/ipc\<close> in the size of \<open>buf\<close> and in that the child asserts the file is open.\<close>

definition tsp_send_fd :: "(int \<Rightarrow> 'f option) \<Rightarrow> int \<Rightarrow> 'f option option" where
  "tsp_send_fd fds fd_to_send = do {
     _ \<leftarrow> touch CMSGHDR_SIZE CMSGHDR_SIZE 4;
     _ \<leftarrow> touch 1 0 1;
     _ \<leftarrow> touch CMSGHDR_SIZE 0 CONTROL_LEN;
     Some (fds fd_to_send) }"

definition tsp_recv_fd :: "int \<Rightarrow> 'f option \<Rightarrow> (int \<Rightarrow> 'f option) \<Rightarrow> (int \<times> (int \<Rightarrow> 'f option)) option" where
  "tsp_recv_fd new msg fds = do {
     _ \<leftarrow> touch 1 0 1;
     _ \<leftarrow> touch CMSGHDR_SIZE 0 CONTROL_LEN;
     _ \<leftarrow> touch CMSGHDR_SIZE CMSGHDR_SIZE 4;
     f \<leftarrow> msg;
     Some (new, fds(new := Some f)) }"

definition tsp_main :: "int \<Rightarrow> 'f \<Rightarrow> (int \<Rightarrow> 'f option) \<Rightarrow> int \<Rightarrow> (int \<times> 'f option) option" where
  "tsp_main fd_to_send file fds new = do {
     child \<leftarrow> (if fd_to_send \<ge> 0 then Some (fds(fd_to_send := Some file)) else None);
     msg \<leftarrow> tsp_send_fd child fd_to_send;
     (fd, parent) \<leftarrow> tsp_recv_fd new msg fds;
     Some (fd, parent fd) }"

text \<open>Its functions are those of the other program with one byte for \<open>buf\<close>; the control message still does not fit into the header alone.\<close>
lemma tsp_is_pass:
  "tsp_send_fd fds fd = send_fd CMSGHDR_SIZE 1 fds fd" "tsp_recv_fd new msg fds = recv_fd CMSGHDR_SIZE 1 new msg fds"
  "tsp_main fd file fds new = None"
  by (simp_all add: tsp_send_fd_def send_fd_def tsp_recv_fd_def recv_fd_def tsp_main_def touch_def CONTROL_LEN_def)

end
