(* ===== verification/Sem_Programs.thy ===== *)
theory Sem_Programs
  imports Event_Loop
begin

text \<open>
  The semaphore programs \<open>apue/ipc/test_sem.c\<close>, \<open>test_sem2.c\<close> and \<open>test_sem3.c\<close> as the sequences of calls their two processes or threads make, run in
  every interleaving. The theory of the semaphores themselves, with processes that are killed, is \<open>Sync_Demos\<close>; here every program runs to its end. The locale
  \<open>critical_pair\<close> is what the three programs have in common.
\<close>

datatype sem_stmt = Down | Up | Say string | Snooze nat | Await | Remove

text \<open>\<open>Await\<close> waits for the other process or thread; \<open>sm_out\<close> has what is printed, and \<open>sm_gone\<close> tells whether the semaphore has been removed.\<close>

record sem_run =
  sm_child :: "sem_stmt list"
  sm_main :: "sem_stmt list"
  sm_value :: nat
  sm_out :: "string list"
  sm_gone :: bool

definition pv :: "int \<Rightarrow> sem_stmt" where
  "pv op = (if op < 0 then Down else Up)"

definition tsem_child :: "sem_stmt list" where
  "tsem_child = [pv (-1), Say ''child get this sem'', Snooze 5, pv 1]"

definition tsem_parent :: "sem_stmt list" where
  "tsem_parent = [pv (-1), Say ''parent get this sem'', Snooze 5, pv 1, Await, Remove]"

definition tsem2_child :: "sem_stmt list" where
  "tsem2_child = [Down, Say ''child get this sem'', Snooze 5, Up]"

definition tsem2_parent :: "sem_stmt list" where
  "tsem2_parent = [Down, Say ''parent get this sem'', Snooze 5, Up, Await, Remove]"

definition threadFunc :: "string \<Rightarrow> sem_stmt list" where
  "threadFunc arg = [Snooze 1, Down, Say arg, Snooze 3, Up]"

definition tsem3_main :: "sem_stmt list" where
  "tsem3_main = threadFunc ''parent thread get this sem'' @ [Await, Remove]"

definition sem_start :: "sem_stmt list \<Rightarrow> sem_stmt list \<Rightarrow> sem_run" where
  "sem_start child main = \<lparr>sm_child = child, sm_main = main, sm_value = 1, sm_out = [], sm_gone = False\<rparr>"

text \<open>One statement, by either process; \<open>None\<close>: it waits. \<open>others\<close> is what the other one has still to do.\<close>

definition sem_do :: "sem_stmt \<Rightarrow> sem_stmt list \<Rightarrow> sem_run \<Rightarrow> sem_run option" where
  "sem_do st others s = (case st of
     Down \<Rightarrow> if sm_value s = 0 then None else Some (s\<lparr>sm_value := sm_value s - 1\<rparr>)
   | Up \<Rightarrow> Some (s\<lparr>sm_value := sm_value s + 1\<rparr>)
   | Say t \<Rightarrow> Some (s\<lparr>sm_out := sm_out s @ [t]\<rparr>)
   | Snooze n \<Rightarrow> Some s
   | Await \<Rightarrow> if others = [] then Some s else None
   | Remove \<Rightarrow> Some (s\<lparr>sm_gone := True\<rparr>))"

definition child_act :: "sem_run \<Rightarrow> sem_run option" where
  "child_act s = (case sm_child s of [] \<Rightarrow> None | st # rest \<Rightarrow> sem_do st (sm_main s) (s\<lparr>sm_child := rest\<rparr>))"

definition main_act :: "sem_run \<Rightarrow> sem_run option" where
  "main_act s = (case sm_main s of [] \<Rightarrow> None | st # rest \<Rightarrow> sem_do st (sm_child s) (s\<lparr>sm_main := rest\<rparr>))"

inductive sem_step :: "sem_run \<Rightarrow> sem_run \<Rightarrow> bool" where
  child: "child_act s = Some s' \<Longrightarrow> sem_step s s'"
| main: "main_act s = Some s' \<Longrightarrow> sem_step s s'"

section \<open>A critical section on each side\<close>

fun quiet :: "sem_stmt \<Rightarrow> bool" where
  "quiet Down = False" | "quiet Up = False" | "quiet Await = False" | "quiet _ = True"

text \<open>What a process has still to do before, in and behind its critical section; \<open>tl_ok\<close> is what may follow it.\<close>

fun inside :: "(sem_stmt list \<Rightarrow> bool) \<Rightarrow> sem_stmt list \<Rightarrow> bool" where
  "inside tl_ok [] = False"
| "inside tl_ok (st # rest) = (if st = Up then tl_ok rest else quiet st \<and> inside tl_ok rest)"

fun outside :: "(sem_stmt list \<Rightarrow> bool) \<Rightarrow> sem_stmt list \<Rightarrow> bool" where
  "outside tl_ok [] = False"
| "outside tl_ok (st # rest) = (if st = Down then inside tl_ok rest else quiet st \<and> outside tl_ok rest)"

definition child_tail :: "sem_stmt list \<Rightarrow> bool" where
  "child_tail r \<longleftrightarrow> r = []"

definition main_tail :: "sem_stmt list \<Rightarrow> bool" where
  "main_tail r \<longleftrightarrow> r \<in> {[Await, Remove], [Remove], []}"

definition held :: "(sem_stmt list \<Rightarrow> bool) \<Rightarrow> sem_stmt list \<Rightarrow> nat" where
  "held tl_ok r = (if inside tl_ok r then 1 else 0)"

definition at_work :: "(sem_stmt list \<Rightarrow> bool) \<Rightarrow> sem_stmt list \<Rightarrow> bool" where
  "at_work tl_ok r \<longleftrightarrow> outside tl_ok r \<or> inside tl_ok r \<or> tl_ok r"

lemma inside_not_outside: "inside t r \<Longrightarrow> \<not> outside t r"
  by (induction r) (auto split: if_splits)

lemma inside_not_tail [simp]: "inside t r \<Longrightarrow> \<not> main_tail r" "inside t r \<Longrightarrow> \<not> child_tail r"
  by (cases r; auto simp: main_tail_def child_tail_def split: if_splits)+

text \<open>What is left to be printed.\<close>

fun says :: "sem_stmt list \<Rightarrow> string list" where
  "says [] = []"
| "says (Say t # r) = t # says r"
| "says (_ # r) = says r"

text \<open>One statement of a process at work, seen from the semaphore.\<close>

lemma do_at_work:
  assumes "at_work t (st # rest)" "t = child_tail \<or> t = main_tail" "sem_do st others s = Some s'"
  shows "at_work t rest \<and> sm_value s' + held t rest = sm_value s + held t (st # rest) \<and>
    mset (sm_out s') + mset (says rest) = mset (sm_out s) + mset (says (st # rest)) \<and>
    sm_child s' = sm_child s \<and> sm_main s' = sm_main s \<and> sm_gone s' = (sm_gone s \<or> st = Remove)"
proof -
  have tails: "at_work t rest" "\<not> inside t (st # rest)" "\<not> inside t rest" if "t (st # rest)"
    using that assms(2) by (auto simp: at_work_def child_tail_def main_tail_def split: if_splits)
  have t0: "t rest \<Longrightarrow> \<not> inside t rest" using assms(2) by auto
  consider "t (st # rest)" | "outside t (st # rest)" | "inside t (st # rest)" using assms(1) by (auto simp: at_work_def)
  then show ?thesis
  proof cases
    case 1
    then have "st = Await \<or> st = Remove" using assms(2) by (auto simp: child_tail_def main_tail_def)
    then show ?thesis using tails [OF 1] assms(3) by (auto simp: sem_do_def held_def split: if_splits)
  next
    case 2
    then show ?thesis using assms(3) inside_not_outside [of t rest]
      by (cases st) (auto simp: sem_do_def held_def at_work_def split: if_splits)
  next
    case 3
    then show ?thesis using assms(3) inside_not_outside [of t rest] t0
      by (cases st) (auto simp: sem_do_def held_def at_work_def split: if_splits)
  qed
qed

text \<open>The invariant of a pair \<open>child\<close> and \<open>main\<close>: one unit in the semaphore or in a critical section, and nothing printed twice or lost.\<close>

definition cp_inv :: "sem_stmt list \<Rightarrow> sem_stmt list \<Rightarrow> sem_run \<Rightarrow> bool" where
  "cp_inv child main s \<longleftrightarrow> at_work child_tail (sm_child s) \<and> at_work main_tail (sm_main s) \<and>
     sm_value s + held child_tail (sm_child s) + held main_tail (sm_main s) = 1 \<and>
     mset (sm_out s) + mset (says (sm_child s)) + mset (says (sm_main s)) = mset (says child) + mset (says main) \<and>
     (Remove \<in> set (sm_main s) \<or> sm_gone s)"

lemma cp_inv_step: "sem_step s s' \<Longrightarrow> cp_inv child main s \<Longrightarrow> cp_inv child main s'"
proof (induction rule: sem_step.induct)
  case (child s s')
  then obtain st rest where st: "sm_child s = st # rest" "sem_do st (sm_main s) (s\<lparr>sm_child := rest\<rparr>) = Some s'"
    by (auto simp: child_act_def split: list.splits)
  then have "at_work child_tail (st # rest)" using child.prems by (simp add: cp_inv_def)
  from do_at_work [OF this _ st(2)] child.prems st(1) show ?case by (auto simp: cp_inv_def)
next
  case (main s s')
  then obtain st rest where st: "sm_main s = st # rest" "sem_do st (sm_child s) (s\<lparr>sm_main := rest\<rparr>) = Some s'"
    by (auto simp: main_act_def split: list.splits)
  then have "at_work main_tail (st # rest)" using main.prems by (simp add: cp_inv_def)
  note d = do_at_work [OF this _ st(2)]
  have "mset (sm_out s') + mset (says (sm_child s')) + mset (says rest) = (mset (sm_out s') + mset (says rest)) + mset (says (sm_child s'))"
    by (simp only: add.assoc add.commute [of "mset (says rest)"])
  also have "\<dots> = (mset (sm_out s) + mset (says (st # rest))) + mset (says (sm_child s))" using d by simp
  also have "\<dots> = mset (sm_out s) + mset (says (sm_child s)) + mset (says (sm_main s))"
    by (simp only: add.assoc add.commute [of "mset (says (st # rest))"] st(1))
  finally have "mset (sm_out s') + mset (says (sm_child s')) + mset (says rest) = mset (says child) + mset (says main)"
    using main.prems by (simp add: cp_inv_def)
  with d main.prems st(1) show ?case by (auto simp: cp_inv_def simp del: says.simps)
qed

lemma work_head:
  assumes "at_work t (st # rest)" "t = child_tail \<or> t = main_tail" "sem_do st others s = None"
  shows "st = Down \<and> sm_value s = 0 \<and> \<not> inside t (st # rest) \<or> st = Await \<and> others \<noteq> [] \<and> t = main_tail \<and> \<not> inside t (st # rest)"
  using assms by (cases st) (auto simp: sem_do_def at_work_def child_tail_def main_tail_def split: if_splits)

lemma cp_progress:
  assumes "cp_inv child main s" "\<nexists>s'. sem_step s s'"
  shows "sm_child s = [] \<and> sm_main s = []"
proof -
  have n: "child_act s = None" "main_act s = None" using assms(2) sem_step.intros by (metis not_None_eq)+
  have "sm_child s = []"
  proof (rule ccontr)
    assume "sm_child s \<noteq> []"
    then obtain st rest where c: "sm_child s = st # rest" by (cases "sm_child s") auto
    then have "sem_do st (sm_main s) (s\<lparr>sm_child := rest\<rparr>) = None" using n(1) by (simp add: child_act_def)
    moreover have "at_work child_tail (st # rest)" using assms(1) c by (simp add: cp_inv_def)
    moreover have "child_tail \<noteq> main_tail" by (auto simp: child_tail_def main_tail_def fun_eq_iff)
    ultimately have z: "sm_value s = 0" "\<not> inside child_tail (st # rest)" using work_head [of child_tail st rest "sm_main s" "s\<lparr>sm_child := rest\<rparr>"] by auto
    then have i: "inside main_tail (sm_main s)" using assms(1) c by (auto simp: cp_inv_def held_def split: if_splits)
    then obtain st' rest' where m: "sm_main s = st' # rest'" by (cases "sm_main s") auto
    then have "sem_do st' (sm_child s) (s\<lparr>sm_main := rest'\<rparr>) = None" using n(2) by (simp add: main_act_def)
    moreover have "at_work main_tail (st' # rest')" using assms(1) m by (simp add: cp_inv_def)
    ultimately show False using work_head [of main_tail st' rest' "sm_child s" "s\<lparr>sm_main := rest'\<rparr>"] i m by auto
  qed
  moreover have "sm_main s = []"
  proof (rule ccontr)
    assume "sm_main s \<noteq> []"
    then obtain st rest where m: "sm_main s = st # rest" by (cases "sm_main s") auto
    then have "sem_do st (sm_child s) (s\<lparr>sm_main := rest\<rparr>) = None" using n(2) by (simp add: main_act_def)
    moreover have "at_work main_tail (st # rest)" using assms(1) m by (simp add: cp_inv_def)
    ultimately have "sm_value s = 0" "\<not> inside main_tail (sm_main s)" using work_head [of main_tail st rest "sm_child s" "s\<lparr>sm_main := rest\<rparr>"] \<open>sm_child s = []\<close> m by auto
    then show False using assms(1) \<open>sm_child s = []\<close> by (auto simp: cp_inv_def held_def)
  qed
  ultimately show ?thesis ..
qed

locale critical_pair =
  fixes child main :: "sem_stmt list"
  assumes child_shape: "outside child_tail child"
    and main_shape: "outside main_tail main"
    and removes: "Remove \<in> set main"
begin

lemma cp_start: "cp_inv child main (sem_start child main)"
  using child_shape main_shape removes inside_not_outside [of child_tail child] inside_not_outside [of main_tail main]
  by (auto simp: cp_inv_def sem_start_def at_work_def held_def)

lemma cp_reachable: "sem_step\<^sup>*\<^sup>* (sem_start child main) s \<Longrightarrow> cp_inv child main s"
proof (induction rule: rtranclp_induct)
  case base
  show ?case by (rule cp_start)
next
  case (step s s')
  then show ?case by (blast intro: cp_inv_step)
qed

lemma cp_excludes: "sem_step\<^sup>*\<^sup>* (sem_start child main) s \<Longrightarrow> \<not> (inside child_tail (sm_child s) \<and> inside main_tail (sm_main s))"
  using cp_reachable [of s] by (auto simp: cp_inv_def held_def)

lemma cp_ends:
  assumes "(sem_step ^^ n) (sem_start child main) s"
  shows "n \<le> length child + length main \<and> ((\<nexists>s'. sem_step s s') \<longrightarrow>
    sm_child s = [] \<and> sm_main s = [] \<and> sm_gone s \<and> sm_value s = 1 \<and> mset (sm_out s) = mset (says child) + mset (says main))"
proof -
  have "length (sm_child s) + length (sm_main s) + n = length child + length main"
    using assms
  proof (induction n arbitrary: s)
    case (Suc n)
    then obtain t where t: "(sem_step ^^ n) (sem_start child main) t" "sem_step t s" by auto
    have "length (sm_child t) + length (sm_main t) = Suc (length (sm_child s) + length (sm_main s))"
      using t(2)
      by (induction rule: sem_step.induct)
        (auto simp: child_act_def main_act_def sem_do_def split: list.splits sem_stmt.splits if_splits)
    then show ?case using Suc.IH [OF t(1)] by simp
  qed (simp add: sem_start_def)
  moreover have inv: "cp_inv child main s" using cp_reachable assms by (metis relpowp_imp_rtranclp)
  ultimately show ?thesis using cp_progress [OF inv] by (auto simp: cp_inv_def held_def child_tail_def main_tail_def)
qed

end

interpretation tsem: critical_pair tsem_child tsem_parent
  by unfold_locales (simp_all add: tsem_child_def tsem_parent_def pv_def child_tail_def main_tail_def)

interpretation tsem2: critical_pair tsem2_child tsem2_parent
  by unfold_locales (simp_all add: tsem2_child_def tsem2_parent_def child_tail_def main_tail_def)

interpretation tsem3: critical_pair "threadFunc ''child thread get this sem''" tsem3_main
  by unfold_locales (simp_all add: threadFunc_def tsem3_main_def child_tail_def main_tail_def)

text \<open>C35: The programs with a fresh semaphore are never in both critical sections at once, in no interleaving get stuck, and end after at most a line's worth of
  steps each, with both lines printed once and the semaphore free and removed.\<close>
theorem semaphore_programs_end:
  assumes "(sem_step ^^ n) (sem_start tsem_child tsem_parent) s" "(sem_step ^^ m) (sem_start (threadFunc ''child thread get this sem'') tsem3_main) t"
  shows "n \<le> 10 \<and> \<not> (inside child_tail (sm_child s) \<and> inside main_tail (sm_main s)) \<and>
    ((\<nexists>s'. sem_step s s') \<longrightarrow> sm_gone s \<and> mset (sm_out s) = {#''child get this sem'', ''parent get this sem''#}) \<and>
    m \<le> 12 \<and> \<not> (inside child_tail (sm_child t) \<and> inside main_tail (sm_main t)) \<and>
    ((\<nexists>t'. sem_step t t') \<longrightarrow> sm_gone t \<and> mset (sm_out t) = {#''child thread get this sem'', ''parent thread get this sem''#})"
proof -
  have r: "sem_step\<^sup>*\<^sup>* (sem_start tsem_child tsem_parent) s" "sem_step\<^sup>*\<^sup>* (sem_start (threadFunc ''child thread get this sem'') tsem3_main) t"
    using assms by (blast intro: relpowp_imp_rtranclp)+
  have l: "length tsem_child + length tsem_parent = 10" "length (threadFunc ''child thread get this sem'') + length tsem3_main = 12"
    by (simp_all add: tsem_child_def tsem_parent_def threadFunc_def tsem3_main_def)
  have w: "mset (says tsem_child) + mset (says tsem_parent) = {#''child get this sem'', ''parent get this sem''#}"
      "mset (says (threadFunc ''child thread get this sem'')) + mset (says tsem3_main) = {#''child thread get this sem'', ''parent thread get this sem''#}"
    by (simp_all add: tsem_child_def tsem_parent_def pv_def threadFunc_def tsem3_main_def)
  show ?thesis
    using tsem.cp_ends [OF assms(1)] tsem3.cp_ends [OF assms(2)] tsem.cp_excludes [OF r(1)] tsem3.cp_excludes [OF r(2)] l w by metis
qed

definition sem_act :: "bool \<Rightarrow> sem_run \<Rightarrow> sem_run option" where
  "sem_act b = (if b then child_act else main_act)"

theorem semaphore_programs_end_witness:
  "\<exists>s n. (sem_step ^^ n) (sem_start tsem_child tsem_parent) s \<and> n \<le> 10 \<and> sm_gone s \<and> mset (sm_out s) = {#''child get this sem'', ''parent get this sem''#}"
proof -
  define s where "s = \<lparr>sm_child = [], sm_main = [], sm_value = 1, sm_out = [''child get this sem'', ''parent get this sem''], sm_gone = True\<rparr>"
  have run: "run_events sem_act [True, True, True, True, False, False, False, False, False, False] (sem_start tsem_child tsem_parent) = Some s"
    by (simp add: sem_act_def child_act_def main_act_def sem_do_def sem_start_def tsem_child_def tsem_parent_def pv_def s_def)
  have "sem_step\<^sup>*\<^sup>* (sem_start tsem_child tsem_parent) s"
    by (rule run_events_reaches [OF _ run]) (auto simp: sem_act_def intro: sem_step.intros split: if_splits)
  then obtain n where n: "(sem_step ^^ n) (sem_start tsem_child tsem_parent) s" by (metis rtranclp_imp_relpowp)
  have "(sem_step ^^ 0) (sem_start (threadFunc ''child thread get this sem'') tsem3_main) (sem_start (threadFunc ''child thread get this sem'') tsem3_main)"
    by simp
  moreover have "\<nexists>s'. sem_step s s'" by (auto simp: sem_step.simps child_act_def main_act_def s_def)
  ultimately show ?thesis using semaphore_programs_end [OF n] n by blast
qed

end
