(* ===== verification/Apue_Files.thy ===== *)
theory Apue_Files
  imports C_String Fd_Helpers
begin

text \<open>
  The file and standard I/O exercises under \<open>src/apue\<close>: copying lines (\<open>stdio.c\<close>), a stream on a buffer (\<open>fmemopen.c\<close>), a hole in a file
  (\<open>lseek_hole.c\<close>), temporary files (\<open>mkstemp.c\<close>, \<open>tmpfile.c\<close>), listing a directory (\<open>readdir.c\<close>), searching the password file (\<open>getpwnam.c\<close>), and the
  decoding of mode and flag words (\<open>stat.c\<close>, \<open>fcntl.c\<close>) and of times (\<open>strftime.c\<close>).
\<close>

section \<open>Copying lines\<close>

text \<open>\<open>fgets(buf, n, f)\<close>: the characters it stores (without the final NUL) and the rest of the input; \<open>None\<close> at the end.\<close>

fun line_of :: "nat \<Rightarrow> string \<Rightarrow> string \<times> string" where
  "line_of 0 s = ([], s)"
| "line_of (Suc n) [] = ([], [])"
| "line_of (Suc n) (c # s) = (if c = LF then ([c], s) else (case line_of n s of (l, r) \<Rightarrow> (c # l, r)))"

definition fgets :: "nat \<Rightarrow> string \<Rightarrow> (string \<times> string) option" where
  "fgets n s = (if s = [] then None else Some (line_of (n - 1) s))"

lemma line_of_split: "line_of n s = (l, r) \<Longrightarrow> s = l @ r"
  by (induction n s arbitrary: l r rule: line_of.induct) (auto split: if_splits prod.splits)

lemma line_of_progress: "0 < n \<Longrightarrow> s \<noteq> [] \<Longrightarrow> line_of n s = (l, r) \<Longrightarrow> length r < length s"
  by (cases n; cases s) (auto dest!: line_of_split split: if_splits prod.splits)

lemma fgets_progress: "1 < n \<Longrightarrow> fgets n s = Some (l, r) \<Longrightarrow> length r < length s"
  using line_of_progress [of "n - 1" s l r] by (auto simp: fgets_def split: if_splits)

text \<open>The loop of \<open>stdio.c\<close>: what \<open>fputs\<close> writes ends at the first NUL of the line.\<close>

function stdio_loop :: "string \<Rightarrow> string" where
  "stdio_loop input = (case fgets 1024 input of None \<Rightarrow> [] | Some (buf, rest) \<Rightarrow> cstr (buf @ [NUL]) @ stdio_loop rest)"
  by pat_completeness auto
termination by (relation "measure length") (auto dest: fgets_progress [rotated])

declare stdio_loop.simps [simp del]

lemma cstr_line: "cstr (l @ [NUL]) = cstr l"
  by (simp add: cstr_cut)

text \<open>Text is copied as it is, whatever the length of its lines.\<close>
theorem stdio_copies_text:
  "NUL \<notin> set input \<Longrightarrow> stdio_loop input = input"
proof (induction input rule: stdio_loop.induct)
  case (1 input)
  show ?case
  proof (cases "fgets 1024 input")
    case None
    then show ?thesis by (simp add: stdio_loop.simps [of input] fgets_def split: if_splits)
  next
    case (Some x)
    obtain l r where x: "x = (l, r)" by fastforce
    have i: "input = l @ r" using Some x line_of_split by (auto simp: fgets_def split: if_splits)
    have "stdio_loop r = r" using "1.IH" [OF Some x [symmetric]] "1.prems" i by simp
    then show ?thesis using Some x i "1.prems" by (simp add: stdio_loop.simps [of "l @ r"] cstr_line)
  qed
qed

theorem stdio_copies_text_witness: "stdio_loop (''ab'' @ [LF] @ ''c'') = ''ab'' @ [LF] @ ''c''"
  by (rule stdio_copies_text) simp

text \<open>A line with a NUL byte is cut there, its line feed included.\<close>
lemma stdio_cuts_at_NUL: "stdio_loop ''a'' = ''a''" "stdio_loop [CHR ''a'', NUL, CHR ''b'', LF] = ''a''"
  by (simp_all add: stdio_loop.simps fgets_def cstr_def eval_nat_numeral)

section \<open>A stream on a buffer\<close>

text \<open>The stream of \<open>fmemopen\<close>: the buffer, the position, the end of what has been written, and the characters not yet written. A write that moves the end puts
  a NUL behind it if there is room.\<close>

record memstream =
  ms_buf :: string
  ms_pos :: nat
  ms_max :: nat
  ms_pend :: string

definition fmemopen_w :: "string \<Rightarrow> memstream" where
  "fmemopen_w buf = \<lparr>ms_buf = buf[0 := NUL], ms_pos = 0, ms_max = 0, ms_pend = []\<rparr>"

definition ms_print :: "string \<Rightarrow> memstream \<Rightarrow> memstream" where
  "ms_print t m = m\<lparr>ms_pend := ms_pend m @ t\<rparr>"

definition ms_flush :: "memstream \<Rightarrow> memstream" where
  "ms_flush m = (
     let t = take (length (ms_buf m) - ms_pos m) (ms_pend m);
       pos = ms_pos m + length t;
       buf = take (ms_pos m) (ms_buf m) @ t @ drop pos (ms_buf m) in
     if pos > ms_max m then \<lparr>ms_buf = (if pos < length buf then buf[pos := NUL] else buf), ms_pos = pos, ms_max = pos, ms_pend = []\<rparr>
     else \<lparr>ms_buf = buf, ms_pos = pos, ms_max = ms_max m, ms_pend = []\<rparr>)"

definition ms_rewind :: "memstream \<Rightarrow> memstream" where
  "ms_rewind m = (ms_flush m)\<lparr>ms_pos := 0\<rparr>"

definition BSZ :: nat where "BSZ = 48"

text \<open>The three assignments that fill the buffer behind the stream's back.\<close>

definition refill :: "char \<Rightarrow> string" where
  "refill c = replicate (BSZ - 2) c @ [NUL, CHR ''X'']"

text \<open>What \<open>main\<close> prints of the buffer.\<close>

definition fmemopen_main :: "string list" where
  "fmemopen_main = (
     let m0 = fmemopen_w (refill (CHR ''a''));
       m1 = ms_print ''hello, world'' m0;
       m2 = ms_flush m1;
       m3 = ms_print ''hello, world'' (m2\<lparr>ms_buf := refill (CHR ''b'')\<rparr>);
       m4 = ms_rewind m3;
       m5 = ms_print ''hello, world'' (m4\<lparr>ms_buf := refill (CHR ''c'')\<rparr>);
       m6 = ms_flush m5 in
     map (\<lambda>m. cstr (ms_buf m)) [m0, m1, m2, m4, m6])"

text \<open>A flush behind the end terminates the text in the buffer; one that stays before the end does not.\<close>
lemma ms_flush_text:
  assumes "ms_pos m + length (ms_pend m) < length (ms_buf m)" "ms_max m \<le> ms_pos m" "ms_pend m \<noteq> []" "NUL \<notin> set (take (ms_pos m) (ms_buf m))" "NUL \<notin> set (ms_pend m)"
  shows "cstr (ms_buf (ms_flush m)) = take (ms_pos m) (ms_buf m) @ ms_pend m"
proof -
  let ?a = "take (ms_pos m) (ms_buf m) @ ms_pend m"
  have len: "length ?a = ms_pos m + length (ms_pend m)" using assms(1) by simp
  obtain x r where d: "drop (ms_pos m + length (ms_pend m)) (ms_buf m) = x # r" using assms(1) by (metis Cons_nth_drop_Suc)
  have "ms_max m < ms_pos m + length (ms_pend m)" using assms(2,3) by (cases "ms_pend m") auto
  then have "ms_buf (ms_flush m) = (?a @ x # r)[length ?a := NUL]"
    using assms(1) d len by (auto simp: ms_flush_def Let_def)
  also have "\<dots> = ?a @ NUL # r" by (simp only: list_update_length)
  finally show ?thesis using assms(4,5) by (simp add: cstr_def takeWhile_append takeWhile_eq_all_conv [THEN iffD2])
qed

lemma fmemopen_prints:
  "fmemopen_main = [[], [], ''hello, world'', replicate 12 (CHR ''b'') @ ''hello, world'', ''hello, world'' @ replicate 34 (CHR ''c'')]"
  by code_simp

section \<open>Holes and temporary files\<close>

text \<open>\<open>write\<close> at an offset: bytes between the end of the file and the offset read as NUL.\<close>

definition write_at :: "nat \<Rightarrow> string \<Rightarrow> string \<Rightarrow> string" where
  "write_at off bs file = take off file @ replicate (off - length file) NUL @ bs @ drop (off + length bs) file"

text \<open>\<open>lseek_hole.c\<close>: how many bytes the two writes take, and whether the descriptor can seek. The result is the file.\<close>

definition hole_main :: "nat \<Rightarrow> bool \<Rightarrow> nat \<Rightarrow> string" where
  "hole_main w1 seeks w2 = (
     let buf1 = ''abcdefghij''; buf2 = ''ABCDEFGHIJ'';
       f1 = write_at 0 (take w1 buf1) [] in
     if w1 \<noteq> 10 then f1
     else if \<not> seeks then f1
     else write_at 16384 (take w2 buf2) f1)"

lemma hole_file:
  "hole_main 10 True 10 = ''abcdefghij'' @ replicate 16374 NUL @ ''ABCDEFGHIJ''" "length (hole_main 10 True 10) = 16394"
proof -
  show h: "hole_main 10 True 10 = ''abcdefghij'' @ replicate 16374 NUL @ ''ABCDEFGHIJ''"
    by (simp add: hole_main_def write_at_def)
  show "length (hole_main 10 True 10) = 16394" unfolding h by simp
qed

text \<open>\<open>mkstemp.c\<close>. A template is writable or a string literal; \<open>fresh\<close> is the name \<open>mkstemp\<close> finds. \<open>None\<close>: the program writes into a literal and is killed.\<close>

datatype temp_line = Temp_name string | Not_there | Exists

definition make_temp :: "bool \<Rightarrow> string \<Rightarrow> string set \<Rightarrow> (temp_line list \<times> string set) option" where
  "make_temp writable fresh fs = (if \<not> writable then None
     else let fs1 = insert fresh fs in
       if fresh \<notin> fs1 then Some ([Temp_name fresh, Not_there], fs1)
       else Some ([Temp_name fresh, Exists], fs1 - {fresh}))"

definition mkstemp_main :: "string \<Rightarrow> string \<Rightarrow> string set \<Rightarrow> (temp_line list \<times> string set) option" where
  "mkstemp_main n1 n2 fs = do {
     (l1, fs1) \<leftarrow> make_temp True n1 fs;
     (l2, fs2) \<leftarrow> make_temp False n2 fs1;
     Some (l1 @ l2, fs2) }"

text \<open>The first file is gone again afterwards; the second call never returns.\<close>
lemma mkstemp_calls: "n1 \<notin> fs \<Longrightarrow> make_temp True n1 fs = Some ([Temp_name n1, Exists], fs)" "mkstemp_main n1 n2 fs = None"
  by (auto simp: make_temp_def mkstemp_main_def Let_def)

text \<open>\<open>tmpfile.c\<close>: the two names, and the line that goes into the file and comes back.\<close>

definition tmpfile_main :: "string \<Rightarrow> string \<Rightarrow> string list" where
  "tmpfile_main name1 name2 = (
     let file = write_at 0 (''one line output'' @ [LF]) [];
       line = (case fgets 1024 file of Some (l, _) \<Rightarrow> l | None \<Rightarrow> []) in
     [name1 @ [LF], name2 @ [LF], cstr (line @ [NUL])])"

lemma tmpfile_reads_back: "tmpfile_main a b = [a @ [LF], b @ [LF], ''one line output'' @ [LF]]"
  by (simp add: tmpfile_main_def write_at_def fgets_def cstr_def eval_nat_numeral)

section \<open>Directories and passwords\<close>

text \<open>\<open>readdir.c\<close>: the entries and whether the stream ends with an error. The result of \<open>opendir\<close> is not checked; \<open>None\<close>: a null stream is read.\<close>

fun readdir_loop :: "string list \<Rightarrow> string list" where
  "readdir_loop [] = []"
| "readdir_loop (d # ds) = (''Found file: '' @ d) # readdir_loop ds"

definition readdir_main :: "string list \<Rightarrow> (string \<Rightarrow> (string list \<times> bool) option) \<Rightarrow> (nat \<times> string list \<times> bool) option" where
  "readdir_main argv dir = (if length argv \<noteq> 2 then Some (1, [], False)
     else (case dir (argv ! 1) of None \<Rightarrow> None
       | Some (entries, err) \<Rightarrow> Some (0, readdir_loop entries, err)))"

lemma readdir_lists:
  "dir name = Some (es, err) \<Longrightarrow> readdir_main [p, name] dir = Some (0, map (\<lambda>d. ''Found file: '' @ d) es, err)"
  "dir name = None \<Longrightarrow> readdir_main [p, name] dir = None"
proof -
  have "readdir_loop es = map (\<lambda>d. ''Found file: '' @ d) es" for es by (induction es) auto
  then show "dir name = Some (es, err) \<Longrightarrow> readdir_main [p, name] dir = Some (0, map (\<lambda>d. ''Found file: '' @ d) es, err)"
    by (simp add: readdir_main_def)
qed (simp add: readdir_main_def)

text \<open>\<open>getpwnam.c\<close>: the loop over the entries.\<close>

record passwd =
  pw_name :: string
  pw_passwd :: string
  pw_dir :: string
  pw_shell :: string

fun getpwname :: "string \<Rightarrow> passwd list \<Rightarrow> passwd option" where
  "getpwname name [] = None"
| "getpwname name (ptr # rest) = (if name = pw_name ptr then Some ptr else getpwname name rest)"

text \<open>The first entry of that name; \<open>None\<close> exactly if there is none.\<close>
lemma getpwname_find: "getpwname name db = find (\<lambda>p. pw_name p = name) db"
  by (induction db) auto

section \<open>Words of modes and flags\<close>

unbundle bit_operations_syntax

definition S_IFMT :: "32 word" where "S_IFMT = 0xF000"
definition S_IFREG :: "32 word" where "S_IFREG = 0x8000"
definition S_IFDIR :: "32 word" where "S_IFDIR = 0x4000"
definition S_IRUSR :: "32 word" where "S_IRUSR = 0x100"

datatype file_type = Regular | Directory | Other

text \<open>\<open>stat.c\<close>; \<open>junk\<close> is what \<open>st\<close> holds when \<open>stat\<close> fails, which is not noticed.\<close>

definition stat_main :: "string list \<Rightarrow> (string \<Rightarrow> 32 word option) \<Rightarrow> 32 word \<Rightarrow> (file_type \<times> bool) option" where
  "stat_main argv st junk = (if length argv \<noteq> 2 then None
     else let mode = (case st (argv ! 1) of Some m \<Rightarrow> m | None \<Rightarrow> junk);
         type = (if mode AND S_IFMT = S_IFREG then Regular else if mode AND S_IFMT = S_IFDIR then Directory else Other);
         readok = (mode AND S_IRUSR \<noteq> 0) in
       Some (type, readok))"

definition O_ACCMODE :: "32 word" where "O_ACCMODE = 3"
definition O_APPEND :: "32 word" where "O_APPEND = 0x400"
definition O_DSYNC :: "32 word" where "O_DSYNC = 0x1000"
definition O_SYNC :: "32 word" where "O_SYNC = 0x101000"

datatype access_mode = Read_only | Write_only | Read_write | Unknown_mode
datatype status_flag = Flag_append | Flag_nonblock | Flag_sync

text \<open>\<open>fcntl.c\<close>: the access mode and the flags it prints; \<open>None\<close>: it ends before.\<close>

definition fcntl_main :: "string list \<Rightarrow> kernel \<Rightarrow> (access_mode \<times> status_flag list) option" where
  "fcntl_main argv k = (if length argv \<noteq> 2 then None
     else let val = fst (fcntl_getfl (atoi (argv ! 1)) k) in
       if sint val < 0 then None
       else let mode = val AND O_ACCMODE in
         Some (if mode = 0 then Read_only else if mode = 1 then Write_only else if mode = 2 then Read_write else Unknown_mode,
           (if val AND O_APPEND \<noteq> 0 then [Flag_append] else []) @ (if val AND O_NONBLOCK \<noteq> 0 then [Flag_nonblock] else []) @
           (if val AND O_SYNC \<noteq> 0 then [Flag_sync] else [])))"

text \<open>The program sees what \<open>setnonblocking\<close> has done to a descriptor. It takes a descriptor that is opened with \<open>O_DSYNC\<close> only for a synchronous one: the flag is
  one of the bits of \<open>O_SYNC\<close>.\<close>
theorem fcntl_reports:
  assumes "k_flags k fd = Some f" "0 \<le> sint f" "f AND O_ACCMODE = 2"
  shows "(\<exists>fs. fcntl_main [p, dec_int fd] (snd (pp_setnonblocking fd k)) = Some (Read_write, fs) \<and> Flag_nonblock \<in> set fs) \<and>
    (f = 2 OR O_DSYNC \<longrightarrow> fcntl_main [p, dec_int fd] k = Some (Read_write, [Flag_sync]))"
proof
  have at: "atoi (dec_int fd) = fd" using atoi_dec_int [of "[]" fd] by simp
  have acc: "(f OR O_NONBLOCK) AND O_ACCMODE = f AND O_ACCMODE"
    by (simp add: bit.conj_disj_distrib2 O_NONBLOCK_def O_ACCMODE_def)
  have sgn: "0 \<le> sint (f OR O_NONBLOCK)"
    using assms(2) by (simp add: bit_last_iff [symmetric] bit_or_iff O_NONBLOCK_def flip: not_less)
  have nb: "(f OR O_NONBLOCK) AND O_NONBLOCK = O_NONBLOCK" by (rule bit_eqI) (auto simp: bit_simps)
  have nz: "O_NONBLOCK \<noteq> 0" by (simp add: O_NONBLOCK_def)
  have fl: "fst (fcntl_getfl fd (snd (pp_setnonblocking fd k))) = f OR O_NONBLOCK"
    using pp_fd.nb_open [OF assms(1)] by (simp add: fcntl_getfl_def)
  show "\<exists>fs. fcntl_main [p, dec_int fd] (snd (pp_setnonblocking fd k)) = Some (Read_write, fs) \<and> Flag_nonblock \<in> set fs"
    using sgn acc assms(3) nb nz by (auto simp: fcntl_main_def at fl Let_def)
  show "f = 2 OR O_DSYNC \<longrightarrow> fcntl_main [p, dec_int fd] k = Some (Read_write, [Flag_sync])"
    using assms(1,2) by (auto simp: fcntl_main_def at fcntl_getfl_def Let_def O_DSYNC_def O_ACCMODE_def O_APPEND_def O_NONBLOCK_def O_SYNC_def)
qed

theorem fcntl_reports_witness:
  "fcntl_main [''p'', dec_int 3] (demo_kernel\<lparr>k_flags := [3 \<mapsto> 2 OR O_DSYNC]\<rparr>) = Some (Read_write, [Flag_sync])"
  using fcntl_reports [of "demo_kernel\<lparr>k_flags := [3 \<mapsto> 2 OR O_DSYNC]\<rparr>" 3 "2 OR O_DSYNC" "''p''"]
  by (simp add: O_DSYNC_def O_ACCMODE_def)

text \<open>What \<open>stat.c\<close> prints of a file it finds, and that it prints the words on its stack for one it does not find.\<close>
lemma stat_reports:
  "st name = Some (S_IFREG OR perm) \<Longrightarrow> perm AND S_IFMT = 0 \<Longrightarrow> stat_main [p, name] st junk = Some (Regular, perm AND S_IRUSR \<noteq> 0)"
  "st name = Some (S_IFDIR OR perm) \<Longrightarrow> perm AND S_IFMT = 0 \<Longrightarrow> stat_main [p, name] st junk = Some (Directory, perm AND S_IRUSR \<noteq> 0)"
  "st name = None \<Longrightarrow> stat_main [p, name] st junk = stat_main [p, name] (\<lambda>_. Some junk) junk"
  by (simp_all add: stat_main_def Let_def bit.conj_disj_distrib2 S_IFMT_def S_IFREG_def S_IFDIR_def S_IRUSR_def)

section \<open>Times as text\<close>

text \<open>\<open>strftime\<close> for the format of \<open>strftime.c\<close>: the fields \<open>%r\<close>, \<open>%a\<close>, \<open>%b\<close>, \<open>%d\<close> and \<open>%Y\<close>; \<open>None\<close> is the result 0.\<close>

definition strftime :: "nat \<Rightarrow> string \<times> string \<times> string \<times> string \<times> string \<Rightarrow> string option" where
  "strftime n tm = (case tm of (r, a, b, d, Y) \<Rightarrow>
     let text = ''time and date: '' @ r @ '', '' @ a @ '' '' @ b @ '' '' @ d @ '', '' @ Y in
     if length text < n then Some text else None)"

definition strftime_main :: "string \<times> string \<times> string \<times> string \<times> string \<Rightarrow> string list" where
  "strftime_main tm = [case strftime 16 tm of None \<Rightarrow> ''buffer length 16 is too small'' | Some buf1 \<Rightarrow> buf1,
     case strftime 64 tm of None \<Rightarrow> ''buffer length 64 is too small'' | Some buf2 \<Rightarrow> buf2]"

text \<open>Whatever the time is, 16 bytes are too few, and 64 are enough for fields of the usual lengths.\<close>
lemma strftime_lines:
  "hd (strftime_main (r, a, b, d, Y)) = ''buffer length 16 is too small''"
  "length r \<le> 11 \<Longrightarrow> length a \<le> 3 \<Longrightarrow> length b \<le> 3 \<Longrightarrow> length d = 2 \<Longrightarrow> length Y \<le> 4 \<Longrightarrow>
    strftime_main (r, a, b, d, Y) ! 1 = ''time and date: '' @ r @ '', '' @ a @ '' '' @ b @ '' '' @ d @ '', '' @ Y"
  by (simp_all add: strftime_main_def strftime_def Let_def)

text \<open>\<open>lseek.c\<close>: whether standard input can seek.\<close>

definition lseek_main :: "int \<Rightarrow> string" where
  "lseek_main off = (if off = -1 then ''cannot seek'' else ''seek OK'')"

end
