(* ===== verification/Apue_Processes.thy ===== *)
theory Apue_Processes
  imports Event_Loop C_String
begin

text \<open>
  The process, thread and signal exercises under \<open>src/apue\<close>: what a fork copies and a vfork shares (\<open>fork.c\<close>, \<open>vfork.c\<close>), exit and cleanup handlers (\<open>atexit.c\<close>,
  \<open>pthread_cleanup.c\<close>, \<open>pthread_join.c\<close>), grandchildren (\<open>waitpid.c\<close>, \<open>account.c\<close>), program execution (\<open>exec.c\<close>, \<open>echoall.c\<close>), pending signals
  (\<open>sigpending.c\<close>, \<open>signal.c\<close>) and the variables a \<open>longjmp\<close> leaves behind (\<open>longjmp.c\<close>).
\<close>

section \<open>What a fork copies\<close>

text \<open>The lines of \<open>fork.c\<close> and \<open>vfork.c\<close>, a process with the unwritten lines of its standard output, and the lines that have been written.\<close>

datatype fork_line = Direct_write | Before_fork | Report int int int

record forker =
  fk_pid :: int
  fk_globvar :: int
  fk_var :: int
  fk_buf :: "fork_line list"

text \<open>\<open>printf\<close> of a whole line on a terminal (\<open>tty\<close>) or to a file, and the flush at the end of the process.\<close>

definition fk_printf :: "bool \<Rightarrow> fork_line \<Rightarrow> forker \<times> fork_line list \<Rightarrow> forker \<times> fork_line list" where
  "fk_printf tty l = (\<lambda>(p, out). if tty then (p\<lparr>fk_buf := []\<rparr>, out @ fk_buf p @ [l]) else (p\<lparr>fk_buf := fk_buf p @ [l]\<rparr>, out))"

definition fk_exit :: "forker \<times> fork_line list \<Rightarrow> fork_line list" where
  "fk_exit = (\<lambda>(p, out). out @ fk_buf p)"

definition fk_report :: "bool \<Rightarrow> forker \<times> fork_line list \<Rightarrow> fork_line list" where
  "fk_report tty = (\<lambda>(p, out). fk_exit (fk_printf tty (Report (fk_pid p) (fk_globvar p) (fk_var p)) (p, out)))"

text \<open>\<open>fork.c\<close>: \<open>child\<close> is the result of \<open>fork\<close>, \<open>self\<close> the pid of the process that calls it; \<open>first\<close> tells whether the child ends before the parent, which the
  parent's \<open>sleep\<close> is meant to achieve.\<close>

definition fork_main :: "bool \<Rightarrow> int \<Rightarrow> int \<Rightarrow> bool \<Rightarrow> fork_line list" where
  "fork_main tty self child first = (
     let p0 = \<lparr>fk_pid = self, fk_globvar = 6, fk_var = 88, fk_buf = []\<rparr>;
       (p, out) = fk_printf tty Before_fork (p0, [Direct_write]) in
     if child < 0 then fk_report tty (p, out)
     else let c = p\<lparr>fk_pid := child, fk_globvar := fk_globvar p + 1, fk_var := fk_var p + 1\<rparr> in
       if first then fk_report tty (p, fk_report tty (c, out))
       else fk_report tty (c, fk_report tty (p, out)))"

text \<open>\<open>vfork.c\<close>: the child runs in the parent's memory until it calls \<open>_exit\<close>, which flushes nothing.\<close>

definition vfork_main :: "bool \<Rightarrow> int \<Rightarrow> int \<Rightarrow> fork_line list" where
  "vfork_main tty self child = (
     let p0 = \<lparr>fk_pid = self, fk_globvar = 6, fk_var = 88, fk_buf = []\<rparr>;
       (p, out) = fk_printf tty Before_fork (p0, []);
       p1 = (if child < 0 then p else p\<lparr>fk_globvar := fk_globvar p + 1, fk_var := fk_var p + 1\<rparr>) in
     fk_report tty (p1, out))"

text \<open>A fork copies the variables and the unwritten output: the child reports 7 and 89, the parent 6 and 88, and on a file, unlike on a terminal, the line before
  the fork is written by both. A vfork copies nothing: the parent reports what the child has made of its variables, and the line is written once.\<close>
theorem fork_copies_vfork_shares:
  assumes "0 < child"
  shows "fork_main tty self child first =
      (let c = Report child 7 89; p = Report self 6 88 in
       Direct_write # (if tty then Before_fork # (if first then [c, p] else [p, c])
         else if first then [Before_fork, c, Before_fork, p] else [Before_fork, p, Before_fork, c])) \<and>
    vfork_main tty self child = [Before_fork, Report self 7 89]"
  using assms by (simp add: fork_main_def vfork_main_def fk_printf_def fk_report_def fk_exit_def Let_def)

theorem fork_copies_vfork_shares_witness:
  "fork_main False 10 11 True = [Direct_write, Before_fork, Report 11 7 89, Before_fork, Report 10 6 88]"
  using fork_copies_vfork_shares [of 11 False 10 True] by simp

section \<open>Handlers at the end\<close>

text \<open>\<open>atexit.c\<close>: the handlers that could be registered run in the reverse order.\<close>

datatype exit_line = Cannot_register nat | Main_done | First_handler | Second_handler

definition my_exit1 :: exit_line where "my_exit1 = First_handler"
definition my_exit2 :: exit_line where "my_exit2 = Second_handler"

fun at_exit :: "bool \<Rightarrow> nat \<Rightarrow> exit_line \<Rightarrow> exit_line list \<times> exit_line list \<Rightarrow> exit_line list \<times> exit_line list" where
  "at_exit ok n f (handlers, out) = (if ok then (f # handlers, out) else (handlers, out @ [Cannot_register n]))"

definition atexit_main :: "bool \<Rightarrow> bool \<Rightarrow> bool \<Rightarrow> exit_line list" where
  "atexit_main r1 r2 r3 = (
     let (handlers, out) = at_exit r3 1 my_exit1 (at_exit r2 1 my_exit1 (at_exit r1 2 my_exit2 ([], []))) in
     out @ [Main_done] @ handlers)"

lemma atexit_reverses: "atexit_main True True True = [Main_done, First_handler, First_handler, Second_handler]"
  "\<not> r1 \<Longrightarrow> Second_handler \<notin> set (atexit_main r1 r2 r3)"
  by (cases r2; cases r3; simp add: atexit_main_def my_exit1_def my_exit2_def)+

text \<open>The threads of \<open>pthread_cleanup.c\<close> and \<open>pthread_join.c\<close>: the lines a thread prints and its result. Cleanup handlers run, last one first, in \<open>pthread_exit\<close>
  and when popped with a non-zero argument. A \<open>return\<close> between push and pop has no defined meaning: \<open>None\<close>.\<close>

definition cleanup :: "string \<Rightarrow> string" where
  "cleanup arg = ''cleanup: '' @ arg"

definition cl_thr_fn1 :: "bool \<Rightarrow> (string list \<times> int) option" where
  "cl_thr_fn1 arg = (
     let out = [''thread 1 start'', ''thread 1 push complete''];
       stack = [''thread 1 second handler'', ''thread 1 first handler''] in
     if arg then (if stack \<noteq> [] then None else Some (out, 1)) else Some (out, 1))"

definition cl_thr_fn2 :: "bool \<Rightarrow> (string list \<times> int) option" where
  "cl_thr_fn2 arg = (
     let out = [''thread 2 start'', ''thread 2 push complete''];
       stack = [''thread 2 second handler'', ''thread 2 first handler''] in
     if arg then Some (out @ map cleanup stack, 2) else Some (out, 2))"

definition jn_thr_fn1 :: "string list \<times> int" where "jn_thr_fn1 = ([''pthread 1 returning''], 1)"
definition jn_thr_fn2 :: "string list \<times> int" where "jn_thr_fn2 = ([''thread 2 exiting''], 2)"

text \<open>\<open>main\<close> of the two programs joins the threads in turn. \<open>c1\<close> and \<open>c2\<close> tell whether the threads could be created: a failure is only printed and the join then uses
  an identifier that was never set. \<open>before\<close> is what the threads have printed up to the first join, \<open>between\<close> what they print up to the second one.\<close>

definition exit_code_line :: "nat \<Rightarrow> int \<Rightarrow> string" where
  "exit_code_line n r = ''thread '' @ dec_nat n @ '' exit code '' @ dec_int r"

definition join_main :: "bool \<Rightarrow> bool \<Rightarrow> string list \<Rightarrow> string list \<Rightarrow> string list option" where
  "join_main c1 c2 before between = (if \<not> c1 \<or> \<not> c2 then None
     else Some (before @ [exit_code_line 1 (snd jn_thr_fn1)] @ between @ [exit_code_line 2 (snd jn_thr_fn2)]))"

definition cl_main :: "bool \<Rightarrow> bool \<Rightarrow> string list \<Rightarrow> string list \<Rightarrow> string list option" where
  "cl_main c1 c2 before between = (if \<not> c1 \<or> \<not> c2 then None
     else do {
       t1 \<leftarrow> cl_thr_fn1 True;
       t2 \<leftarrow> cl_thr_fn2 True;
       Some (before @ [exit_code_line 1 (snd t1)] @ between @ [exit_code_line 2 (snd t2)])
     })"

text \<open>The schedules: before the first join the first thread is through, before the second one both are.\<close>

definition join_schedule :: "string list \<Rightarrow> string list \<Rightarrow> string list \<Rightarrow> string list \<Rightarrow> bool" where
  "join_schedule o1 o2 before between \<longleftrightarrow> (\<exists>k. before \<in> shuffles o1 (take k o2) \<and> between = drop k o2)"

text \<open>Whatever the schedule, each result is printed behind all lines of its thread, and no line is lost. The first thread of \<open>pthread_cleanup.c\<close>, as it is started,
  leaves between push and pop; the second one runs its two handlers, the last one pushed first.\<close>
theorem threads_joined:
  assumes "join_schedule (fst jn_thr_fn1) (fst jn_thr_fn2) before between"
  shows "(\<exists>a b. join_main True True before between = Some (a @ [exit_code_line 1 1] @ b @ [exit_code_line 2 2]) \<and> ''pthread 1 returning'' \<in> set a \<and>
      mset (a @ b) = {#''pthread 1 returning'', ''thread 2 exiting''#}) \<and>
    cl_thr_fn1 True = None \<and> cl_main c1 c2 out1 out2 = None \<and>
    cl_thr_fn2 True = Some ([''thread 2 start'', ''thread 2 push complete'', ''cleanup: thread 2 second handler'', ''cleanup: thread 2 first handler''], 2)"
proof -
  obtain k where k: "before \<in> shuffles (fst jn_thr_fn1) (take k (fst jn_thr_fn2))" "between = drop k (fst jn_thr_fn2)"
    using assms by (auto simp: join_schedule_def)
  have "mset before = mset (fst jn_thr_fn1) + mset (take k (fst jn_thr_fn2))" by (rule mset_shuffles [OF k(1)])
  moreover have "mset (take k (fst jn_thr_fn2)) + mset between = mset (fst jn_thr_fn2)"
    using k(2) by (metis append_take_drop_id mset_append)
  ultimately have m: "mset (before @ between) = {#''pthread 1 returning'', ''thread 2 exiting''#}"
    by (simp add: add.assoc jn_thr_fn1_def jn_thr_fn2_def)
  have "set before = set (fst jn_thr_fn1) \<union> set (take k (fst jn_thr_fn2))" by (rule set_shuffles [OF k(1)])
  then have "''pthread 1 returning'' \<in> set before" by (simp add: jn_thr_fn1_def)
  with m show ?thesis
    by (intro conjI exI [of _ before] exI [of _ between])
      (simp_all add: join_main_def jn_thr_fn1_def jn_thr_fn2_def cl_thr_fn1_def cl_thr_fn2_def cl_main_def cleanup_def)
qed

theorem threads_joined_witness:
  "\<exists>a b. join_main True True [''pthread 1 returning''] [''thread 2 exiting''] = Some (a @ [exit_code_line 1 1] @ b @ [exit_code_line 2 2])"
proof -
  have "join_schedule (fst jn_thr_fn1) (fst jn_thr_fn2) [''pthread 1 returning''] [''thread 2 exiting'']"
    unfolding join_schedule_def by (rule exI [of _ 0]) (simp add: jn_thr_fn1_def jn_thr_fn2_def)
  from threads_joined [OF this] show ?thesis by blast
qed

section \<open>Grandchildren\<close>

text \<open>\<open>waitpid.c\<close>: three processes. The first child forks and exits; a process whose parent has ended gets process 1 as its parent; \<open>waitpid\<close> waits for the
  first child. The pids are those \<open>fork\<close> returns.\<close>

datatype wp_parent = WP_fork | WP_print | WP_wait | WP_end
datatype wp_first = WF_none | WF_fork | WF_exit | WF_zombie | WF_reaped
datatype wp_line = Pid_line | Second_line
datatype wp_second = WS_none | WS_sleep | WS_print | WS_end

record wp_state =
  wp_parent :: wp_parent
  wp_first :: wp_first
  wp_second :: wp_second
  wp_out :: "(wp_line \<times> int) list"

definition wp_init :: wp_state where
  "wp_init = \<lparr>wp_parent = WP_fork, wp_first = WF_none, wp_second = WS_none, wp_out = []\<rparr>"

definition wp_parent_act :: "int \<Rightarrow> wp_state \<Rightarrow> wp_state option" where
  "wp_parent_act pid1 s = (case wp_parent s of
     WP_fork \<Rightarrow> Some (s\<lparr>wp_parent := WP_print, wp_first := WF_fork\<rparr>)
   | WP_print \<Rightarrow> Some (s\<lparr>wp_out := wp_out s @ [(Pid_line, pid1)], wp_parent := WP_wait\<rparr>)
   | WP_wait \<Rightarrow> if wp_first s = WF_zombie then Some (s\<lparr>wp_first := WF_reaped, wp_parent := WP_end\<rparr>) else None
   | WP_end \<Rightarrow> None)"

definition wp_first_act :: "wp_state \<Rightarrow> wp_state option" where
  "wp_first_act s = (case wp_first s of
     WF_fork \<Rightarrow> Some (s\<lparr>wp_first := WF_exit, wp_second := WS_sleep\<rparr>)
   | WF_exit \<Rightarrow> Some (s\<lparr>wp_first := WF_zombie\<rparr>)
   | _ \<Rightarrow> None)"

definition wp_second_act :: "int \<Rightarrow> wp_state \<Rightarrow> wp_state option" where
  "wp_second_act pid1 s = (case wp_second s of
     WS_sleep \<Rightarrow> Some (s\<lparr>wp_second := WS_print\<rparr>)
   | WS_print \<Rightarrow> Some (s\<lparr>wp_out := wp_out s @ [(Second_line, if wp_first s = WF_exit then pid1 else 1)], wp_second := WS_end\<rparr>)
   | _ \<Rightarrow> None)"

inductive wp_step :: "int \<Rightarrow> wp_state \<Rightarrow> wp_state \<Rightarrow> bool" for pid1 where
  parent: "wp_parent_act pid1 s = Some s' \<Longrightarrow> wp_step pid1 s s'"
| first: "wp_first_act s = Some s' \<Longrightarrow> wp_step pid1 s s'"
| second: "wp_second_act pid1 s = Some s' \<Longrightarrow> wp_step pid1 s s'"

definition wp_inv :: "int \<Rightarrow> wp_state \<Rightarrow> bool" where
  "wp_inv pid1 s \<longleftrightarrow> (wp_first s = WF_none \<longleftrightarrow> wp_parent s = WP_fork) \<and> (wp_second s = WS_none \<longleftrightarrow> wp_first s \<in> {WF_none, WF_fork}) \<and>
     (wp_first s = WF_reaped \<longleftrightarrow> wp_parent s = WP_end) \<and>
     filter (\<lambda>l. fst l = Pid_line) (wp_out s) = (if wp_parent s \<in> {WP_wait, WP_end} then [(Pid_line, pid1)] else []) \<and>
     (\<exists>q \<in> {1, pid1}. filter (\<lambda>l. fst l \<noteq> Pid_line) (wp_out s) = (if wp_second s = WS_end then [(Second_line, q)] else []))"

lemma wp_inv_step: "wp_step pid1 s s' \<Longrightarrow> wp_inv pid1 s \<Longrightarrow> wp_inv pid1 s'"
proof (induction rule: wp_step.induct)
  case (parent s s')
  then show ?case by (cases "wp_parent s"; clarsimp simp: wp_parent_act_def wp_inv_def split: if_splits)
next
  case (first s s')
  then show ?case by (cases "wp_first s"; cases "wp_second s"; clarsimp simp: wp_first_act_def wp_inv_def split: if_splits)
next
  case (second s s')
  then show ?case by (cases "wp_second s"; clarsimp simp: wp_second_act_def wp_inv_def split: if_splits)
qed

interpretation wp: transition_system "\<lambda>s. s = wp_init" "wp_step pid1" "wp_inv pid1" for pid1
proof unfold_locales
  show "wp_inv pid1 s" if "s = wp_init" for s using that by (auto simp: wp_init_def wp_inv_def)
qed (rule wp_inv_step)

text \<open>In every interleaving that is run to its end the first child has been waited for, so nothing is left of it, the parent has not waited for the second child, and
  that one has printed its parent as process 1, or as the first child if that had not yet exited.\<close>
theorem grandchild_adopted:
  assumes "(wp_step pid1)\<^sup>*\<^sup>* wp_init s" "\<nexists>s'. wp_step pid1 s s'"
  shows "wp_parent s = WP_end \<and> wp_first s = WF_reaped \<and> wp_second s = WS_end \<and>
    (\<exists>q \<in> {1, pid1}. mset (wp_out s) = {#(Pid_line, pid1), (Second_line, q)#})"
proof -
  have inv: "wp_inv pid1 s" by (rule wp.reachable_inv [OF refl assms(1)])
  have n: "wp_parent_act pid1 s = None" "wp_first_act s = None" "wp_second_act pid1 s = None"
    using assms(2) wp_step.intros by (metis not_None_eq)+
  have e: "wp_parent s = WP_end \<and> wp_first s = WF_reaped \<and> wp_second s = WS_end"
    using n inv by (cases "wp_parent s"; cases "wp_first s"; cases "wp_second s";
        simp add: wp_parent_act_def wp_first_act_def wp_second_act_def wp_inv_def)
  then obtain q where "q \<in> {1, pid1}" "filter (\<lambda>l. fst l = Pid_line) (wp_out s) = [(Pid_line, pid1)]"
      "filter (\<lambda>l. fst l \<noteq> Pid_line) (wp_out s) = [(Second_line, q)]" using inv by (auto simp: wp_inv_def)
  moreover have "mset (wp_out s) = mset (filter (\<lambda>l. fst l = Pid_line) (wp_out s)) + mset (filter (\<lambda>l. fst l \<noteq> Pid_line) (wp_out s))"
    by (simp add: multiset_partition)
  ultimately show ?thesis using e by auto
qed

text \<open>\<open>account.c\<close>: how the processes end, from the first to the last. \<open>forks\<close> tells which calls of \<open>fork\<close> succeed; after a failure the same process goes on.\<close>

datatype acct_end = Exits nat | Execs_dd | Killed

definition account_fate :: "bool \<Rightarrow> nat \<Rightarrow> acct_end" where
  "account_fate dd level = (if level = 0 then Exits 2 else if level = 1 then (if dd then Execs_dd else Exits 7) else Exits 0)"

fun account_from :: "bool \<Rightarrow> nat \<Rightarrow> bool list \<Rightarrow> acct_end list" where
  "account_from dd level [] = [Killed]"
| "account_from dd level (ok # forks) = (if ok then account_fate dd level # account_from dd (Suc level) forks else account_from dd (Suc level) forks)"

definition account_main :: "bool \<Rightarrow> bool \<Rightarrow> bool \<Rightarrow> bool \<Rightarrow> acct_end list" where
  "account_main dd f1 f2 f3 = account_from dd 0 [f1, f2, f3]"

text \<open>The four kinds of endings the program is meant to show; with failing forks there are fewer processes, and the last one is killed in any case, so its
  \<open>exit(7)\<close> is never reached.\<close>
lemma account_endings:
  "account_main True True True True = [Exits 2, Execs_dd, Exits 0, Killed]"
  "length (account_main dd f1 f2 f3) = 1 + length (filter id [f1, f2, f3])" "last (account_main dd f1 f2 f3) = Killed"
  by (cases f1; cases f2; cases f3; simp add: account_main_def account_fate_def)+

section \<open>Executing a program\<close>

text \<open>\<open>echoall.c\<close>: its arguments and its environment, one line each.\<close>

definition echoall_main :: "string list \<Rightarrow> string list \<Rightarrow> string list" where
  "echoall_main argv environ = map (\<lambda>i. ''argv['' @ dec_nat i @ '']: '' @ argv ! i) [0..<length argv] @ environ"

definition env_init :: "string list" where "env_init = [''USER=unknown'', ''PATH=/tmp'']"

text \<open>\<open>exec.c\<close> from its second \<open>fork\<close> on, and from its start; \<open>there\<close> tells whether the program \<open>echoall\<close> is in the working directory, \<open>env\<close> is the environment of the
  caller. The result are the runs of \<open>echoall\<close>, by all processes. A child whose \<open>execle\<close> fails goes on as if it were the parent.\<close>

definition exec_second :: "bool \<Rightarrow> string list \<Rightarrow> string list list" where
  "exec_second there env = (if there then [echoall_main [''echoall'', ''only 1 arg''] env] else [])"

definition exec_main :: "bool \<Rightarrow> string list \<Rightarrow> string list list" where
  "exec_main there env =
     (if there then [echoall_main [''echoall'', ''myarg1'', ''MY ARG2''] env_init] else exec_second there env) @ exec_second there env"

lemma exec_runs:
  "exec_main True env = [[''argv[0]: echoall'', ''argv[1]: myarg1'', ''argv[2]: MY ARG2'', ''USER=unknown'', ''PATH=/tmp''],
     [''argv[0]: echoall'', ''argv[1]: only 1 arg''] @ env]"
  "exec_main False env = []"
proof -
  have d: "dec_nat 0 = ''0''" "dec_nat 1 = ''1''" "dec_nat 2 = ''2''" by code_simp+
  have u: "[0..<3] = [0, 1, 2 :: nat]" "[0..<2] = [0, 1 :: nat]" by code_simp+
  have "length [''echoall'', ''myarg1'', ''MY ARG2''] = 3" "length [''echoall'', ''only 1 arg''] = 2" by simp_all
  then show "exec_main True env = [[''argv[0]: echoall'', ''argv[1]: myarg1'', ''argv[2]: MY ARG2'', ''USER=unknown'', ''PATH=/tmp''],
     [''argv[0]: echoall'', ''argv[1]: only 1 arg''] @ env]"
    unfolding exec_main_def exec_second_def echoall_main_def env_init_def by (simp only: u if_True) (simp add: d [simplified])
qed (simp add: exec_main_def exec_second_def)

section \<open>Pending signals\<close>

datatype sp_line = Sigquit_pending | Sigquit_unblocked | Caught_sigquit

text \<open>\<open>sigpending.c\<close>: \<open>n1\<close> and \<open>n2\<close> signals \<open>SIGQUIT\<close> arrive in the two pauses, from a caller that has not blocked the signal. The handler restores the default, with which the
  signal ends the process. The result tells whether the process has lived to its end.\<close>

record sp_state =
  sp_caught :: bool
  sp_live :: bool
  sp_out :: "sp_line list"

definition sig_quit :: "sp_state \<Rightarrow> sp_state" where
  "sig_quit s = s\<lparr>sp_out := sp_out s @ [Caught_sigquit], sp_caught := False\<rparr>"

definition sp_deliver :: "sp_state \<Rightarrow> sp_state" where
  "sp_deliver s = (if \<not> sp_live s then s else if sp_caught s then sig_quit s else s\<lparr>sp_live := False\<rparr>)"

definition sp_print :: "sp_line \<Rightarrow> sp_state \<Rightarrow> sp_state" where
  "sp_print l s = (if sp_live s then s\<lparr>sp_out := sp_out s @ [l]\<rparr> else s)"

definition sigpending_main :: "nat \<Rightarrow> nat \<Rightarrow> sp_state" where
  "sigpending_main n1 n2 = (
     let s0 = \<lparr>sp_caught = True, sp_live = True, sp_out = []\<rparr>;
       pending = (0 < n1);
       s1 = (if pending then sp_print Sigquit_pending s0 else s0);
       s2 = (if pending then sp_deliver s1 else s1);
       s3 = sp_print Sigquit_unblocked s2 in
     (sp_deliver ^^ n2) s3)"

text \<open>However many signals arrive while they are blocked, one is delivered, inside the call that unblocks them; the first signal overall is caught and the
  process survives it, any later one ends it.\<close>
theorem pending_delivered_once:
  shows "sp_live (sigpending_main n1 n2) \<longleftrightarrow> min 1 n1 + n2 \<le> 1"
    and "sp_out (sigpending_main n1 n2) = (if 0 < n1 then [Sigquit_pending, Caught_sigquit, Sigquit_unblocked]
      else Sigquit_unblocked # (if 0 < n2 then [Caught_sigquit] else []))"
proof -
  have dead: "\<not> sp_live s \<Longrightarrow> (sp_deliver ^^ n) s = s" for n s by (induction n) (simp_all add: sp_deliver_def)
  have dfl: "\<not> sp_caught s \<Longrightarrow> sp_live s \<Longrightarrow> (sp_deliver ^^ n) s = (if n = 0 then s else s\<lparr>sp_live := False\<rparr>)" for n s
    using dead [of "s\<lparr>sp_live := False\<rparr>"] by (cases n) (simp_all add: sp_deliver_def funpow_swap1)
  have main: "sigpending_main n1 n2 = (if 0 < n1
     then (sp_deliver ^^ n2) \<lparr>sp_caught = False, sp_live = True, sp_out = [Sigquit_pending, Caught_sigquit, Sigquit_unblocked]\<rparr>
     else (sp_deliver ^^ n2) \<lparr>sp_caught = True, sp_live = True, sp_out = [Sigquit_unblocked]\<rparr>)"
    by (simp add: sigpending_main_def sp_print_def sp_deliver_def sig_quit_def Let_def)
  have one: "(sp_deliver ^^ Suc m) \<lparr>sp_caught = True, sp_live = True, sp_out = [Sigquit_unblocked]\<rparr> =
      (sp_deliver ^^ m) \<lparr>sp_caught = False, sp_live = True, sp_out = [Sigquit_unblocked, Caught_sigquit]\<rparr>" for m
    by (simp add: funpow_swap1 sp_deliver_def sig_quit_def)
  show "sp_live (sigpending_main n1 n2) \<longleftrightarrow> min 1 n1 + n2 \<le> 1"
    using main one by (cases n2) (auto simp: dfl simp del: funpow.simps)
  show "sp_out (sigpending_main n1 n2) = (if 0 < n1 then [Sigquit_pending, Caught_sigquit, Sigquit_unblocked]
      else Sigquit_unblocked # (if 0 < n2 then [Caught_sigquit] else []))"
    using main one by (cases n2) (auto simp: dfl simp del: funpow.simps)
qed

text \<open>\<open>signal.c\<close>: the lines of the handler; a signal without one ends the process.\<close>

definition sig_usr :: "nat \<Rightarrow> string" where
  "sig_usr signo = (if signo = 10 then ''received SIGUSR1'' else if signo = 12 then ''received SIGUSR2'' else ''received signal '' @ dec_nat signo)"

definition signal_main :: "nat list \<Rightarrow> string list" where
  "signal_main sigs = map sig_usr (takeWhile (\<lambda>s. s = 10 \<or> s = 12) sigs)"

section \<open>Variables behind a longjmp\<close>

record jmp_vars =
  globval :: int
  autoval :: int
  regival :: int
  volaval :: int
  statval :: int

text \<open>\<open>longjmp.c\<close>: what is printed in \<open>f1\<close> and after the jump. Variables that are neither volatile nor static may have either value; \<open>keep\<close> is the compiler's choice for
  the automatic and for the register variable.\<close>

definition longjmp_main :: "bool \<times> bool \<Rightarrow> jmp_vars list" where
  "longjmp_main keep = (
     let v1 = \<lparr>globval = 1, autoval = 2, regival = 3, volaval = 4, statval = 5\<rparr>;
       v2 = \<lparr>globval = 95, autoval = 96, regival = 97, volaval = 98, statval = 99\<rparr>;
       v3 = v2\<lparr>autoval := (if fst keep then autoval v2 else autoval v1), regival := (if snd keep then regival v2 else regival v1)\<rparr> in
     [v2, v3])"

lemma longjmp_keeps:
  "globval (longjmp_main k ! 1) = 95" "volaval (longjmp_main k ! 1) = 98" "statval (longjmp_main k ! 1) = 99"
  "autoval (longjmp_main k ! 1) \<in> {2, 96}" "regival (longjmp_main k ! 1) \<in> {3, 97}"
  by (simp_all add: longjmp_main_def Let_def)

section \<open>A mutex locked twice\<close>

text \<open>\<open>pthread_mutex.c\<close>: the holder of the mutex waits for it until \<open>tout\<close>. \<open>t\<close> is the time at the start; the result is the time at the end and whether the mutex was locked again.\<close>

definition timedlock :: "bool \<Rightarrow> int \<Rightarrow> int \<Rightarrow> int \<times> bool" where
  "timedlock locked now tout = (if locked then (max now tout, False) else (now, True))"

definition mutex_main :: "int \<Rightarrow> int \<times> bool" where
  "mutex_main t = (let locked = True; tout = t + 10 in timedlock locked t tout)"

lemma mutex_times_out: "mutex_main t = (t + 10, False)"
  by (simp add: mutex_main_def timedlock_def)

section \<open>A witness\<close>

definition wp_do :: "nat \<Rightarrow> wp_state \<Rightarrow> wp_state option" where
  "wp_do i = (if i = 0 then wp_parent_act 7 else if i = 1 then wp_first_act else wp_second_act 7)"

definition wp_demo :: wp_state where
  "wp_demo = the (run_events wp_do [0, 1, 0, 1, 0, 2, 2] wp_init)"

theorem grandchild_adopted_witness: "wp_first wp_demo = WF_reaped \<and> wp_out wp_demo = [(Pid_line, 7), (Second_line, 1)]"
proof -
  have run: "run_events wp_do [0, 1, 0, 1, 0, 2, 2] wp_init = Some wp_demo"
    by (simp add: wp_demo_def wp_do_def wp_parent_act_def wp_first_act_def wp_second_act_def wp_init_def)
  have d: "wp_demo = \<lparr>wp_parent = WP_end, wp_first = WF_reaped, wp_second = WS_end, wp_out = [(Pid_line, 7), (Second_line, 1)]\<rparr>"
    by (simp add: wp_demo_def wp_do_def wp_parent_act_def wp_first_act_def wp_second_act_def wp_init_def)
  have r: "(wp_step 7)\<^sup>*\<^sup>* wp_init wp_demo"
    by (rule run_events_reaches [OF _ run]) (auto simp: wp_do_def intro: wp_step.intros split: if_splits)
  have "\<nexists>s'. wp_step 7 wp_demo s'" by (auto simp: wp_step.simps wp_parent_act_def wp_first_act_def wp_second_act_def d)
  from grandchild_adopted [OF r this] show ?thesis by (simp add: d)
qed

end
