(* ===== verification/Spec2Isabelle.thy ===== *)
theory Spec2Isabelle
  imports Sort_Timer_List Time_Wheel Time_Heap Inactive_Link Echo_Servers Echo_Programs Tiny_Server Http_Conn Http_Types Http_Answer
    Thread_Pool Web_Server Process_Pool Shm_Chat Poll_Chat Epoll_Servers Oneshot Stress_Client Dead_Lock Signal_Server
    Sync_Demos Barrier_Sort Process_Helpers Exit_Status Signal_Masks Io_Demos
    Load_Test Chat_Session Fd_Helpers Server_Start Socket_Mains Program_Mains Ipc_Demos Sem_Programs Apue_Files Apue_Processes
begin

text \<open>
  Verification of the network programs of UnixProgramming. The repository (\<open>src/\<close>) is a collection of Unix
  system and network programs: timers, robust I/O, small HTTP and echo servers, chat rooms, a thread
  pool and a process pool with the servers built on them. This development models the programs under
  \<open>src/socket\<close> and \<open>src/apue\<close> that have logic of their own and proves what makes them correct, or where they are not.

  \<^bold>\<open>The parts and how they interact.\<close>
  \<^item> Timers. Three containers of deadlines: the ascending list \<open>timer/sigalrm_list_timer.h\<close>, the wheel
    \<open>timer/time_wheel_timer.h\<close> and the heap \<open>timer/time_heap_timer.h\<close>. The server
    \<open>timer/handling_inactive_link.cpp\<close> uses the list: a signal handler writes \<open>SIGALRM\<close> into a pipe, the event
    loop calls \<open>tick\<close>, and the timers' callbacks close silent connections.
  \<^item> The csapp servers. \<open>rio.c\<close> hides short reads and writes; \<open>socket_package.c\<close> opens sockets;
    the echo servers (iterative, by process, by thread, by select), their client \<open>echoclient.c\<close> and the web server \<open>tiny_web.c\<close> with
    \<open>cgi_adder.c\<close> are its clients. \<open>socket/echo\<close> has a server and a client without it.
  \<^item> The pools. \<open>pool/main.cpp\<close> reads requests into \<open>http_conn\<close> objects and hands them to the workers of
    \<open>threadpool.h\<close>, which synchronise with \<open>thread/locker.h\<close>. \<open>processpool.h\<close> spreads connections over child
    processes; \<open>cgi_server.cpp\<close> instantiates it. \<open>test/stress_test.c\<close> loads such a server.
  \<^item> The chat rooms. \<open>ipc/shm.c\<close> forks a child per client and passes messages through shared memory;
    \<open>io_multiplexing/io_chatroom_server.c\<close> does it in one process with \<open>poll\<close>, with a client of its own.
  \<^item> Demonstrations: \<open>io_epoll.c\<close>, \<open>io_tcp_udp.c\<close>, \<open>io_epoll2.c\<close>, \<open>io_nonblock_connect.c\<close>, \<open>http/http.c\<close>,
    \<open>http/http_readParse.cpp\<close>, \<open>signal/unified_event_handle.c\<close>, \<open>thread/dead_lock.c\<close>, \<open>thread/fork_thread.c\<close>, \<open>ipc/sem.c\<close>, \<open>ipc/socketpair.c\<close>,
    \<open>io_select.c\<close>, \<open>signal/sigurg_oob.c\<close>, \<open>rw_flag_oob\<close>, \<open>zero_copy\<close>, \<open>socket_opt\<close>, \<open>CGI/cgi.c\<close>, \<open>thread/thread_signal.c\<close>, \<open>timer/socket_connect_timeout.c\<close>; helpers in \<open>others\<close>.
  \<^item> The exercises under \<open>src/apue\<close>: files, processes, signals, threads (the parallel sort \<open>pthread_barrier.c\<close> is the largest), and \<open>apue/ipc\<close> with pairs of
    programs that talk through pipes, message queues, shared memory, semaphores and Unix domain sockets.

  \<^bold>\<open>How the programs are modelled.\<close> A struct or class is a record, an enumeration a datatype, one definition per
  function, handler or loop, named after it. Functions return \<open>None\<close> where the C code would dereference a
  null or freed pointer, leave an array or fail an assertion; results such as -1 are values. What the
  kernel answers (\<open>recv\<close>, \<open>accept\<close>, \<open>epoll_wait\<close>, \<open>fork\<close>, \<open>time\<close>, \<open>new\<close>, the file system) is an argument, and
  what it promises (descriptors that are not open yet, fresh addresses, a clock that does not run
  backwards) is a hypothesis with the prefix \<open>valid\<close>. System calls with no result the program looks at are
  logged. Bits are words where the code computes with them (\<open>Poll_Chat\<close>, \<open>Exit_Status\<close>, \<open>Fd_Helpers\<close>, \<open>Server_Start\<close>); other integers are unbounded,
  with the bounds that matter written out. Text for the operator is dropped.

  \<^bold>\<open>The theories.\<close>
  \<^item> \<open>Prelude\<close>: pointers and heaps. \<open>Linked_Nodes\<close>: doubly linked lists, as the locale \<open>linked_node\<close> that both
    timer lists interpret. \<open>C_String\<close>: the string functions. \<open>Event_Loop\<close>: the kernel's answers and the locales
    \<open>handler\<close> (an event handler implements an abstract machine, hence so does a run of it) and
    \<open>transition_system\<close> (an invariant of all interleavings), interpreted by the servers and threads below.
  \<^item> \<open>Sort_Timer_List\<close>, \<open>Time_Wheel\<close>, \<open>Time_Heap\<close>: every operation, pointer by pointer. The list refines sorted
    insertion, removal and the firing of due timers; a timer of the wheel fires in exactly its tick; the
    heap's \<open>tick\<close> and \<open>pop_timer\<close> keep what they should, and its \<open>add_timer\<close> faults.
  \<^item> \<open>Inactive_Link\<close>: the server refines a map from connections to deadlines, for the whole loop.
  \<^item> \<open>Rio\<close>: the package as a \<open>byte_source\<close>, line and block reads whatever the chunks, and the round trip of write and
    read. \<open>Tiny_Web\<close> and \<open>Echo_Servers\<close> are proved over that interface only. \<open>Tiny_Server\<close> adds the accept loop and the CGI child: a request
    for the adder is answered completely, a static file leaves a process behind and its client waiting. \<open>Echo_Programs\<close>: the round
    trip of client and server; the forking server refines a table of clients; the threaded one frees and closes everything exactly once.
  \<^item> \<open>Http_Conn\<close>: the incremental parser (the split of a request over reads does not matter; a GET request is
    parsed to its file), the writer and the answers; \<open>Http_Types\<close>: the well-formedness every method keeps. \<open>Web_Server\<close>: the composition of event loop, pool and
    connections, from the arrival of a request to the answer in the connection's buffers, and the count of users.
  \<^item> \<open>Thread_Pool\<close>: all interleavings of the atomic actions: mutual exclusion, order without loss, no lost wake-up,
    the bound of the queue. \<open>Process_Pool\<close>: constructor, round robin, reaping, the CGI request.
  \<^item> \<open>Shm_Chat\<close>: the parent refines a table of clients; messages reach the others; two clients can share a segment.
    \<open>Poll_Chat\<close>: a round keeps the table; messages reach the others.
  \<^item> \<open>Epoll_Servers\<close>, \<open>Oneshot\<close>, \<open>Http_Answer\<close>, \<open>Stress_Client\<close>, \<open>Dead_Lock\<close>, \<open>Signal_Server\<close>: the demonstrations.
  \<^item> \<open>Sync_Demos\<close>: the classes of \<open>locker.h\<close>, the thread that waits for signals (no wake-up is lost), the semaphores (exclusion,
    undo), and the mutex a forked child inherits. \<open>Barrier_Sort\<close>: the sorting threads and the merge; every interleaving prints the
    sorted numbers and ends. \<open>Signal_Masks\<close>: masks across handlers, jumps and \<open>sigsuspend\<close>.
  \<^item> \<open>Process_Helpers\<close>: retried connections, the change of user, the daemon. \<open>Exit_Status\<close>: status words bit by bit, \<open>system\<close>, the
    counting processes of \<open>nice.c\<close>. \<open>Io_Demos\<close>: file copies, zero copy, urgent data, the passing of descriptors.
  \<^item> \<open>Fd_Helpers\<close>: the copies of \<open>setnonblocking\<close>, \<open>addfd\<close>, \<open>removefd\<close>, \<open>modfd\<close>, \<open>sig_handler\<close> and \<open>addsig\<close> in each program, on the kernel's tables of descriptors,
    registrations and signal actions; the locales \<open>nonblocking\<close>, \<open>fd_helpers\<close> and \<open>pipe_handler\<close> state what they share, and the set-up of the unified event
    source is proved to be what its loop relies on. \<open>Server_Start\<close>: arguments, ports and addresses of each program, as the locales \<open>listener\<close> and \<open>connector\<close>.
  \<^item> \<open>Program_Mains\<close>: whole programs, from the command line to the last \<open>close\<close>: the programs for one connection (locale \<open>one_connection\<close>), and the echo pair, which
    meets on the given port and sends the typed text back. \<open>Socket_Mains\<close>: urgent data through a stream, the CGI program, \<open>sendfile\<close>, buffer sizes, the backlog, names,
    signals taken by a thread.
  \<^item> \<open>Load_Test\<close>: load generator and web server together; every round on a kept connection goes through. \<open>Chat_Session\<close>: chat clients and chat
    server together; a message typed by one is shown by all others.
  \<^item> \<open>Ipc_Demos\<close>: the pairs of \<open>apue/ipc\<close> on the kernel object between them. \<open>Sem_Programs\<close>: its semaphore programs statement by statement in all
    interleavings, as the locale \<open>critical_pair\<close>. \<open>Apue_Files\<close>, \<open>Apue_Processes\<close>: the exercises on streams, holes, temporary files and flags, and on fork, exit
    handlers, joins, adoption, pending signals and jumps.

  \<^bold>\<open>Termination and fuel.\<close> No definition uses fuel. Loops that consume the kernel's answers are functions on a finite
  script, with a measure where bytes are consumed too; pointer loops are \<open>partial_function (option)\<close>, and the
  theorems about them say that they return. A server's main loop is run on a finite list of answers and
  says whether it has ended; all theorems about it hold for every such list.

  \<^bold>\<open>Not modelled.\<close> \<open>apue/error.c\<close> and \<open>apue/pthread.c\<close>, which only print what a library call returns; the wording of messages for the operator and usage lines;
  the time at which signals arrive, except as interleavings of the programs that wait for them; the window sizes behind the socket options; the kernel's
  treatment of the urgent mark in \<open>io_select.c\<close> and \<open>sigurg_oob.c\<close>, which are run on the answers of \<open>recv\<close> (\<open>Socket_Mains\<close> has a stream with a mark for the test pair);
  data races below the level of the modelled actions (the unsynchronised user count of \<open>http_conn\<close>). The \<open>main\<close> functions of the csapp servers are modelled from
  their loops on, behind the check of their one argument.
\<close>

end
